(* ===== verification/Hclib_Prelude.thy ===== *)
theory Hclib_Prelude
  imports Main "HOL-Library.Signed_Division" "HOL-Library.Multiset"
begin

text \<open>
  Shared vocabulary of the development: what a C call can do besides returning
  (\<open>c_error\<close>, \<open>result\<close>), checked array accesses, C arithmetic on \<open>int\<close>, the C string
  functions the sources use, and the list facts that several components need.
\<close>

section \<open>Outcomes of a C call\<close>

text \<open>
  The build that the model follows is the default one of \<^verbatim>\<open>CMakeLists.txt\<close>:
  \<^verbatim>\<open>HC_ASSERTION_CHECK\<close> is defined, so \<^verbatim>\<open>HASSERT\<close> and \<^verbatim>\<open>assert\<close> abort.
  A call ends normally (\<open>Inr\<close>) or in one of the ways below (\<open>Inl\<close>).
\<close>

datatype c_error =
    Assert_failed          \<comment> \<open>a failed \<^verbatim>\<open>assert\<close> or \<^verbatim>\<open>HASSERT\<close>\<close>
  | Exit_code int          \<comment> \<open>\<^verbatim>\<open>exit(n)\<close>\<close>
  | Null_deref             \<comment> \<open>a null pointer was followed\<close>
  | Out_of_bounds          \<comment> \<open>an array was accessed outside its allocation\<close>
  | Uninit_read            \<comment> \<open>memory was read before it was written\<close>
  | Div_by_zero            \<comment> \<open>integer division or remainder by zero\<close>
  | Diverges               \<comment> \<open>the call never returns\<close>

type_synonym 'a result = "c_error + 'a"

definition res_bind :: "'a result \<Rightarrow> ('a \<Rightarrow> 'b result) \<Rightarrow> 'b result" where
  "res_bind m f = (case m of Inl e \<Rightarrow> Inl e | Inr x \<Rightarrow> f x)"

definition c_assert :: "bool \<Rightarrow> unit result" where
  "c_assert b = (if b then Inr () else Inl Assert_failed)"

definition from_ptr :: "'a option \<Rightarrow> 'a result" where
  "from_ptr p = (case p of None \<Rightarrow> Inl Null_deref | Some x \<Rightarrow> Inr x)"

named_theorems res_simps "how results propagate"

lemma res_bind_Inr [simp, res_simps]: "res_bind (Inr x) f = f x"
  by (simp add: res_bind_def)

lemma res_bind_Inl [simp, res_simps]: "res_bind (Inl e) f = Inl e"
  by (simp add: res_bind_def)

lemma res_bind_eq_Inr [res_simps]:
  "res_bind m f = Inr y \<longleftrightarrow> (\<exists>x. m = Inr x \<and> f x = Inr y)"
  by (cases m) auto

lemma res_bind_assoc: "res_bind (res_bind m f) g = res_bind m (\<lambda>x. res_bind (f x) g)"
  by (cases m) auto

lemma res_bind_cong [fundef_cong]:
  "m = n \<Longrightarrow> (\<And>x. n = Inr x \<Longrightarrow> f x = g x) \<Longrightarrow> res_bind m f = res_bind n g"
  by (cases n) auto

lemma c_assert_eq_Inr [res_simps]: "c_assert b = Inr u \<longleftrightarrow> b"
  by (simp add: c_assert_def)

lemma c_assert_True [simp]: "c_assert True = Inr ()"
  by (simp add: c_assert_def)

lemma c_assert_False [simp]: "c_assert False = Inl Assert_failed"
  by (simp add: c_assert_def)

lemma from_ptr_simps [simp]: "from_ptr None = Inl Null_deref" "from_ptr (Some x) = Inr x"
  by (simp_all add: from_ptr_def)

lemma from_ptr_eq_Inr [res_simps]: "from_ptr p = Inr x \<longleftrightarrow> p = Some x"
  by (cases p) auto

section \<open>Array accesses\<close>

definition arr_get :: "'a list \<Rightarrow> int \<Rightarrow> 'a result" where
  "arr_get xs i = (if 0 \<le> i \<and> i < int (length xs) then Inr (xs ! nat i) else Inl Out_of_bounds)"

definition arr_set :: "'a list \<Rightarrow> int \<Rightarrow> 'a \<Rightarrow> 'a list result" where
  "arr_set xs i v = (if 0 \<le> i \<and> i < int (length xs) then Inr (xs[nat i := v]) else Inl Out_of_bounds)"

lemma arr_get_eq_Inr [res_simps]:
  "arr_get xs i = Inr v \<longleftrightarrow> 0 \<le> i \<and> i < int (length xs) \<and> v = xs ! nat i"
  by (auto simp: arr_get_def)

lemma arr_set_eq_Inr [res_simps]:
  "arr_set xs i v = Inr ys \<longleftrightarrow> 0 \<le> i \<and> i < int (length xs) \<and> ys = xs[nat i := v]"
  by (auto simp: arr_set_def)

lemma arr_get_int [simp]: "n < length xs \<Longrightarrow> arr_get xs (int n) = Inr (xs ! n)"
  by (simp add: arr_get_def)

lemma arr_set_int [simp]: "n < length xs \<Longrightarrow> arr_set xs (int n) v = Inr (xs[n := v])"
  by (simp add: arr_set_def)

section \<open>Arithmetic\<close>

text \<open>
  The value of a C \<^verbatim>\<open>int\<close> expression after two's complement wrap-around, and of a
  \<^verbatim>\<open>size_t\<close> expression.
\<close>

definition wrap32 :: "int \<Rightarrow> int" where
  "wrap32 x = (x + 2147483648) mod 4294967296 - 2147483648"

definition wrap64u :: "int \<Rightarrow> nat" where
  "wrap64u x = nat (x mod 18446744073709551616)"

lemma wrap32_id [simp]: "- 2147483648 \<le> x \<Longrightarrow> x \<le> 2147483647 \<Longrightarrow> wrap32 x = x"
  by (simp add: wrap32_def)

lemma wrap32_range: "- 2147483648 \<le> wrap32 x \<and> wrap32 x \<le> 2147483647"
  by (simp add: wrap32_def)

section \<open>Characters\<close>

text \<open>The byte that ends a C string.\<close>

definition NUL :: char where "NUL = CHR 0x00"

section \<open>Lists\<close>

lemma nth_take_drop_split: "i < length xs \<Longrightarrow> xs = take i xs @ xs ! i # drop (Suc i) xs"
  by (simp add: id_take_nth_drop)

lemma nth_upd_if: "xs[i := v] ! j = (if i = j \<and> j < length xs then v else xs ! j)"
  by (cases "i < length xs") (auto simp: list_update_beyond)

lemma nth_upd_pair: "p < length xs \<Longrightarrow> xs[q := v, r := v] ! p = (if p = q \<or> p = r then v else xs ! p)"
  by (auto simp: nth_upd_if)

lemma count_mset_filter_upd:
  "i < length xs \<Longrightarrow>
   length (filter P (xs[i := v])) + (if P (xs ! i) then 1 else 0)
     = length (filter P xs) + (if P v then 1 else 0)"
proof (induction xs arbitrary: i)
  case Nil
  then show ?case by simp
next
  case (Cons x xs)
  then show ?case by (cases i) auto
qed

end
