(* ===== verification/Module_Registry.thy ===== *)
theory Module_Registry
  imports Hclib_Prelude
begin

text \<open>
  \<^verbatim>\<open>src/src/hclib_module.c\<close>: the registry of modules (three parallel lists of functions that the
  runtime calls before initialisation, after it and at the end) and the memory that modules
  reserve in every worker. Module functions and callbacks are not code of the runtime: they
  are arguments of the definitions that call them.
\<close>

section \<open>Model\<close>

text \<open>\<^verbatim>\<open>simple_list\<close>; its array grows by one element with each append.\<close>

type_synonym 'f simple_list = "'f list"

definition simple_list_create :: "'f simple_list" where
  "simple_list_create = []"

fun simple_list_contains :: "'f \<Rightarrow> 'f simple_list \<Rightarrow> bool" where
  "simple_list_contains ele [] = False"
| "simple_list_contains ele (x # xs) = (if x = ele then True else simple_list_contains ele xs)"

definition simple_list_append :: "'f \<Rightarrow> 'f simple_list \<Rightarrow> 'f simple_list" where
  "simple_list_append ele l = (if \<not> simple_list_contains ele l then l @ [ele] else l)"

text \<open>The three static lists; \<open>None\<close> while they are \<^verbatim>\<open>NULL\<close> (they are created together).\<close>

record 'f module_lists =
  pre_init_functions :: "'f simple_list"
  post_init_functions :: "'f simple_list"
  finalize_functions :: "'f simple_list"

type_synonym 'f registry = "'f module_lists option"

definition hclib_add_module_init_function :: "'f registry \<Rightarrow> 'f \<Rightarrow> 'f \<Rightarrow> 'f \<Rightarrow> 'f registry result" where
  "hclib_add_module_init_function reg pre post fin =
     (let r = (case reg of
                 None \<Rightarrow> \<lparr>pre_init_functions = simple_list_create, post_init_functions = simple_list_create,
                          finalize_functions = simple_list_create\<rparr>
               | Some r \<Rightarrow> r)
      in if simple_list_contains pre (pre_init_functions r) then
           res_bind (c_assert (simple_list_contains post (post_init_functions r))) (\<lambda>_.
           res_bind (c_assert (simple_list_contains fin (finalize_functions r))) (\<lambda>_.
           Inr (Some r)))
         else
           res_bind (c_assert (\<not> simple_list_contains post (post_init_functions r))) (\<lambda>_.
           res_bind (c_assert (\<not> simple_list_contains fin (finalize_functions r))) (\<lambda>_.
           Inr (Some \<lparr>pre_init_functions = simple_list_append pre (pre_init_functions r),
                      post_init_functions = simple_list_append post (post_init_functions r),
                      finalize_functions = simple_list_append fin (finalize_functions r)\<rparr>))))"

text \<open>
  The loops that call the functions. A function may do anything, also register more modules,
  and the loop reads the length of its list in every round; \<open>None\<close> stands for a loop that
  never ends. \<open>sel\<close> selects one of the three lists, \<open>run\<close> is what a function does.
\<close>

partial_function (option) call_functions ::
  "('f module_lists \<Rightarrow> 'f simple_list) \<Rightarrow> ('f \<Rightarrow> 'f registry \<times> 's \<Rightarrow> 'f registry \<times> 's) \<Rightarrow> nat \<Rightarrow>
   'f registry \<times> 's \<Rightarrow> ('f registry \<times> 's) option" where
  "call_functions sel run i st =
     (case fst st of
        None \<Rightarrow> Some st
      | Some r \<Rightarrow> if i < length (sel r) then call_functions sel run (i + 1) (run (sel r ! i) st) else Some st)"

definition hclib_call_module_pre_init_functions ::
  "('f \<Rightarrow> 'f registry \<times> 's \<Rightarrow> 'f registry \<times> 's) \<Rightarrow> 'f registry \<times> 's \<Rightarrow> ('f registry \<times> 's) option" where
  "hclib_call_module_pre_init_functions run st = call_functions pre_init_functions run 0 st"

definition hclib_call_module_post_init_functions ::
  "('f \<Rightarrow> 'f registry \<times> 's \<Rightarrow> 'f registry \<times> 's) \<Rightarrow> 'f registry \<times> 's \<Rightarrow> ('f registry \<times> 's) option" where
  "hclib_call_module_post_init_functions run st = call_functions post_init_functions run 0 st"

definition hclib_call_finalize_functions ::
  "('f \<Rightarrow> 'f registry \<times> 's \<Rightarrow> 'f registry \<times> 's) \<Rightarrow> 'f registry \<times> 's \<Rightarrow> ('f registry \<times> 's) option" where
  "hclib_call_finalize_functions run st = call_functions finalize_functions run 0 st"

text \<open>
  Per-worker module state: one memory block per worker and the static \<^verbatim>\<open>worker_state_size\<close>, an
  \<^verbatim>\<open>unsigned\<close>. A cell is \<open>None\<close> until it is written. A callback gets the block, the offset it
  was given and the worker's number, and returns the block.
\<close>

record 'c worker_memory =
  worker_state_size :: nat
  module_state :: "'c option list list"

definition grow_block :: "'c option list \<Rightarrow> nat \<Rightarrow> 'c option list" where
  "grow_block blk n = take n blk @ replicate (n - length blk) None"

definition hclib_add_per_worker_module_state ::
  "'c worker_memory \<Rightarrow> nat \<Rightarrow> ('c option list \<Rightarrow> nat \<Rightarrow> nat \<Rightarrow> 'c option list) \<Rightarrow> 'c worker_memory \<times> nat" where
  "hclib_add_per_worker_module_state wm state_size cb =
     (let offset = worker_state_size wm;
          blocks = map (\<lambda>(i, blk). cb (grow_block blk (worker_state_size wm + state_size)) offset i)
                       (enumerate 0 (module_state wm))
      in (\<lparr>worker_state_size = (worker_state_size wm + state_size) mod 4294967296, module_state = blocks\<rparr>,
          offset))"

text \<open>The address that a worker gets for a state: its block and the offset in it.\<close>

definition hclib_get_curr_worker_module_state :: "nat \<Rightarrow> nat \<Rightarrow> nat \<times> nat" where
  "hclib_get_curr_worker_module_state wid state_id = (wid, state_id)"

definition hclib_release_per_worker_module_state ::
  "'c worker_memory \<Rightarrow> nat \<Rightarrow> ('c option list \<Rightarrow> nat \<Rightarrow> 'c option list) \<Rightarrow> 'c worker_memory" where
  "hclib_release_per_worker_module_state wm state_id cb =
     wm\<lparr>module_state := map (\<lambda>blk. cb blk state_id) (module_state wm)\<rparr>"

section \<open>Lists\<close>

lemma contains_iff_mem [simp]: "simple_list_contains x l \<longleftrightarrow> x \<in> set l"
  by (induction l) auto

text \<open>The registry as a list of modules: each module once, in the order of first registration.\<close>

definition register_module :: "'m list \<Rightarrow> 'm \<Rightarrow> 'm list" where
  "register_module ms m = (if m \<in> set ms then ms else ms @ [m])"

definition registered :: "'m list \<Rightarrow> 'm list" where
  "registered ms = foldl register_module [] ms"

definition lists_of :: "('f \<times> 'f \<times> 'f) list \<Rightarrow> 'f module_lists" where
  "lists_of ms = \<lparr>pre_init_functions = map fst ms, post_init_functions = map (fst \<circ> snd) ms,
                  finalize_functions = map (snd \<circ> snd) ms\<rparr>"

lemma lists_of_sel:
  "pre_init_functions (lists_of ms) = map fst ms" "post_init_functions (lists_of ms) = map (fst \<circ> snd) ms"
  "finalize_functions (lists_of ms) = map (snd \<circ> snd) ms"
  by (simp_all add: lists_of_def)

text \<open>Modules share no function, unless they are the same module.\<close>

definition separate_modules :: "('f \<times> 'f \<times> 'f) set \<Rightarrow> bool" where
  "separate_modules M \<longleftrightarrow> inj_on fst M \<and> inj_on (fst \<circ> snd) M \<and> inj_on (snd \<circ> snd) M"

fun add_modules :: "'f registry \<Rightarrow> ('f \<times> 'f \<times> 'f) list \<Rightarrow> 'f registry result" where
  "add_modules reg [] = Inr reg"
| "add_modules reg ((pre, post, fin) # ms) =
     res_bind (hclib_add_module_init_function reg pre post fin) (\<lambda>reg'. add_modules reg' ms)"

lemma add_module_step:
  assumes "separate_modules (insert m (set ms))" "m = (pre, post, fin)"
    and "reg = Some (lists_of ms) \<or> reg = None \<and> ms = []"
  shows "hclib_add_module_init_function reg pre post fin = Inr (Some (lists_of (register_module ms m)))"
proof -
  have mem: "pre \<in> fst ` set ms \<longleftrightarrow> m \<in> set ms" "post \<in> (fst \<circ> snd) ` set ms \<longleftrightarrow> m \<in> set ms"
      "fin \<in> (snd \<circ> snd) ` set ms \<longleftrightarrow> m \<in> set ms"
    using inj_on_image_mem_iff [of _ "insert m (set ms)" m "set ms"] assms(1,2)
    by (auto simp: separate_modules_def intro: rev_image_eqI)
  have sets: "set (map fst ms) = fst ` set ms" "set (map (fst \<circ> snd) ms) = (fst \<circ> snd) ` set ms"
      "set (map (snd \<circ> snd) ms) = (snd \<circ> snd) ` set ms" by (rule set_map)+
  have "hclib_add_module_init_function reg pre post fin =
        hclib_add_module_init_function (Some (lists_of ms)) pre post fin"
    using assms(3) by (auto simp: hclib_add_module_init_function_def lists_of_def simple_list_create_def)
  also have "\<dots> = Inr (Some (lists_of (register_module ms m)))"
    unfolding hclib_add_module_init_function_def simple_list_append_def contains_iff_mem
    by (cases "m \<in> set ms")
       (simp_all add: lists_of_sel sets mem mem [unfolded comp_def] Let_def register_module_def del: set_map,
        simp_all add: lists_of_def assms(2))
  finally show ?thesis .
qed

lemma register_module_set: "set (register_module ms m) = insert m (set ms)"
  by (auto simp: register_module_def)

lemma add_modules_lists:
  assumes "separate_modules (set ms \<union> set ds)" "reg = Some (lists_of ds) \<or> reg = None \<and> ds = [] \<and> ms \<noteq> []"
  shows "add_modules reg ms = Inr (Some (lists_of (foldl register_module ds ms)))"
  using assms
proof (induction ms arbitrary: reg ds)
  case Nil
  then show ?case by simp
next
  case (Cons m ms)
  obtain pre post fin where m: "m = (pre, post, fin)" by (cases m)
  have "separate_modules (insert m (set ds))"
    using Cons.prems(1) by (auto simp: separate_modules_def inj_on_def)
  then have step: "hclib_add_module_init_function reg pre post fin = Inr (Some (lists_of (register_module ds m)))"
    using Cons.prems(2) m by (intro add_module_step) auto
  have "add_modules (Some (lists_of (register_module ds m))) ms =
        Inr (Some (lists_of (foldl register_module (register_module ds m) ms)))"
    using Cons.prems(1) by (intro Cons.IH) (auto simp: register_module_set)
  then show ?case using m step by simp
qed

lemma call_functions_from:
  assumes keep: "\<And>f st. fst (run f st) = fst st" and "fst st = Some r" "i \<le> length (sel r)"
  shows "call_functions sel run i st = Some (fold run (drop i (sel r)) st)"
  using assms(2,3)
proof (induction "length (sel r) - i" arbitrary: i st)
  case 0
  then show ?case by (simp add: call_functions.simps)
next
  case (Suc n)
  then have i: "i < length (sel r)" by simp
  have "call_functions sel run (i + 1) (run (sel r ! i) st) = Some (fold run (drop (i + 1) (sel r)) (run (sel r ! i) st))"
    using Suc by (intro Suc.hyps) (auto simp: keep)
  then show ?case using i Suc.prems by (simp add: call_functions.simps [of sel run i] Cons_nth_drop_Suc [symmetric])
qed

section \<open>Properties\<close>



text \<open>
  C26: the states that modules reserve in a worker do not overlap and survive later
  reservations. If the callbacks write only the cells of the state they are called for, then
  after a first reservation of \<open>n1\<close> cells and a second one of \<open>n2\<close>, the second state lies
  directly behind the first, every worker's block holds both, and in every block the cells of
  the first state are what the first callback left there. This needs the total size to fit
  into 32 bits.
\<close>

theorem worker_state_isolation:
  assumes "\<forall>blk \<in> set (module_state wm). length blk = worker_state_size wm"
    and "worker_state_size wm + n1 + n2 < 2 ^ 32"
    and w1: "\<And>blk i. length (cb1 blk (worker_state_size wm) i) = length blk"
    and w2: "\<And>blk i. length (cb2 blk (worker_state_size wm + n1) i) = length blk"
    and own: "\<And>blk i k. k < worker_state_size wm + n1 \<Longrightarrow> cb2 blk (worker_state_size wm + n1) i ! k = blk ! k"
    and add1: "hclib_add_per_worker_module_state wm n1 cb1 = (wm1, off1)"
    and add2: "hclib_add_per_worker_module_state wm1 n2 cb2 = (wm2, off2)"
  shows "off1 = worker_state_size wm \<and> off2 = off1 + n1 \<and> worker_state_size wm2 = off2 + n2 \<and>
     length (module_state wm2) = length (module_state wm) \<and>
     (\<forall>w < length (module_state wm). length (module_state wm2 ! w) = off2 + n2 \<and>
        take (off1 + n1) (module_state wm2 ! w) = cb1 (grow_block (module_state wm ! w) (off1 + n1)) off1 w)"
proof -
  let ?o = "worker_state_size wm"
  have o: "off1 = ?o" "worker_state_size wm1 = ?o + n1" "off2 = ?o + n1" "worker_state_size wm2 = ?o + n1 + n2"
    using add1 add2 assms(2) by (auto simp: hclib_add_per_worker_module_state_def Let_def)
  have m1: "module_state wm1 ! w = cb1 (grow_block (module_state wm ! w) (?o + n1)) ?o w"
      "length (module_state wm1) = length (module_state wm)" if "w < length (module_state wm)" for w
    using add1 that by (auto simp: hclib_add_per_worker_module_state_def Let_def nth_enumerate_eq)
  have m2: "module_state wm2 ! w = cb2 (grow_block (module_state wm1 ! w) (?o + n1 + n2)) (?o + n1) w"
      if "w < length (module_state wm1)" for w
    using add2 that o by (auto simp: hclib_add_per_worker_module_state_def Let_def nth_enumerate_eq)
  have len: "length (module_state wm2) = length (module_state wm)"
    using add1 add2 by (auto simp: hclib_add_per_worker_module_state_def Let_def)
  have "length (module_state wm2 ! w) = ?o + n1 + n2 \<and>
        take (?o + n1) (module_state wm2 ! w) = cb1 (grow_block (module_state wm ! w) (?o + n1)) ?o w"
    if w: "w < length (module_state wm)" for w
  proof -
    have l0: "length (module_state wm ! w) = ?o" using assms(1) w by simp
    then have l1: "length (module_state wm1 ! w) = ?o + n1" using m1(1) [OF w] by (simp add: w1 grow_block_def)
    let ?g = "grow_block (module_state wm1 ! w) (?o + n1 + n2)"
    have w': "w < length (module_state wm1)" using m1(2) [OF w] w by simp
    have lg: "length ?g = ?o + n1 + n2" "take (?o + n1) ?g = module_state wm1 ! w"
      using l1 by (simp_all add: grow_block_def)
    have "take (?o + n1) (module_state wm2 ! w) = take (?o + n1) ?g"
      unfolding m2 [OF w'] by (rule nth_equalityI) (simp_all add: w2 lg(1) own)
    then show ?thesis using lg m2 [OF w'] m1(1) [OF w] by (simp add: w2)
  qed
  then show ?thesis using o len by auto
qed

definition fill_cells :: "nat \<Rightarrow> nat option list \<Rightarrow> nat \<Rightarrow> nat \<Rightarrow> nat option list" where
  "fill_cells v blk off i = (if off < length blk then blk[off := Some (v + i)] else blk)"

theorem worker_state_isolation_witness:
  "\<exists>wm1 wm2. hclib_add_per_worker_module_state \<lparr>worker_state_size = 0, module_state = [[], []]\<rparr> 1 (fill_cells 7) = (wm1, 0) \<and>
     hclib_add_per_worker_module_state wm1 2 (fill_cells 50) = (wm2, 1) \<and> take 1 (module_state wm2 ! 1) = [Some 8]"
proof -
  let ?wm = "\<lparr>worker_state_size = 0, module_state = [[], [] :: nat option list]\<rparr>"
  let ?wm1 = "\<lparr>worker_state_size = 1, module_state = [[Some 7], [Some 8]]\<rparr>"
  let ?wm2 = "\<lparr>worker_state_size = 3, module_state = [[Some 7, Some 50, None], [Some 8, Some 51, None]]\<rparr>"
  have len: "length (fill_cells v blk off i) = length blk" for v blk off i by (simp add: fill_cells_def)
  have own: "fill_cells 50 blk (worker_state_size ?wm + 1) i ! k = blk ! k" if "k < worker_state_size ?wm + 1" for blk i k
    using that by (simp add: fill_cells_def)
  have a: "hclib_add_per_worker_module_state ?wm 1 (fill_cells 7) = (?wm1, 0)"
    by (simp add: hclib_add_per_worker_module_state_def grow_block_def fill_cells_def enumerate_Suc_eq)
  have g: "grow_block [x] (Suc (Suc (Suc 0))) = [x, None, None]" for x :: "nat option"
    by (simp add: grow_block_def)
  have b: "hclib_add_per_worker_module_state ?wm1 2 (fill_cells 50) = (?wm2, 1)"
    by (simp add: hclib_add_per_worker_module_state_def g fill_cells_def)
  have "take 1 (module_state ?wm2 ! 1) = [Some 8]"
    using worker_state_isolation [OF _ _ len len own a b] by (simp add: fill_cells_def grow_block_def)
  then show ?thesis using a b by blast
qed

end
