(* ===== verification/C_Strings.thy ===== *)
theory C_Strings
  imports Hclib_Prelude
begin

text \<open>
  The string functions of the locality graph loader: what it uses of the C library
  (\<^verbatim>\<open>strncmp\<close>, \<^verbatim>\<open>atoi\<close>) and its own \<^verbatim>\<open>strreverse\<close> and \<^verbatim>\<open>itoa\<close>. A C string is modelled by
  the list of its characters before the terminating \<^verbatim>\<open>NUL\<close>.
\<close>

section \<open>C library\<close>

text \<open>Whether \<^verbatim>\<open>strncmp\<close> returns 0.\<close>

fun strncmp_eq :: "string \<Rightarrow> string \<Rightarrow> nat \<Rightarrow> bool" where
  "strncmp_eq a b 0 = True"
| "strncmp_eq [] [] (Suc n) = True"
| "strncmp_eq [] (y # b) (Suc n) = False"
| "strncmp_eq (x # a) [] (Suc n) = False"
| "strncmp_eq (x # a) (y # b) (Suc n) = (x = y \<and> strncmp_eq a b n)"

definition is_digit :: "char \<Rightarrow> bool" where
  "is_digit c \<longleftrightarrow> 48 \<le> (of_char c :: nat) \<and> (of_char c :: nat) \<le> 57"

definition is_space :: "char \<Rightarrow> bool" where
  "is_space c \<longleftrightarrow> c = CHR '' '' \<or> 9 \<le> (of_char c :: nat) \<and> (of_char c :: nat) \<le> 13"

definition digit_value :: "char \<Rightarrow> int" where
  "digit_value c = int (of_char c) - 48"

fun digits_value :: "int \<Rightarrow> string \<Rightarrow> int" where
  "digits_value acc [] = acc"
| "digits_value acc (c # cs) = (if is_digit c then digits_value (acc * 10 + digit_value c) cs else acc)"

text \<open>\<^verbatim>\<open>atoi\<close> is \<^verbatim>\<open>(int) strtol(s, NULL, 10)\<close>: 64-bit saturation, then truncation to 32 bits.\<close>

definition atoi :: "string \<Rightarrow> int" where
  "atoi s =
     (let t = dropWhile is_space s;
          neg = (t \<noteq> [] \<and> hd t = CHR ''-'');
          u = (if t \<noteq> [] \<and> (hd t = CHR ''-'' \<or> hd t = CHR ''+'') then tl t else t);
          v = (if neg then - digits_value 0 u else digits_value 0 u)
      in wrap32 (max (- 9223372036854775808) (min 9223372036854775807 v)))"

section \<open>strreverse and itoa\<close>

text \<open>The loop swaps the characters at \<open>b\<close> and \<open>e\<close> while \<^verbatim>\<open>end > begin\<close>.\<close>

function strreverse :: "string \<Rightarrow> int \<Rightarrow> int \<Rightarrow> string" where
  "strreverse s b e =
     (if e > b then strreverse (s[nat e := s ! nat b, nat b := s ! nat e]) (b + 1) (e - 1) else s)"
  by pat_completeness auto
termination by (relation "measure (\<lambda>(s, b, e). nat (e - b))") auto

declare strreverse.simps [simp del]

definition itoa_num :: string where
  "itoa_num = ''0123456789abcdefghijklmnopqrstuvwxyz''"

text \<open>The \<^verbatim>\<open>do ... while\<close> loop: least significant digit first.\<close>

function itoa_digits :: "int \<Rightarrow> int \<Rightarrow> string result" where
  "itoa_digits v base =
     res_bind (arr_get itoa_num (v smod base)) (\<lambda>c.
     if v sdiv base \<noteq> 0 \<and> 2 \<le> base \<and> 0 \<le> v
     then res_bind (itoa_digits (v sdiv base) base) (\<lambda>cs. Inr (c # cs))
     else Inr [c])"
  by pat_completeness auto
termination
proof (relation "measure (\<lambda>(v, base). nat v)", goal_cases)
  case (2 v base c)
  then have "0 < v" "v sdiv base = v div base"
    by (auto simp: signed_divide_int_def sgn_if split: if_splits)
  then show ?case using 2 by (simp add: int_div_less_self)
qed simp

declare itoa_digits.simps [simp del]

text \<open>
  The conditions \<open>2 \<le> base\<close> and \<open>0 \<le> v\<close> of the loop always hold where \<^verbatim>\<open>itoa\<close> continues: it
  returns early for other bases, and a negative value makes \<^verbatim>\<open>num[value%base]\<close> fail first.
\<close>

definition itoa :: "int \<Rightarrow> int \<Rightarrow> string result" where
  "itoa v base =
     (if base < 2 \<or> base > 35 then Inr []
      else res_bind (itoa_digits (if v < 0 then wrap32 (- v) else v) base) (\<lambda>ds.
           let s = (if v < 0 then ds @ ''-'' else ds)
           in Inr (strreverse s 0 (int (length s) - 1))))"

section \<open>Lemmas\<close>

lemma strncmp_eq_take: "strncmp_eq a b n \<longleftrightarrow> take n a = take n b"
  by (induction a b n rule: strncmp_eq.induct) auto

lemma strreverse_segment:
  "strreverse (xs @ m @ ys) (int (length xs)) (int (length xs + length m) - 1) = xs @ rev m @ ys"
proof (induction "length m" arbitrary: xs m ys rule: less_induct)
  case less
  show ?case
  proof (cases "length m < 2")
    case True
    then have "rev m = m" by (cases m) auto
    then show ?thesis using True by (simp add: strreverse.simps)
  next
    case False
    obtain x m1 where m1: "m = x # m1" "m1 \<noteq> []" using False by (cases m; force)
    define k z where "k = butlast m1" and "z = last m1"
    have m: "m = x # k @ [z]" using m1 by (simp add: k_def z_def)
    have e: "nat (int (length xs + length m) - 1) = length xs + Suc (length k)" by (simp add: m nat_add_distrib)
    have swap: "(xs @ m @ ys)[length xs + Suc (length k) := x, length xs := z] = (xs @ [z]) @ k @ (x # ys)"
      by (simp add: m list_update_append)
    have nths: "(xs @ m @ ys) ! length xs = x" "(xs @ m @ ys) ! (length xs + Suc (length k)) = z"
      by (simp_all add: m nth_append)
    have "strreverse (xs @ m @ ys) (int (length xs)) (int (length xs + length m) - 1)
        = strreverse ((xs @ m @ ys)[length xs + Suc (length k) := x, length xs := z])
            (int (length xs) + 1) (int (length xs + length m) - 1 - 1)"
      by (subst strreverse.simps) (simp only: e nths nat_int, simp add: m)
    also have "\<dots> = strreverse ((xs @ [z]) @ k @ (x # ys)) (int (length (xs @ [z])))
                       (int (length (xs @ [z]) + length k) - 1)"
      unfolding swap by (simp add: m add.commute)
    also have "\<dots> = (xs @ [z]) @ rev k @ (x # ys)"
      by (rule less) (simp add: m)
    finally show ?thesis by (simp add: m)
  qed
qed

lemma strreverse_rev: "strreverse s 0 (int (length s) - 1) = rev s"
  using strreverse_segment [of "[]" s "[]"] by simp

text \<open>The decimal digits of a natural number, most significant first.\<close>

fun decimal :: "nat \<Rightarrow> string" where
  "decimal n = (if n < 10 then [char_of (48 + n)] else decimal (n div 10) @ [char_of (48 + n mod 10)])"

declare decimal.simps [simp del]

lemma itoa_num_nth: "d < 10 \<Longrightarrow> arr_get itoa_num (int d) = Inr (char_of (48 + d))"
proof -
  assume "d < 10"
  then have "d \<in> {0, 1, 2, 3, 4, 5, 6, 7, 8, 9}" by auto
  then show ?thesis by (auto simp: itoa_num_def arr_get_def char_of_def bit_0)
qed

lemma sdiv_nat10: "int n sdiv 10 = int (n div 10)" "int n smod 10 = int (n mod 10)"
  by (auto simp: signed_divide_int_def signed_modulo_int_def sgn_if zdiv_int zmod_int minus_div_mult_eq_mod)

lemma itoa_digits_decimal: "itoa_digits (int n) 10 = Inr (rev (decimal n))"
proof (induction n rule: less_induct)
  case (less n)
  show ?case
  proof (cases "n < 10")
    case True
    then show ?thesis
      by (subst itoa_digits.simps, subst decimal.simps) (simp add: sdiv_nat10 itoa_num_nth)
  next
    case False
    then have "itoa_digits (int (n div 10)) 10 = Inr (rev (decimal (n div 10)))" by (intro less) simp
    moreover have "n div 10 \<noteq> 0" using False by simp
    ultimately show ?thesis using False
      by (subst itoa_digits.simps, subst decimal.simps) (simp add: sdiv_nat10 itoa_num_nth)
  qed
qed

lemma itoa_decimal: "itoa (int n) 10 = Inr (decimal n)"
  by (simp add: itoa_def itoa_digits_decimal strreverse_rev)

lemma digits_value_append: "\<forall>c \<in> set a. is_digit c \<Longrightarrow> digits_value acc (a @ b) = digits_value (digits_value acc a) b"
  by (induction a arbitrary: acc) auto

lemma digit_char: "d < 10 \<Longrightarrow> is_digit (char_of (48 + d)) \<and> digit_value (char_of (48 + d)) = int d"
  by (simp add: is_digit_def digit_value_def)

lemma decimal_digits: "\<forall>c \<in> set (decimal n). is_digit c"
  by (induction n rule: decimal.induct) (subst decimal.simps, auto simp: digit_char)

lemma decimal_value: "digits_value 0 (decimal n) = int n"
proof (induction n rule: decimal.induct)
  case (1 n)
  have mod: "int (n div 10) * 10 + int (n mod 10) = int n"
    by (metis div_mult_mod_eq of_nat_add of_nat_mult of_nat_numeral)
  show ?case
  proof (cases "n < 10")
    case True
    then show ?thesis using digit_char [of n] by (subst decimal.simps) simp
  next
    case False
    then have "digits_value 0 (decimal (n div 10)) = int (n div 10)" using 1 by blast
    then show ?thesis using False digit_char [of "n mod 10"] mod
      by (subst decimal.simps) (simp add: digits_value_append decimal_digits)
  qed
qed

lemma decimal_neq_Nil: "decimal n \<noteq> []"
  by (subst decimal.simps) simp

lemma atoi_decimal:
  assumes "n < 2147483648"
  shows "atoi (decimal n) = int n"
proof -
  obtain c cs where d: "decimal n = c # cs" using decimal_neq_Nil by (cases "decimal n") auto
  have "is_digit c" using decimal_digits [of n] d by simp
  then have "\<not> is_space c" "c \<noteq> CHR ''-''" "c \<noteq> CHR ''+''" by (auto simp: is_digit_def is_space_def)
  then have "dropWhile is_space (decimal n) = decimal n" "hd (decimal n) \<noteq> CHR ''-''" "hd (decimal n) \<noteq> CHR ''+''"
    using d by simp_all
  then show ?thesis using assms by (simp add: atoi_def decimal_value)
qed

lemma decimal_inj: "decimal m = decimal n \<Longrightarrow> m = n"
  by (metis decimal_value of_nat_eq_iff)

lemma decimal_length: "n < 10 ^ Suc m \<Longrightarrow> length (decimal n) \<le> Suc m"
proof (induction m arbitrary: n)
  case 0
  then show ?case by (subst decimal.simps) simp
next
  case (Suc m)
  then have "n div 10 < 10 ^ Suc m" by (simp add: less_mult_imp_div_less)
  then show ?case using Suc.IH [of "n div 10"] by (subst decimal.simps) simp
qed

lemma decimal_length_int: "n < 2147483648 \<Longrightarrow> length (decimal n) \<le> 10"
  using decimal_length [of n 9] by simp

lemma atoi_negative_decimal:
  assumes "n < 2147483648"
  shows "atoi (CHR ''-'' # decimal n) = - int n"
  using assms by (simp add: atoi_def is_space_def decimal_value)

lemma itoa_negative:
  assumes "0 < n" "n < 2147483648"
  shows "itoa (- int n) 10 = Inr (CHR ''-'' # decimal n)"
proof -
  have "wrap32 (int n) = int n" using assms by (simp add: wrap32_def)
  then show ?thesis using assms itoa_digits_decimal [of n] strreverse_rev [of "rev (decimal n) @ ''-''"]
    by (simp add: itoa_def)
qed

text \<open>
  C27: reading back what \<^verbatim>\<open>itoa\<close> prints in base 10 gives the number, for every 32-bit value but the
  least one; for that one the negation overflows and \<^verbatim>\<open>num[value%base]\<close> is outside the digit table.
\<close>

theorem itoa_atoi_roundtrip:
  assumes "- 2147483648 \<le> v" "v < 2147483648"
  shows "if v = - 2147483648 then itoa v 10 = Inl Out_of_bounds
         else \<exists>s. itoa v 10 = Inr s \<and> length s \<le> 11 \<and> atoi s = v"
proof (cases "v = - 2147483648")
  case True
  have "itoa_digits (wrap32 2147483648) 10 = Inl Out_of_bounds"
    by (subst itoa_digits.simps) (simp add: wrap32_def signed_modulo_int_def signed_divide_int_def arr_get_def)
  then show ?thesis using True by (simp add: itoa_def)
next
  case False
  show ?thesis
  proof (cases "0 \<le> v")
    case True
    then obtain n where n: "v = int n" "n < 2147483648" using assms by (auto elim!: nonneg_int_cases)
    then show ?thesis using itoa_decimal [of n] atoi_decimal [of n] decimal_length_int [of n] by simp
  next
    case neg: False
    then obtain n where n: "v = - int n" "0 < n" "n < 2147483648"
      using assms False by (auto intro!: that [of "nat (- v)"])
    then show ?thesis
      using itoa_negative [of n] atoi_negative_decimal [of n] decimal_length_int [of n] False by simp
  qed
qed

theorem itoa_atoi_roundtrip_witness:
  "(\<exists>s. itoa (-42) 10 = Inr s \<and> length s \<le> 11 \<and> atoi s = -42) \<and> itoa (- 2147483648) 10 = Inl Out_of_bounds"
  using itoa_atoi_roundtrip [of "-42"] itoa_atoi_roundtrip [of "- 2147483648"] by simp

end
