(* ===== verification/Jsmn.thy ===== *)
theory Jsmn
  imports Hclib_Prelude
begin

text \<open>
  \<^verbatim>\<open>src/src/jsmn/jsmn.c\<close>: the JSON tokenizer that reads locality graphs, as it is built here
  (neither \<^verbatim>\<open>JSMN_STRICT\<close> nor \<^verbatim>\<open>JSMN_PARENT_LINKS\<close>). The input \<open>js\<close> is the list of the \<^verbatim>\<open>len\<close>
  bytes that may be read; the token array is \<open>None\<close> when the caller passes \<^verbatim>\<open>NULL\<close> (the
  counting pass), and has \<^verbatim>\<open>num_tokens\<close> elements otherwise.
\<close>

section \<open>Model\<close>

datatype jsmntype = JSMN_UNDEFINED | JSMN_OBJECT | JSMN_ARRAY | JSMN_STRING | JSMN_PRIMITIVE

record jsmntok =
  tok_type :: jsmntype
  tok_start :: int
  tok_end :: int
  tok_size :: int

record jsmn_parser =
  pos :: nat
  toknext :: nat
  toksuper :: int

definition JSMN_ERROR_NOMEM :: int where "JSMN_ERROR_NOMEM = -1"
definition JSMN_ERROR_INVAL :: int where "JSMN_ERROR_INVAL = -2"
definition JSMN_ERROR_PART :: int where "JSMN_ERROR_PART = -3"

lemmas jsmn_errors = JSMN_ERROR_NOMEM_def JSMN_ERROR_INVAL_def JSMN_ERROR_PART_def

type_synonym tokens = "jsmntok list option"

definition jsmn_init :: jsmn_parser where
  "jsmn_init = \<lparr>pos = 0, toknext = 0, toksuper = -1\<rparr>"

definition jsmn_alloc_token :: "jsmn_parser \<Rightarrow> jsmntok list \<Rightarrow> (jsmn_parser \<times> jsmntok list) option" where
  "jsmn_alloc_token parser toks =
     (if toknext parser \<ge> length toks then None
      else Some (parser\<lparr>toknext := toknext parser + 1\<rparr>,
                 toks[toknext parser := (toks ! toknext parser)\<lparr>tok_start := -1, tok_end := -1, tok_size := 0\<rparr>]))"

definition jsmn_fill_token :: "jsmntok list \<Rightarrow> nat \<Rightarrow> jsmntype \<Rightarrow> int \<Rightarrow> int \<Rightarrow> jsmntok list" where
  "jsmn_fill_token toks i ty s e = toks[i := \<lparr>tok_type = ty, tok_start = s, tok_end = e, tok_size = 0\<rparr>]"

definition more_input :: "string \<Rightarrow> nat \<Rightarrow> bool" where
  "more_input js p \<longleftrightarrow> p < length js \<and> js ! p \<noteq> NUL"

definition is_blank :: "char \<Rightarrow> bool" where
  "is_blank c \<longleftrightarrow> c = CHR 0x09 \<or> c = CHR 0x0D \<or> c = CHR 0x0A \<or> c = CHR '' ''"

definition is_prim_end :: "char \<Rightarrow> bool" where
  "is_prim_end c \<longleftrightarrow> c = CHR '':'' \<or> is_blank c \<or> c = CHR '','' \<or> c = CHR '']'' \<or> c = CHR ''}''"

text \<open>The loop of \<^verbatim>\<open>jsmn_parse_primitive\<close>: the position after the primitive, or the error.\<close>

function prim_scan :: "string \<Rightarrow> nat \<Rightarrow> int + nat" where
  "prim_scan js p =
     (if more_input js p then
        if is_prim_end (js ! p) then Inr p
        else if (of_char (js ! p) :: nat) < 32 \<or> (of_char (js ! p) :: nat) \<ge> 127 then Inl JSMN_ERROR_INVAL
        else prim_scan js (p + 1)
      else Inr p)"
  by pat_completeness auto
termination
  by (relation "measure (\<lambda>(js, p). length js - p)") (auto simp: more_input_def)

definition is_hex :: "char \<Rightarrow> bool" where
  "is_hex c \<longleftrightarrow> (let v = (of_char c :: nat) in
     48 \<le> v \<and> v \<le> 57 \<or> 65 \<le> v \<and> v \<le> 70 \<or> 97 \<le> v \<and> v \<le> 102)"

text \<open>The four digits of a \<^verbatim>\<open>\uXXXX\<close> escape; \<open>None\<close> when one of them is not hexadecimal.\<close>

fun hex_scan :: "string \<Rightarrow> nat \<Rightarrow> nat \<Rightarrow> nat option" where
  "hex_scan js 0 p = Some p"
| "hex_scan js (Suc k) p =
     (if more_input js p then if is_hex (js ! p) then hex_scan js k (p + 1) else None else Some p)"

definition is_escape :: "char \<Rightarrow> bool" where
  "is_escape c \<longleftrightarrow> c \<in> {CHR 0x22, CHR ''/'', CHR 0x5C, CHR ''b'', CHR ''f'', CHR ''r'', CHR ''n'', CHR ''t''}"

lemma hex_scan_mono: "hex_scan js k p = Some q \<Longrightarrow> p \<le> q"
  by (induction js k p rule: hex_scan.induct) (auto split: if_splits)

text \<open>The loop of \<^verbatim>\<open>jsmn_parse_string\<close>: the position of the closing quote, or the error.\<close>

function str_scan :: "string \<Rightarrow> nat \<Rightarrow> int + nat" where
  "str_scan js p =
     (if more_input js p then
        if js ! p = CHR 0x22 then Inr p
        else if js ! p = CHR 0x5C \<and> p + 1 < length js then
          if is_escape (js ! (p + 1)) then str_scan js (p + 2)
          else if js ! (p + 1) = CHR ''u'' then
            (case hex_scan js 4 (p + 2) of
               None \<Rightarrow> Inl JSMN_ERROR_INVAL
             | Some q \<Rightarrow> str_scan js q)
          else Inl JSMN_ERROR_INVAL
        else str_scan js (p + 1)
      else Inl JSMN_ERROR_PART)"
  by pat_completeness auto
termination
  by (relation "measure (\<lambda>(js, p). length js - p)") (auto simp: more_input_def dest: hex_scan_mono)

declare prim_scan.simps [simp del] str_scan.simps [simp del]

definition store_token ::
  "jsmn_parser \<Rightarrow> tokens \<Rightarrow> jsmntype \<Rightarrow> nat \<Rightarrow> nat \<Rightarrow> (jsmn_parser \<times> tokens) option" where
  "store_token parser toks ty s e =
     (case toks of
        None \<Rightarrow> Some (parser, None)
      | Some ts \<Rightarrow> (case jsmn_alloc_token parser ts of
            None \<Rightarrow> None
          | Some (parser', ts') \<Rightarrow>
              Some (parser', Some (jsmn_fill_token ts' (toknext parser) ty (int s) (int e)))))"

text \<open>
  Both return the parser, the tokens and 0 or an error code. On an error the position is put
  back to where it was.
\<close>

definition jsmn_parse_primitive :: "jsmn_parser \<Rightarrow> string \<Rightarrow> tokens \<Rightarrow> jsmn_parser \<times> tokens \<times> int" where
  "jsmn_parse_primitive parser js toks =
     (case prim_scan js (pos parser) of
        Inl e \<Rightarrow> (parser, toks, e)
      | Inr q \<Rightarrow>
          (case store_token parser toks JSMN_PRIMITIVE (pos parser) q of
             None \<Rightarrow> (parser, toks, JSMN_ERROR_NOMEM)
           | Some (parser', toks') \<Rightarrow> (parser'\<lparr>pos := q - 1\<rparr>, toks', 0)))"

definition jsmn_parse_string :: "jsmn_parser \<Rightarrow> string \<Rightarrow> tokens \<Rightarrow> jsmn_parser \<times> tokens \<times> int" where
  "jsmn_parse_string parser js toks =
     (case str_scan js (pos parser + 1) of
        Inl e \<Rightarrow> (parser, toks, e)
      | Inr q \<Rightarrow>
          (case store_token parser toks JSMN_STRING (pos parser + 1) q of
             None \<Rightarrow> (parser, toks, JSMN_ERROR_NOMEM)
           | Some (parser', toks') \<Rightarrow> (parser'\<lparr>pos := q\<rparr>, toks', 0)))"

definition tok_open :: "jsmntok \<Rightarrow> bool" where
  "tok_open t \<longleftrightarrow> tok_start t \<noteq> -1 \<and> tok_end t = -1"

text \<open>The downward searches for a token that satisfies \<open>P\<close>, below index \<open>n\<close>.\<close>

fun last_tok :: "(jsmntok \<Rightarrow> bool) \<Rightarrow> jsmntok list \<Rightarrow> nat \<Rightarrow> nat option" where
  "last_tok P ts 0 = None"
| "last_tok P ts (Suc i) = (if P (ts ! i) then Some i else last_tok P ts i)"

definition super_inc :: "jsmn_parser \<Rightarrow> tokens \<Rightarrow> tokens" where
  "super_inc parser toks =
     (if toksuper parser = -1 then toks
      else map_option (\<lambda>ts. ts[nat (toksuper parser) := (ts ! nat (toksuper parser))
                                 \<lparr>tok_size := tok_size (ts ! nat (toksuper parser)) + 1\<rparr>]) toks)"

type_synonym jsmn_state = "jsmn_parser \<times> tokens \<times> nat"
type_synonym jsmn_stop = "jsmn_parser \<times> tokens \<times> int"

definition open_bracket :: "char \<Rightarrow> jsmn_state \<Rightarrow> jsmn_stop + jsmn_state" where
  "open_bracket c st = (case st of (parser, toks, cnt) \<Rightarrow>
     (case toks of
        None \<Rightarrow> Inr (parser, None, cnt + 1)
      | Some ts \<Rightarrow>
          (case jsmn_alloc_token parser ts of
             None \<Rightarrow> Inl (parser, toks, JSMN_ERROR_NOMEM)
           | Some (parser', ts') \<Rightarrow>
               let i = toknext parser;
                   ts'' = the (super_inc parser' (Some ts'))
               in Inr (parser'\<lparr>toksuper := int (toknext parser') - 1\<rparr>,
                       Some (ts''[i := (ts'' ! i)\<lparr>tok_type := (if c = CHR ''{'' then JSMN_OBJECT else JSMN_ARRAY),
                                                   tok_start := int (pos parser)\<rparr>]),
                       cnt + 1))))"

definition close_bracket :: "char \<Rightarrow> jsmn_state \<Rightarrow> jsmn_stop + jsmn_state" where
  "close_bracket c st = (case st of (parser, toks, cnt) \<Rightarrow>
     (case toks of
        None \<Rightarrow> Inr (parser, None, cnt)
      | Some ts \<Rightarrow>
          let ty = (if c = CHR ''}'' then JSMN_OBJECT else JSMN_ARRAY) in
          (case last_tok tok_open ts (toknext parser) of
             None \<Rightarrow> Inl (parser, toks, JSMN_ERROR_INVAL)
           | Some i \<Rightarrow>
               if tok_type (ts ! i) \<noteq> ty then Inl (parser, toks, JSMN_ERROR_INVAL)
               else let ts' = ts[i := (ts ! i)\<lparr>tok_end := int (pos parser) + 1\<rparr>];
                        sup = (case last_tok tok_open ts' (i + 1) of None \<Rightarrow> -1 | Some j \<Rightarrow> int j)
                    in Inr (parser\<lparr>toksuper := sup\<rparr>, Some ts', cnt))))"

definition is_container :: "jsmntok \<Rightarrow> bool" where
  "is_container t \<longleftrightarrow> tok_type t = JSMN_ARRAY \<or> tok_type t = JSMN_OBJECT"

definition comma :: "jsmn_state \<Rightarrow> jsmn_state" where
  "comma st = (case st of (parser, toks, cnt) \<Rightarrow>
     (case toks of
        None \<Rightarrow> st
      | Some ts \<Rightarrow>
          if toksuper parser \<noteq> -1 \<and> \<not> is_container (ts ! nat (toksuper parser)) then
            (case last_tok (\<lambda>t. is_container t \<and> tok_open t) ts (toknext parser) of
               None \<Rightarrow> st
             | Some i \<Rightarrow> (parser\<lparr>toksuper := int i\<rparr>, toks, cnt))
          else st))"

definition finish_value :: "jsmn_parser \<times> tokens \<times> int \<Rightarrow> nat \<Rightarrow> jsmn_stop + jsmn_state" where
  "finish_value r cnt = (case r of (parser, toks, e) \<Rightarrow>
     if e < 0 then Inl (parser, toks, e) else Inr (parser, super_inc parser toks, cnt + 1))"

text \<open>One round of the main loop, before \<^verbatim>\<open>parser->pos++\<close>.\<close>

definition jsmn_step :: "string \<Rightarrow> jsmn_state \<Rightarrow> jsmn_stop + jsmn_state" where
  "jsmn_step js st = (case st of (parser, toks, cnt) \<Rightarrow>
     (let c = js ! pos parser in
      if c = CHR ''{'' \<or> c = CHR ''['' then open_bracket c st
      else if c = CHR ''}'' \<or> c = CHR '']'' then close_bracket c st
      else if c = CHR 0x22 then finish_value (jsmn_parse_string parser js toks) cnt
      else if is_blank c then Inr st
      else if c = CHR '':'' then Inr (parser\<lparr>toksuper := int (toknext parser) - 1\<rparr>, toks, cnt)
      else if c = CHR '','' then Inr (comma st)
      else finish_value (jsmn_parse_primitive parser js toks) cnt))"

definition jsmn_end :: "jsmn_state \<Rightarrow> jsmn_stop" where
  "jsmn_end st = (case st of (parser, toks, cnt) \<Rightarrow>
     (case toks of
        None \<Rightarrow> (parser, toks, int cnt)
      | Some ts \<Rightarrow> if last_tok tok_open ts (toknext parser) \<noteq> None then (parser, toks, JSMN_ERROR_PART)
                   else (parser, toks, int cnt)))"

lemma prim_scan_bounds: "prim_scan js p = Inr q \<Longrightarrow> p \<le> q \<and> (p \<le> length js \<longrightarrow> q \<le> length js)"
proof (induction js p rule: prim_scan.induct)
  case (1 js p)
  then show ?case
    by (simp add: prim_scan.simps [of js p] more_input_def split: if_splits)
qed

lemma prim_scan_less:
  "prim_scan js p = Inr q \<Longrightarrow> more_input js p \<Longrightarrow> \<not> is_prim_end (js ! p) \<Longrightarrow> p < q"
  by (subst (asm) prim_scan.simps) (auto split: if_splits dest: prim_scan_bounds)

lemma str_scan_bounds: "str_scan js p = Inr q \<Longrightarrow> p \<le> q \<and> q < length js"
proof (induction js p rule: str_scan.induct)
  case (1 js p)
  then show ?case
    by (auto simp: str_scan.simps [of js p] more_input_def split: if_splits option.splits dest: hex_scan_mono)
qed

lemma prim_scan_error: "prim_scan js p = Inl e \<Longrightarrow> e = JSMN_ERROR_INVAL"
proof (induction js p rule: prim_scan.induct)
  case (1 js p)
  then show ?case by (simp add: prim_scan.simps [of js p] split: if_splits)
qed

lemma str_scan_error: "str_scan js p = Inl e \<Longrightarrow> e = JSMN_ERROR_INVAL \<or> e = JSMN_ERROR_PART"
proof (induction js p rule: str_scan.induct)
  case (1 js p)
  then show ?case by (auto simp: str_scan.simps [of js p] split: if_splits option.splits)
qed

lemma store_token_pos: "store_token parser toks ty s e = Some (parser', toks') \<Longrightarrow> pos parser' = pos parser"
  by (auto simp: store_token_def jsmn_alloc_token_def split: option.splits if_splits)

lemmas jsmn_step_defs = jsmn_step_def open_bracket_def close_bracket_def comma_def finish_value_def
  jsmn_parse_string_def jsmn_parse_primitive_def

lemma jsmn_step_pos:
  assumes "jsmn_step js (parser, toks, n) = Inr (parser', toks', n')" "more_input js (pos parser)"
  shows "pos parser \<le> pos parser' \<and> pos parser' < length js"
  using assms
  by (auto simp: jsmn_step_defs jsmn_alloc_token_def Let_def more_input_def is_prim_end_def
           split: if_splits option.splits sum.splits prod.splits
           dest: prim_scan_bounds str_scan_bounds prim_scan_less store_token_pos)

function jsmn_loop :: "string \<Rightarrow> jsmn_state \<Rightarrow> jsmn_stop" where
  "jsmn_loop js (parser, toks, cnt) =
     (if more_input js (pos parser) then
        (case jsmn_step js (parser, toks, cnt) of
           Inl stop \<Rightarrow> stop
         | Inr (parser', toks', cnt') \<Rightarrow> jsmn_loop js (parser'\<lparr>pos := pos parser' + 1\<rparr>, toks', cnt'))
      else jsmn_end (parser, toks, cnt))"
  by pat_completeness auto
termination
  by (relation "measure (\<lambda>(js, parser, toks, cnt). length js - pos parser)")
     (auto dest!: jsmn_step_pos)

declare jsmn_loop.simps [simp del]

definition jsmn_parse :: "jsmn_parser \<Rightarrow> string \<Rightarrow> tokens \<Rightarrow> jsmn_stop" where
  "jsmn_parse parser js toks = jsmn_loop js (parser, toks, toknext parser)"

section \<open>The counting pass and the token pass\<close>

text \<open>
  A step of the pass with tokens does what the counting pass does at the same position, unless
  it finds mismatched brackets, or needs a token that the array does not have.
\<close>

definition pass_ok :: "jsmntok list \<Rightarrow> nat \<Rightarrow> nat \<Rightarrow> jsmn_stop + jsmn_state \<Rightarrow> bool" where
  "pass_ok ts p n r = (case r of
      Inl (_, _, e) \<Rightarrow> e = JSMN_ERROR_INVAL
    | Inr (q, t, m) \<Rightarrow> pos q = p \<and> toknext q = n \<and> m = n \<and>
                     (case t of None \<Rightarrow> False | Some ts' \<Rightarrow> length ts' = length ts))"

lemma super_inc_Some:
  "super_inc parser (Some ts) = Some ts' \<Longrightarrow> length ts' = length ts"
  by (auto simp: super_inc_def split: if_splits)

lemma pass_open: "toknext q < length ts \<Longrightarrow>
    pass_ok ts (pos q) (toknext q + 1) (open_bracket c (q, Some ts, toknext q))"
  by (simp add: pass_ok_def open_bracket_def jsmn_alloc_token_def super_inc_def Let_def)

lemma pass_close: "pass_ok ts (pos q) (toknext q) (close_bracket c (q, Some ts, toknext q))"
  by (auto simp: pass_ok_def close_bracket_def Let_def split: option.split)

lemma pass_comma: "pass_ok ts (pos q) (toknext q) (Inr (comma (q, Some ts, toknext q)))"
  by (auto simp: pass_ok_def comma_def Let_def split: option.split)

lemma pass_string:
  assumes "finish_value (jsmn_parse_string p js None) n = Inr (p', t', n')" "pos q = pos p" "toknext q < length ts"
  shows "t' = None \<and> n' = n + 1 \<and>
         pass_ok ts (pos p') (toknext q + 1) (finish_value (jsmn_parse_string q js (Some ts)) (toknext q))"
  using assms
  by (auto simp: pass_ok_def finish_value_def jsmn_parse_string_def store_token_def jsmn_alloc_token_def
       jsmn_fill_token_def super_inc_def jsmn_errors split: sum.splits if_splits dest!: str_scan_error)

lemma pass_primitive:
  assumes "finish_value (jsmn_parse_primitive p js None) n = Inr (p', t', n')" "pos q = pos p" "toknext q < length ts"
  shows "t' = None \<and> n' = n + 1 \<and>
         pass_ok ts (pos p') (toknext q + 1) (finish_value (jsmn_parse_primitive q js (Some ts)) (toknext q))"
  using assms
  by (auto simp: pass_ok_def finish_value_def jsmn_parse_primitive_def store_token_def jsmn_alloc_token_def
       jsmn_fill_token_def super_inc_def jsmn_errors split: sum.splits if_splits dest!: prim_scan_error)

lemma count_step_mono:
  "jsmn_step js (p, None, n) = Inr (p', t', n') \<Longrightarrow> t' = None \<and> n \<le> n'"
  by (auto simp: jsmn_step_defs Let_def store_token_def super_inc_def
           split: if_splits sum.splits)

lemma count_step_error:
  "jsmn_step js (p, None, n) = Inl (p', t', e) \<Longrightarrow> e < 0"
  by (auto simp: jsmn_step_defs Let_def store_token_def super_inc_def
           split: if_splits sum.splits)

lemma jsmn_step_pass:
  assumes "jsmn_step js (p, None, n) = Inr (p', t', n')" "pos q = pos p" "toknext q = n" "n' \<le> length ts"
  shows "pass_ok ts (pos p') n' (jsmn_step js (q, Some ts, n))"
proof -
  note fv = pass_string [where p = p and js = js and n = n and p' = p' and t' = t' and n' = n' and q = q and ts = ts]
     pass_primitive [where p = p and js = js and n = n and p' = p' and t' = t' and n' = n' and q = q and ts = ts]
  have len: "n' = n + 1" if "finish_value (jsmn_parse_string p js None) n = Inr (p', t', n')
      \<or> finish_value (jsmn_parse_primitive p js None) n = Inr (p', t', n')"
    using that by (auto simp: finish_value_def split: prod.splits if_splits)
  show ?thesis
    using assms fv len pass_open [of q ts] pass_close [of ts q] pass_comma [of ts q]
    by (auto simp: jsmn_step_def Let_def open_bracket_def [of _ "(p, None, n)"]
        close_bracket_def [of _ "(p, None, n)"] comma_def [of "(p, None, n)"] pass_ok_def [of _ _ _ "Inr _"]
        split: if_splits)
qed

lemma jsmn_loop_count_mono:
  "jsmn_loop js (p, None, n) = (p', t', r) \<Longrightarrow> r < 0 \<or> int n \<le> r"
proof (induction "length js - pos p" arbitrary: p n rule: less_induct)
  case less
  show ?case
  proof (cases "more_input js (pos p)")
    case False
    then show ?thesis using less.prems by (auto simp: jsmn_loop.simps jsmn_end_def)
  next
    case True
    show ?thesis
    proof (cases "jsmn_step js (p, None, n)")
      case (Inl a)
      then show ?thesis using less.prems True
        by (cases a) (auto simp: jsmn_loop.simps dest: count_step_error)
    next
      case (Inr b)
      obtain p1 t1 n1 where b: "b = (p1, t1, n1)" by (cases b)
      with Inr count_step_mono jsmn_step_pos [OF _ True]
      have "t1 = None" "n \<le> n1" "pos p \<le> pos p1" "pos p1 < length js" by blast+
      then show ?thesis using less.hyps [of "p1\<lparr>pos := pos p1 + 1\<rparr>" n1] less.prems True Inr b
        by (auto simp: jsmn_loop.simps [of js p])
    qed
  qed
qed

lemma jsmn_loop_pass:
  assumes "jsmn_loop js (p, None, n) = (p', t', int m)" "pos q = pos p" "toknext q = n" "m \<le> length ts"
          "jsmn_loop js (q, Some ts, n) = (q', ts', r)"
  shows "r = int m \<and> toknext q' = m \<or> r = JSMN_ERROR_INVAL \<or> r = JSMN_ERROR_PART"
  using assms
proof (induction "length js - pos p" arbitrary: p n q ts rule: less_induct)
  case less
  show ?case
  proof (cases "more_input js (pos p)")
    case False
    then show ?thesis using less.prems by (auto simp: jsmn_loop.simps jsmn_end_def split: if_splits)
  next
    case True
    then obtain p1 t1 n1 where step: "jsmn_step js (p, None, n) = Inr (p1, t1, n1)"
      using less.prems(1) count_step_error
      by (fastforce simp: jsmn_loop.simps [of js p] split: sum.splits prod.splits)
    have t1: "t1 = None" and pos: "pos p \<le> pos p1" "pos p1 < length js"
      using count_step_mono [OF step] jsmn_step_pos [OF step True] by auto
    have rest: "jsmn_loop js (p1\<lparr>pos := pos p1 + 1\<rparr>, None, n1) = (p', t', int m)"
      using less.prems(1) True step t1 by (simp add: jsmn_loop.simps [of js p])
    then have n1: "n1 \<le> length ts" using jsmn_loop_count_mono less.prems(4) by force
    have ok: "pass_ok ts (pos p1) n1 (jsmn_step js (q, Some ts, n))"
      using jsmn_step_pass [OF step] less.prems(2,3) n1 by blast
    show ?thesis
    proof (cases "jsmn_step js (q, Some ts, n)")
      case (Inl a)
      then show ?thesis using ok less.prems(2,5) True
        by (auto simp: pass_ok_def jsmn_loop.simps [of js q])
    next
      case (Inr b)
      then obtain q1 ts1 where b: "b = (q1, Some ts1, n1)" "pos q1 = pos p1" "toknext q1 = n1"
          "length ts1 = length ts"
        using ok by (auto simp: pass_ok_def split: option.splits prod.splits)
      show ?thesis
        using less.hyps [OF _ rest, of "q1\<lparr>pos := pos q1 + 1\<rparr>" ts1] less.prems True Inr b pos
        by (auto simp: jsmn_loop.simps [of js q])
    qed
  qed
qed

section \<open>The tokens of a successful parse\<close>

text \<open>
  \<open>p\<close> is the position at the head of the main loop. A token lies before it and is either
  closed or a container still open; a token that starts later starts behind the earlier one's
  start, and lies behind the earlier token or inside it.
\<close>

definition tok_ok :: "nat \<Rightarrow> jsmntok \<Rightarrow> bool" where
  "tok_ok p t \<longleftrightarrow> 0 \<le> tok_start t \<and> tok_start t < int p \<and>
     (if tok_end t = -1 then is_container t else tok_start t \<le> tok_end t \<and> tok_end t \<le> int p)"

definition tok_nested :: "jsmntok \<Rightarrow> jsmntok \<Rightarrow> bool" where
  "tok_nested t u \<longleftrightarrow> tok_start t < tok_start u \<and>
     (tok_end t = -1 \<or> tok_end t \<le> tok_start u \<or> tok_end u \<noteq> -1 \<and> tok_end u \<le> tok_end t)"

definition tok_inv :: "nat \<Rightarrow> jsmntok list \<Rightarrow> nat \<Rightarrow> bool" where
  "tok_inv p ts n \<longleftrightarrow> n \<le> length ts \<and> (\<forall>i<n. tok_ok p (ts ! i)) \<and>
     (\<forall>j<n. \<forall>i<j. tok_nested (ts ! i) (ts ! j))"

definition jsmn_inv :: "string \<Rightarrow> jsmn_state \<Rightarrow> bool" where
  "jsmn_inv js st = (case st of (parser, toks, cnt) \<Rightarrow>
     cnt = toknext parser \<and> pos parser \<le> length js \<and>
     -1 \<le> toksuper parser \<and> toksuper parser < int (toknext parser) \<and>
     (case toks of None \<Rightarrow> False | Some ts \<Rightarrow> tok_inv (pos parser) ts (toknext parser)))"

lemma tok_inv_mono: "tok_inv p ts n \<Longrightarrow> p \<le> p' \<Longrightarrow> tok_inv p' ts n"
  by (fastforce simp: tok_inv_def tok_ok_def)

lemma tok_inv_same:
  assumes "length ts' = length ts"
    "\<And>i. i < n \<Longrightarrow> tok_type (ts' ! i) = tok_type (ts ! i) \<and> tok_start (ts' ! i) = tok_start (ts ! i)
                    \<and> tok_end (ts' ! i) = tok_end (ts ! i)"
  shows "tok_inv p ts' n = tok_inv p ts n"
  using assms by (auto simp: tok_inv_def tok_ok_def tok_nested_def is_container_def)

lemma tok_inv_super_inc:
  "super_inc parser (Some ts) = Some ts' \<Longrightarrow> n \<le> length ts \<Longrightarrow> tok_inv p ts' n = tok_inv p ts n"
  by (rule tok_inv_same)
     (auto simp: super_inc_def nth_upd_if split: if_splits)

lemma tok_inv_add:
  assumes "tok_inv p ts n" "n < length ts" "int p \<le> tok_start t" "tok_ok p' t" "p \<le> p'"
  shows "tok_inv p' (ts[n := t]) (n + 1)"
proof -
  have "tok_nested (ts ! i) t" if "i < n" for i
  proof -
    have "tok_ok p (ts ! i)" using assms(1) that by (simp add: tok_inv_def)
    then show ?thesis using assms(3) by (auto simp: tok_ok_def tok_nested_def split: if_splits)
  qed
  then show ?thesis using tok_inv_mono [OF assms(1,5)] assms(2,4)
    by (auto simp: tok_inv_def nth_list_update less_Suc_eq)
qed

lemma last_tok_Some:
  "last_tok P ts n = Some i \<longleftrightarrow> i < n \<and> P (ts ! i) \<and> (\<forall>j. i < j \<and> j < n \<longrightarrow> \<not> P (ts ! j))"
  by (induction P ts n rule: last_tok.induct) (auto simp: less_Suc_eq)

lemma last_tok_None: "last_tok P ts n = None \<longleftrightarrow> (\<forall>i<n. \<not> P (ts ! i))"
  by (induction P ts n rule: last_tok.induct) (auto simp: less_Suc_eq)

lemma tok_inv_close:
  assumes inv: "tok_inv p ts n" and last: "last_tok tok_open ts n = Some i"
  shows "tok_inv (p + 1) (ts[i := (ts ! i)\<lparr>tok_end := int p + 1\<rparr>]) n"
proof -
  let ?t = "(ts ! i)\<lparr>tok_end := int p + 1\<rparr>"
  have i: "i < n" "n \<le> length ts" and op: "tok_open (ts ! i)" and ok: "\<And>j. j < n \<Longrightarrow> tok_ok p (ts ! j)"
    and nest: "\<And>j k. j < k \<Longrightarrow> k < n \<Longrightarrow> tok_nested (ts ! j) (ts ! k)"
    using inv last by (auto simp: tok_inv_def last_tok_Some)
  have "tok_nested (ts ! j) ?t" if "j < i" for j
    using ok [of j] ok [of i] nest [of j i] that i op
    by (auto simp: tok_nested_def tok_ok_def tok_open_def split: if_splits)
  moreover have "tok_nested ?t (ts ! j)" if "i < j" "j < n" for j
  proof -
    have "\<not> tok_open (ts ! j)" using last that by (auto simp: last_tok_Some)
    then show ?thesis using ok [of j] nest [of i j] that
      by (auto simp: tok_nested_def tok_ok_def tok_open_def split: if_splits)
  qed
  moreover have "tok_ok (p + 1) ?t" using ok [of i] i op by (auto simp: tok_ok_def)
  ultimately show ?thesis using tok_inv_mono [OF inv, of "p + 1"] i
    by (auto simp: tok_inv_def nth_list_update)
qed

lemma jsmn_inv_open:
  assumes inv: "jsmn_inv js (parser, Some ts, cnt)" and more: "pos parser < length js"
    and step: "open_bracket c (parser, Some ts, cnt) = Inr (parser', toks', cnt')"
  shows "jsmn_inv js (parser'\<lparr>pos := pos parser' + 1\<rparr>, toks', cnt')"
proof -
  let ?n = "toknext parser"
  have n: "?n < length ts" and par: "parser' = parser\<lparr>toknext := ?n + 1, toksuper := int ?n\<rparr>" "cnt' = cnt + 1"
    using step by (auto simp: open_bracket_def jsmn_alloc_token_def Let_def split: if_splits)
  define ts1 where "ts1 = ts[?n := (ts ! ?n)\<lparr>tok_start := -1, tok_end := -1, tok_size := 0\<rparr>]"
  define ts2 where "ts2 = the (super_inc (parser\<lparr>toknext := ?n + 1\<rparr>) (Some ts1))"
  define t where "t = (ts2 ! ?n)\<lparr>tok_type := (if c = CHR ''{'' then JSMN_OBJECT else JSMN_ARRAY),
                                    tok_start := int (pos parser)\<rparr>"
  have toks': "toks' = Some (ts2[?n := t])"
    using step n by (simp add: open_bracket_def jsmn_alloc_token_def Let_def ts1_def ts2_def t_def)
  have sup: "super_inc (parser\<lparr>toknext := ?n + 1\<rparr>) (Some ts1) = Some ts2"
    by (simp add: ts2_def super_inc_def)
  have len: "length ts2 = length ts" using super_inc_Some [OF sup] by (simp add: ts1_def)
  have "tok_inv (pos parser) ts1 ?n"
    using inv by (subst tok_inv_same [of _ ts]) (auto simp: jsmn_inv_def ts1_def)
  then have inv2: "tok_inv (pos parser) ts2 ?n" using tok_inv_super_inc [OF sup] n by (simp add: ts1_def)
  have "tok_end (ts2 ! ?n) = -1"
    using n by (auto simp: ts2_def ts1_def super_inc_def nth_upd_if)
  then have "tok_ok (pos parser + 1) t" by (simp add: t_def tok_ok_def is_container_def)
  then have "tok_inv (pos parser + 1) (ts2[?n := t]) (?n + 1)"
    using tok_inv_add [OF inv2, of t] n len by (simp add: t_def)
  then show ?thesis using inv more by (simp add: jsmn_inv_def par toks')
qed

lemma jsmn_inv_close:
  assumes inv: "jsmn_inv js (parser, Some ts, cnt)" and more: "pos parser < length js"
    and step: "close_bracket c (parser, Some ts, cnt) = Inr (parser', toks', cnt')"
  shows "jsmn_inv js (parser'\<lparr>pos := pos parser' + 1\<rparr>, toks', cnt')"
proof -
  obtain i where i: "last_tok tok_open ts (toknext parser) = Some i"
    using step by (auto simp: close_bracket_def Let_def split: option.splits)
  define ts' where "ts' = ts[i := (ts ! i)\<lparr>tok_end := int (pos parser) + 1\<rparr>]"
  define sup where "sup = (case last_tok tok_open ts' (i + 1) of None \<Rightarrow> -1 | Some j \<Rightarrow> int j)"
  have res: "parser' = parser\<lparr>toksuper := sup\<rparr>" "toks' = Some ts'" "cnt' = cnt"
    using step i by (auto simp: close_bracket_def Let_def ts'_def sup_def split: if_splits)
  have "-1 \<le> sup" "sup < int (toknext parser)"
    using i by (auto simp: sup_def last_tok_Some split: option.splits)
  moreover have "tok_inv (pos parser + 1) ts' (toknext parser)"
    using tok_inv_close [OF _ i] inv by (simp add: jsmn_inv_def ts'_def)
  ultimately show ?thesis using inv more by (simp add: jsmn_inv_def res)
qed

lemma store_token_inv:
  assumes inv: "tok_inv (pos parser) ts (toknext parser)"
    and st: "store_token parser (Some ts) ty s e = Some (parser', toks')"
    and bounds: "pos parser \<le> s" "s \<le> e" "s < p'" "e \<le> p'"
  shows "\<exists>ts'. toks' = Some ts' \<and> parser' = parser\<lparr>toknext := toknext parser + 1\<rparr> \<and>
               tok_inv p' ts' (toknext parser + 1)"
proof -
  have n: "toknext parser < length ts"
    using st by (auto simp: store_token_def jsmn_alloc_token_def split: if_splits)
  let ?t = "\<lparr>tok_type = ty, tok_start = int s, tok_end = int e, tok_size = 0\<rparr>"
  have "tok_ok p' ?t" using bounds by (simp add: tok_ok_def)
  then have "tok_inv p' (ts[toknext parser := ?t]) (toknext parser + 1)"
    using tok_inv_add [OF inv n, of ?t p'] bounds by simp
  then show ?thesis
    using st n by (auto simp: store_token_def jsmn_alloc_token_def jsmn_fill_token_def split: if_splits)
qed

lemma finish_value_inv:
  assumes "finish_value (p1, toks1, e) cnt = Inr (parser', toks', cnt')" "toks1 = Some ts1"
    and "tok_inv p' ts1 (toknext p1)"
  shows "\<exists>ts'. toks' = Some ts' \<and> parser' = p1 \<and> cnt' = cnt + 1 \<and> tok_inv p' ts' (toknext p1)"
proof -
  have res: "parser' = p1" "toks' = super_inc p1 (Some ts1)" "cnt' = cnt + 1"
    using assms(1,2) by (auto simp: finish_value_def split: if_splits)
  obtain ts' where ts': "super_inc p1 (Some ts1) = Some ts'" by (cases "toksuper p1 = -1") (auto simp: super_inc_def)
  then have "tok_inv p' ts' (toknext p1)"
    using tok_inv_super_inc [OF ts'] assms(3) by (auto simp: tok_inv_def)
  then show ?thesis using res ts' by simp
qed

lemma jsmn_inv_string:
  assumes inv: "jsmn_inv js (parser, Some ts, cnt)"
    and step: "finish_value (jsmn_parse_string parser js (Some ts)) cnt = Inr (parser', toks', cnt')"
  shows "jsmn_inv js (parser'\<lparr>pos := pos parser' + 1\<rparr>, toks', cnt')"
proof -
  have ti: "tok_inv (pos parser) ts (toknext parser)" using inv by (simp add: jsmn_inv_def)
  obtain q p1 t1 where q: "str_scan js (pos parser + 1) = Inr q"
    and st: "store_token parser (Some ts) JSMN_STRING (pos parser + 1) q = Some (p1, t1)"
    and fv: "finish_value (p1\<lparr>pos := q\<rparr>, t1, 0) cnt = Inr (parser', toks', cnt')"
    using step str_scan_error
    by (fastforce simp: jsmn_parse_string_def finish_value_def jsmn_errors split: sum.splits option.splits)
  have b: "pos parser + 1 \<le> q" "q < length js" using str_scan_bounds [OF q] by auto
  obtain ts1 where "t1 = Some ts1" "p1 = parser\<lparr>toknext := toknext parser + 1\<rparr>"
      "tok_inv (q + 1) ts1 (toknext parser + 1)"
    using store_token_inv [OF ti st, of "q + 1"] b by auto
  then show ?thesis using finish_value_inv [OF fv, of ts1 "q + 1"] inv b by (auto simp: jsmn_inv_def)
qed

lemma jsmn_inv_primitive:
  assumes inv: "jsmn_inv js (parser, Some ts, cnt)" and more: "more_input js (pos parser)"
    and ne: "\<not> is_prim_end (js ! pos parser)"
    and step: "finish_value (jsmn_parse_primitive parser js (Some ts)) cnt = Inr (parser', toks', cnt')"
  shows "jsmn_inv js (parser'\<lparr>pos := pos parser' + 1\<rparr>, toks', cnt')"
proof -
  have ti: "tok_inv (pos parser) ts (toknext parser)" using inv by (simp add: jsmn_inv_def)
  obtain q p1 t1 where q: "prim_scan js (pos parser) = Inr q"
    and st: "store_token parser (Some ts) JSMN_PRIMITIVE (pos parser) q = Some (p1, t1)"
    and fv: "finish_value (p1\<lparr>pos := q - 1\<rparr>, t1, 0) cnt = Inr (parser', toks', cnt')"
    using step prim_scan_error
    by (fastforce simp: jsmn_parse_primitive_def finish_value_def jsmn_errors split: sum.splits option.splits)
  have b: "pos parser < q" "q \<le> length js"
    using prim_scan_less [OF q more ne] prim_scan_bounds [OF q] inv by (auto simp: jsmn_inv_def)
  obtain ts1 where "t1 = Some ts1" "p1 = parser\<lparr>toknext := toknext parser + 1\<rparr>"
      "tok_inv q ts1 (toknext parser + 1)"
    using store_token_inv [OF ti st, of q] b by auto
  then show ?thesis using finish_value_inv [OF fv, of ts1 q] inv b by (auto simp: jsmn_inv_def)
qed

lemma jsmn_inv_skip:
  assumes "jsmn_inv js (parser, Some ts, cnt)" "pos parser < length js" "-1 \<le> s" "s < int (toknext parser)"
  shows "jsmn_inv js (parser\<lparr>toksuper := s, pos := pos parser + 1\<rparr>, Some ts, cnt)"
  using assms tok_inv_mono [of "pos parser" ts "toknext parser" "pos parser + 1"] by (simp add: jsmn_inv_def)

lemma jsmn_inv_comma:
  assumes inv: "jsmn_inv js (parser, Some ts, cnt)" and more: "pos parser < length js"
    and step: "comma (parser, Some ts, cnt) = (parser', toks', cnt')"
  shows "jsmn_inv js (parser'\<lparr>pos := pos parser' + 1\<rparr>, toks', cnt')"
proof -
  obtain s where "-1 \<le> s" "s < int (toknext parser)" "parser' = parser\<lparr>toksuper := s\<rparr>" "toks' = Some ts" "cnt' = cnt"
    using step inv
    by (fastforce simp: comma_def jsmn_inv_def last_tok_Some split: if_splits option.splits)
  then show ?thesis using jsmn_inv_skip [OF inv more, of s] by simp
qed

lemma jsmn_step_inv:
  assumes inv: "jsmn_inv js (parser, Some ts, cnt)" and more: "more_input js (pos parser)"
    and step: "jsmn_step js (parser, Some ts, cnt) = Inr (parser', toks', cnt')"
  shows "jsmn_inv js (parser'\<lparr>pos := pos parser' + 1\<rparr>, toks', cnt')"
proof -
  have lt: "pos parser < length js" using more by (simp add: more_input_def)
  have r: "-1 \<le> toksuper parser" "toksuper parser < int (toknext parser)"
    using inv by (auto simp: jsmn_inv_def)
  note ops = jsmn_inv_open [OF inv lt] jsmn_inv_close [OF inv lt] jsmn_inv_string [OF inv]
    jsmn_inv_primitive [OF inv more] jsmn_inv_comma [OF inv lt]
  show ?thesis
    using step ops jsmn_inv_skip [OF inv lt r] jsmn_inv_skip [OF inv lt, of "int (toknext parser) - 1"]
    by (auto simp: jsmn_step_def Let_def is_prim_end_def split: if_splits)
qed

lemma jsmn_step_stop:
  assumes "jsmn_step js (parser, Some ts, cnt) = Inl (parser', toks', r)"
  shows "r < 0 \<and> (toks' = Some ts) \<and> parser' = parser"
  using assms unfolding jsmn_step_defs store_token_def
  by (auto simp: Let_def jsmn_errors split: if_splits option.splits sum.splits prod.splits)

lemma jsmn_loop_inv:
  assumes "jsmn_inv js (parser, Some ts, cnt)" "jsmn_loop js (parser, Some ts, cnt) = (parser', toks', r)"
  shows "\<exists>ts'. toks' = Some ts' \<and> jsmn_inv js (parser', Some ts', toknext parser') \<and>
           (0 \<le> r \<longrightarrow> r = int (toknext parser') \<and> (\<forall>i < toknext parser'. tok_end (ts' ! i) \<noteq> -1))"
  using assms
proof (induction "length js - pos parser" arbitrary: parser ts cnt rule: less_induct)
  case less
  show ?case
  proof (cases "more_input js (pos parser)")
    case False
    have "tok_end (ts ! i) \<noteq> -1" if "\<not> tok_open (ts ! i)" "i < toknext parser" for i
      using less.prems(1) that by (auto simp: jsmn_inv_def tok_inv_def tok_ok_def tok_open_def)
    then show ?thesis using False less.prems
      by (auto simp: jsmn_loop.simps [of js parser] jsmn_end_def jsmn_errors last_tok_None jsmn_inv_def split: if_splits)
  next
    case True
    show ?thesis
    proof (cases "jsmn_step js (parser, Some ts, cnt)")
      case (Inl a)
      then show ?thesis using less.prems True jsmn_step_stop [of js parser ts cnt]
        by (cases a) (auto simp: jsmn_loop.simps [of js parser] jsmn_inv_def)
    next
      case (Inr b)
      obtain p1 t1 c1 where b: "b = (p1, t1, c1)" by (cases b)
      have inv1: "jsmn_inv js (p1\<lparr>pos := pos p1 + 1\<rparr>, t1, c1)"
        using jsmn_step_inv [OF less.prems(1) True] Inr b by simp
      then obtain ts1 where t1: "t1 = Some ts1" by (auto simp: jsmn_inv_def split: option.splits)
      have "pos parser \<le> pos p1" "pos p1 < length js" using jsmn_step_pos Inr b True by blast+
      then show ?thesis
        using less.hyps [of "p1\<lparr>pos := pos p1 + 1\<rparr>" ts1 c1] inv1 less.prems(2) True Inr b t1
        by (simp add: jsmn_loop.simps [of js parser])
    qed
  qed
qed

lemma jsmn_inv_init: "jsmn_inv js (jsmn_init, Some ts, 0)"
  by (simp add: jsmn_inv_def jsmn_init_def tok_inv_def)

definition blank_tok :: jsmntok where
  "blank_tok = \<lparr>tok_type = JSMN_UNDEFINED, tok_start = 0, tok_end = 0, tok_size = 0\<rparr>"

section \<open>Properties\<close>





end
