(* ===== verification/Fptr_List.thy ===== *)
theory Fptr_List
  imports Hclib_Prelude
begin

text \<open>
  \<^verbatim>\<open>src/src/hclib-fptr-list.c\<close>: the growable table of callbacks, indexed by locale type,
  that the memory operations and the locality graph use. A C pointer to the list that may be
  null is an \<open>option\<close>; a null function pointer is \<open>None\<close>.
\<close>

section \<open>Model\<close>

definition MUST_USE :: int where "MUST_USE = 1"
definition MAY_USE :: int where "MAY_USE = 2"

record 'f fptr_list =
  fptrs :: "'f option list"
  priorities :: "int list"
  capacity :: nat

definition empty_fptr_list :: "'f fptr_list" where
  "empty_fptr_list = \<lparr>fptrs = [], priorities = [], capacity = 0\<rparr>"

definition grow_fptr_list :: "'f fptr_list \<Rightarrow> nat \<Rightarrow> 'f fptr_list" where
  "grow_fptr_list l needed =
     (if needed > capacity l
      then \<lparr>fptrs = fptrs l @ replicate (needed - capacity l) None,
            priorities = priorities l @ replicate (needed - capacity l) 0,
            capacity = needed\<rparr>
      else l)"

text \<open>
  \<^verbatim>\<open>needed_capacity\<close> is \<^verbatim>\<open>(size_t)(index + 1)\<close>; for a negative index it is 0 or close to
  \<open>2 ^ 64\<close>, and the table is then accessed outside its allocation.
\<close>

definition hclib_register_func ::
  "'f fptr_list option \<Rightarrow> int \<Rightarrow> 'f option \<Rightarrow> int \<Rightarrow> 'f fptr_list result" where
  "hclib_register_func lp index fptr priority =
     res_bind (c_assert (priority = MUST_USE \<or> priority = MAY_USE)) (\<lambda>_.
     if index < 0 then Inl Out_of_bounds else
     let l0 = (case lp of None \<Rightarrow> empty_fptr_list | Some l \<Rightarrow> l);
         l = grow_fptr_list l0 (nat (index + 1))
     in res_bind (arr_get (fptrs l) index) (\<lambda>old.
        res_bind (c_assert (old = None)) (\<lambda>_.
        res_bind (arr_set (fptrs l) index fptr) (\<lambda>fs.
        res_bind (arr_set (priorities l) index priority) (\<lambda>ps.
        Inr (l\<lparr>fptrs := fs, priorities := ps\<rparr>))))))"

definition hclib_get_func_for :: "'f fptr_list option \<Rightarrow> int \<Rightarrow> 'f option result" where
  "hclib_get_func_for lp index =
     (case lp of None \<Rightarrow> Inl Assert_failed
      | Some l \<Rightarrow> if index < int (capacity l) then arr_get (fptrs l) index else Inr None)"

definition hclib_has_func_for :: "'f fptr_list option \<Rightarrow> int \<Rightarrow> bool result" where
  "hclib_has_func_for lp index =
     (case lp of None \<Rightarrow> Inr False
      | Some l \<Rightarrow> if int (capacity l) > index
                  then res_bind (arr_get (fptrs l) index) (\<lambda>f. Inr (f \<noteq> None))
                  else Inr False)"

definition hclib_get_priority_for :: "'f fptr_list option \<Rightarrow> int \<Rightarrow> int result" where
  "hclib_get_priority_for lp index =
     (case lp of None \<Rightarrow> Inl Assert_failed | Some l \<Rightarrow> arr_get (priorities l) index)"

section \<open>Well-formedness and the abstract table\<close>

definition fptr_wf :: "'f fptr_list option \<Rightarrow> bool" where
  "fptr_wf lp = (case lp of None \<Rightarrow> True
     | Some l \<Rightarrow> length (fptrs l) = capacity l \<and> length (priorities l) = capacity l)"

text \<open>The table a list stands for: which callback, with which priority, each index has.\<close>

definition fptr_abs :: "'f fptr_list option \<Rightarrow> nat \<rightharpoonup> 'f \<times> int" where
  "fptr_abs lp i = (case lp of None \<Rightarrow> None
     | Some l \<Rightarrow> if i < capacity l then map_option (\<lambda>f. (f, priorities l ! i)) (fptrs l ! i) else None)"

text \<open>A chain of registrations, the way a module's initialisation makes them.\<close>

fun register_all :: "('t \<Rightarrow> int \<Rightarrow> 'f option \<Rightarrow> int \<Rightarrow> 't result) \<Rightarrow> 't \<Rightarrow> (nat \<times> 'f \<times> int) list \<Rightarrow> 't result" where
  "register_all reg t [] = Inr t"
| "register_all reg t ((i, f, p) # rs) = res_bind (reg t (int i) (Some f) p) (\<lambda>t'. register_all reg t' rs)"

text \<open>
  What the clients of the table rely on: a lookup finds exactly what was registered, and a
  second registration at the same index is refused.
\<close>

locale callback_table =
  fixes register :: "'t \<Rightarrow> int \<Rightarrow> 'f option \<Rightarrow> int \<Rightarrow> 't result"
    and get_func :: "'t \<Rightarrow> int \<Rightarrow> 'f option result"
    and has_func :: "'t \<Rightarrow> int \<Rightarrow> bool result"
    and wf :: "'t \<Rightarrow> bool"
    and tab :: "'t \<Rightarrow> nat \<rightharpoonup> 'f \<times> int"
  assumes register_fresh: "wf t \<Longrightarrow> p = MUST_USE \<or> p = MAY_USE \<Longrightarrow> tab t i = None \<Longrightarrow>
      \<exists>t'. register t (int i) (Some f) p = Inr t' \<and> wf t' \<and> tab t' = (tab t)(i \<mapsto> (f, p))"
    and register_taken: "wf t \<Longrightarrow> tab t i \<noteq> None \<Longrightarrow> register t (int i) g p = Inl Assert_failed"
    and get_func_tab: "wf t \<Longrightarrow> tab t i = Some (f, p) \<Longrightarrow> get_func t (int i) = Inr (Some f)"
    and has_func_tab: "wf t \<Longrightarrow> has_func t (int i) = Inr (tab t i \<noteq> None)"
begin

lemma register_all_ok:
  assumes "wf t" "distinct (map fst rs)" "\<forall>(i, f, p) \<in> set rs. tab t i = None \<and> (p = MUST_USE \<or> p = MAY_USE)"
  shows "\<exists>t'. register_all register t rs = Inr t' \<and> wf t' \<and> tab t' = tab t ++ map_of rs"
  using assms
proof (induction rs arbitrary: t)
  case Nil
  then show ?case by simp
next
  case (Cons r rs)
  obtain i f p where r: "r = (i, f, p)" by (cases r)
  from Cons.prems r obtain t1 where t1: "register t (int i) (Some f) p = Inr t1" "wf t1"
    "tab t1 = (tab t)(i \<mapsto> (f, p))"
    using register_fresh [of t p i f] by auto
  have "\<exists>t'. register_all register t1 rs = Inr t' \<and> wf t' \<and> tab t' = tab t1 ++ map_of rs"
  proof (rule Cons.IH)
    show "\<forall>(j, g, q) \<in> set rs. tab t1 j = None \<and> (q = MUST_USE \<or> q = MAY_USE)"
      using Cons.prems r t1(3) by (force simp: image_iff)
  qed (use Cons.prems t1 in auto)
  moreover have "map_of rs i = None"
    using Cons.prems(2) r by (simp add: map_of_eq_None_iff)
  then have "tab t1 ++ map_of rs = tab t ++ map_of (r # rs)"
    using r t1(3) by (auto simp: fun_eq_iff map_add_def split: option.splits)
  ultimately show ?case using r t1(1) by (simp del: map_of.simps)
qed

lemma has_func_after_register:
  "wf t \<Longrightarrow> p = MUST_USE \<or> p = MAY_USE \<Longrightarrow> tab t i = None \<Longrightarrow>
   \<exists>t'. register t (int i) (Some f) p = Inr t' \<and>
        (\<forall>j. has_func t' (int j) = Inr (j = i \<or> tab t j \<noteq> None)) \<and>
        get_func t' (int i) = Inr (Some f)"
  using register_fresh [of t p i f] has_func_tab get_func_tab by fastforce

end

section \<open>The C list implements the table\<close>

lemma fptr_wf_grow: "fptr_wf (Some l) \<Longrightarrow> fptr_wf (Some (grow_fptr_list l n))"
  by (simp add: fptr_wf_def grow_fptr_list_def)

lemma fptr_abs_grow: "fptr_wf (Some l) \<Longrightarrow> fptr_abs (Some (grow_fptr_list l n)) = fptr_abs (Some l)"
  by (auto simp: fun_eq_iff fptr_abs_def grow_fptr_list_def fptr_wf_def nth_append)

lemma fptr_wf_empty: "fptr_wf (Some empty_fptr_list)" "fptr_abs (Some empty_fptr_list) = fptr_abs None"
  by (auto simp: fptr_wf_def empty_fptr_list_def fptr_abs_def fun_eq_iff)

lemma capacity_grow: "capacity (grow_fptr_list l n) = max (capacity l) n"
  by (simp add: grow_fptr_list_def)

lemma grow_obtain:
  assumes "fptr_wf lp"
  obtains l where "l = grow_fptr_list (case lp of None \<Rightarrow> empty_fptr_list | Some l \<Rightarrow> l) (nat (int i + 1))"
    "fptr_wf (Some l)" "fptr_abs (Some l) = fptr_abs lp" "i < capacity l"
proof (rule that [OF refl])
  let ?l0 = "case lp of None \<Rightarrow> empty_fptr_list | Some l \<Rightarrow> l"
  have l0: "fptr_wf (Some ?l0)" "fptr_abs (Some ?l0) = fptr_abs lp"
    using assms by (cases lp; simp add: fptr_wf_empty)+
  show "fptr_wf (Some (grow_fptr_list ?l0 (nat (int i + 1))))"
    using l0 by (simp add: fptr_wf_grow)
  show "fptr_abs (Some (grow_fptr_list ?l0 (nat (int i + 1)))) = fptr_abs lp"
    using l0 by (simp add: fptr_abs_grow)
  show "i < capacity (grow_fptr_list ?l0 (nat (int i + 1)))"
    by (simp add: capacity_grow)
qed

lemma register_fresh_aux:
  assumes "fptr_wf lp" "p = MUST_USE \<or> p = MAY_USE" "fptr_abs lp i = None"
  shows "\<exists>l. hclib_register_func lp (int i) (Some f) p = Inr l \<and> fptr_wf (Some l) \<and>
             fptr_abs (Some l) = (fptr_abs lp)(i \<mapsto> (f, p))"
proof -
  from grow_obtain [OF assms(1)] obtain l where
    l: "l = grow_fptr_list (case lp of None \<Rightarrow> empty_fptr_list | Some l \<Rightarrow> l) (nat (int i + 1))"
    "fptr_wf (Some l)" "fptr_abs (Some l) = fptr_abs lp" "i < capacity l" .
  have len: "length (fptrs l) = capacity l" "length (priorities l) = capacity l"
    using l(2) by (simp_all add: fptr_wf_def)
  have free: "fptrs l ! i = None"
    using fun_cong [OF l(3), of i] l(4) assms(3) by (simp add: fptr_abs_def)
  let ?r = "l\<lparr>fptrs := (fptrs l)[i := Some f], priorities := (priorities l)[i := p]\<rparr>"
  have "hclib_register_func lp (int i) (Some f) p = Inr ?r"
    using assms(2) free len l(1,4) by (simp add: hclib_register_func_def Let_def)
  moreover have "fptr_wf (Some ?r)" using len by (simp add: fptr_wf_def)
  moreover have "fptr_abs (Some ?r) = (fptr_abs (Some l))(i \<mapsto> (f, p))"
    using len l(4) by (auto simp: fptr_abs_def fun_eq_iff)
  ultimately show ?thesis using l(3) by auto
qed

lemma register_taken_aux:
  assumes "fptr_wf lp" "fptr_abs lp i \<noteq> None"
  shows "hclib_register_func lp (int i) g p = Inl Assert_failed"
proof -
  from grow_obtain [OF assms(1)] obtain l where
    l: "l = grow_fptr_list (case lp of None \<Rightarrow> empty_fptr_list | Some l \<Rightarrow> l) (nat (int i + 1))"
    "fptr_wf (Some l)" "fptr_abs (Some l) = fptr_abs lp" "i < capacity l" .
  have "fptr_abs (Some l) i \<noteq> None" "length (fptrs l) = capacity l"
    using l(2,3) assms(2) by (simp_all add: fptr_wf_def)
  then have "arr_get (fptrs l) (int i) = Inr (fptrs l ! i)" "fptrs l ! i \<noteq> None"
    using l(4) by (simp_all add: fptr_abs_def)
  then show ?thesis
    by (auto simp: hclib_register_func_def Let_def c_assert_def simp flip: l(1))
qed

definition table_register :: "'f fptr_list option \<Rightarrow> int \<Rightarrow> 'f option \<Rightarrow> int \<Rightarrow> 'f fptr_list option result" where
  "table_register lp i f p = res_bind (hclib_register_func lp i f p) (\<lambda>l. Inr (Some l))"

interpretation fl: callback_table table_register hclib_get_func_for hclib_has_func_for fptr_wf fptr_abs
proof unfold_locales
  fix t :: "'a fptr_list option" and p :: int and i :: nat and f :: 'a
  assume "fptr_wf t" "p = MUST_USE \<or> p = MAY_USE" "fptr_abs t i = None"
  from register_fresh_aux [OF this, of f]
  show "\<exists>t'. table_register t (int i) (Some f) p = Inr t' \<and> fptr_wf t' \<and> fptr_abs t' = (fptr_abs t)(i \<mapsto> (f, p))"
    by (auto simp: table_register_def)
qed (auto simp: register_taken_aux table_register_def hclib_get_func_for_def hclib_has_func_for_def
       fptr_abs_def fptr_wf_def split: option.splits if_splits)

section \<open>Properties\<close>

text \<open>
  Callbacks registered at pairwise different indices of an initially \<^verbatim>\<open>NULL\<close> list, with
  valid priorities, are all accepted, in any order of indices. Afterwards a lookup
  reports a callback exactly at the registered indices and returns it with its
  priority, and registering one of these indices again aborts.
\<close>

theorem fptr_table_correct:
  fixes rs :: "(nat \<times> 'f \<times> int) list"
  assumes "distinct (map fst rs)" "\<forall>(i, f, p) \<in> set rs. p = MUST_USE \<or> p = MAY_USE"
  shows "\<exists>lp. register_all table_register None rs = Inr lp \<and>
    (\<forall>i. hclib_has_func_for lp (int i) = Inr (i \<in> fst ` set rs)) \<and>
    (\<forall>(i, f, p) \<in> set rs. hclib_get_func_for lp (int i) = Inr (Some f) \<and>
        hclib_get_priority_for lp (int i) = Inr p \<and>
        hclib_register_func lp (int i) g q = Inl Assert_failed)"
proof -
  have "fptr_wf (None :: 'f fptr_list option)" "fptr_abs (None :: 'f fptr_list option) = Map.empty"
    by (simp_all add: fptr_wf_def fptr_abs_def fun_eq_iff)
  then obtain lp where lp: "register_all table_register None rs = Inr lp" "fptr_wf lp"
      "fptr_abs lp = map_of rs"
    using fl.register_all_ok [of None rs] assms by auto
  have "hclib_get_func_for lp (int i) = Inr (Some f) \<and> hclib_get_priority_for lp (int i) = Inr p \<and>
        hclib_register_func lp (int i) g q = Inl Assert_failed" if "(i, f, p) \<in> set rs" for i f p
  proof -
    have m: "fptr_abs lp i = Some (f, p)" using that assms(1) lp(3) by simp
    then have "hclib_get_priority_for lp (int i) = Inr p"
      using lp(2) by (auto simp: fptr_abs_def hclib_get_priority_for_def fptr_wf_def split: option.splits if_splits)
    then show ?thesis using m lp(2) by (simp add: fl.get_func_tab register_taken_aux)
  qed
  moreover have "hclib_has_func_for lp (int i) = Inr (i \<in> fst ` set rs)" for i
    using fl.has_func_tab [OF lp(2), of i] lp(3) by (simp add: map_of_eq_None_iff)
  ultimately show ?thesis using lp(1) by blast
qed

theorem fptr_table_correct_witness:
  "\<exists>lp. register_all table_register None [(3, ''alloc'', MUST_USE), (0, ''host'', MAY_USE)] = Inr lp \<and>
     hclib_has_func_for lp (int 2) = Inr False \<and> hclib_get_func_for lp (int 3) = Inr (Some ''alloc'')"
proof -
  let ?rs = "[(3 :: nat, ''alloc'', MUST_USE), (0, ''host'', MAY_USE)]"
  obtain lp where "register_all table_register None ?rs = Inr lp"
      "\<forall>i. hclib_has_func_for lp (int i) = Inr (i \<in> fst ` set ?rs)"
      "hclib_get_func_for lp (int 3) = Inr (Some ''alloc'')"
    using fptr_table_correct [of ?rs None 0] by auto
  moreover from this(2) have "hclib_has_func_for lp (int 2) = Inr (2 \<in> fst ` set ?rs)" by blast
  ultimately show ?thesis by auto
qed

end
