(* ===== verification/Task_Deque.thy ===== *)
theory Task_Deque
  imports Hclib_Prelude
begin

text \<open>
  \<^verbatim>\<open>src/src/hclib-deque.c\<close>: the ring buffer that holds the ready tasks of one worker at one
  locale, as one thread sees it when no other thread interferes (the interleavings with
  thieves are in the theory \<^verbatim>\<open>Deque_Concurrent\<close>). \<^verbatim>\<open>head\<close> and \<^verbatim>\<open>tail\<close> are C \<^verbatim>\<open>int\<close>s and
  wrap; the slot index is the C remainder, which is negative for a negative counter.
\<close>

section \<open>Model\<close>

definition INIT_DEQUE_CAPACITY :: int where "INIT_DEQUE_CAPACITY = 1048576"
definition STEAL_CHUNK_SIZE :: nat where "STEAL_CHUNK_SIZE = 1"

record 'a deque =
  head :: int
  tail :: int
  slots :: "nat \<Rightarrow> 'a option"

definition deque_init :: "'a deque \<Rightarrow> 'a deque" where
  "deque_init deq = deq\<lparr>head := 0, tail := 0\<rparr>"

definition new_deque :: "'a deque" where
  "new_deque = \<lparr>head = 0, tail = 0, slots = (\<lambda>_. None)\<rparr>"

definition slot_index :: "int \<Rightarrow> nat result" where
  "slot_index i = (let n = i smod INIT_DEQUE_CAPACITY in if n < 0 then Inl Out_of_bounds else Inr (nat n))"

definition deque_push :: "'a deque \<Rightarrow> 'a \<Rightarrow> ('a deque \<times> bool) result" where
  "deque_push deq entry =
     (let size = wrap32 (tail deq - head deq)
      in if size = INIT_DEQUE_CAPACITY then Inr (deq, False)
         else res_bind (slot_index (tail deq)) (\<lambda>n.
              Inr (deq\<lparr>slots := (slots deq)(n := Some entry), tail := wrap32 (tail deq + 1)\<rparr>, True)))"

text \<open>
  The steal loop, run without interference: the compare-and-swap on \<^verbatim>\<open>head\<close> succeeds. The
  first argument counts the tasks that may still be stolen.
\<close>

fun steal_loop :: "nat \<Rightarrow> 'a deque \<Rightarrow> ('a deque \<times> 'a option list) result" where
  "steal_loop 0 deq = Inr (deq, [])"
| "steal_loop (Suc k) deq =
     (if wrap32 (tail deq - head deq) \<le> 0 then Inr (deq, [])
      else res_bind (slot_index (head deq)) (\<lambda>n.
           res_bind (steal_loop k (deq\<lparr>head := wrap32 (head deq + 1)\<rparr>)) (\<lambda>(deq', ts).
           Inr (deq', slots deq n # ts))))"

definition deque_steal :: "'a deque \<Rightarrow> ('a deque \<times> 'a option list) result" where
  "deque_steal deq = steal_loop STEAL_CHUNK_SIZE deq"

definition deque_pop :: "'a deque \<Rightarrow> ('a deque \<times> 'a option) result" where
  "deque_pop deq =
     (let t = wrap32 (tail deq - 1);
          deq1 = deq\<lparr>tail := t\<rparr>;
          size = wrap32 (t - head deq1)
      in if size < 0 then Inr (deq1\<lparr>tail := head deq1\<rparr>, None)
         else res_bind (slot_index t) (\<lambda>n.
              let x = slots deq1 n in
              if size > 0 then Inr (deq1, x)
              else let deq2 = deq1\<lparr>head := wrap32 (head deq1 + 1)\<rparr>
                   in Inr (deq2\<lparr>tail := head deq2\<rparr>, x)))"

definition deque_size :: "'a deque \<Rightarrow> nat" where
  "deque_size deq = (let size = wrap32 (tail deq - head deq) in if size \<le> 0 then 0 else nat size)"

section \<open>The list a deque stands for\<close>

definition MAX_INT :: int where "MAX_INT = 2147483647"

definition deque_wf :: "'a deque \<Rightarrow> bool" where
  "deque_wf q \<longleftrightarrow> 0 \<le> head q \<and> head q \<le> tail q \<and> tail q \<le> MAX_INT \<and>
     tail q - head q \<le> INIT_DEQUE_CAPACITY \<and>
     (\<forall>i. head q \<le> i \<longrightarrow> i < tail q \<longrightarrow> slots q (nat (i mod INIT_DEQUE_CAPACITY)) \<noteq> None)"

definition deque_list :: "'a deque \<Rightarrow> 'a list" where
  "deque_list q = map (\<lambda>i. the (slots q (nat (i mod INIT_DEQUE_CAPACITY)))) [head q..tail q - 1]"

lemmas deque_consts = INIT_DEQUE_CAPACITY_def MAX_INT_def

lemma slot_index_nonneg: "0 \<le> i \<Longrightarrow> slot_index i = Inr (nat (i mod INIT_DEQUE_CAPACITY))"
  using pos_mod_sign [of 1048576 i]
  by (simp add: slot_index_def INIT_DEQUE_CAPACITY_def signed_modulo_int_def signed_divide_int_def
      minus_div_mult_eq_mod sgn_if Let_def del: pos_mod_sign)

lemma wf_size: "deque_wf q \<Longrightarrow> wrap32 (tail q - head q) = tail q - head q"
  by (rule wrap32_id) (simp_all add: deque_wf_def deque_consts)

lemma deque_list_length: "deque_wf q \<Longrightarrow> length (deque_list q) = nat (tail q - head q)"
  by (simp add: deque_list_def)

lemma mod_cap_inj:
  "\<bar>i - j\<bar> < INIT_DEQUE_CAPACITY \<Longrightarrow> i mod INIT_DEQUE_CAPACITY = j mod INIT_DEQUE_CAPACITY \<Longrightarrow> i = j"
proof -
  assume small: "\<bar>i - j\<bar> < INIT_DEQUE_CAPACITY"
    and "i mod INIT_DEQUE_CAPACITY = j mod INIT_DEQUE_CAPACITY"
  then have "INIT_DEQUE_CAPACITY dvd i - j" by (simp add: mod_eq_dvd_iff)
  with small show "i = j"
    using dvd_imp_le_int [of "i - j" INIT_DEQUE_CAPACITY] by (force simp: INIT_DEQUE_CAPACITY_def)
qed

lemma slot_neq:
  "\<bar>i - j\<bar> < INIT_DEQUE_CAPACITY \<Longrightarrow> i \<noteq> j \<Longrightarrow>
   nat (i mod INIT_DEQUE_CAPACITY) \<noteq> nat (j mod INIT_DEQUE_CAPACITY)"
  using mod_cap_inj [of i j] by (auto simp: INIT_DEQUE_CAPACITY_def nat_eq_iff)

lemma deque_wf_new: "deque_wf new_deque" "deque_list new_deque = []"
  by (simp_all add: deque_wf_def new_deque_def deque_list_def deque_consts)

lemma upto_snoc: "i \<le> j \<Longrightarrow> [i..j] = [i..j - 1] @ [j]"
  by (rule upto_rec2)

lemma push_room:
  assumes "deque_wf q" "length (deque_list q) < nat INIT_DEQUE_CAPACITY" "tail q < MAX_INT"
  shows "\<exists>q'. deque_push q x = Inr (q', True) \<and> deque_wf q' \<and> deque_list q' = deque_list q @ [x] \<and>
              head q' = head q \<and> tail q' = tail q + 1"
proof -
  let ?n = "nat (tail q mod INIT_DEQUE_CAPACITY)"
  let ?q' = "q\<lparr>slots := (slots q)(?n := Some x), tail := tail q + 1\<rparr>"
  have b: "0 \<le> head q" "head q \<le> tail q" "tail q - head q < INIT_DEQUE_CAPACITY"
    using assms(1,2) deque_list_length [OF assms(1)] by (auto simp: deque_wf_def deque_consts)
  have keep: "slots ?q' (nat (i mod INIT_DEQUE_CAPACITY)) = slots q (nat (i mod INIT_DEQUE_CAPACITY))"
    if "head q \<le> i" "i < tail q" for i
    using slot_neq [of i "tail q"] that b by simp
  have "deque_push q x = Inr (?q', True)"
    using b assms wf_size [OF assms(1)] by (simp add: deque_push_def slot_index_nonneg MAX_INT_def)
  moreover have "deque_wf ?q'"
    using assms(1,3) b keep by (auto simp: deque_wf_def)
  moreover have "deque_list ?q' = deque_list q @ [x]"
    using b keep by (simp add: deque_list_def upto_snoc [of "head q" "tail q"] del: upto.simps)
  ultimately show ?thesis by auto
qed

lemma push_full:
  "deque_wf q \<Longrightarrow> length (deque_list q) = nat INIT_DEQUE_CAPACITY \<Longrightarrow> deque_push q x = Inr (q, False)"
  using deque_list_length [of q] wf_size [of q] by (auto simp: deque_push_def deque_wf_def deque_consts)

lemma pop_empty:
  assumes "deque_wf q" "deque_list q = []"
  shows "\<exists>q'. deque_pop q = Inr (q', None) \<and> deque_wf q' \<and> deque_list q' = [] \<and> head q' = head q \<and> tail q' = tail q"
proof -
  have "tail q = head q" "0 \<le> head q" "tail q \<le> MAX_INT"
    using assms deque_list_length [of q] by (auto simp: deque_wf_def)
  with assms show ?thesis
    by (simp add: deque_pop_def deque_wf_def deque_list_def MAX_INT_def)
qed

lemma pop_nonempty:
  assumes "deque_wf q" "deque_list q = xs @ [x]"
  shows "\<exists>q'. deque_pop q = Inr (q', Some x) \<and> deque_wf q' \<and> deque_list q' = xs"
proof -
  have b: "0 \<le> head q" "head q < tail q" "tail q \<le> MAX_INT" "tail q - head q \<le> INIT_DEQUE_CAPACITY"
    using assms deque_list_length [of q] by (auto simp: deque_wf_def)
  let ?n = "nat ((tail q - 1) mod INIT_DEQUE_CAPACITY)"
  have last: "slots q ?n = Some x"
    and init: "xs = map (\<lambda>i. the (slots q (nat (i mod INIT_DEQUE_CAPACITY)))) [head q..tail q - 1 - 1]"
    using assms b upto_snoc [of "head q" "tail q - 1"]
    by (auto simp: deque_list_def deque_wf_def simp del: upto.simps)
  have w: "wrap32 (tail q - 1) = tail q - 1" "wrap32 (tail q - 1 - head q) = tail q - 1 - head q"
    "wrap32 (head q + 1) = head q + 1"
    using b by (auto intro!: wrap32_id simp: deque_consts)
  show ?thesis
  proof (cases "tail q - 1 = head q")
    case True
    then have "xs = []" using init by simp
    moreover have "deque_pop q = Inr (q\<lparr>head := head q + 1, tail := head q + 1\<rparr>, Some x)"
      using True b last w by (simp add: deque_pop_def slot_index_nonneg Let_def)
    ultimately show ?thesis
      using True b by (auto simp: deque_wf_def deque_list_def deque_consts)
  next
    case False
    then have "deque_pop q = Inr (q\<lparr>tail := tail q - 1\<rparr>, Some x)"
      using b last w by (simp add: deque_pop_def slot_index_nonneg)
    then show ?thesis
      using False assms(1) b init by (auto simp: deque_wf_def deque_list_def)
  qed
qed

lemma steal_empty:
  assumes "deque_wf q" "deque_list q = []"
  shows "deque_steal q = Inr (q, [])"
proof -
  have "tail q = head q" using assms deque_list_length [of q] by (auto simp: deque_wf_def)
  then show ?thesis by (simp add: deque_steal_def STEAL_CHUNK_SIZE_def)
qed

lemma steal_nonempty:
  assumes "deque_wf q" "deque_list q = x # xs"
  shows "\<exists>q'. deque_steal q = Inr (q', [Some x]) \<and> deque_wf q' \<and> deque_list q' = xs"
proof -
  have b: "0 \<le> head q" "head q < tail q" "tail q \<le> MAX_INT" "tail q - head q \<le> INIT_DEQUE_CAPACITY"
    using assms deque_list_length [of q] by (auto simp: deque_wf_def)
  let ?n = "nat (head q mod INIT_DEQUE_CAPACITY)"
  have "[head q..tail q - 1] = head q # [head q + 1..tail q - 1]" using b by (simp add: upto_rec1)
  then have first: "slots q ?n = Some x"
    and rest: "xs = map (\<lambda>i. the (slots q (nat (i mod INIT_DEQUE_CAPACITY)))) [head q + 1..tail q - 1]"
    using assms b by (auto simp: deque_list_def deque_wf_def)
  have w: "wrap32 (head q + 1) = head q + 1" using b by (intro wrap32_id) (auto simp: deque_consts)
  have "deque_steal q = Inr (q\<lparr>head := head q + 1\<rparr>, [Some x])"
    using b first wf_size [OF assms(1)] w
    by (simp add: deque_steal_def STEAL_CHUNK_SIZE_def slot_index_nonneg)
  moreover have "deque_wf (q\<lparr>head := head q + 1\<rparr>)" using assms(1) b by (auto simp: deque_wf_def)
  moreover have "deque_list (q\<lparr>head := head q + 1\<rparr>) = xs" using rest by (simp add: deque_list_def)
  ultimately show ?thesis by blast
qed

lemma size_list: "deque_wf q \<Longrightarrow> deque_size q = length (deque_list q)"
  using wf_size [of q] deque_list_length [of q] by (auto simp: deque_size_def Let_def deque_wf_def)


section \<open>The contract with the scheduler\<close>

text \<open>
  What the scheduler relies on: the owner works at one end, thieves take from the other, and
  nothing is lost or invented. \<open>room\<close> says that a push is possible.
\<close>

locale work_queue =
  fixes push :: "'q \<Rightarrow> 'a \<Rightarrow> ('q \<times> bool) result"
    and pop :: "'q \<Rightarrow> ('q \<times> 'a option) result"
    and steal :: "'q \<Rightarrow> ('q \<times> 'a option list) result"
    and wf :: "'q \<Rightarrow> bool"
    and room :: "'q \<Rightarrow> bool"
    and elems :: "'q \<Rightarrow> 'a list"
  assumes push_ok: "wf q \<Longrightarrow> room q \<Longrightarrow> \<exists>q'. push q x = Inr (q', True) \<and> wf q' \<and> elems q' = elems q @ [x]"
    and pop_none: "wf q \<Longrightarrow> elems q = [] \<Longrightarrow> \<exists>q'. pop q = Inr (q', None) \<and> wf q' \<and> elems q' = []"
    and pop_some: "wf q \<Longrightarrow> elems q = xs @ [x] \<Longrightarrow> \<exists>q'. pop q = Inr (q', Some x) \<and> wf q' \<and> elems q' = xs"
    and steal_none: "wf q \<Longrightarrow> elems q = [] \<Longrightarrow> steal q = Inr (q, [])"
    and steal_some: "wf q \<Longrightarrow> elems q = x # xs \<Longrightarrow> \<exists>q'. steal q = Inr (q', [Some x]) \<and> wf q' \<and> elems q' = xs"
begin

lemma pop_total:
  assumes "wf q"
  obtains q' r where "pop q = Inr (q', r)" "wf q'"
    "mset (elems q) = mset (elems q') + (case r of None \<Rightarrow> {#} | Some x \<Rightarrow> {#x#})"
    "r = None \<longleftrightarrow> elems q = []"
proof (cases "elems q" rule: rev_cases)
  case Nil
  with pop_none [OF assms] that show ?thesis by fastforce
next
  case (snoc xs x)
  with pop_some [OF assms snoc] that show ?thesis by fastforce
qed

lemma steal_total:
  assumes "wf q"
  obtains q' rs where "steal q = Inr (q', map Some rs)" "wf q'"
    "elems q = rs @ elems q'" "rs = [] \<longleftrightarrow> elems q = []" "length rs \<le> 1"
proof (cases "elems q")
  case Nil
  with steal_none [OF assms] assms that [of q "[]"] show ?thesis by simp
next
  case (Cons x xs)
  with steal_some [OF assms Cons] that [of _ "[x]"] show ?thesis by fastforce
qed

text \<open>The owner sees a stack: a push followed by a pop gives the entry back.\<close>

lemma push_pop:
  assumes "wf q" "room q"
  shows "\<exists>q1 q2. push q x = Inr (q1, True) \<and> pop q1 = Inr (q2, Some x) \<and> wf q2 \<and> elems q2 = elems q"
  using push_ok [OF assms, of x] pop_some by fastforce

text \<open>Thieves see a queue: they get the oldest entry, whatever is pushed behind it.\<close>

lemma push_steal:
  assumes "wf q" "room q" "elems q = y # ys"
  shows "\<exists>q1 q2. push q x = Inr (q1, True) \<and> steal q1 = Inr (q2, [Some y]) \<and> wf q2 \<and> elems q2 = ys @ [x]"
  using push_ok [OF assms(1,2), of x] assms(3) steal_some by fastforce

end

definition deque_room :: "'a deque \<Rightarrow> bool" where
  "deque_room q \<longleftrightarrow> length (deque_list q) < nat INIT_DEQUE_CAPACITY \<and> tail q < MAX_INT"

interpretation dq: work_queue deque_push deque_pop deque_steal deque_wf deque_room deque_list
proof unfold_locales
  fix q :: "'a deque" and x xs
  show "deque_wf q \<Longrightarrow> deque_room q \<Longrightarrow>
      \<exists>q'. deque_push q x = Inr (q', True) \<and> deque_wf q' \<and> deque_list q' = deque_list q @ [x]"
    using push_room [of q x] by (auto simp: deque_room_def)
  show "deque_wf q \<Longrightarrow> deque_list q = [] \<Longrightarrow> \<exists>q'. deque_pop q = Inr (q', None) \<and> deque_wf q' \<and> deque_list q' = []"
    using pop_empty [of q] by auto
qed (simp_all add: pop_nonempty steal_empty steal_nonempty)

section \<open>Properties\<close>

text \<open>
  C17: The ring buffer refines a double-ended list. With room, \<^verbatim>\<open>deque_push\<close> appends at the tail;
  a full buffer refuses the entry and is unchanged; \<^verbatim>\<open>deque_pop\<close> takes the newest entry and
  \<^verbatim>\<open>deque_steal\<close> the oldest, both leave the rest; on an empty buffer both find nothing; and
  \<^verbatim>\<open>deque_size\<close> is the length.
\<close>
theorem deque_refines_list:
  assumes "deque_wf q"
  shows "(deque_room q \<longrightarrow>
            (\<exists>q'. deque_push q x = Inr (q', True) \<and> deque_wf q' \<and> deque_list q' = deque_list q @ [x])) \<and>
         (length (deque_list q) = nat INIT_DEQUE_CAPACITY \<longrightarrow> deque_push q x = Inr (q, False)) \<and>
         (\<exists>q' r. deque_pop q = Inr (q', r) \<and> deque_wf q' \<and> (r = None \<longleftrightarrow> deque_list q = []) \<and>
            deque_list q = deque_list q' @ (case r of None \<Rightarrow> [] | Some y \<Rightarrow> [y])) \<and>
         (\<exists>q' rs. deque_steal q = Inr (q', map Some rs) \<and> deque_wf q' \<and>
            deque_list q = rs @ deque_list q' \<and> (rs = [] \<longleftrightarrow> deque_list q = [])) \<and>
         deque_size q = length (deque_list q)"
proof (intro conjI impI)
  show "\<exists>q' r. deque_pop q = Inr (q', r) \<and> deque_wf q' \<and> (r = None \<longleftrightarrow> deque_list q = []) \<and>
          deque_list q = deque_list q' @ (case r of None \<Rightarrow> [] | Some y \<Rightarrow> [y])"
    using dq.pop_none [OF assms] dq.pop_some [OF assms] by (cases "deque_list q" rule: rev_cases) fastforce+
  show "\<exists>q' rs. deque_steal q = Inr (q', map Some rs) \<and> deque_wf q' \<and>
          deque_list q = rs @ deque_list q' \<and> (rs = [] \<longleftrightarrow> deque_list q = [])"
    using assms by (rule dq.steal_total) blast
qed (use assms in \<open>simp_all add: dq.push_ok push_full size_list\<close>)

theorem deque_refines_list_witness:
  "\<exists>q'. deque_push (new_deque :: nat deque) 7 = Inr (q', True) \<and> deque_list q' = [7]"
proof -
  have wf: "deque_wf (new_deque :: nat deque)" by (rule deque_wf_new)
  moreover have "deque_room (new_deque :: nat deque)"
    by (simp add: deque_room_def deque_wf_new deque_consts) (simp add: new_deque_def)
  ultimately show ?thesis using deque_refines_list [OF wf, of 7] by (auto simp: deque_wf_new)
qed

text \<open>One task that is pushed and stolen.\<close>

definition push_steal_cycle :: "'a \<Rightarrow> 'a deque \<Rightarrow> 'a deque" where
  "push_steal_cycle x q =
     (case deque_push q x of Inl e \<Rightarrow> q
      | Inr (q1, _) \<Rightarrow> (case deque_steal q1 of Inl e \<Rightarrow> q | Inr (q2, _) \<Rightarrow> q2))"

lemma push_steal_cycle_run:
  "int n \<le> MAX_INT \<Longrightarrow>
   let q = (push_steal_cycle x ^^ n) new_deque in deque_wf q \<and> deque_list q = [] \<and> head q = int n \<and> tail q = int n"
proof (induction n)
  case 0
  then show ?case by (simp add: deque_wf_new) (simp add: new_deque_def)
next
  case (Suc n)
  let ?q = "(push_steal_cycle x ^^ n) new_deque"
  from Suc have q: "deque_wf ?q" "deque_list ?q = []" "head ?q = int n" "tail ?q = int n" "tail ?q < MAX_INT"
    by (auto simp: Let_def)
  from push_room [OF q(1) _ q(5), of x] q(2) obtain q1 where
    q1: "deque_push ?q x = Inr (q1, True)" "deque_wf q1" "deque_list q1 = [x]" "head q1 = int n" "tail q1 = int n + 1"
    by (auto simp: q(3,4) deque_consts)
  from steal_nonempty [OF q1(2), of x "[]"] q1(3) obtain q2 where
    q2: "deque_steal q1 = Inr (q2, [Some x])" "deque_wf q2" "deque_list q2 = []" by auto
  have "tail q2 = tail q1"
    using q2(1) by (auto simp: deque_steal_def STEAL_CHUNK_SIZE_def res_simps split: if_splits)
  then have "head q2 = int n + 1"
    using q2(2,3) deque_list_length [OF q2(2)] q1(5) by (simp add: deque_wf_def)
  moreover have "push_steal_cycle x ?q = q2"
    by (subst push_steal_cycle_def) (simp add: q1(1) q2(1))
  ultimately show ?case using q1 q2 \<open>tail q2 = tail q1\<close> by (simp add: Let_def)
qed

text \<open>
  The two counters only ever grow, so they overflow after \<open>2 ^ 31\<close> tasks. From the initial
  deque, after \<open>2 ^ 31 - 1\<close> tasks that were each pushed and stolen, the buffer is empty and
  well-formed; the third push from there computes a negative slot index and writes outside
  the array.
\<close>
lemma deque_counter_overflow:
  "let q = (push_steal_cycle x ^^ 2147483647) new_deque in
     deque_wf q \<and> deque_list q = [] \<and>
     res_bind (deque_push q x) (\<lambda>(q1, _). res_bind (deque_push q1 x) (\<lambda>(q2, _). deque_push q2 x))
       = Inl Out_of_bounds"
proof -
  let ?q = "(push_steal_cycle x ^^ 2147483647) new_deque"
  have q: "deque_wf ?q" "deque_list ?q = []" "head ?q = 2147483647" "tail ?q = 2147483647"
    using push_steal_cycle_run [of 2147483647 x] by (simp_all add: Let_def MAX_INT_def)
  have idx: "slot_index 2147483647 = Inr 1048575" "slot_index (- 2147483648) = Inr 0"
    "slot_index (- 2147483647) = Inl Out_of_bounds"
    by (simp_all add: slot_index_def INIT_DEQUE_CAPACITY_def signed_modulo_int_def signed_divide_int_def)
  show ?thesis
    using q idx by (simp add: Let_def deque_push_def INIT_DEQUE_CAPACITY_def wrap32_def)
qed

end
