(* ===== verification/Locality_Parse.thy ===== *)
theory Locality_Parse
  imports C_Strings Jsmn Fptr_List Task_Deque
begin

text \<open>
  The first half of \<^verbatim>\<open>src/src/hclib-locality-graph.c\<close>: the known locale types, and how labels and
  worker paths are read from the tokens of a locality graph file, with the little expression
  language of path labels such as \<^verbatim>\<open>L2$(id / 4)\<close>. Pointers into arrays are indices; a read or
  write outside an array is the error \<open>Out_of_bounds\<close>.
\<close>

section \<open>Data\<close>

record ('a, 'i) hclib_locale =
  loc_id :: int
  loc_type :: nat
  lbl :: string
  special_type :: "string option"
  metadata :: "nat option list option"
  idle_funcs :: "'i list"
  reachable :: "bool option"
  deques :: "'a deque list"

text \<open>
  The static variables: the list of known types (its length is \<^verbatim>\<open>n_known_locale_types\<close>) and the two
  callback tables for the metadata of a locale.
\<close>

record 'f locality_state =
  known_locale_types :: "string list"
  metadata_size_registrations :: "'f fptr_list option"
  metadata_populate_registrations :: "'f fptr_list option"

section \<open>Known locale types\<close>

fun index_of_label :: "string \<Rightarrow> string list \<Rightarrow> nat option" where
  "index_of_label l [] = None"
| "index_of_label l (x # xs) = (if l = x then Some 0 else map_option Suc (index_of_label l xs))"

definition hclib_add_known_locale_type :: "'f locality_state \<Rightarrow> string \<Rightarrow> 'f locality_state \<times> nat" where
  "hclib_add_known_locale_type st l =
     (case index_of_label l (known_locale_types st) of
        Some i \<Rightarrow> (st, i)
      | None \<Rightarrow> (st\<lparr>known_locale_types := known_locale_types st @ [l]\<rparr>, length (known_locale_types st)))"

definition hclib_add_locale_metadata_functions ::
  "'f locality_state \<Rightarrow> int \<Rightarrow> 'f option \<Rightarrow> 'f option \<Rightarrow> 'f locality_state result" where
  "hclib_add_locale_metadata_functions st locale_id size_func populate_func =
     res_bind (c_assert (size_func \<noteq> None)) (\<lambda>_.
     res_bind (c_assert (populate_func \<noteq> None)) (\<lambda>_.
     res_bind (hclib_register_func (metadata_size_registrations st) locale_id size_func MAY_USE) (\<lambda>s.
     res_bind (hclib_register_func (metadata_populate_registrations st) locale_id populate_func MAY_USE) (\<lambda>p.
     Inr (st\<lparr>metadata_size_registrations := Some s, metadata_populate_registrations := Some p\<rparr>)))))"

text \<open>\<^verbatim>\<open>type\<close> is converted to \<^verbatim>\<open>unsigned\<close> for the comparison, so a negative one is not known.\<close>

definition hclib_is_known_locale_type :: "'f locality_state \<Rightarrow> int \<Rightarrow> bool" where
  "hclib_is_known_locale_type st ty \<longleftrightarrow> ty mod 4294967296 < int (length (known_locale_types st))"

section \<open>Tokens\<close>

definition cstr_at :: "string \<Rightarrow> int \<Rightarrow> string" where
  "cstr_at json p = takeWhile (\<lambda>c. c \<noteq> NUL) (drop (nat p) json)"

text \<open>Whether \<^verbatim>\<open>string_token_equals\<close> returns 0: only as many characters as the token has count.\<close>

definition string_token_equals :: "jsmntok \<Rightarrow> string \<Rightarrow> string \<Rightarrow> bool result" where
  "string_token_equals token json str =
     (if tok_type token \<noteq> JSMN_STRING then Inl (Exit_code 1)
      else Inr (strncmp_eq (cstr_at json (tok_start token)) str (nat (tok_end token - tok_start token))))"

fun find_matching_locale :: "jsmntok \<Rightarrow> string \<Rightarrow> ('a, 'i) hclib_locale list \<Rightarrow> nat option result" where
  "find_matching_locale token json [] = Inr None"
| "find_matching_locale token json (l # ls) =
     res_bind (string_token_equals token json (lbl l)) (\<lambda>eq.
     if eq then Inr (Some 0)
     else res_bind (find_matching_locale token json ls) (\<lambda>r. Inr (map_option Suc r)))"

fun find_matching_locale_by_str :: "string \<Rightarrow> ('a, 'i) hclib_locale list \<Rightarrow> nat option" where
  "find_matching_locale_by_str name [] = None"
| "find_matching_locale_by_str name (l # ls) =
     (if name = lbl l then Some 0 else map_option Suc (find_matching_locale_by_str name ls))"

definition get_copy_of_string_token :: "jsmntok \<Rightarrow> string \<Rightarrow> string result" where
  "get_copy_of_string_token token json =
     (if 0 \<le> tok_start token \<and> tok_start token \<le> tok_end token \<and> tok_end token \<le> int (length json)
      then Inr (takeWhile (\<lambda>c. c \<noteq> NUL)
             (take (nat (tok_end token - tok_start token)) (drop (nat (tok_start token)) json)))
      else Inl Out_of_bounds)"

definition parse_int_from_primitive :: "jsmntok \<Rightarrow> string \<Rightarrow> int result" where
  "parse_int_from_primitive token json =
     res_bind (c_assert (tok_type token = JSMN_PRIMITIVE)) (\<lambda>_.
     res_bind (get_copy_of_string_token token json) (\<lambda>s. Inr (atoi s)))"

section \<open>Path labels\<close>

datatype LOCALE_OP = DIVIDE | REMAINDER

definition skip_blanks :: "string \<Rightarrow> string" where
  "skip_blanks pc = dropWhile (\<lambda>c. c = CHR '' '') pc"

text \<open>The position \<^verbatim>\<open>*pc\<close> is the rest of the string; \<^verbatim>\<open>buf\<close> has 1024 bytes.\<close>

definition parse_value :: "string \<Rightarrow> int \<Rightarrow> (string \<times> int) result" where
  "parse_value pc worker_id =
     (let pc1 = skip_blanks pc in
      res_bind (c_assert (pc1 \<noteq> [])) (\<lambda>_.
      if take 2 pc1 = ''id'' then Inr (drop 2 pc1, worker_id)
      else let ds = takeWhile is_digit pc1 in
           if length ds \<ge> 1024 then Inl Out_of_bounds
           else Inr (dropWhile is_digit pc1, atoi ds)))"

definition parse_op :: "string \<Rightarrow> (string \<times> LOCALE_OP) result" where
  "parse_op pc =
     (let pc1 = skip_blanks pc in
      res_bind (c_assert (pc1 \<noteq> [])) (\<lambda>_.
      if hd pc1 = CHR ''/'' then Inr (tl pc1, DIVIDE)
      else if hd pc1 = CHR ''%'' then Inr (tl pc1, REMAINDER)
      else Inl (Exit_code 1)))"

definition apply_op :: "LOCALE_OP \<Rightarrow> int \<Rightarrow> int \<Rightarrow> int result" where
  "apply_op op v n =
     (if n = 0 then Inl Div_by_zero
      else Inr (case op of DIVIDE \<Rightarrow> v sdiv n | REMAINDER \<Rightarrow> v smod n))"

lemma parse_op_shrinks: "parse_op pc = Inr (pc', op) \<Longrightarrow> length pc' < length pc"
  using length_dropWhile_le [of "\<lambda>c. c = CHR '' ''" pc]
  by (auto simp: parse_op_def skip_blanks_def Let_def res_simps neq_Nil_conv split: if_splits)

lemma parse_value_shrinks: "parse_value pc w = Inr (pc', v) \<Longrightarrow> length pc' \<le> length pc"
  using length_dropWhile_le [of "\<lambda>c. c = CHR '' ''" pc]
    length_dropWhile_le [of is_digit "dropWhile (\<lambda>c. c = CHR '' '') pc"]
  by (auto simp: parse_value_def skip_blanks_def Let_def res_simps split: if_splits)

text \<open>The loop up to the closing parenthesis.\<close>

function eval_ops :: "string \<Rightarrow> int \<Rightarrow> int \<Rightarrow> (string \<times> int) result" where
  "eval_ops pc w v =
     (if pc \<noteq> [] \<and> hd pc = CHR '')'' then Inr (tl pc, v)
      else res_bind (parse_op pc) (\<lambda>(pc1, op).
           res_bind (parse_value pc1 w) (\<lambda>(pc2, n).
           res_bind (apply_op op v n) (\<lambda>v'. eval_ops pc2 w v'))))"
  by pat_completeness auto
termination
  by (relation "measure (\<lambda>(pc, w, v). length pc)") (auto dest!: parse_op_shrinks parse_value_shrinks)

declare eval_ops.simps [simp del]

lemma eval_ops_shrinks: "eval_ops pc w v = Inr (pc', v') \<Longrightarrow> length pc' < length pc"
proof (induction pc w v rule: eval_ops.induct)
  case (1 pc w v)
  show ?case
  proof (cases "pc \<noteq> [] \<and> hd pc = CHR '')''")
    case True
    then show ?thesis using "1.prems" by (cases pc) (auto simp: eval_ops.simps)
  next
    case False
    then obtain pc1 op pc2 n v1 where step: "parse_op pc = Inr (pc1, op)" "parse_value pc1 w = Inr (pc2, n)"
      "apply_op op v n = Inr v1" "eval_ops pc2 w v1 = Inr (pc', v')"
      using "1.prems" by (subst (asm) eval_ops.simps) (auto simp: res_simps)
    then have "length pc' < length pc2" using "1.IH" [OF False step(1) refl step(2) refl step(3)] by blast
    then show ?thesis using parse_op_shrinks [OF step(1)] parse_value_shrinks [OF step(2)] by simp
  qed
qed

text \<open>The output buffer has 1024 bytes, one of which is for the final \<^verbatim>\<open>NUL\<close>.\<close>

function interpret_from :: "string \<Rightarrow> int \<Rightarrow> string \<Rightarrow> string result" where
  "interpret_from pc w out =
     (if pc = [] then (if length out \<ge> 1024 then Inl Out_of_bounds else Inr out)
      else if take 2 pc = ''$('' then
        res_bind (parse_value (drop 2 pc) w) (\<lambda>(pc1, v).
        res_bind (eval_ops pc1 w v) (\<lambda>(pc2, v').
        res_bind (itoa v' 10) (\<lambda>buf.
        if length out + length buf > 1024 then Inl Out_of_bounds
        else interpret_from pc2 w (out @ buf))))
      else if length out \<ge> 1024 then Inl Out_of_bounds
      else interpret_from (tl pc) w (out @ [hd pc]))"
  by pat_completeness auto
termination
  by (relation "measure (\<lambda>(pc, w, out). length pc)") (auto dest!: eval_ops_shrinks parse_value_shrinks)

declare interpret_from.simps [simp del]

definition interpret_locale :: "string \<Rightarrow> int \<Rightarrow> string result" where
  "interpret_locale locale_name worker_id = interpret_from locale_name worker_id []"

section \<open>Paths\<close>

type_synonym path = "nat list"

fun path_tokens ::
  "nat \<Rightarrow> jsmntok list \<Rightarrow> int \<Rightarrow> string \<Rightarrow> int \<Rightarrow> ('a, 'i) hclib_locale list \<Rightarrow> path result" where
  "path_tokens 0 toks i json w locales = Inr []"
| "path_tokens (Suc n) toks i json w locales =
     res_bind (arr_get toks i) (\<lambda>token.
     res_bind (c_assert (tok_type token = JSMN_STRING)) (\<lambda>_.
     res_bind (get_copy_of_string_token token json) (\<lambda>str.
     res_bind (interpret_locale str w) (\<lambda>name.
     (case find_matching_locale_by_str name locales of
        None \<Rightarrow> Inl (Exit_code 1)
      | Some l \<Rightarrow> res_bind (path_tokens n toks (i + 1) json w locales) (\<lambda>ls. Inr (l # ls)))))))"

definition parse_locality_path_from_array ::
  "jsmntok list \<Rightarrow> int \<Rightarrow> string \<Rightarrow> int \<Rightarrow> ('a, 'i) hclib_locale list \<Rightarrow> path result" where
  "parse_locality_path_from_array toks start json worker_id locales =
     res_bind (arr_get toks start) (\<lambda>t.
     res_bind (c_assert (tok_type t = JSMN_ARRAY)) (\<lambda>_.
     res_bind (c_assert (tok_size t > 0)) (\<lambda>_.
     path_tokens (nat (tok_size t)) toks (start + 1) json worker_id locales)))"

text \<open>
  \<open>worker_paths\<close> has one entry per worker; a worker number of the file is used as an index
  as it is. The result is the next token, the paths and the token of the default path.
\<close>

fun parse_paths ::
  "nat \<Rightarrow> int \<Rightarrow> string \<Rightarrow> jsmntok list \<Rightarrow> ('a, 'i) hclib_locale list \<Rightarrow> path option list \<Rightarrow> int option \<Rightarrow>
   (int \<times> path option list \<times> int option) result" where
  "parse_paths 0 path_index json toks locales worker_paths dflt = Inr (path_index, worker_paths, dflt)"
| "parse_paths (Suc n) path_index json toks locales worker_paths dflt =
     res_bind (arr_get toks path_index) (\<lambda>t.
     res_bind (if tok_type t = JSMN_STRING then string_token_equals t json ''default'' else Inr False) (\<lambda>is_default.
     if is_default then
       res_bind (arr_get toks (path_index + 1)) (\<lambda>a.
       res_bind (c_assert (tok_type a = JSMN_ARRAY)) (\<lambda>_.
       res_bind (c_assert (dflt = None)) (\<lambda>_.
       parse_paths n (path_index + 1 + (1 + tok_size a)) json toks locales worker_paths (Some (path_index + 1)))))
     else
       res_bind (parse_int_from_primitive t json) (\<lambda>worker_id.
       res_bind (parse_locality_path_from_array toks (path_index + 1) json worker_id locales) (\<lambda>path.
       res_bind (arr_get worker_paths worker_id) (\<lambda>old.
       res_bind (c_assert (old = None)) (\<lambda>_.
       res_bind (arr_set worker_paths worker_id (Some path)) (\<lambda>wps.
       parse_paths n (path_index + 1 + (1 + int (length path))) json toks locales wps dflt)))))))"

section \<open>Lemmas\<close>

lemma index_of_label_nth: "index_of_label l xs = Some i \<Longrightarrow> i < length xs \<and> xs ! i = l"
  by (induction xs arbitrary: i) (auto split: if_splits)

lemma index_of_label_None: "index_of_label l xs = None \<longleftrightarrow> l \<notin> set xs"
  by (induction xs) auto

lemma find_matching_locale_bound: "find_matching_locale t json ls = Inr (Some i) \<Longrightarrow> i < length ls"
  by (induction t json ls arbitrary: i rule: find_matching_locale.induct) (auto simp: res_simps split: if_splits)

lemma find_by_str_sound:
  "find_matching_locale_by_str name ls = Some i \<Longrightarrow> i < length ls \<and> lbl (ls ! i) = name"
  by (induction name ls arbitrary: i rule: find_matching_locale_by_str.induct) (auto split: if_splits)

lemma path_tokens_bound:
  "path_tokens n toks i json w ls = Inr p \<Longrightarrow> length p = n \<and> (\<forall>l \<in> set p. l < length ls)"
proof (induction n arbitrary: i p)
  case (Suc n)
  then show ?case
    by (fastforce simp: res_simps split: option.splits dest: find_by_str_sound)
qed simp

lemma parse_path_bound:
  "parse_locality_path_from_array toks i json w ls = Inr p \<Longrightarrow> p \<noteq> [] \<and> (\<forall>l \<in> set p. l < length ls)"
  by (auto simp: parse_locality_path_from_array_def res_simps dest!: path_tokens_bound)

definition paths_ok :: "('a, 'i) hclib_locale list \<Rightarrow> path option list \<Rightarrow> bool" where
  "paths_ok ls wps \<longleftrightarrow> (\<forall>p. Some p \<in> set wps \<longrightarrow> p \<noteq> [] \<and> (\<forall>l \<in> set p. l < length ls))"

lemma parse_paths_ok:
  "parse_paths n i json toks ls wps d = Inr (i', wps', d') \<Longrightarrow> paths_ok ls wps \<Longrightarrow>
   paths_ok ls wps' \<and> length wps' = length wps"
proof (induction n arbitrary: i wps d)
  case (Suc n)
  from Suc.prems(1) obtain i1 wps1 d1 where
    step: "parse_paths n i1 json toks ls wps1 d1 = Inr (i', wps', d')"
    and wps1: "wps1 = wps \<or> (\<exists>k p j w. wps1 = wps[k := Some p] \<and> parse_locality_path_from_array toks j json w ls = Inr p)"
    by (auto simp: res_simps split: if_splits) metis+
  have "paths_ok ls wps1" "length wps1 = length wps"
    using wps1 Suc.prems(2) by (auto simp: paths_ok_def dest!: parse_path_bound set_update_subset_insert [THEN subsetD])
  then show ?case using Suc.IH [OF step] by simp
qed simp

lemma interpret_from_plain:
  assumes "CHR ''$'' \<notin> set pre" "length out + length pre \<le> 1024"
  shows "interpret_from (pre @ rest) w out = interpret_from rest w (out @ pre)"
  using assms
proof (induction pre arbitrary: out)
  case (Cons c pre)
  have "c \<noteq> CHR ''$''" using Cons.prems(1) by auto
  then have "interpret_from ((c # pre) @ rest) w out = interpret_from (pre @ rest) w (out @ [c])"
    using Cons.prems(2) by (subst interpret_from.simps) simp
  also have "\<dots> = interpret_from rest w ((out @ [c]) @ pre)" using Cons.prems by (intro Cons.IH) auto
  finally show ?case by simp
qed simp

lemma interpret_from_end: "length out < 1024 \<Longrightarrow> interpret_from [] w out = Inr out"
  by (simp add: interpret_from.simps)

lemma parse_value_id: "parse_value (''id'' @ rest) w = Inr (rest, w)"
  by (simp add: parse_value_def skip_blanks_def Let_def)

lemma skip_blanks_digit: "is_digit c \<Longrightarrow> skip_blanks (c # cs) = c # cs"
  by (auto simp: skip_blanks_def is_digit_def)

lemma takeWhile_decimal: "takeWhile is_digit (decimal k @ '')'' @ rest) = decimal k"
    "dropWhile is_digit (decimal k @ '')'' @ rest) = '')'' @ rest"
  using decimal_digits [of k] by (auto simp: takeWhile_append dropWhile_append is_digit_def)

lemma parse_value_decimal:
  assumes "k < 2147483648" "length (decimal k) < 1024"
  shows "parse_value (decimal k @ '')'' @ rest) w = Inr ('')'' @ rest, int k)"
proof -
  obtain c cs where c: "decimal k = c # cs" using decimal_neq_Nil by (cases "decimal k") auto
  then have "is_digit c" using decimal_digits [of k] by simp
  then have "take 2 (decimal k @ '')'' @ rest) \<noteq> ''id''" "skip_blanks (decimal k @ '')'' @ rest) = decimal k @ '')'' @ rest"
    using c skip_blanks_digit by (auto simp: is_digit_def numeral_2_eq_2)
  then show ?thesis using assms decimal_neq_Nil [of k]
    by (simp add: parse_value_def Let_def takeWhile_decimal [simplified] atoi_decimal)
qed

lemma eval_ops_close: "eval_ops ('')'' @ rest) w v = Inr (rest, v)"
  by (simp add: eval_ops.simps)

lemma eval_ops_one:
  assumes "parse_op (c # pc) = Inr (pc, op)" "c \<noteq> CHR '')''" "parse_value pc w = Inr ('')'' @ rest, n)"
    "apply_op op v n = Inr v'"
  shows "eval_ops (c # pc) w v = Inr (rest, v')"
  using assms eval_ops_close [of rest w v'] by (subst eval_ops.simps) simp

lemma interpret_from_expr:
  assumes "eval_ops pc w w = Inr (rest, int v)" "CHR ''$'' \<notin> set rest" "length out + length (decimal v) + length rest < 1024"
  shows "interpret_from (''$(id'' @ pc) w out = Inr (out @ decimal v @ rest)"
proof -
  have "interpret_from (''$(id'' @ pc) w out = interpret_from rest w (out @ decimal v)"
    using assms parse_value_id [of pc w]
    by (subst interpret_from.simps) (simp add: itoa_decimal)
  also have "\<dots> = interpret_from [] w ((out @ decimal v) @ rest)"
    using interpret_from_plain [of rest "out @ decimal v" "[]" w] assms by simp
  finally show ?thesis using assms(3) by (simp add: interpret_from_end)
qed

lemma sdiv_int_nat: "int a sdiv int b = int (a div b)" "int a smod int b = int (a mod b)"
  by (auto simp: signed_divide_int_def signed_modulo_int_def sgn_if zdiv_int zmod_int minus_div_mult_eq_mod)

section \<open>Properties\<close>

text \<open>
  The labels of a worker path may contain expressions over the worker's number. For
  a label with one expression, worker \<open>w\<close> resolves \<^verbatim>\<open>$(id)\<close> to the decimal numeral of \<open>w\<close>,
  \<^verbatim>\<open>$(id/k)\<close> to that of the quotient and \<^verbatim>\<open>$(id%k)\<close> to that of the remainder, and the text around
  the expression is kept, as long as the result surely fits into the 1024 bytes of the buffer.
\<close>

theorem interpret_locale_templates:
  assumes "CHR ''$'' \<notin> set pre" "CHR ''$'' \<notin> set post" "0 < k" "k < 2 ^ 31" "w < 2 ^ 31"
    and "length pre + 10 + length post < 1024"
  shows "interpret_locale (pre @ ''$(id)'' @ post) (int w) = Inr (pre @ decimal w @ post) \<and>
         interpret_locale (pre @ ''$(id/'' @ decimal k @ '')'' @ post) (int w) = Inr (pre @ decimal (w div k) @ post) \<and>
         interpret_locale (pre @ ''$(id%'' @ decimal k @ '')'' @ post) (int w) = Inr (pre @ decimal (w mod k) @ post)"
proof -
  have pv: "parse_value (decimal k @ '')'' @ post) (int w) = Inr ('')'' @ post, int k)"
    using parse_value_decimal [of k post "int w"] decimal_length_int [of k] assms by simp
  have step: "interpret_locale (pre @ ''$(id'' @ pc) (int w) = Inr (pre @ decimal v @ post)"
    if "eval_ops pc (int w) (int w) = Inr (post, int v)" "v \<in> {w, w div k, w mod k}" for pc v
  proof -
    have "v \<le> w" using that(2) by auto
    then have "length (decimal v) \<le> 10" using assms(5) by (intro decimal_length_int) simp
    then show ?thesis using interpret_from_plain [of pre "[]" "''$(id'' @ pc" "int w"] interpret_from_expr [OF that(1), of pre]
      assms(1,2,6) by (simp add: interpret_locale_def)
  qed
  have "parse_op (CHR ''/'' # pc) = Inr (pc, DIVIDE)" "parse_op (CHR ''%'' # pc) = Inr (pc, REMAINDER)" for pc
    by (simp_all add: parse_op_def skip_blanks_def Let_def)
  then have "eval_ops (''/'' @ decimal k @ '')'' @ post) (int w) (int w) = Inr (post, int (w div k))"
      "eval_ops (''%'' @ decimal k @ '')'' @ post) (int w) (int w) = Inr (post, int (w mod k))"
    using eval_ops_one [OF _ _ pv] assms(3) by (simp_all add: apply_op_def sdiv_int_nat)
  then show ?thesis using step [of "'')'' @ post" w] step [of "''/'' @ decimal k @ '')'' @ post" "w div k"]
      step [of "''%'' @ decimal k @ '')'' @ post" "w mod k"] eval_ops_close [of post "int w" "int w"] by simp
qed

theorem interpret_locale_templates_witness:
  "interpret_locale ''L2$(id/4)'' 9 = Inr ''L22'' \<and> interpret_locale ''L1$(id)'' 9 = Inr ''L19''"
proof -
  have d: "decimal 9 = ''9''" "decimal 4 = ''4''" "decimal 2 = ''2''"
    by (simp_all add: decimal.simps char_of_def bit_0)
  show ?thesis
    using interpret_locale_templates [of "''L1''" "[]" 4 9] interpret_locale_templates [of "''L2''" "[]" 4 9]
    by (simp add: d)
qed

end
