(* ===== verification/Locality_Graph.thy ===== *)
theory Locality_Graph
  imports Locality_Parse
begin

text \<open>
  \<^verbatim>\<open>src/src/hclib-locality-graph.c\<close>: how the locality graph and the worker paths are built, from
  a file (\<^verbatim>\<open>load_locality_info\<close>) or by default (\<^verbatim>\<open>generate_locality_info\<close>), and how the
  runtime checks them. A pointer to a locale is its index in the array of the graph. What module
  callbacks do to a locale is an argument (\<open>sizef\<close>, \<open>popf\<close>).
\<close>

section \<open>Data\<close>

text \<open>An edge is \<open>None\<close> while its cell of the malloc'ed matrix has not been written.\<close>

record ('a, 'i) locality_graph =
  g_locales :: "('a, 'i) hclib_locale list"
  g_edges :: "nat option list"

record worker_paths =
  pop_path :: path
  steal_path :: path
  last_successful_steal_locale :: int

section \<open>Initialising a locale\<close>

text \<open>The first known type whose name is a prefix of the label.\<close>

fun first_type :: "string \<Rightarrow> string list \<Rightarrow> nat option" where
  "first_type l [] = None"
| "first_type l (t # ts) =
     (if length t \<le> length l \<and> strncmp_eq l t (length t) then Some 0 else map_option Suc (first_type l ts))"

text \<open>For a negative number of workers the size passed to \<^verbatim>\<open>calloc\<close> is huge and it returns \<^verbatim>\<open>NULL\<close>.\<close>

definition initialize_locale ::
  "'f locality_state \<Rightarrow> ('f \<Rightarrow> nat) \<Rightarrow> ('f \<Rightarrow> ('a, 'i) hclib_locale \<Rightarrow> ('a, 'i) hclib_locale) \<Rightarrow>
   int \<Rightarrow> string \<Rightarrow> int \<Rightarrow> ('a, 'i) hclib_locale result" where
  "initialize_locale st sizef popf i l nworkers =
     (case first_type l (known_locale_types st) of
        None \<Rightarrow> Inl (Exit_code 1)
      | Some ty \<Rightarrow>
          res_bind (c_assert (0 \<le> nworkers)) (\<lambda>_.
          let loc = \<lparr>loc_id = i, loc_type = ty, lbl = l, special_type = None, metadata = None,
                     idle_funcs = [], reachable = None, deques = replicate (nat nworkers) new_deque\<rparr>
          in res_bind (hclib_has_func_for (metadata_size_registrations st) (int ty)) (\<lambda>has.
             if has then
               res_bind (hclib_get_func_for (metadata_size_registrations st) (int ty)) (\<lambda>sf.
               res_bind (hclib_get_func_for (metadata_populate_registrations st) (int ty)) (\<lambda>pf.
               res_bind (from_ptr sf) (\<lambda>s.
               res_bind (from_ptr pf) (\<lambda>p.
               Inr (popf p (loc\<lparr>metadata := Some (replicate (sizef s) None)\<rparr>))))))
             else Inr loc)))"

section \<open>Loading a file\<close>

definition expect_key :: "jsmntok list \<Rightarrow> int \<Rightarrow> string \<Rightarrow> string \<Rightarrow> unit result" where
  "expect_key toks i json key =
     res_bind (arr_get toks i) (\<lambda>t. res_bind (string_token_equals t json key) c_assert)"

definition expect_array :: "jsmntok list \<Rightarrow> int \<Rightarrow> int result" where
  "expect_array toks i =
     res_bind (arr_get toks i) (\<lambda>t.
     res_bind (c_assert (tok_type t = JSMN_ARRAY)) (\<lambda>_. Inr (tok_size t)))"

fun load_locales ::
  "'f locality_state \<Rightarrow> ('f \<Rightarrow> nat) \<Rightarrow> ('f \<Rightarrow> ('a, 'i) hclib_locale \<Rightarrow> ('a, 'i) hclib_locale) \<Rightarrow>
   nat \<Rightarrow> jsmntok list \<Rightarrow> int \<Rightarrow> string \<Rightarrow> int \<Rightarrow> ('a, 'i) hclib_locale list \<Rightarrow> ('a, 'i) hclib_locale list result" where
  "load_locales st sizef popf 0 toks i json nworkers acc = Inr acc"
| "load_locales st sizef popf (Suc n) toks i json nworkers acc =
     res_bind (arr_get toks i) (\<lambda>t.
     res_bind (c_assert (tok_type t = JSMN_STRING)) (\<lambda>_.
     res_bind (get_copy_of_string_token t json) (\<lambda>l.
     res_bind (initialize_locale st sizef popf (int (length acc)) l nworkers) (\<lambda>loc.
     res_bind (c_assert (list_all (\<lambda>x. lbl loc \<noteq> lbl x) acc)) (\<lambda>_.
     load_locales st sizef popf n toks (i + 1) json nworkers (acc @ [loc]))))))"

definition find_declared :: "jsmntok list \<Rightarrow> int \<Rightarrow> string \<Rightarrow> ('a, 'i) hclib_locale list \<Rightarrow> nat result" where
  "find_declared toks i json locales =
     res_bind (arr_get toks i) (\<lambda>t.
     res_bind (find_matching_locale t json locales) (\<lambda>r.
     case r of None \<Rightarrow> Inl (Exit_code 1) | Some l \<Rightarrow> Inr l))"

fun load_edges ::
  "nat \<Rightarrow> jsmntok list \<Rightarrow> int \<Rightarrow> string \<Rightarrow> ('a, 'i) hclib_locale list \<Rightarrow> nat option list \<Rightarrow> nat option list result" where
  "load_edges 0 toks i json locales es = Inr es"
| "load_edges (Suc n) toks i json locales es =
     res_bind (arr_get toks i) (\<lambda>t.
     res_bind (c_assert (tok_type t = JSMN_ARRAY)) (\<lambda>_.
     res_bind (c_assert (tok_size t = 2)) (\<lambda>_.
     res_bind (find_declared toks (i + 1) json locales) (\<lambda>a.
     res_bind (find_declared toks (i + 2) json locales) (\<lambda>b.
     let ia = loc_id (locales ! a); ib = loc_id (locales ! b); nl = int (length locales) in
     res_bind (arr_set es (ia * nl + ib) (Some 1)) (\<lambda>es1.
     res_bind (arr_set es1 (ib * nl + ia) (Some 1)) (\<lambda>es2.
     load_edges n toks (i + 3) json locales es2)))))))"

definition load_paths ::
  "string \<Rightarrow> jsmntok list \<Rightarrow> int \<Rightarrow> string \<Rightarrow> ('a, 'i) hclib_locale list \<Rightarrow> int \<Rightarrow>
   (int \<times> path option list \<times> int option) result" where
  "load_paths key toks i json locales nworkers =
     res_bind (expect_key toks i json key) (\<lambda>_.
     res_bind (arr_get toks (i + 1)) (\<lambda>t.
     res_bind (c_assert (tok_size t > 0 \<or> nworkers = 0)) (\<lambda>_.
     res_bind (parse_paths (nat (tok_size t)) (i + 2) json toks locales (replicate (nat nworkers) None) None)
       (\<lambda>(i', wps, dflt).
     res_bind (c_assert (dflt \<noteq> None \<or> nworkers = 0)) (\<lambda>_.
     Inr (i', wps, dflt))))))"

definition path_or_default ::
  "path option \<Rightarrow> int option \<Rightarrow> jsmntok list \<Rightarrow> string \<Rightarrow> int \<Rightarrow> ('a, 'i) hclib_locale list \<Rightarrow> path result" where
  "path_or_default p dflt toks json w locales =
     (case p of
        Some q \<Rightarrow> Inr q
      | None \<Rightarrow> res_bind (from_ptr dflt) (\<lambda>d. parse_locality_path_from_array toks d json w locales))"

fun fill_worker_paths ::
  "path option list \<Rightarrow> int option \<Rightarrow> path option list \<Rightarrow> int option \<Rightarrow> jsmntok list \<Rightarrow> string \<Rightarrow> int \<Rightarrow>
   ('a, 'i) hclib_locale list \<Rightarrow> worker_paths list result" where
  "fill_worker_paths (p # ps) dp (s # ss) ds toks json w locales =
     res_bind (path_or_default p dp toks json w locales) (\<lambda>pop.
     res_bind (path_or_default s ds toks json w locales) (\<lambda>steal.
     res_bind (fill_worker_paths ps dp ss ds toks json (w + 1) locales) (\<lambda>rest.
     Inr (\<lparr>pop_path = pop, steal_path = steal, last_successful_steal_locale = 0\<rparr> # rest))))"
| "fill_worker_paths _ dp _ ds toks json w locales = Inr []"

definition load_from_tokens ::
  "'f locality_state \<Rightarrow> ('f \<Rightarrow> nat) \<Rightarrow> ('f \<Rightarrow> ('a, 'i) hclib_locale \<Rightarrow> ('a, 'i) hclib_locale) \<Rightarrow>
   string \<Rightarrow> jsmntok list \<Rightarrow> string option \<Rightarrow> (int \<times> ('a, 'i) locality_graph \<times> worker_paths list) result" where
  "load_from_tokens st sizef popf json toks nworkers_str =
     res_bind (arr_get toks 0) (\<lambda>t0.
     res_bind (c_assert (tok_type t0 = JSMN_OBJECT)) (\<lambda>_.
     res_bind (expect_key toks 1 json ''nworkers'') (\<lambda>_.
     res_bind (arr_get toks 2) (\<lambda>t2.
     res_bind (parse_int_from_primitive t2 json) (\<lambda>nw.
     let nworkers = (case nworkers_str of Some s \<Rightarrow> atoi s | None \<Rightarrow> nw) in
     res_bind (expect_key toks 3 json ''declarations'') (\<lambda>_.
     res_bind (expect_array toks 4) (\<lambda>nlocales.
     res_bind (load_locales st sizef popf (nat nlocales) toks 5 json nworkers []) (\<lambda>locales.
     let ti = 5 + nlocales in
     res_bind (expect_key toks ti json ''reachability'') (\<lambda>_.
     res_bind (expect_array toks (ti + 1)) (\<lambda>nedges.
     res_bind (load_edges (nat nedges) toks (ti + 2) json locales
                 (replicate (nat nlocales * nat nlocales) (Some 0))) (\<lambda>es.
     let ti2 = ti + 2 + nedges * 3 in
     res_bind (c_assert (0 \<le> nworkers)) (\<lambda>_.
     res_bind (load_paths ''pop_paths'' toks ti2 json locales nworkers) (\<lambda>(ti3, pops, dpop).
     res_bind (load_paths ''steal_paths'' toks ti3 json locales nworkers) (\<lambda>(ti4, steals, dsteal).
     res_bind (fill_worker_paths pops dpop steals dsteal toks json 0 locales) (\<lambda>wps.
     Inr (nworkers, \<lparr>g_locales = locales, g_edges = es\<rparr>, wps))))))))))))))))"

text \<open>
  \<open>file\<close> is \<open>None\<close> when the file cannot be opened. The token array is malloc'ed; a successful
  second pass has written every token of it.
\<close>

definition load_locality_info ::
  "'f locality_state \<Rightarrow> ('f \<Rightarrow> nat) \<Rightarrow> ('f \<Rightarrow> ('a, 'i) hclib_locale \<Rightarrow> ('a, 'i) hclib_locale) \<Rightarrow>
   string option \<Rightarrow> string option \<Rightarrow> (int \<times> ('a, 'i) locality_graph \<times> worker_paths list) result" where
  "load_locality_info st sizef popf file nworkers_str =
     (case file of
        None \<Rightarrow> Inl (Exit_code 1)
      | Some json \<Rightarrow>
          (case jsmn_parse jsmn_init json None of (_, _, ntokens) \<Rightarrow>
           res_bind (c_assert (ntokens \<ge> 0)) (\<lambda>_.
           (case jsmn_parse jsmn_init json (Some (replicate (nat ntokens) blank_tok)) of (_, toks, err) \<Rightarrow>
            res_bind (c_assert (err \<ge> 0)) (\<lambda>_.
            res_bind (from_ptr toks) (\<lambda>ts.
            load_from_tokens st sizef popf json ts nworkers_str))))))"

section \<open>The default graph\<close>

text \<open>\<^verbatim>\<open>sprintf(buf, "L1%d", i - 1)\<close> for \<open>i \<ge> 1\<close>.\<close>

fun generate_locales ::
  "'f locality_state \<Rightarrow> ('f \<Rightarrow> nat) \<Rightarrow> ('f \<Rightarrow> ('a, 'i) hclib_locale \<Rightarrow> ('a, 'i) hclib_locale) \<Rightarrow> nat \<Rightarrow> nat \<Rightarrow> nat \<Rightarrow>
   ('a, 'i) locality_graph \<times> worker_paths list \<Rightarrow> (('a, 'i) locality_graph \<times> worker_paths list) result" where
  "generate_locales st sizef popf 0 i nworkers gw = Inr gw"
| "generate_locales st sizef popf (Suc k) i nworkers (g, wps) =
     res_bind (initialize_locale st sizef popf (int i) (''L1'' @ decimal (i - 1)) (int nworkers)) (\<lambda>loc.
     let n = nworkers + 1 in
     generate_locales st sizef popf k (i + 1) nworkers
       (\<lparr>g_locales = g_locales g @ [loc],
         g_edges = (g_edges g)[i * n + 0 := Some 1, 0 * n + i := Some 1]\<rparr>,
        wps @ [\<lparr>pop_path = [i, 0], steal_path = [i, 0], last_successful_steal_locale = 0\<rparr>]))"

text \<open>For a negative number of workers the first \<^verbatim>\<open>malloc\<close> with a huge size returns \<^verbatim>\<open>NULL\<close>.\<close>

definition generate_locality_info ::
  "'f locality_state \<Rightarrow> ('f \<Rightarrow> nat) \<Rightarrow> ('f \<Rightarrow> ('a, 'i) hclib_locale \<Rightarrow> ('a, 'i) hclib_locale) \<Rightarrow>
   string option \<Rightarrow> int \<Rightarrow> (int \<times> ('a, 'i) locality_graph \<times> worker_paths list) result" where
  "generate_locality_info st sizef popf nworkers_str ncores =
     (let nworkers = (case nworkers_str of Some s \<Rightarrow> atoi s | None \<Rightarrow> ncores) in
      res_bind (c_assert (0 \<le> nworkers)) (\<lambda>_.
      let nw = nat nworkers; n = nw + 1 in
      res_bind (initialize_locale st sizef popf 0 ''sysmem'' nworkers) (\<lambda>sysmem.
      res_bind (generate_locales st sizef popf nw 1 nw
                 (\<lparr>g_locales = [sysmem], g_edges = replicate (n * n) None\<rparr>, [])) (\<lambda>(g, wps).
      Inr (nworkers, g, wps)))))"

section \<open>Checking a graph\<close>

definition mark_path :: "('a, 'i) hclib_locale list \<Rightarrow> path \<Rightarrow> ('a, 'i) hclib_locale list" where
  "mark_path ls p = foldl (\<lambda>ls l. ls[l := (ls ! l)\<lparr>reachable := Some True\<rparr>]) ls p"

fun mark_workers :: "('a, 'i) hclib_locale list \<Rightarrow> worker_paths list \<Rightarrow> ('a, 'i) hclib_locale list result" where
  "mark_workers ls [] = Inr ls"
| "mark_workers ls (w # ws) =
     res_bind (c_assert (last_successful_steal_locale w = 0)) (\<lambda>_.
     mark_workers (mark_path (mark_path ls (pop_path w)) (steal_path w)) ws)"

definition check_locality_graph ::
  "('a, 'i) locality_graph \<Rightarrow> worker_paths list \<Rightarrow> ('a, 'i) locality_graph result" where
  "check_locality_graph g wps =
     res_bind (mark_workers (map (\<lambda>l. l\<lparr>reachable := Some False\<rparr>) (g_locales g)) wps) (\<lambda>ls.
     Inr (g\<lparr>g_locales := ls\<rparr>))"

section \<open>Well-formed graphs\<close>

definition locales_wf :: "('a, 'i) hclib_locale list \<Rightarrow> bool" where
  "locales_wf ls \<longleftrightarrow> (\<forall>i < length ls. loc_id (ls ! i) = int i) \<and> distinct (map lbl ls)"

definition edges_wf :: "nat \<Rightarrow> nat option list \<Rightarrow> bool" where
  "edges_wf n es \<longleftrightarrow> length es = n * n \<and> None \<notin> set es \<and>
     (\<forall>i < n. \<forall>j < n. es ! (i * n + j) = es ! (j * n + i))"

definition worker_paths_wf :: "nat \<Rightarrow> worker_paths list \<Rightarrow> bool" where
  "worker_paths_wf n wps \<longleftrightarrow> (\<forall>w \<in> set wps. pop_path w \<noteq> [] \<and> steal_path w \<noteq> [] \<and>
     (\<forall>l \<in> set (pop_path w) \<union> set (steal_path w). l < n) \<and> last_successful_steal_locale w = 0)"

text \<open>Callbacks fill the metadata of a locale and leave the rest of it alone.\<close>

definition populates :: "('f \<Rightarrow> ('a, 'i) hclib_locale \<Rightarrow> ('a, 'i) hclib_locale) \<Rightarrow> bool" where
  "populates popf \<longleftrightarrow> (\<forall>f l. popf f l = l\<lparr>metadata := metadata (popf f l)\<rparr>)"

lemma initialize_locale_fields:
  assumes "initialize_locale st sizef popf i l nworkers = Inr loc" "populates popf"
  shows "loc_id loc = i \<and> lbl loc = l \<and> special_type loc = None \<and> idle_funcs loc = [] \<and>
         0 \<le> nworkers \<and> deques loc = replicate (nat nworkers) new_deque"
proof -
  have keep: "loc_id (popf f x) = loc_id x" "lbl (popf f x) = lbl x" "special_type (popf f x) = special_type x"
    "idle_funcs (popf f x) = idle_funcs x" "deques (popf f x) = deques x" for f x
    using assms(2) unfolding populates_def by (metis hclib_locale.select_convs hclib_locale.update_convs hclib_locale.surjective)+
  show ?thesis using assms(1)
    by (auto simp: initialize_locale_def Let_def res_simps keep split: option.splits if_splits)
qed

lemma load_locales_wf:
  "load_locales st sizef popf n toks i json nw acc = Inr ls \<Longrightarrow> populates popf \<Longrightarrow> locales_wf acc \<Longrightarrow>
   locales_wf ls \<and> length ls = length acc + n"
proof (induction n arbitrary: i acc)
  case (Suc n)
  from Suc.prems(1) obtain l loc where init: "initialize_locale st sizef popf (int (length acc)) l nw = Inr loc"
    and fresh: "list_all (\<lambda>x. lbl loc \<noteq> lbl x) acc"
    and rest: "load_locales st sizef popf n toks (i + 1) json nw (acc @ [loc]) = Inr ls"
    by (auto simp: res_simps)
  have "locales_wf (acc @ [loc])"
    using initialize_locale_fields [OF init Suc.prems(2)] Suc.prems(3) fresh
    by (auto simp: locales_wf_def nth_append list_all_iff less_Suc_eq)
  then show ?case using Suc.IH [OF rest Suc.prems(2)] by simp
qed simp

lemma find_declared_bound: "find_declared toks i json ls = Inr l \<Longrightarrow> l < length ls"
  by (auto simp: find_declared_def res_simps split: option.splits dest!: find_matching_locale_bound)

lemma cell_bound: "a < n \<Longrightarrow> b < n \<Longrightarrow> a * n + b < n * (n :: nat)"
proof -
  assume "a < n" "b < n"
  then have "a * n + b < (a + 1) * n" by simp
  also have "\<dots> \<le> n * n" using \<open>a < n\<close> by (intro mult_right_mono) auto
  finally show ?thesis .
qed

lemma cell_inj: "b < n \<Longrightarrow> d < n \<Longrightarrow> a * n + b = c * n + d \<longleftrightarrow> a = c \<and> b = (d :: nat)"
proof -
  assume "b < n" "d < n"
  then have "(a * n + b) div n = a" "(a * n + b) mod n = b" "(c * n + d) div n = c" "(c * n + d) mod n = d"
    by auto
  then show ?thesis by metis
qed

lemma edges_wf_update:
  assumes "edges_wf n es" "a < n" "b < n"
  shows "edges_wf n (es[a * n + b := Some v, b * n + a := Some v])"
proof -
  let ?es = "es[a * n + b := Some v, b * n + a := Some v]"
  have len: "length es = n * n" using assms(1) by (simp add: edges_wf_def)
  have nth: "?es ! (i * n + j) = (if i = a \<and> j = b \<or> i = b \<and> j = a then Some v else es ! (i * n + j))"
    if ij: "i < n" "j < n" for i j
  proof -
    have "i * n + j < length es" unfolding len by (rule cell_bound [OF ij])
    then have "?es ! (i * n + j) = (if i * n + j = a * n + b \<or> i * n + j = b * n + a then Some v else es ! (i * n + j))"
      by (rule nth_upd_pair)
    then show ?thesis unfolding cell_inj [OF ij(2) assms(3)] cell_inj [OF ij(2) assms(2)] .
  qed
  have "None \<notin> set ?es"
    using assms(1) set_update_subset_insert [of es "a * n + b" "Some v"]
      set_update_subset_insert [of "es[a * n + b := Some v]" "b * n + a" "Some v"]
    unfolding edges_wf_def by blast
  moreover have "?es ! (i * n + j) = ?es ! (j * n + i)" if "i < n" "j < n" for i j
    using assms(1) that by (simp add: nth edges_wf_def disj_commute conj_commute)
  ultimately show ?thesis using len unfolding edges_wf_def by simp
qed

lemma load_edges_wf:
  "load_edges k toks i json ls es = Inr es' \<Longrightarrow> locales_wf ls \<Longrightarrow> edges_wf (length ls) es \<Longrightarrow> edges_wf (length ls) es'"
proof (induction k arbitrary: i es)
  case (Suc k)
  let ?n = "length ls"
  from Suc.prems(1) obtain a b es1 es2 where
    ab: "find_declared toks (i + 1) json ls = Inr a" "find_declared toks (i + 2) json ls = Inr b"
    and es1: "arr_set es (loc_id (ls ! a) * int ?n + loc_id (ls ! b)) (Some 1) = Inr es1"
    and es2: "arr_set es1 (loc_id (ls ! b) * int ?n + loc_id (ls ! a)) (Some 1) = Inr es2"
    and rest: "load_edges k toks (i + 3) json ls es2 = Inr es'"
    by (auto simp: res_simps Let_def)
  have lt: "a < ?n" "b < ?n" using ab by (auto dest: find_declared_bound)
  then have "es2 = es[a * ?n + b := Some 1, b * ?n + a := Some 1]"
    using es1 es2 Suc.prems(2) by (auto simp: res_simps locales_wf_def nat_add_distrib nat_mult_distrib)
  then show ?case using Suc.IH [OF rest Suc.prems(2)] edges_wf_update [OF Suc.prems(3) lt] by simp
qed simp

lemma load_paths_ok:
  assumes "load_paths key toks i json ls nw = Inr (i', wps, d)"
  shows "paths_ok ls wps \<and> length wps = nat nw"
proof -
  obtain n where "parse_paths n (i + 2) json toks ls (replicate (nat nw) None) None = Inr (i', wps, d)"
    using assms by (auto simp: load_paths_def res_simps)
  moreover have "paths_ok ls (replicate (nat nw) None)" by (auto simp: paths_ok_def)
  ultimately show ?thesis using parse_paths_ok by fastforce
qed

lemma path_or_default_ok:
  "path_or_default p d toks json w ls = Inr q \<Longrightarrow> (\<forall>r. p = Some r \<longrightarrow> r \<noteq> [] \<and> (\<forall>l \<in> set r. l < length ls)) \<Longrightarrow>
   q \<noteq> [] \<and> (\<forall>l \<in> set q. l < length ls)"
  by (auto simp: path_or_default_def res_simps split: option.splits dest!: parse_path_bound)

lemma fill_worker_paths_wf:
  "fill_worker_paths ps dp ss ds toks json w ls = Inr wps \<Longrightarrow> paths_ok ls ps \<Longrightarrow> paths_ok ls ss \<Longrightarrow>
   length ps = length ss \<Longrightarrow> worker_paths_wf (length ls) wps \<and> length wps = length ps"
proof (induction ps arbitrary: ss w wps)
  case (Cons p ps)
  then obtain s ss' where ss: "ss = s # ss'" by (cases ss) auto
  from Cons.prems(1) ss obtain pop steal rest where
    q: "path_or_default p dp toks json w ls = Inr pop" "path_or_default s ds toks json w ls = Inr steal"
    and rest: "fill_worker_paths ps dp ss' ds toks json (w + 1) ls = Inr rest"
    and wps: "wps = \<lparr>pop_path = pop, steal_path = steal, last_successful_steal_locale = 0\<rparr> # rest"
    by (auto simp: res_simps)
  have ok: "paths_ok ls ps" "paths_ok ls ss'" "length ps = length ss'"
    using Cons.prems ss by (auto simp: paths_ok_def)
  have head: "\<forall>r. p = Some r \<longrightarrow> r \<noteq> [] \<and> (\<forall>l \<in> set r. l < length ls)"
      "\<forall>r. s = Some r \<longrightarrow> r \<noteq> [] \<and> (\<forall>l \<in> set r. l < length ls)"
    using Cons.prems(2,3) ss by (simp_all add: paths_ok_def)
  note paths = path_or_default_ok [OF q(1) head(1)] path_or_default_ok [OF q(2) head(2)]
  from paths show ?case using Cons.IH [OF rest ok] wps by (auto simp: worker_paths_wf_def)
qed (auto simp: worker_paths_wf_def)

lemma load_from_tokens_wf:
  assumes "load_from_tokens st sizef popf json toks env = Inr (nworkers, g, wps)" "populates popf"
  shows "locales_wf (g_locales g) \<and> edges_wf (length (g_locales g)) (g_edges g) \<and>
         worker_paths_wf (length (g_locales g)) wps \<and> int (length wps) = nworkers"
proof -
  from assms(1) obtain nw nl ls ne es ti2 ti3 pops dpop ti4 steals dsteal where
    ls: "load_locales st sizef popf (nat nl) toks 5 json nw [] = Inr ls"
    and es: "load_edges (nat ne) toks (5 + nl + 2) json ls (replicate (nat nl * nat nl) (Some 0)) = Inr es"
    and nw: "0 \<le> nw" and pops: "load_paths ''pop_paths'' toks ti2 json ls nw = Inr (ti3, pops, dpop)"
    and steals: "load_paths ''steal_paths'' toks ti3 json ls nw = Inr (ti4, steals, dsteal)"
    and fill: "fill_worker_paths pops dpop steals dsteal toks json 0 ls = Inr wps"
    and out: "nworkers = nw" "g = \<lparr>g_locales = ls, g_edges = es\<rparr>"
    by (auto simp: load_from_tokens_def res_simps Let_def)
  have wf: "locales_wf ls" "length ls = nat nl"
    using load_locales_wf [OF ls assms(2)] by (auto simp: locales_wf_def)
  have "edges_wf (nat nl) (replicate (nat nl * nat nl) (Some 0))"
    by (auto simp: edges_wf_def cell_bound)
  then have "edges_wf (length ls) es" using load_edges_wf [OF es wf(1)] wf(2) by simp
  moreover have "worker_paths_wf (length ls) wps \<and> length wps = nat nw"
    using load_paths_ok [OF pops] load_paths_ok [OF steals] fill_worker_paths_wf [OF fill] by auto
  ultimately show ?thesis using wf nw out by simp
qed

lemma mark_path_nth:
  "length (mark_path ls p) = length ls \<and>
   (i < length ls \<longrightarrow> mark_path ls p ! i = (if i \<in> set p then (ls ! i)\<lparr>reachable := Some True\<rparr> else ls ! i))"
  unfolding mark_path_def
proof (induction p arbitrary: ls)
  case (Cons l p)
  show ?case using Cons.IH [of "ls[l := (ls ! l)\<lparr>reachable := Some True\<rparr>]"] by (auto simp: nth_upd_if)
qed simp

definition on_path :: "worker_paths list \<Rightarrow> nat \<Rightarrow> bool" where
  "on_path wps i \<longleftrightarrow> (\<exists>w \<in> set wps. i \<in> set (pop_path w) \<union> set (steal_path w))"

lemma mark_workers_nth:
  "worker_paths_wf n wps \<Longrightarrow> \<exists>ls'. mark_workers ls wps = Inr ls' \<and> length ls' = length ls \<and>
     (\<forall>i < length ls. ls' ! i = (if on_path wps i then (ls ! i)\<lparr>reachable := Some True\<rparr> else ls ! i))"
proof (induction wps arbitrary: ls)
  case Nil
  then show ?case by (simp add: on_path_def)
next
  case (Cons w wps)
  let ?ls = "mark_path (mark_path ls (pop_path w)) (steal_path w)"
  have wf: "worker_paths_wf n wps" "last_successful_steal_locale w = 0"
    using Cons.prems by (simp_all add: worker_paths_wf_def)
  have len: "length ?ls = length ls" by (simp add: mark_path_nth)
  have nth: "?ls ! i = (if i \<in> set (pop_path w) \<union> set (steal_path w) then (ls ! i)\<lparr>reachable := Some True\<rparr> else ls ! i)"
    if "i < length ls" for i
    using that mark_path_nth [of ls "pop_path w" i] mark_path_nth [of "mark_path ls (pop_path w)" "steal_path w" i]
    by auto
  from Cons.IH [OF wf(1), of ?ls] obtain ls' where "mark_workers ?ls wps = Inr ls'" "length ls' = length ?ls"
    "\<forall>i < length ?ls. ls' ! i = (if on_path wps i then (?ls ! i)\<lparr>reachable := Some True\<rparr> else ?ls ! i)" by blast
  then show ?case using wf(2) len nth by (auto simp: on_path_def)
qed

lemma check_locality_graph_marks:
  assumes "worker_paths_wf n wps"
  shows "\<exists>g'. check_locality_graph g wps = Inr g' \<and> g_edges g' = g_edges g \<and>
     length (g_locales g') = length (g_locales g) \<and>
     (\<forall>i < length (g_locales g). g_locales g' ! i = (g_locales g ! i)\<lparr>reachable := Some (on_path wps i)\<rparr>)"
proof -
  let ?ls = "map (\<lambda>l. l\<lparr>reachable := Some False\<rparr>) (g_locales g)"
  from mark_workers_nth [OF assms, of ?ls] obtain ls' where
    "mark_workers ?ls wps = Inr ls'" "length ls' = length ?ls"
    "\<forall>i < length ?ls. ls' ! i = (if on_path wps i then (?ls ! i)\<lparr>reachable := Some True\<rparr> else ?ls ! i)" by blast
  then show ?thesis by (simp add: check_locality_graph_def)
qed

section \<open>The default graph, in closed form\<close>

lemma generate_locales_wf:
  assumes "generate_locales st sizef popf k i nw (g, wps) = Inr (g', wps')" "populates popf"
    and "k + i = nw + 1" "1 \<le> i" "length (g_locales g) = i" "length (g_edges g) = (nw + 1) * (nw + 1)"
    and "\<forall>j < i. loc_id (g_locales g ! j) = int j"
    and "\<forall>j. 1 \<le> j \<and> j < i \<longrightarrow> g_edges g ! (j * (nw + 1)) = Some 1 \<and> g_edges g ! j = Some 1"
    and "wps = map (\<lambda>j. \<lparr>pop_path = [j, 0], steal_path = [j, 0], last_successful_steal_locale = 0\<rparr>) [1..<i]"
  shows "length (g_locales g') = nw + 1 \<and> (\<forall>j \<le> nw. loc_id (g_locales g' ! j) = int j) \<and>
     (\<forall>j. 1 \<le> j \<and> j \<le> nw \<longrightarrow> g_edges g' ! (j * (nw + 1)) = Some 1 \<and> g_edges g' ! j = Some 1) \<and>
     wps' = map (\<lambda>j. \<lparr>pop_path = [j, 0], steal_path = [j, 0], last_successful_steal_locale = 0\<rparr>) [1..<nw + 1]"
  using assms
proof (induction k arbitrary: i g wps)
  case 0
  then show ?case by (auto simp: less_Suc_eq_le)
next
  case (Suc k)
  let ?es = "(g_edges g)[i * (nw + 1) + 0 := Some 1, 0 * (nw + 1) + i := Some 1]"
  from Suc.prems(1) obtain loc where
    init: "initialize_locale st sizef popf (int i) (''L1'' @ decimal (i - 1)) (int nw) = Inr loc"
    and rest: "generate_locales st sizef popf k (i + 1) nw
       (\<lparr>g_locales = g_locales g @ [loc], g_edges = ?es\<rparr>,
        wps @ [\<lparr>pop_path = [i, 0], steal_path = [i, 0], last_successful_steal_locale = 0\<rparr>]) = Inr (g', wps')"
    by (auto simp: res_simps Let_def)
  have loc: "loc_id loc = int i" using initialize_locale_fields [OF init Suc.prems(2)] by blast
  have le: "i \<le> nw" using Suc.prems(3) by simp
  have edges: "?es ! (j * (nw + 1)) = Some 1 \<and> ?es ! j = Some 1" if "1 \<le> j \<and> j < i + 1" for j
  proof -
    have b: "j * (nw + 1) + 0 < (nw + 1) * (nw + 1)" "0 * (nw + 1) + j < (nw + 1) * (nw + 1)"
      using that le by (intro cell_bound; simp)+
    have b': "j * (nw + 1) < length (g_edges g)" "j < length (g_edges g)" using b Suc.prems(6) by simp_all
    show ?thesis
      unfolding nth_upd_pair [OF b'(1)] nth_upd_pair [OF b'(2)]
      using that Suc.prems(8) by (cases "j = i") auto
  qed
  have len: "length ?es = (nw + 1) * (nw + 1)" using Suc.prems(6) by simp
  show ?case
  proof (rule Suc.IH [OF rest Suc.prems(2)])
    show "length (g_edges \<lparr>g_locales = g_locales g @ [loc], g_edges = ?es\<rparr>) = (nw + 1) * (nw + 1)"
      using len by simp
    show "\<forall>j. 1 \<le> j \<and> j < i + 1 \<longrightarrow>
        g_edges \<lparr>g_locales = g_locales g @ [loc], g_edges = ?es\<rparr> ! (j * (nw + 1)) = Some 1 \<and>
        g_edges \<lparr>g_locales = g_locales g @ [loc], g_edges = ?es\<rparr> ! j = Some 1"
      using edges by simp
  qed (use Suc.prems(3,4,5,7,9) loc in \<open>auto simp: nth_append less_Suc_eq\<close>)
qed

lemma first_type_prefix: "t \<in> set ts \<Longrightarrow> \<exists>k. first_type (t @ x) ts = Some k"
  by (induction ts) (auto simp: strncmp_eq_take)

lemma initialize_locale_plain:
  assumes "t \<in> set (known_locale_types st)" "metadata_size_registrations st = None" "0 \<le> nw"
  shows "\<exists>loc. initialize_locale st sizef popf i (t @ x) nw = Inr loc"
  using first_type_prefix [OF assms(1), of x] assms(2,3)
  by (auto simp: initialize_locale_def Let_def hclib_has_func_for_def)

lemma generate_locales_total:
  assumes "''L1'' \<in> set (known_locale_types st)" "metadata_size_registrations st = None"
  shows "\<exists>r. generate_locales st sizef popf k i nw gw = Inr r"
proof (induction k arbitrary: i gw)
  case (Suc k)
  obtain g wps where gw: "gw = (g, wps)" by (cases gw)
  obtain loc where "initialize_locale st sizef popf (int i) (''L1'' @ decimal (i - 1)) (int nw) = Inr loc"
    using initialize_locale_plain [OF assms, of "int nw"] by fastforce
  then show ?case using Suc.IH gw by (simp add: Let_def)
qed auto

definition small_graph_file :: string where
  "small_graph_file = ''{\"nworkers\":1,\"declarations\":[\"m\",\"c0\"],\"reachability\":[[\"m\",\"c0\"]],\"pop_paths\":{\"default\":[\"c$(id)\",\"m\"]},\"steal_paths\":{\"default\":[\"m\"]}}''"

definition small_graph_state :: "nat locality_state" where
  "small_graph_state = \<lparr>known_locale_types = [''m'', ''c''], metadata_size_registrations = None,
     metadata_populate_registrations = None\<rparr>"

section \<open>Properties\<close>





end
