(* ===== verification/Locality_Queries.thy ===== *)
theory Locality_Queries
  imports Locality_Graph
begin

text \<open>
  The queries of \<^verbatim>\<open>src/src/hclib-locality-graph.c\<close> on the finished graph: thread-private
  locales, the central place, locales by type, and the breadth-first search for the
  closest locale of a type.
\<close>

section \<open>Model\<close>

fun path_has :: "nat \<Rightarrow> path \<Rightarrow> bool" where
  "path_has l [] = False"
| "path_has l (x # xs) = (if x = l then True else path_has l xs)"

text \<open>
  The loops that drop elements of a candidate array in place: an element that is not kept is
  overwritten by shifting the rest down, and the index stays.
\<close>

function delete_loop :: "('l \<Rightarrow> bool) \<Rightarrow> 'l list \<Rightarrow> nat \<Rightarrow> 'l list" where
  "delete_loop keep l i =
     (if i < length l then
        if keep (l ! i) then delete_loop keep l (i + 1)
        else delete_loop keep (take i l @ drop (i + 1) l) i
      else l)"
  by pat_completeness auto
termination by (relation "measure (\<lambda>(keep, l, i). length l - i)") auto

declare delete_loop.simps [simp del]

definition keep_duplicates :: "path \<Rightarrow> path \<Rightarrow> path" where
  "keep_duplicates l p = delete_loop (\<lambda>c. path_has c p) l 0"

definition hclib_get_num_locales :: "('a, 'i) locality_graph \<Rightarrow> nat" where
  "hclib_get_num_locales g = length (g_locales g)"

definition hclib_get_closest_locale :: "worker_paths \<Rightarrow> nat result" where
  "hclib_get_closest_locale w = arr_get (pop_path w) 0"

fun other_path_has :: "nat \<Rightarrow> nat \<Rightarrow> nat \<Rightarrow> worker_paths list \<Rightarrow> bool" where
  "other_path_has l i k [] = False"
| "other_path_has l i k (w # ws) =
     (if k \<noteq> i \<and> (path_has l (steal_path w) \<or> path_has l (pop_path w)) then True
      else other_path_has l i (k + 1) ws)"

definition thread_private_locale :: "('a, 'i) locality_graph \<Rightarrow> worker_paths list \<Rightarrow> nat \<Rightarrow> nat option" where
  "thread_private_locale g wps i =
     (let w = wps ! i;
          c1 = filter (\<lambda>l. path_has l (pop_path w)) (steal_path w);
          c2 = delete_loop (\<lambda>l. \<not> other_path_has l i 0 wps) c1 0;
          c3 = delete_loop (\<lambda>l. special_type (g_locales g ! l) = None) c2 0
      in if length c3 > 0 then Some (c3 ! 0) else None)"

definition hclib_get_thread_private_locales :: "('a, 'i) locality_graph \<Rightarrow> worker_paths list \<Rightarrow> nat option list" where
  "hclib_get_thread_private_locales g wps = map (thread_private_locale g wps) [0..<length wps]"

definition hclib_get_master_place :: "worker_paths list \<Rightarrow> nat result" where
  "hclib_get_master_place wps = res_bind (arr_get wps 0) (\<lambda>w. arr_get (pop_path w) 0)"

text \<open>The static variables \<^verbatim>\<open>central_initialized\<close> and \<^verbatim>\<open>central\<close>.\<close>

record central_cache =
  central_initialized :: bool
  central :: "nat option"

definition hclib_get_central_place :: "worker_paths list \<Rightarrow> central_cache \<Rightarrow> (central_cache \<times> nat option) result" where
  "hclib_get_central_place wps cc =
     (if central_initialized cc then Inr (cc, central cc)
      else res_bind (arr_get wps 0) (\<lambda>w0.
           let c0 = keep_duplicates (steal_path w0) (pop_path w0);
               c = foldl (\<lambda>c w. keep_duplicates (keep_duplicates c (steal_path w)) (pop_path w)) c0 (tl wps);
               cc' = \<lparr>central_initialized = True, central = (if length c > 0 then Some (c ! 0) else central cc)\<rparr>
           in Inr (cc', central cc')))"

fun contains_int :: "int \<Rightarrow> int list \<Rightarrow> bool" where
  "contains_int target [] = False"
| "contains_int target (x # xs) = (if x = target then True else contains_int target xs)"

definition hclib_get_all_locales_of_type :: "('a, 'i) locality_graph \<Rightarrow> int \<Rightarrow> nat list" where
  "hclib_get_all_locales_of_type g ty =
     filter (\<lambda>i. int (loc_type (g_locales g ! i)) = ty mod 4294967296) [0..<length (g_locales g)]"

definition hclib_get_num_locales_of_type :: "('a, 'i) locality_graph \<Rightarrow> int \<Rightarrow> nat" where
  "hclib_get_num_locales_of_type g ty =
     foldl (\<lambda>c l. if int (loc_type l) = ty mod 4294967296 then c + 1 else c) 0 (g_locales g)"

text \<open>
  The inner loop: the unvisited neighbours of the locale with id \<open>idn\<close> are appended to \<^verbatim>\<open>to_visit\<close>, an
  array of \<^verbatim>\<open>n_locales\<close> elements of which the list \<open>tv\<close> has been written.
\<close>

fun bfs_expand :: "nat option list \<Rightarrow> nat \<Rightarrow> int \<Rightarrow> nat list \<Rightarrow> nat list \<Rightarrow> nat list result" where
  "bfs_expand es n idn [] tv = Inr tv"
| "bfs_expand es n idn (i # is) tv =
     res_bind (arr_get es (idn * int n + int i)) (\<lambda>e.
     case e of
       None \<Rightarrow> Inl Uninit_read
     | Some v \<Rightarrow>
         if v \<noteq> 0 \<and> \<not> contains_int (int i) (map int tv) then
           (if length tv \<ge> n then Inl Out_of_bounds else bfs_expand es n idn is (tv @ [i]))
         else bfs_expand es n idn is tv)"

function bfs_loop :: "('a, 'i) locality_graph \<Rightarrow> int list \<Rightarrow> nat list \<Rightarrow> nat \<Rightarrow> nat option result" where
  "bfs_loop g types tv vi =
     (let n = length (g_locales g) in
      if vi < n then
        if vi \<ge> length tv then Inl Uninit_read
        else let curr = g_locales g ! (tv ! vi) in
             if contains_int (int (loc_type curr)) types then Inr (Some (tv ! vi))
             else res_bind (bfs_expand (g_edges g) n (loc_id curr) [0..<n] tv) (\<lambda>tv'.
                  bfs_loop g types tv' (vi + 1))
      else Inr None)"
  by pat_completeness auto
termination by (relation "measure (\<lambda>(g, types, tv, vi). length (g_locales g) - vi)") auto

declare bfs_loop.simps [simp del]

definition hclib_get_closest_locale_of_types :: "('a, 'i) locality_graph \<Rightarrow> nat \<Rightarrow> int list \<Rightarrow> nat option result" where
  "hclib_get_closest_locale_of_types g l types =
     res_bind (c_assert (l < length (g_locales g))) (\<lambda>_. bfs_loop g types [l] 0)"

definition hclib_get_closest_locale_of_type :: "('a, 'i) locality_graph \<Rightarrow> nat \<Rightarrow> int \<Rightarrow> nat option result" where
  "hclib_get_closest_locale_of_type g l ty = hclib_get_closest_locale_of_types g l [ty]"

section \<open>The loops in closed form\<close>

lemma path_has_iff [simp]: "path_has l p \<longleftrightarrow> l \<in> set p"
  by (induction p) auto

lemma contains_int_iff [simp]: "contains_int x xs \<longleftrightarrow> x \<in> set xs"
  by (induction xs) auto

lemma delete_loop_from: "i \<le> length l \<Longrightarrow> delete_loop keep l i = take i l @ filter keep (drop i l)"
proof (induction keep l i rule: delete_loop.induct)
  case (1 keep l i)
  show ?case
  proof (cases "i < length l")
    case True
    then have d: "drop i l = l ! i # drop (i + 1) l" by (simp add: Cons_nth_drop_Suc)
    show ?thesis
    proof (cases "keep (l ! i)")
      case k: True
      then show ?thesis using 1 True d by (subst delete_loop.simps) (simp add: take_Suc_conv_app_nth)
    next
      case k: False
      then show ?thesis using 1 True d by (subst delete_loop.simps) simp
    qed
  next
    case False
    then show ?thesis using "1.prems" by (subst delete_loop.simps) simp
  qed
qed

lemma delete_loop_filter [simp]: "delete_loop keep l 0 = filter keep l"
  by (simp add: delete_loop_from)

lemma keep_duplicates_filter: "keep_duplicates l p = filter (\<lambda>x. x \<in> set p) l"
  by (simp add: keep_duplicates_def)

lemma other_path_has_iff:
  "other_path_has l i k ws \<longleftrightarrow> (\<exists>j < length ws. j + k \<noteq> i \<and> l \<in> set (steal_path (ws ! j)) \<union> set (pop_path (ws ! j)))"
proof (induction ws arbitrary: k)
  case (Cons w ws)
  have "(\<exists>j < length (w # ws). j + k \<noteq> i \<and> l \<in> set (steal_path ((w # ws) ! j)) \<union> set (pop_path ((w # ws) ! j))) \<longleftrightarrow>
     k \<noteq> i \<and> l \<in> set (steal_path w) \<union> set (pop_path w) \<or>
     (\<exists>j < length ws. j + (k + 1) \<noteq> i \<and> l \<in> set (steal_path (ws ! j)) \<union> set (pop_path (ws ! j)))"
    by (auto simp: less_Suc_eq_0_disj)
  then show ?case using Cons.IH [of "k + 1"] by simp
qed simp

definition private_to :: "('a, 'i) locality_graph \<Rightarrow> worker_paths list \<Rightarrow> nat \<Rightarrow> nat \<Rightarrow> bool" where
  "private_to g wps i l \<longleftrightarrow> l \<in> set (steal_path (wps ! i)) \<and> l \<in> set (pop_path (wps ! i)) \<and>
     (\<forall>j < length wps. j \<noteq> i \<longrightarrow> l \<notin> set (steal_path (wps ! j)) \<union> set (pop_path (wps ! j))) \<and>
     special_type (g_locales g ! l) = None"

lemma thread_private_find:
  "thread_private_locale g wps i = find (private_to g wps i) (steal_path (wps ! i))"
proof -
  have first: "(if length (filter P xs) > 0 then Some (filter P xs ! 0) else None) = find P xs" for P and xs :: "nat list"
    by (induction xs) auto
  have "filter (\<lambda>l. special_type (g_locales g ! l) = None) (filter (\<lambda>l. \<not> other_path_has l i 0 wps)
          (filter (\<lambda>l. l \<in> set (pop_path (wps ! i))) (steal_path (wps ! i))))
      = filter (private_to g wps i) (steal_path (wps ! i))"
    by (auto simp: private_to_def other_path_has_iff intro!: filter_cong)
  then show ?thesis using first [of "private_to g wps i" "steal_path (wps ! i)"]
    unfolding thread_private_locale_def Let_def by (simp split: if_splits)
qed

lemma central_candidates:
  "foldl (\<lambda>c w. keep_duplicates (keep_duplicates c (steal_path w)) (pop_path w)) c ws
     = filter (\<lambda>l. \<forall>w \<in> set ws. l \<in> set (steal_path w) \<and> l \<in> set (pop_path w)) c"
  by (induction ws arbitrary: c) (auto simp: keep_duplicates_filter conj_commute intro!: filter_cong)

section \<open>Breadth-first search\<close>

text \<open>Walks of a given length, and the distance of a locale that can be reached.\<close>

inductive walk :: "(nat \<Rightarrow> nat \<Rightarrow> bool) \<Rightarrow> nat \<Rightarrow> nat \<Rightarrow> nat \<Rightarrow> bool" for E s where
  walk_start: "walk E s 0 s"
| walk_step: "walk E s k u \<Longrightarrow> E u v \<Longrightarrow> walk E s (Suc k) v"

inductive_cases walk_SucE: "walk E s (Suc k) v"

definition walk_reach :: "(nat \<Rightarrow> nat \<Rightarrow> bool) \<Rightarrow> nat \<Rightarrow> nat \<Rightarrow> bool" where
  "walk_reach E s v \<longleftrightarrow> (\<exists>k. walk E s k v)"

definition walk_dist :: "(nat \<Rightarrow> nat \<Rightarrow> bool) \<Rightarrow> nat \<Rightarrow> nat \<Rightarrow> nat" where
  "walk_dist E s v = (LEAST k. walk E s k v)"

lemma walk_dist_walk: "walk_reach E s v \<Longrightarrow> walk E s (walk_dist E s v) v"
  unfolding walk_reach_def walk_dist_def by (auto intro: LeastI)

lemma walk_dist_le: "walk E s k v \<Longrightarrow> walk_dist E s v \<le> k"
  unfolding walk_dist_def by (rule Least_le)

lemma walk_dist_start: "walk_dist E s s = 0"
  using walk_dist_le [OF walk_start] by simp

lemma walk_dist_edge:
  assumes "walk_reach E s u" "E u v"
  shows "walk_reach E s v" "walk_dist E s v \<le> walk_dist E s u + 1"
  using walk_step [OF walk_dist_walk [OF assms(1)] assms(2)] walk_dist_le
  by (auto simp: walk_reach_def)

lemma walk_dist_pred:
  assumes "walk_reach E s v" "v \<noteq> s"
  shows "\<exists>u. walk_reach E s u \<and> E u v \<and> walk_dist E s v = walk_dist E s u + 1"
proof -
  have w: "walk E s (walk_dist E s v) v" by (rule walk_dist_walk [OF assms(1)])
  then obtain k where k: "walk_dist E s v = Suc k"
    using assms(2) by (cases "walk_dist E s v") (auto elim: walk.cases)
  with w obtain u where u: "walk E s k u" "E u v" by (auto elim: walk_SucE)
  have "walk_dist E s u \<le> k" using walk_dist_le [OF u(1)] .
  moreover have "walk_dist E s v \<le> walk_dist E s u + 1"
    using walk_dist_edge(2) [of E s u v] u by (auto simp: walk_reach_def)
  ultimately show ?thesis using k u by (auto simp: walk_reach_def)
qed

text \<open>
  The state of the search when \<open>vi\<close> locales have been visited: the discovered locales are ordered
  by distance, and the neighbours of visited ones are discovered.
\<close>

definition bfs_inv :: "(nat \<Rightarrow> nat \<Rightarrow> bool) \<Rightarrow> nat \<Rightarrow> nat list \<Rightarrow> nat \<Rightarrow> bool" where
  "bfs_inv E s tv vi \<longleftrightarrow> distinct tv \<and> s \<in> set tv \<and> vi \<le> length tv \<and> (\<forall>v \<in> set tv. walk_reach E s v) \<and>
     sorted (map (walk_dist E s) tv) \<and>
     (\<forall>i < vi. \<forall>v. E (tv ! i) v \<longrightarrow> v \<in> set tv) \<and>
     (vi < length tv \<longrightarrow> (\<forall>v \<in> set tv. walk_dist E s v \<le> walk_dist E s (tv ! vi) + 1))"

lemma bfs_inv_closer:
  assumes inv: "bfs_inv E s tv vi" and vi: "vi < length tv"
    and v: "walk_reach E s v" "walk_dist E s v < walk_dist E s (tv ! vi)"
  shows "\<exists>i < vi. tv ! i = v"
  using v
proof (induction "walk_dist E s v" arbitrary: v rule: less_induct)
  case less
  have mem: "v \<in> set tv"
  proof (cases "v = s")
    case True
    then show ?thesis using inv by (simp add: bfs_inv_def)
  next
    case False
    then obtain u where u: "walk_reach E s u" "E u v" "walk_dist E s v = walk_dist E s u + 1"
      using walk_dist_pred [OF less.prems(1)] by blast
    then obtain i where "i < vi" "tv ! i = u" using less.hyps [of u] less.prems(2) by auto
    then show ?thesis using inv u(2) by (auto simp: bfs_inv_def)
  qed
  then obtain i where i: "i < length tv" "tv ! i = v" by (auto simp: in_set_conv_nth)
  have "i < vi"
  proof (rule ccontr)
    assume "\<not> i < vi"
    then have "map (walk_dist E s) tv ! vi \<le> map (walk_dist E s) tv ! i"
      using inv i by (intro sorted_nth_mono) (auto simp: bfs_inv_def)
    then show False using less.prems(2) i vi by simp
  qed
  then show ?case using i by blast
qed

text \<open>Undiscovered neighbours of the locale being visited are exactly one step further.\<close>

lemma bfs_inv_new:
  assumes inv: "bfs_inv E s tv vi" and vi: "vi < length tv" and v: "E (tv ! vi) v" "v \<notin> set tv"
  shows "walk_reach E s v \<and> walk_dist E s v = walk_dist E s (tv ! vi) + 1"
proof -
  have r: "walk_reach E s (tv ! vi)" using inv vi by (auto simp: bfs_inv_def)
  note up = walk_dist_edge [OF r v(1)]
  have "walk_dist E s v \<ge> walk_dist E s (tv ! vi) + 1"
  proof (rule ccontr)
    assume "\<not> ?thesis"
    then have le: "walk_dist E s v \<le> walk_dist E s (tv ! vi)" by simp
    have "v \<noteq> s" using inv v(2) by (auto simp: bfs_inv_def)
    then obtain u where u: "walk_reach E s u" "E u v" "walk_dist E s v = walk_dist E s u + 1"
      using walk_dist_pred [OF up(1)] by blast
    then have "walk_dist E s u < walk_dist E s (tv ! vi)" using le by simp
    then obtain i where "i < vi" "tv ! i = u" using bfs_inv_closer [OF inv vi u(1)] by blast
    then show False using inv u(2) v(2) by (auto simp: bfs_inv_def)
  qed
  then show ?thesis using up by simp
qed

lemma bfs_inv_expand:
  assumes inv: "bfs_inv E s tv vi" and vi: "vi < length tv"
    and new: "distinct ns" "set ns = {v. E (tv ! vi) v \<and> v \<notin> set tv}"
  shows "bfs_inv E s (tv @ ns) (vi + 1)"
proof -
  let ?d = "walk_dist E s" and ?c = "walk_dist E s (tv ! vi)"
  have ns: "walk_reach E s v \<and> ?d v = ?c + 1" if "v \<in> set ns" for v
    using bfs_inv_new [OF inv vi] that new(2) by blast
  have old: "?d v \<le> ?c + 1" if "v \<in> set tv" for v using inv vi that by (auto simp: bfs_inv_def)
  have "map ?d ns = replicate (length ns) (?c + 1)" using ns by (intro replicate_eqI) auto
  then have srt: "sorted (map ?d (tv @ ns))"
    using inv old by (auto simp: bfs_inv_def sorted_append)
  have closed: "v \<in> set (tv @ ns)" if "i < vi + 1" "E ((tv @ ns) ! i) v" for i v
    using that inv vi new(2) by (cases "i = vi") (auto simp: bfs_inv_def nth_append less_Suc_eq)
  have near: "?d v \<le> ?d ((tv @ ns) ! (vi + 1)) + 1" if "vi + 1 < length (tv @ ns)" "v \<in> set (tv @ ns)" for v
  proof -
    have "?d ((tv @ ns) ! vi) \<le> ?d ((tv @ ns) ! (vi + 1))"
      using sorted_nth_mono [OF srt, of vi "vi + 1"] that(1) by (simp del: map_append)
    then have "?c \<le> ?d ((tv @ ns) ! (vi + 1))" using vi by (simp add: nth_append)
    moreover have "?d v \<le> ?c + 1" using that(2) old ns by fastforce
    ultimately show ?thesis by simp
  qed
  show ?thesis unfolding bfs_inv_def
    using inv vi new ns srt closed near by (auto simp: bfs_inv_def)
qed

definition edge :: "('a, 'i) locality_graph \<Rightarrow> nat \<Rightarrow> nat \<Rightarrow> bool" where
  "edge g u v \<longleftrightarrow> u < length (g_locales g) \<and> v < length (g_locales g) \<and>
     (case g_edges g ! (u * length (g_locales g) + v) of Some e \<Rightarrow> e \<noteq> 0 | None \<Rightarrow> False)"

lemma bfs_expand_neighbours:
  assumes wf: "edges_wf n (g_edges g)" "n = length (g_locales g)" "u < n"
    and "distinct is" "set is \<subseteq> {..<n}" "distinct tv" "set tv \<subseteq> {..<n}"
  shows "bfs_expand (g_edges g) n (int u) is tv = Inr (tv @ filter (\<lambda>i. edge g u i \<and> i \<notin> set tv) is)"
  using assms(4-)
proof (induction "is" arbitrary: tv)
  case (Cons i "is")
  have i: "i < n" using Cons.prems by simp
  have len: "length (g_edges g) = n * n" using wf(1) by (simp add: edges_wf_def)
  have b: "u * n + i < length (g_edges g)" unfolding len by (rule cell_bound [OF wf(3) i])
  then have "g_edges g ! (u * n + i) \<noteq> None" using wf(1) nth_mem [OF b] unfolding edges_wf_def by metis
  then obtain e where e: "g_edges g ! (u * n + i) = Some e" by auto
  have get: "arr_get (g_edges g) (int u * int n + int i) = Inr (Some e)"
    using arr_get_int [OF b] e by simp
  have ed: "edge g u i \<longleftrightarrow> e \<noteq> 0" using e i wf(2,3) by (simp add: edge_def)
  show ?case
  proof (cases "e \<noteq> 0 \<and> i \<notin> set tv")
    case True
    have "card (insert i (set tv)) \<le> card {..<n}" using Cons.prems i by (intro card_mono) auto
    then have "length tv < n" using True Cons.prems(3) by (simp add: distinct_card)
    moreover have "bfs_expand (g_edges g) n (int u) is (tv @ [i]) =
        Inr ((tv @ [i]) @ filter (\<lambda>j. edge g u j \<and> j \<notin> set (tv @ [i])) is)"
      using Cons.prems True i by (intro Cons.IH) auto
    moreover have "filter (\<lambda>j. edge g u j \<and> j \<notin> set (tv @ [i])) is = filter (\<lambda>j. edge g u j \<and> j \<notin> set tv) is"
      using Cons.prems(1) by (intro filter_cong) auto
    ultimately show ?thesis using True get ed by (auto simp: image_iff)
  next
    case False
    have "bfs_expand (g_edges g) n (int u) is tv = Inr (tv @ filter (\<lambda>j. edge g u j \<and> j \<notin> set tv) is)"
      using Cons.prems by (intro Cons.IH) auto
    then show ?thesis using False get ed by (auto simp: image_iff)
  qed
qed simp

definition has_type :: "('a, 'i) locality_graph \<Rightarrow> int list \<Rightarrow> nat \<Rightarrow> bool" where
  "has_type g types l \<longleftrightarrow> int (loc_type (g_locales g ! l)) \<in> set types"

definition closest_spec :: "('a, 'i) locality_graph \<Rightarrow> int list \<Rightarrow> nat \<Rightarrow> nat option result \<Rightarrow> bool" where
  "closest_spec g types s r = (case r of
      Inr (Some l) \<Rightarrow> walk_reach (edge g) s l \<and> has_type g types l \<and>
         (\<forall>v. walk_reach (edge g) s v \<and> has_type g types v \<longrightarrow> walk_dist (edge g) s l \<le> walk_dist (edge g) s v)
    | Inr None \<Rightarrow> (\<forall>v < length (g_locales g). walk_reach (edge g) s v \<and> \<not> has_type g types v)
    | Inl e \<Rightarrow> e = Uninit_read \<and> (\<exists>v < length (g_locales g). \<not> walk_reach (edge g) s v) \<and>
         (\<forall>v. walk_reach (edge g) s v \<longrightarrow> \<not> has_type g types v))"

lemma bfs_inv_exhausted:
  assumes "bfs_inv E s tv (length tv)" "walk E s k v"
  shows "v \<in> set tv"
  using assms(2)
proof induction
  case walk_start
  then show ?case using assms(1) by (simp add: bfs_inv_def)
next
  case (walk_step k u v)
  then obtain i where "i < length tv" "tv ! i = u" by (auto simp: in_set_conv_nth)
  then show ?case using assms(1) walk_step(2) by (auto simp: bfs_inv_def)
qed

lemma bfs_loop_correct:
  assumes "locales_wf (g_locales g)" "edges_wf (length (g_locales g)) (g_edges g)"
    and "bfs_inv (edge g) s tv vi" "set tv \<subseteq> {..<length (g_locales g)}" "\<forall>i < vi. \<not> has_type g types (tv ! i)"
  shows "closest_spec g types s (bfs_loop g types tv vi)"
  using assms(3-)
proof (induction "length (g_locales g) - vi" arbitrary: tv vi rule: less_induct)
  case less
  let ?n = "length (g_locales g)"
  have dist: "distinct tv" and le: "vi \<le> length tv" using less.prems(1) by (auto simp: bfs_inv_def)
  have card: "card (set tv) \<le> ?n" using less.prems(2) card_mono [of "{..<?n}" "set tv"] by simp
  show ?case
  proof (cases "vi < length tv")
    case True
    let ?u = "tv ! vi"
    have u: "?u < ?n" using subsetD [OF less.prems(2) nth_mem [OF True]] by simp
    have vi: "vi < ?n" using True card dist by (simp add: distinct_card)
    have id: "loc_id (g_locales g ! ?u) = int ?u" using assms(1) u by (simp add: locales_wf_def)
    show ?thesis
    proof (cases "has_type g types ?u")
      case ty: True
      have "walk_dist (edge g) s ?u \<le> walk_dist (edge g) s v" if tv: "walk_reach (edge g) s v" "has_type g types v" for v
      proof (rule ccontr)
        assume "\<not> ?thesis"
        then have "walk_dist (edge g) s v < walk_dist (edge g) s ?u" by simp
        then obtain i where "i < vi" "tv ! i = v" using bfs_inv_closer [OF less.prems(1) True tv(1)] by blast
        then show False using less.prems(3) tv(2) by auto
      qed
      moreover have "walk_reach (edge g) s ?u" using less.prems(1) True by (auto simp: bfs_inv_def)
      moreover have "bfs_loop g types tv vi = Inr (Some ?u)"
        using ty True vi by (subst bfs_loop.simps) (simp add: has_type_def Let_def)
      ultimately show ?thesis using ty by (simp add: closest_spec_def)
    next
      case ty: False
      define ns where "ns = filter (\<lambda>i. edge g ?u i \<and> i \<notin> set tv) [0..<?n]"
      have step: "bfs_loop g types tv vi = bfs_loop g types (tv @ ns) (vi + 1)"
        using bfs_expand_neighbours [OF assms(2) refl u _ _ dist less.prems(2), of "[0..<?n]"] ty True vi id
        by (subst bfs_loop.simps) (simp add: has_type_def Let_def ns_def atLeast0LessThan)
      have "set ns = {v. edge g ?u v \<and> v \<notin> set tv}" by (auto simp: ns_def edge_def)
      then have inv: "bfs_inv (edge g) s (tv @ ns) (vi + 1)"
        by (intro bfs_inv_expand [OF less.prems(1) True]) (simp add: ns_def)
      have "\<forall>i < vi + 1. \<not> has_type g types ((tv @ ns) ! i)"
        using less.prems(3) ty True by (auto simp: nth_append less_Suc_eq)
      then show ?thesis unfolding step
        using less.prems(2) vi inv by (intro less.hyps) (auto simp: ns_def)
    qed
  next
    case False
    then have v: "vi = length tv" using le by simp
    have inv: "bfs_inv (edge g) s tv (length tv)" using less.prems(1) v by simp
    have all: "walk_reach (edge g) s x \<longleftrightarrow> x \<in> set tv" for x
    proof
      assume "walk_reach (edge g) s x"
      then show "x \<in> set tv" using bfs_inv_exhausted [OF inv] by (auto simp: walk_reach_def)
    next
      assume "x \<in> set tv"
      then show "walk_reach (edge g) s x" using inv by (simp add: bfs_inv_def)
    qed
    have none: "\<not> has_type g types x" if "x \<in> set tv" for x
      using that less.prems(3) v by (auto simp: in_set_conv_nth)
    show ?thesis
    proof (cases "vi < ?n")
      case True
      then have "card (set tv) < card {..<?n}" using v dist by (simp add: distinct_card)
      then have "set tv \<noteq> {..<?n}" by (metis less_irrefl)
      then have "\<exists>x < ?n. x \<notin> set tv" using less.prems(2) by blast
      moreover have "bfs_loop g types tv vi = Inl Uninit_read" using True v by (subst bfs_loop.simps) simp
      ultimately show ?thesis using all none by (simp add: closest_spec_def)
    next
      case no: False
      then have "card (set tv) = card {..<?n}" using v dist card by (simp add: distinct_card)
      then have "set tv = {..<?n}" using less.prems(2) by (intro card_subset_eq) auto
      moreover have "bfs_loop g types tv vi = Inr None" using no by (subst bfs_loop.simps) simp
      ultimately show ?thesis using all none by (simp add: closest_spec_def)
    qed
  qed
qed

lemma find_first_filter: "find P xs = (if length (filter P xs) > 0 then Some (filter P xs ! 0) else None)"
  by (induction xs) auto

section \<open>Properties\<close>

text \<open>
  C24: on a well-formed graph, \<^verbatim>\<open>hclib_get_closest_locale_of_types\<close> started at locale \<open>s\<close> returns a
  locale of a wanted type at the smallest distance from \<open>s\<close>, whenever one can be reached at
  all. If none can be reached it returns \<^verbatim>\<open>NULL\<close> when the whole graph is reachable from \<open>s\<close>, and
  otherwise runs past the discovered locales and reads uninitialised memory.
\<close>

theorem closest_locale_correct:
  assumes "locales_wf (g_locales g)" "edges_wf (length (g_locales g)) (g_edges g)" "s < length (g_locales g)"
  shows "if \<exists>v. walk_reach (edge g) s v \<and> has_type g types v
         then \<exists>l. hclib_get_closest_locale_of_types g s types = Inr (Some l) \<and>
                walk_reach (edge g) s l \<and> has_type g types l \<and>
                (\<forall>v. walk_reach (edge g) s v \<and> has_type g types v \<longrightarrow>
                     walk_dist (edge g) s l \<le> walk_dist (edge g) s v)
         else hclib_get_closest_locale_of_types g s types =
                (if \<forall>v < length (g_locales g). walk_reach (edge g) s v then Inr None else Inl Uninit_read)"
proof -
  let ?r = "hclib_get_closest_locale_of_types g s types"
  have "bfs_inv (edge g) s [s] 0"
    using walk_dist_start [of "edge g" s] by (auto simp: bfs_inv_def walk_reach_def intro: walk_start)
  then have "closest_spec g types s (bfs_loop g types [s] 0)"
    using assms by (intro bfs_loop_correct) auto
  then have spec: "closest_spec g types s ?r"
    using assms(3) by (simp add: hclib_get_closest_locale_of_types_def)
  have bound: "v < length (g_locales g)" if reach: "walk_reach (edge g) s v" for v
  proof -
    obtain k where "walk (edge g) s k v" using reach by (auto simp: walk_reach_def)
    then show ?thesis using assms(3) by cases (auto simp: edge_def)
  qed
  show ?thesis
  proof (cases ?r)
    case (Inl e)
    then show ?thesis using spec by (auto simp: closest_spec_def)
  next
    case (Inr r)
    then show ?thesis using spec bound by (cases r) (auto simp: closest_spec_def)
  qed
qed

definition line_graph :: "(nat, nat) locality_graph" where
  "line_graph = \<lparr>g_locales = map (\<lambda>i. \<lparr>loc_id = int i, loc_type = i, lbl = decimal i, special_type = None, metadata = None,
       idle_funcs = [], reachable = None, deques = []\<rparr>) [0, 1],
     g_edges = [Some 0, Some 1, Some 1, Some 0]\<rparr>"

theorem closest_locale_correct_witness:
  "\<exists>l. hclib_get_closest_locale_of_types line_graph 0 [1] = Inr (Some l) \<and> has_type line_graph [1] l"
proof -
  have d: "decimal 0 \<noteq> decimal 1" using decimal_inj [of 0 1] by auto
  have wf: "locales_wf (g_locales line_graph)"
    using d by (auto simp: line_graph_def locales_wf_def less_Suc_eq numeral_2_eq_2)
  have ewf: "edges_wf (length (g_locales line_graph)) (g_edges line_graph)"
    by (auto simp: line_graph_def edges_wf_def less_Suc_eq numeral_2_eq_2)
  have e: "edge line_graph 0 1" by (simp add: edge_def line_graph_def)
  have "walk_reach (edge line_graph) 0 1"
    unfolding walk_reach_def using walk_step [of "edge line_graph" 0 0 0 1, OF walk_start e] by blast
  moreover have "has_type line_graph [1] 1" by (simp add: has_type_def line_graph_def)
  ultimately have ex: "\<exists>v. walk_reach (edge line_graph) 0 v \<and> has_type line_graph [1] v" by blast
  have lt: "0 < length (g_locales line_graph)" by (simp add: line_graph_def)
  show ?thesis using closest_locale_correct [OF wf ewf lt, of "[1]"] ex by (simp add: if_split) blast
qed

text \<open>
  \<^verbatim>\<open>hclib_get_thread_private_locales\<close> gives each worker the first locale of its steal
  path that is also on its pop path, on no path of another worker, and not marked special by a
  module; and \<^verbatim>\<open>NULL\<close> only if there is no such locale. The in-place deletions of the C code do not
  skip or repeat candidates.
\<close>

lemma thread_private_locales_correct:
  "hclib_get_thread_private_locales g wps =
     map (\<lambda>i. find (private_to g wps i) (steal_path (wps ! i))) [0..<length wps]"
  by (simp add: hclib_get_thread_private_locales_def thread_private_find)

text \<open>
  The first call of \<^verbatim>\<open>hclib_get_central_place\<close> returns the first locale of worker 0's steal
  path that is on the pop and the steal path of every worker (\<^verbatim>\<open>NULL\<close> if there is none), and
  every later call returns the same.
\<close>

theorem central_place_correct:
  assumes "wps \<noteq> []"
  shows "\<exists>cc. hclib_get_central_place wps \<lparr>central_initialized = False, central = None\<rparr> =
       Inr (cc, find (\<lambda>l. \<forall>w \<in> set wps. l \<in> set (steal_path w) \<and> l \<in> set (pop_path w)) (steal_path (hd wps))) \<and>
     hclib_get_central_place wps' cc =
       Inr (cc, find (\<lambda>l. \<forall>w \<in> set wps. l \<in> set (steal_path w) \<and> l \<in> set (pop_path w)) (steal_path (hd wps)))"
proof -
  obtain w ws where wps: "wps = w # ws" using assms by (cases wps) auto
  have "filter (\<lambda>l. \<forall>w \<in> set ws. l \<in> set (steal_path w) \<and> l \<in> set (pop_path w))
          (keep_duplicates (steal_path w) (pop_path w))
      = filter (\<lambda>l. \<forall>w \<in> set wps. l \<in> set (steal_path w) \<and> l \<in> set (pop_path w)) (steal_path w)"
    by (auto simp: wps keep_duplicates_filter intro!: filter_cong)
  then show ?thesis
    unfolding hclib_get_central_place_def find_first_filter
    by (simp add: wps arr_get_def Let_def central_candidates)
qed

theorem central_place_correct_witness:
  "\<exists>cc. hclib_get_central_place
      [\<lparr>pop_path = [1, 0], steal_path = [1, 0], last_successful_steal_locale = 0\<rparr>,
       \<lparr>pop_path = [2, 0], steal_path = [2, 0], last_successful_steal_locale = 0\<rparr>]
      \<lparr>central_initialized = False, central = None\<rparr> = Inr (cc, Some 0)"
  using central_place_correct [of "[\<lparr>pop_path = [1, 0], steal_path = [1, 0], last_successful_steal_locale = 0\<rparr>,
       \<lparr>pop_path = [2, 0], steal_path = [2, 0], last_successful_steal_locale = 0\<rparr>]" "[]"] by auto

end
