(* ===== verification/Work_Stealing.thy ===== *)
theory Work_Stealing
  imports Locality_Queries
begin

text \<open>
  The runtime half of \<^verbatim>\<open>src/src/hclib-locality-graph.c\<close>: pushing, popping and stealing tasks at
  locales along a worker's paths, and the idle functions of locales. The pool is the array of
  locales, each with one deque per worker. The operations are run here without interference;
  single deque operations under interference are the subject of the theory
  \<^verbatim>\<open>Deque_Concurrent\<close>.
\<close>

section \<open>Model\<close>

type_synonym ('a, 'i) pool = "('a, 'i) hclib_locale list"

text \<open>The part of \<^verbatim>\<open>hclib_worker_state\<close> that the search for tasks reads.\<close>

record worker_state =
  ws_id :: int
  ws_nworkers :: int
  base_intra_socket_workers :: int
  limit_intra_socket_workers :: int

definition get_deque_locale :: "('a, 'i) pool \<Rightarrow> nat \<Rightarrow> int \<Rightarrow> 'a deque result" where
  "get_deque_locale ls l wid = arr_get (deques (ls ! l)) wid"

definition put_deque :: "('a, 'i) pool \<Rightarrow> nat \<Rightarrow> int \<Rightarrow> 'a deque \<Rightarrow> ('a, 'i) pool" where
  "put_deque ls l wid q = ls[l := (ls ! l)\<lparr>deques := (deques (ls ! l))[nat wid := q]\<rparr>]"

definition deque_push_locale :: "worker_state \<Rightarrow> ('a, 'i) pool \<Rightarrow> nat \<Rightarrow> 'a \<Rightarrow> (('a, 'i) pool \<times> bool) result" where
  "deque_push_locale ws ls l ele =
     (case reachable (ls ! l) of
        None \<Rightarrow> Inl Uninit_read
      | Some r \<Rightarrow>
          res_bind (c_assert r) (\<lambda>_.
          res_bind (get_deque_locale ls l (ws_id ws)) (\<lambda>q.
          res_bind (deque_push q ele) (\<lambda>(q', ok).
          Inr (put_deque ls l (ws_id ws) q', ok)))))"

text \<open>\<^verbatim>\<open>tail - head\<close> is converted to \<^verbatim>\<open>size_t\<close> before it is added.\<close>

fun backlog_from :: "('a, 'i) pool \<Rightarrow> int \<Rightarrow> path \<Rightarrow> nat \<Rightarrow> nat result" where
  "backlog_from ls wid [] acc = Inr acc"
| "backlog_from ls wid (l # p) acc =
     res_bind (get_deque_locale ls l wid) (\<lambda>q.
     backlog_from ls wid p (wrap64u (int acc + wrap32 (tail q - head q))))"

definition workers_backlog :: "worker_state \<Rightarrow> worker_paths \<Rightarrow> ('a, 'i) pool \<Rightarrow> nat result" where
  "workers_backlog ws paths ls = backlog_from ls (ws_id ws) (pop_path paths) 0"

definition locale_num_tasks :: "('a, 'i) hclib_locale \<Rightarrow> nat" where
  "locale_num_tasks loc = foldl (\<lambda>c q. (c + deque_size q) mod 4294967296) 0 (deques loc)"

fun pop_along :: "('a, 'i) pool \<Rightarrow> int \<Rightarrow> path \<Rightarrow> (('a, 'i) pool \<times> 'a option) result" where
  "pop_along ls wid [] = Inr (ls, None)"
| "pop_along ls wid (l # p) =
     res_bind (get_deque_locale ls l wid) (\<lambda>q.
     res_bind (deque_pop q) (\<lambda>(q', task).
     let ls' = put_deque ls l wid q' in
     case task of Some t \<Rightarrow> Inr (ls', Some t) | None \<Rightarrow> pop_along ls' wid p))"

definition locale_pop_task :: "worker_state \<Rightarrow> worker_paths \<Rightarrow> ('a, 'i) pool \<Rightarrow> (('a, 'i) pool \<times> 'a option) result" where
  "locale_pop_task ws paths ls = pop_along ls (ws_id ws) (pop_path paths)"

definition locale_register_idle_task :: "('a, 'i) pool \<Rightarrow> nat \<Rightarrow> 'i \<Rightarrow> ('a, 'i) pool" where
  "locale_register_idle_task ls l fp = ls[l := (ls ! l)\<lparr>idle_funcs := idle_funcs (ls ! l) @ [fp]\<rparr>]"

text \<open>What an idle function does is an argument.\<close>

definition locale_run_idle_tasks :: "('i \<Rightarrow> 's \<Rightarrow> 's) \<Rightarrow> worker_paths \<Rightarrow> ('a, 'i) pool \<Rightarrow> 's \<Rightarrow> 's" where
  "locale_run_idle_tasks run paths ls s =
     foldl (\<lambda>s l. foldl (\<lambda>s f. run f s) s (idle_funcs (ls ! l))) s (steal_path paths)"

definition hclib_locale_mark_special :: "('a, 'i) pool \<Rightarrow> nat \<Rightarrow> string \<Rightarrow> ('a, 'i) pool result" where
  "hclib_locale_mark_special ls l ty =
     (case special_type (ls ! l) of
        Some old \<Rightarrow> res_bind (c_assert (old = ty)) (\<lambda>_. Inr ls)
      | None \<Rightarrow> Inr (ls[l := (ls ! l)\<lparr>special_type := Some ty\<rparr>]))"

text \<open>The victims at one locale: first the workers of the same socket, then the others.\<close>

definition intra_victims :: "worker_state \<Rightarrow> int list" where
  "intra_victims ws = [base_intra_socket_workers ws..limit_intra_socket_workers ws - 1]"

definition leftover_victims :: "worker_state \<Rightarrow> int list" where
  "leftover_victims ws =
     (let leftover = ws_nworkers ws - (limit_intra_socket_workers ws - base_intra_socket_workers ws)
      in map (\<lambda>j. (limit_intra_socket_workers ws + j) smod ws_nworkers ws) [0..leftover - 1])"

fun steal_from :: "('a, 'i) pool \<Rightarrow> nat \<Rightarrow> int list \<Rightarrow> (('a, 'i) pool \<times> ('a option list \<times> int) option) result" where
  "steal_from ls l [] = Inr (ls, None)"
| "steal_from ls l (victim # vs) =
     res_bind (get_deque_locale ls l victim) (\<lambda>q.
     res_bind (deque_steal q) (\<lambda>(q', stolen).
     let ls' = put_deque ls l victim q' in
     if stolen \<noteq> [] then Inr (ls', Some (stolen, victim)) else steal_from ls' l vs))"

text \<open>The loop over the steal path, from the locale of the last success on.\<close>

fun steal_along ::
  "worker_state \<Rightarrow> worker_paths \<Rightarrow> int list \<Rightarrow> ('a, 'i) pool \<Rightarrow>
   (('a, 'i) pool \<times> worker_paths \<times> ('a option list \<times> int) option) result" where
  "steal_along ws paths [] ls = Inr (ls, paths, None)"
| "steal_along ws paths (i # is) ls =
     (let len = int (length (steal_path paths));
          locale_index = (last_successful_steal_locale paths + i) smod len
      in res_bind (arr_get (steal_path paths) locale_index) (\<lambda>l.
         res_bind (steal_from ls l (intra_victims ws)) (\<lambda>(ls1, r1).
         case r1 of
           Some sv \<Rightarrow> Inr (ls1, paths\<lparr>last_successful_steal_locale := locale_index\<rparr>, Some sv)
         | None \<Rightarrow>
             res_bind (steal_from ls1 l (leftover_victims ws)) (\<lambda>(ls2, r2).
             case r2 of
               Some sv \<Rightarrow> Inr (ls2, paths\<lparr>last_successful_steal_locale := locale_index\<rparr>, Some sv)
             | None \<Rightarrow> steal_along ws paths is ls2))))"

definition locale_steal_task ::
  "worker_state \<Rightarrow> worker_paths \<Rightarrow> ('a, 'i) pool \<Rightarrow>
   (('a, 'i) pool \<times> worker_paths \<times> ('a option list \<times> int) option) result" where
  "locale_steal_task ws paths ls = steal_along ws paths [0..int (length (steal_path paths)) - 1] ls"

section \<open>The pool as lists of tasks\<close>

definition pool_wf :: "nat \<Rightarrow> ('a, 'i) pool \<Rightarrow> bool" where
  "pool_wf n ls \<longleftrightarrow> (\<forall>l < length ls. length (deques (ls ! l)) = n \<and> (\<forall>q \<in> set (deques (ls ! l)). deque_wf q))"

definition tasks_at :: "('a, 'i) pool \<Rightarrow> nat \<Rightarrow> nat \<Rightarrow> 'a list" where
  "tasks_at ls l w = deque_list (deques (ls ! l) ! w)"

text \<open>The pool after the deque of worker \<open>w\<close> at locale \<open>l\<close> has been left with the tasks \<open>ts\<close>.\<close>

definition only_changed :: "nat \<Rightarrow> ('a, 'i) pool \<Rightarrow> nat \<Rightarrow> nat \<Rightarrow> 'a list \<Rightarrow> ('a, 'i) pool \<Rightarrow> bool" where
  "only_changed n ls l w ts ls' \<longleftrightarrow> pool_wf n ls' \<and> length ls' = length ls \<and> tasks_at ls' l w = ts \<and>
     (\<forall>l' < length ls. \<forall>w' < n. (l', w') \<noteq> (l, w) \<longrightarrow> tasks_at ls' l' w' = tasks_at ls l' w')"

lemma pool_get:
  assumes "pool_wf n ls" "l < length ls" "w < n"
  shows "get_deque_locale ls l (int w) = Inr (deques (ls ! l) ! w)" "deque_wf (deques (ls ! l) ! w)"
  using assms by (auto simp: pool_wf_def get_deque_locale_def)

lemma put_same [simp]: "put_deque ls l (int w) (deques (ls ! l) ! w) = ls"
  by (simp add: put_deque_def)

lemma put_changed:
  assumes "pool_wf n ls" "l < length ls" "w < n" "deque_wf q"
  shows "only_changed n ls l w (deque_list q) (put_deque ls l (int w) q)"
proof -
  have len: "length (deques (ls ! l)) = n" using assms by (simp add: pool_wf_def)
  have "pool_wf n (put_deque ls l (int w) q)"
    using assms len by (auto simp: pool_wf_def put_deque_def nth_upd_if dest!: set_update_subset_insert [THEN subsetD])
  then show ?thesis
    using assms len by (auto simp: only_changed_def put_deque_def tasks_at_def nth_upd_if)
qed

lemma pop_empty_same:
  assumes "deque_wf q" "deque_list q = []"
  shows "deque_pop q = Inr (q, None)"
proof -
  have "tail q = head q" "0 \<le> head q" "tail q \<le> MAX_INT"
    using assms deque_list_length [of q] by (auto simp: deque_wf_def)
  then show ?thesis by (simp add: deque_pop_def MAX_INT_def Let_def)
qed

lemma pop_along_first:
  assumes "pool_wf n ls" "set p \<subseteq> {..<length ls}" "w < n"
  shows "case find (\<lambda>l. tasks_at ls l w \<noteq> []) p of
           None \<Rightarrow> pop_along ls (int w) p = Inr (ls, None)
         | Some l \<Rightarrow> \<exists>ls'. pop_along ls (int w) p = Inr (ls', Some (last (tasks_at ls l w))) \<and>
                          only_changed n ls l w (butlast (tasks_at ls l w)) ls'"
  using assms(2)
proof (induction p)
  case (Cons l p)
  have l: "l < length ls" using Cons.prems by simp
  let ?q = "deques (ls ! l) ! w"
  note q = pool_get [OF assms(1) l assms(3)]
  show ?case
  proof (cases "tasks_at ls l w = []")
    case True
    then have eq: "pop_along ls (int w) (l # p) = pop_along ls (int w) p"
      using q pop_empty_same [OF q(2)] by (simp add: tasks_at_def Let_def)
    show ?thesis unfolding eq using Cons True by simp
  next
    case False
    then have "deque_list ?q = butlast (deque_list ?q) @ [last (deque_list ?q)]" by (simp add: tasks_at_def)
    from dq.pop_some [OF q(2) this] obtain q' where
      q': "deque_pop ?q = Inr (q', Some (last (deque_list ?q)))" "deque_wf q'" "deque_list q' = butlast (deque_list ?q)"
      by blast
    have "pop_along ls (int w) (l # p) = Inr (put_deque ls l (int w) q', Some (last (tasks_at ls l w)))"
      using q q' by (simp add: tasks_at_def Let_def)
    then show ?thesis using False put_changed [OF assms(1) l assms(3) q'(2)] q'(3) by (simp add: tasks_at_def)
  qed
qed simp

lemma steal_from_first:
  assumes "pool_wf n ls" "l < length ls" "\<forall>v \<in> set vs. 0 \<le> v \<and> v < int n"
  shows "case find (\<lambda>v. tasks_at ls l (nat v) \<noteq> []) vs of
           None \<Rightarrow> steal_from ls l vs = Inr (ls, None)
         | Some v \<Rightarrow> \<exists>ls'. steal_from ls l vs = Inr (ls', Some ([Some (hd (tasks_at ls l (nat v)))], v)) \<and>
                          only_changed n ls l (nat v) (tl (tasks_at ls l (nat v))) ls'"
  using assms(3)
proof (induction vs)
  case (Cons v vs)
  obtain w where w: "v = int w" "w < n" using Cons.prems by (cases v) auto
  let ?q = "deques (ls ! l) ! w"
  note q = pool_get [OF assms(1,2) w(2)]
  show ?case
  proof (cases "tasks_at ls l w = []")
    case True
    then have eq: "steal_from ls l (v # vs) = steal_from ls l vs"
      using q dq.steal_none [OF q(2)] w(1) by (simp add: tasks_at_def Let_def)
    show ?thesis unfolding eq using Cons True w(1) by simp
  next
    case False
    then have "deque_list ?q = hd (deque_list ?q) # tl (deque_list ?q)" by (simp add: tasks_at_def)
    from dq.steal_some [OF q(2) this] obtain q' where
      q': "deque_steal ?q = Inr (q', [Some (hd (deque_list ?q))])" "deque_wf q'" "deque_list q' = tl (deque_list ?q)"
      by blast
    have "steal_from ls l (v # vs) = Inr (put_deque ls l v q', Some ([Some (hd (tasks_at ls l w))], v))"
      using q q' w(1) by (simp add: tasks_at_def Let_def)
    then show ?thesis using False put_changed [OF assms(1,2) w(2) q'(2)] q'(3) w(1) by (simp add: tasks_at_def)
  qed
qed simp

section \<open>The order of victims\<close>

text \<open>The socket of a worker is a range of worker numbers.\<close>

definition socket_ok :: "nat \<Rightarrow> worker_state \<Rightarrow> bool" where
  "socket_ok n ws \<longleftrightarrow> ws_nworkers ws = int n \<and> 0 \<le> base_intra_socket_workers ws \<and>
     base_intra_socket_workers ws \<le> limit_intra_socket_workers ws \<and> limit_intra_socket_workers ws \<le> int n"

definition victims :: "worker_state \<Rightarrow> int list" where
  "victims ws = intra_victims ws @ leftover_victims ws"

lemma smod_small: "0 \<le> a \<Longrightarrow> 0 < n \<Longrightarrow> a smod n = a mod (n :: int)"
  by (simp add: signed_modulo_int_def signed_divide_int_def sgn_if minus_div_mult_eq_mod)

lemma leftover_split:
  assumes "socket_ok n ws"
  shows "leftover_victims ws = [limit_intra_socket_workers ws..int n - 1] @ [0..base_intra_socket_workers ws - 1]"
proof -
  let ?b = "base_intra_socket_workers ws" and ?l = "limit_intra_socket_workers ws"
  have ok: "ws_nworkers ws = int n" "0 \<le> ?b" "?b \<le> ?l" "?l \<le> int n" using assms by (auto simp: socket_ok_def)
  have "(?l + j) smod int n = (if ?l + j < int n then ?l + j else ?l + j - int n)" if "0 \<le> j" "j < int n - (?l - ?b)" for j
  proof -
    have "(?l + j) smod int n = (?l + j) mod int n" using ok that by (intro smod_small) auto
    moreover have "(?l + j) mod int n = ?l + j - int n" if "\<not> ?l + j < int n"
    proof -
      have "(?l + j - int n) mod int n = ?l + j - int n"
        using ok \<open>j < int n - (?l - ?b)\<close> that by (intro mod_pos_pos_trivial) auto
      then show ?thesis by simp
    qed
    ultimately show ?thesis using ok that by simp
  qed
  then show ?thesis
    using ok by (intro nth_equalityI) (auto simp: leftover_victims_def Let_def nth_append)
qed

lemma victims_all:
  assumes "socket_ok n ws"
  shows "distinct (victims ws) \<and> set (victims ws) = {0..<int n}"
  using assms unfolding victims_def leftover_split [OF assms] by (auto simp: socket_ok_def intra_victims_def)

lemma find_append: "find P (xs @ ys) = (case find P xs of None \<Rightarrow> find P ys | Some x \<Rightarrow> Some x)"
  by (induction xs) auto

text \<open>The deques that \<^verbatim>\<open>locale_steal_task\<close> looks at, in its order, as positions on the path and victims.\<close>

definition scan_index :: "worker_paths \<Rightarrow> int \<Rightarrow> int" where
  "scan_index paths i = (last_successful_steal_locale paths + i) smod int (length (steal_path paths))"

definition scan :: "worker_state \<Rightarrow> worker_paths \<Rightarrow> int list \<Rightarrow> (int \<times> int) list" where
  "scan ws paths is = concat (map (\<lambda>i. map (\<lambda>v. (scan_index paths i, v)) (victims ws)) is)"

definition nonempty_at :: "worker_paths \<Rightarrow> ('a, 'i) pool \<Rightarrow> int \<times> int \<Rightarrow> bool" where
  "nonempty_at paths ls kv \<longleftrightarrow> tasks_at ls (steal_path paths ! nat (fst kv)) (nat (snd kv)) \<noteq> []"

lemma find_map_pair: "find P (map (\<lambda>v. (k, v)) vs) = map_option (\<lambda>v. (k, v)) (find (\<lambda>v. P (k, v)) vs)"
  by (induction vs) auto

lemma steal_along_first:
  assumes wf: "pool_wf n ls" "set (steal_path paths) \<subseteq> {..<length ls}" "socket_ok n ws"
    and last: "0 \<le> last_successful_steal_locale paths" and "\<forall>i \<in> set is. 0 \<le> i" "steal_path paths \<noteq> []"
  shows "case find (nonempty_at paths ls) (scan ws paths is) of
           None \<Rightarrow> steal_along ws paths is ls = Inr (ls, paths, None)
         | Some (k, v) \<Rightarrow> let l = steal_path paths ! nat k; ts = tasks_at ls l (nat v) in
             \<exists>ls'. steal_along ws paths is ls =
                Inr (ls', paths\<lparr>last_successful_steal_locale := k\<rparr>, Some ([Some (hd ts)], v)) \<and>
                only_changed n ls l (nat v) (tl ts) ls'"
  using assms(5)
proof (induction "is")
  case Nil
  then show ?case by (simp add: scan_def)
next
  case (Cons i "is")
  let ?len = "int (length (steal_path paths))" and ?k = "scan_index paths i"
  let ?l = "steal_path paths ! nat ?k" and ?P = "nonempty_at paths ls"
  have "?k = (last_successful_steal_locale paths + i) mod ?len"
    unfolding scan_index_def using last Cons.prems assms(6) by (intro smod_small) auto
  then have k: "0 \<le> ?k" "?k < ?len" using assms(6) by auto
  have get: "arr_get (steal_path paths) ?k = Inr ?l" using k by (simp add: arr_get_def)
  have l: "?l < length ls" using wf(2) k nth_mem [of "nat ?k" "steal_path paths"] by (simp add: nat_less_iff subset_iff)
  have in_range: "\<forall>v \<in> set (intra_victims ws). 0 \<le> v \<and> v < int n" "\<forall>v \<in> set (leftover_victims ws). 0 \<le> v \<and> v < int n"
    using victims_all [OF wf(3)] by (auto simp: victims_def set_eq_iff)
  note first = steal_from_first [OF wf(1) l in_range(1)] steal_from_first [OF wf(1) l in_range(2)]
  have scan: "find ?P (scan ws paths (i # is)) =
      (case find (\<lambda>v. tasks_at ls ?l (nat v) \<noteq> []) (intra_victims ws) of
         Some v \<Rightarrow> Some (?k, v)
       | None \<Rightarrow> (case find (\<lambda>v. tasks_at ls ?l (nat v) \<noteq> []) (leftover_victims ws) of
                   Some v \<Rightarrow> Some (?k, v)
                 | None \<Rightarrow> find ?P (scan ws paths is)))"
    by (simp add: scan_def victims_def find_append find_map_pair nonempty_at_def split: option.splits)
  have IH: "case find ?P (scan ws paths is) of
           None \<Rightarrow> steal_along ws paths is ls = Inr (ls, paths, None)
         | Some (k, v) \<Rightarrow> let l = steal_path paths ! nat k; ts = tasks_at ls l (nat v) in
             \<exists>ls'. steal_along ws paths is ls =
                Inr (ls', paths\<lparr>last_successful_steal_locale := k\<rparr>, Some ([Some (hd ts)], v)) \<and>
                only_changed n ls l (nat v) (tl ts) ls'"
    using Cons by simp
  have unfold: "steal_along ws paths (i # is) ls =
       res_bind (steal_from ls ?l (intra_victims ws)) (\<lambda>(ls1, r1).
         case r1 of
           Some sv \<Rightarrow> Inr (ls1, paths\<lparr>last_successful_steal_locale := ?k\<rparr>, Some sv)
         | None \<Rightarrow>
             res_bind (steal_from ls1 ?l (leftover_victims ws)) (\<lambda>(ls2, r2).
             case r2 of
               Some sv \<Rightarrow> Inr (ls2, paths\<lparr>last_successful_steal_locale := ?k\<rparr>, Some sv)
             | None \<Rightarrow> steal_along ws paths is ls2))"
    using get by (simp only: steal_along.simps Let_def scan_index_def [symmetric] res_bind_Inr)
  show ?case
  proof (cases "find (\<lambda>v. tasks_at ls ?l (nat v) \<noteq> []) (intra_victims ws)")
    case (Some v)
    then show ?thesis unfolding scan unfold using first(1) by (auto simp: Let_def)
  next
    case none1: None
    show ?thesis
    proof (cases "find (\<lambda>v. tasks_at ls ?l (nat v) \<noteq> []) (leftover_victims ws)")
      case (Some v)
      then show ?thesis unfolding scan unfold using none1 first by (auto simp: Let_def)
    next
      case None
      then have "steal_along ws paths (i # is) ls = steal_along ws paths is ls"
        "find ?P (scan ws paths (i # is)) = find ?P (scan ws paths is)"
        unfolding scan unfold using none1 first by simp_all
      then show ?thesis using IH by (simp only:)
    qed
  qed
qed

lemma scan_covers:
  assumes "socket_ok n ws" "steal_path paths \<noteq> []" "0 \<le> last_successful_steal_locale paths"
  shows "set (scan ws paths [0..int (length (steal_path paths)) - 1]) =
         {0..<int (length (steal_path paths))} \<times> {0..<int n}"
proof -
  let ?len = "int (length (steal_path paths))" and ?a = "last_successful_steal_locale paths"
  have pos: "0 < ?len" using assms(2) by simp
  have idx: "scan_index paths i = (?a + i) mod ?len" if "0 \<le> i" for i
    unfolding scan_index_def using assms(2,3) that by (intro smod_small) auto
  have "scan_index paths ` set [0..?len - 1] = {0..<?len}"
  proof (intro equalityI subsetI)
    fix k assume "k \<in> scan_index paths ` set [0..?len - 1]"
    then show "k \<in> {0..<?len}" using idx pos by auto
  next
    fix k assume k: "k \<in> {0..<?len}"
    let ?i = "(k - ?a) mod ?len"
    have "(?a + ?i) mod ?len = k" using k by (simp add: mod_add_right_eq)
    moreover have "0 \<le> ?i" "?i \<le> ?len - 1" using pos by (auto simp: pos_mod_bound zle_diff1_eq)
    ultimately show "k \<in> scan_index paths ` set [0..?len - 1]" using idx [of ?i] by (auto intro!: image_eqI [of _ _ ?i])
  qed
  moreover have "set (scan ws paths is) = scan_index paths ` set is \<times> set (victims ws)" for "is"
    by (auto simp: scan_def)
  ultimately show ?thesis using victims_all [OF assms(1)] by simp
qed

text \<open>A pool with one locale and two workers, of which the second has one task.\<close>

definition one_task_deque :: "nat deque" where
  "one_task_deque = \<lparr>head = 0, tail = 1, slots = (\<lambda>_. None)(0 := Some 7)\<rparr>"

definition two_worker_pool :: "(nat, nat) pool" where
  "two_worker_pool = [\<lparr>loc_id = 0, loc_type = 0, lbl = ''m'', special_type = None, metadata = None, idle_funcs = [],
     reachable = Some True, deques = [new_deque, one_task_deque]\<rparr>]"

lemma one_task: "deque_wf one_task_deque" "deque_list one_task_deque = [7]"
  by (auto simp: deque_wf_def deque_list_def one_task_deque_def deque_consts)

lemma two_worker_pool_wf: "pool_wf 2 two_worker_pool" "tasks_at two_worker_pool 0 0 = []" "tasks_at two_worker_pool 0 1 = [7]"
  by (simp_all add: pool_wf_def two_worker_pool_def one_task deque_wf_new tasks_at_def)

section \<open>Properties\<close>

text \<open>
  \<^verbatim>\<open>locale_pop_task\<close> returns the newest task of the worker's own deque at the first
  locale of its pop path where that deque is not empty, and removes that task only; it returns
  \<^verbatim>\<open>NULL\<close>, leaving the pool as it is, only if all its own deques on the path are empty.
\<close>

theorem locale_pop_task_first:
  assumes "pool_wf n ls" "set (pop_path paths) \<subseteq> {..<length ls}" "ws_id ws = int w" "w < n"
  shows "case find (\<lambda>l. tasks_at ls l w \<noteq> []) (pop_path paths) of
           None \<Rightarrow> locale_pop_task ws paths ls = Inr (ls, None)
         | Some l \<Rightarrow> \<exists>ls'. locale_pop_task ws paths ls = Inr (ls', Some (last (tasks_at ls l w))) \<and>
                          only_changed n ls l w (butlast (tasks_at ls l w)) ls'"
  unfolding locale_pop_task_def assms(3) by (rule pop_along_first [OF assms(1,2,4)])

theorem locale_pop_task_first_witness:
  "\<exists>ls'. locale_pop_task \<lparr>ws_id = 1, ws_nworkers = 2, base_intra_socket_workers = 0, limit_intra_socket_workers = 2\<rparr>
      \<lparr>pop_path = [0], steal_path = [0], last_successful_steal_locale = 0\<rparr> two_worker_pool = Inr (ls', Some 7) \<and>
     only_changed 2 two_worker_pool 0 1 [] ls'"
  using locale_pop_task_first [of 2 two_worker_pool "\<lparr>pop_path = [0], steal_path = [0], last_successful_steal_locale = 0\<rparr>"
      "\<lparr>ws_id = 1, ws_nworkers = 2, base_intra_socket_workers = 0, limit_intra_socket_workers = 2\<rparr>" 1]
    two_worker_pool_wf by (simp add: two_worker_pool_def)

text \<open>
  C13: a thief never overlooks work. \<^verbatim>\<open>locale_steal_task\<close> tries, at each locale of the steal
  path, each of the \<open>n\<close> workers exactly once: first its own socket, then the others, beginning with
  the locale of its last success. If any deque there has a task, the call takes the
  oldest task of the first such deque in this order, remembers the locale, and changes nothing
  else; otherwise it reports 0 and the pool is unchanged.
\<close>

theorem locale_steal_task_complete:
  assumes "pool_wf n ls" "set (steal_path paths) \<subseteq> {..<length ls}" "steal_path paths \<noteq> []"
    and "socket_ok n ws" "0 \<le> last_successful_steal_locale paths"
  shows "distinct (victims ws) \<and> set (victims ws) = {0..<int n} \<and>
     ((\<forall>l \<in> set (steal_path paths). \<forall>w < n. tasks_at ls l w = []) \<longrightarrow>
        locale_steal_task ws paths ls = Inr (ls, paths, None)) \<and>
     ((\<exists>l \<in> set (steal_path paths). \<exists>w < n. tasks_at ls l w \<noteq> []) \<longrightarrow>
        (\<exists>k v ls'. find (nonempty_at paths ls) (scan ws paths [0..int (length (steal_path paths)) - 1]) = Some (k, v) \<and>
           0 \<le> k \<and> k < int (length (steal_path paths)) \<and> 0 \<le> v \<and> v < int n \<and>
           locale_steal_task ws paths ls =
             Inr (ls', paths\<lparr>last_successful_steal_locale := k\<rparr>,
                  Some ([Some (hd (tasks_at ls (steal_path paths ! nat k) (nat v)))], v)) \<and>
           only_changed n ls (steal_path paths ! nat k) (nat v) (tl (tasks_at ls (steal_path paths ! nat k) (nat v))) ls'))"
proof -
  let ?is = "[0..int (length (steal_path paths)) - 1]"
  let ?f = "find (nonempty_at paths ls) (scan ws paths ?is)"
  have first: "case ?f of
           None \<Rightarrow> locale_steal_task ws paths ls = Inr (ls, paths, None)
         | Some (k, v) \<Rightarrow> let l = steal_path paths ! nat k; ts = tasks_at ls l (nat v) in
             \<exists>ls'. locale_steal_task ws paths ls =
                Inr (ls', paths\<lparr>last_successful_steal_locale := k\<rparr>, Some ([Some (hd ts)], v)) \<and>
                only_changed n ls l (nat v) (tl ts) ls'"
    unfolding locale_steal_task_def by (rule steal_along_first [OF assms(1,2,4,5) _ assms(3)]) simp
  note cover = scan_covers [OF assms(4,3,5)]
  have none: "?f = None \<longleftrightarrow> (\<forall>l \<in> set (steal_path paths). \<forall>w < n. tasks_at ls l w = [])"
  proof -
    have "?f = None \<longleftrightarrow> (\<forall>k \<in> {0..<int (length (steal_path paths))}. \<forall>v \<in> {0..<int n}.
              tasks_at ls (steal_path paths ! nat k) (nat v) = [])"
      unfolding find_None_iff cover [symmetric] using cover by (auto simp: nonempty_at_def)
    also have "\<dots> \<longleftrightarrow> (\<forall>k < length (steal_path paths). \<forall>w < n. tasks_at ls (steal_path paths ! k) w = [])"
      by (metis atLeastLessThan_iff nat_int nat_less_iff of_nat_0_le_iff of_nat_less_iff)
    finally show ?thesis by (simp add: all_set_conv_all_nth)
  qed
  have some: "(k, v) \<in> set (scan ws paths ?is)" if "?f = Some (k, v)" for k v
    using that by (auto simp: find_Some_iff)
  show ?thesis
  proof (cases ?f)
    case None
    then show ?thesis using victims_all [OF assms(4)] none first by auto
  next
    case (Some kv)
    obtain k v where kv: "kv = (k, v)" by (cases kv)
    then have "0 \<le> k" "k < int (length (steal_path paths))" "0 \<le> v" "v < int n"
      using some [of k v] Some cover by auto
    then show ?thesis using victims_all [OF assms(4)] none first Some kv by (auto simp: Let_def)
  qed
qed

theorem locale_steal_task_complete_witness:
  "\<exists>ls' paths'. locale_steal_task
      \<lparr>ws_id = 0, ws_nworkers = 2, base_intra_socket_workers = 0, limit_intra_socket_workers = 1\<rparr>
      \<lparr>pop_path = [0], steal_path = [0], last_successful_steal_locale = 0\<rparr> two_worker_pool =
    Inr (ls', paths', Some ([Some 7], 1))"
proof -
  let ?ws = "\<lparr>ws_id = 0, ws_nworkers = 2, base_intra_socket_workers = 0, limit_intra_socket_workers = 1\<rparr>"
  let ?paths = "\<lparr>pop_path = [0], steal_path = [0], last_successful_steal_locale = 0\<rparr>"
  have sock: "socket_ok 2 ?ws" by (simp add: socket_ok_def)
  have sub: "set (steal_path ?paths) \<subseteq> {..<length two_worker_pool}" by (simp add: two_worker_pool_def)
  have "0 \<in> set (steal_path ?paths)" "(1 :: nat) < 2" "tasks_at two_worker_pool 0 1 \<noteq> []"
    using two_worker_pool_wf(3) by simp_all
  then have "\<exists>l \<in> set (steal_path ?paths). \<exists>w < 2. tasks_at two_worker_pool l w \<noteq> []" by blast
  then obtain k v ls' where r: "0 \<le> k" "k < int (length (steal_path ?paths))" "0 \<le> v" "v < int 2"
      "find (nonempty_at ?paths two_worker_pool) (scan ?ws ?paths [0..int (length (steal_path ?paths)) - 1]) = Some (k, v)"
      "locale_steal_task ?ws ?paths two_worker_pool = Inr (ls', ?paths\<lparr>last_successful_steal_locale := k\<rparr>,
         Some ([Some (hd (tasks_at two_worker_pool (steal_path ?paths ! nat k) (nat v)))], v))"
    using locale_steal_task_complete [OF two_worker_pool_wf(1) sub _ sock]
    unfolding worker_paths.simps by blast
  have "nonempty_at ?paths two_worker_pool (k, v)" using r(5) by (auto simp: find_Some_iff)
  then have "v = 1" using r(1-4) two_worker_pool_wf(2) by (cases "v = 0") (auto simp: nonempty_at_def)
  then show ?thesis using r(1,2,6) two_worker_pool_wf(3) by auto
qed

end
