(* ===== verification/Memory_Tree.thy ===== *)
theory Memory_Tree
  imports Hclib_Prelude
begin

text \<open>
  \<^verbatim>\<open>src/src/hclib-tree.c\<close>: the self-balancing tree of pinned memory ranges. A node is a
  constructor, a null child is \<open>MNull\<close>; a function that takes a pointer to a child slot
  and overwrites it returns the new subtree. Directions are \<open>False\<close> for \<^verbatim>\<open>LEFT\<close> and \<open>True\<close>
  for \<^verbatim>\<open>RIGHT\<close>; addresses and lengths are natural numbers.
\<close>

section \<open>Model\<close>

datatype memory_tree =
    MNull
  | MNode (node_height: int) (start_address: nat) (range_length: nat)
      (child_left: memory_tree) (child_right: memory_tree)

definition create_memory_tree_node :: "nat \<Rightarrow> nat \<Rightarrow> memory_tree" where
  "create_memory_tree_node address len = MNode (-1) address len MNull MNull"

fun height_mt :: "memory_tree \<Rightarrow> int" where
  "height_mt MNull = -1"
| "height_mt (MNode h a n l r) = h"

fun child_mt :: "memory_tree \<Rightarrow> bool \<Rightarrow> memory_tree" where
  "child_mt MNull d = MNull"
| "child_mt (MNode h a n l r) d = (if d then r else l)"

fun set_child_mt :: "memory_tree \<Rightarrow> bool \<Rightarrow> memory_tree \<Rightarrow> memory_tree" where
  "set_child_mt MNull d c = MNull"
| "set_child_mt (MNode h a n l r) d c = (if d then MNode h a n l c else MNode h a n c r)"

fun set_height_mt :: "memory_tree \<Rightarrow> memory_tree result" where
  "set_height_mt MNull = Inl Null_deref"
| "set_height_mt (MNode h a n l r) = Inr (MNode (1 + max (height_mt l) (height_mt r)) a n l r)"

fun balance_mt :: "memory_tree \<Rightarrow> int result" where
  "balance_mt MNull = Inl Null_deref"
| "balance_mt (MNode h a n l r) = Inr (height_mt l - height_mt r)"

text \<open>
  When the child in direction \<open>d\<close> is null the old root is freed and the slot becomes null:
  whatever hung on the other side is lost with it.
\<close>

fun rotate_mt :: "memory_tree \<Rightarrow> bool \<Rightarrow> memory_tree result" where
  "rotate_mt MNull d = Inl Null_deref"
| "rotate_mt (MNode h a n l r) d =
     (let old_r = MNode h a n l r; new_r = child_mt old_r d
      in if new_r = MNull then Inr MNull
         else res_bind (set_height_mt (set_child_mt old_r d (child_mt new_r (\<not> d)))) (\<lambda>old_r'.
              Inr (set_child_mt new_r (\<not> d) old_r')))"

text \<open>\<^verbatim>\<open>dir = (1 - b) / 2\<close> indexes \<^verbatim>\<open>children[2]\<close>; C division truncates.\<close>

definition adjust_balance :: "memory_tree \<Rightarrow> memory_tree result" where
  "adjust_balance root =
     res_bind (balance_mt root) (\<lambda>bal.
     let b = bal sdiv 2 in
     res_bind
       (if b \<noteq> 0 then
          let dir = (1 - b) sdiv 2 in
          if dir \<noteq> 0 \<and> dir \<noteq> 1 then Inl Out_of_bounds else
          let d = (dir = 1) in
          res_bind (balance_mt (child_mt root d)) (\<lambda>cb.
          res_bind (if cb = - b then rotate_mt (child_mt root d) (\<not> d) else Inr (child_mt root d)) (\<lambda>c.
          rotate_mt (set_child_mt root d c) d))
        else Inr root)
       (\<lambda>root'. if root' = MNull then Inr MNull else set_height_mt root'))"

fun find_mt :: "nat \<Rightarrow> memory_tree \<Rightarrow> memory_tree" where
  "find_mt address MNull = MNull"
| "find_mt address (MNode h a n l r) =
     (if address \<ge> a \<and> address < a + n then MNode h a n l r
      else if address < a then find_mt address l
      else find_mt address r)"

fun hclib_memory_tree_insert :: "nat \<Rightarrow> nat \<Rightarrow> memory_tree \<Rightarrow> memory_tree result" where
  "hclib_memory_tree_insert address len MNull = Inr (create_memory_tree_node address len)"
| "hclib_memory_tree_insert address len (MNode h a n l r) =
     res_bind (c_assert (address < a \<or> address \<ge> a + n)) (\<lambda>_.
     res_bind
       (if address < a
        then res_bind (hclib_memory_tree_insert address len l) (\<lambda>l'. Inr (MNode h a n l' r))
        else res_bind (hclib_memory_tree_insert address len r) (\<lambda>r'. Inr (MNode h a n l r')))
       adjust_balance)"

definition memory_tree_remove_top :: "nat \<Rightarrow> memory_tree \<Rightarrow> memory_tree result" where
  "memory_tree_remove_top address root =
     (if start_address root = address
      then res_bind (balance_mt root) (\<lambda>bal. rotate_mt root (bal < 0))
      else Inr root)"

lemma rotate_mt_size: "rotate_mt t d = Inr t' \<Longrightarrow> t' \<noteq> MNull \<Longrightarrow> size t' = size t"
  by (cases t; cases "child_mt t d"; cases d) auto

lemma remove_top_size: "memory_tree_remove_top x t = Inr t' \<Longrightarrow> t' \<noteq> MNull \<Longrightarrow> size t' = size t"
  by (auto simp: memory_tree_remove_top_def res_simps rotate_mt_size split: if_splits)

lemma child_mt_size: "t \<noteq> MNull \<Longrightarrow> size (child_mt t d) < size t"
  by (cases t) auto

function hclib_memory_tree_remove :: "nat \<Rightarrow> memory_tree \<Rightarrow> memory_tree result" where
  "hclib_memory_tree_remove address root =
     (if root = MNull then Inl Assert_failed else
      res_bind (memory_tree_remove_top address root) (\<lambda>root'.
      if root' = MNull then Inr MNull else
      let d = (address > start_address root') in
      res_bind (hclib_memory_tree_remove address (child_mt root' d)) (\<lambda>c.
      adjust_balance (set_child_mt root' d c))))"
  by pat_completeness auto
termination
  by (relation "measure (\<lambda>(x, t). size t)") (auto, metis remove_top_size child_mt_size)

declare hclib_memory_tree_remove.simps [simp del]

definition hclib_memory_tree_contains :: "nat \<Rightarrow> memory_tree \<Rightarrow> bool" where
  "hclib_memory_tree_contains address root = (if root = MNull then False else find_mt address root \<noteq> MNull)"

section \<open>Invariants\<close>

fun inorder_mt :: "memory_tree \<Rightarrow> (nat \<times> nat) list" where
  "inorder_mt MNull = []"
| "inorder_mt (MNode h a n l r) = inorder_mt l @ (a, n) # inorder_mt r"

text \<open>
  The stored heights. A freshly created node has height \<open>-1\<close>, as a null child has; every
  other node has the height its children give it and is balanced.
\<close>

fun avl_mt :: "memory_tree \<Rightarrow> bool" where
  "avl_mt MNull = True"
| "avl_mt (MNode h a n l r) =
     (avl_mt l \<and> avl_mt r \<and>
      (h = -1 \<and> l = MNull \<and> r = MNull \<or>
       h = 1 + max (height_mt l) (height_mt r) \<and> \<bar>height_mt l - height_mt r\<bar> \<le> 1))"

definition before_range :: "nat \<times> nat \<Rightarrow> nat \<times> nat \<Rightarrow> bool" where
  "before_range x y \<longleftrightarrow> fst x < fst y \<and> fst x + snd x \<le> fst y"

definition tree_inv :: "memory_tree \<Rightarrow> bool" where
  "tree_inv t \<longleftrightarrow> avl_mt t \<and> sorted_wrt before_range (inorder_mt t)"

definition ranges_mt :: "memory_tree \<Rightarrow> (nat \<times> nat) set" where
  "ranges_mt t = set (inorder_mt t)"

definition covers :: "(nat \<times> nat) set \<Rightarrow> nat \<Rightarrow> bool" where
  "covers R x \<longleftrightarrow> (\<exists>(a, n) \<in> R. a \<le> x \<and> x < a + n)"

definition separate_range :: "nat \<times> nat \<Rightarrow> (nat \<times> nat) set \<Rightarrow> bool" where
  "separate_range x R \<longleftrightarrow> (\<forall>y \<in> R. before_range x y \<or> before_range y x)"

lemma avl_height: "avl_mt t \<Longrightarrow> -1 \<le> height_mt t"
  by (induction t) auto

lemma sdiv2_cases:
  "(x :: int) \<in> {-1, 0, 1} \<Longrightarrow> x sdiv 2 = 0" "(2 :: int) sdiv 2 = 1" "(-2 :: int) sdiv 2 = -1"
  by (auto simp: signed_divide_int_def)

lemma avl_nonneg_node:
  assumes "avl_mt t" "0 \<le> height_mt t"
  obtains a n l r where "t = MNode (height_mt t) a n l r" "avl_mt l" "avl_mt r"
    "height_mt t = 1 + max (height_mt l) (height_mt r)" "\<bar>height_mt l - height_mt r\<bar> \<le> 1"
  using assms by (cases t) auto

text \<open>Rebalancing: a node whose subtrees are balanced and differ by at most two.\<close>

lemma adjust_balance_even:
  assumes "avl_mt l" "avl_mt r" "\<bar>height_mt l - height_mt r\<bar> \<le> 1"
  shows "adjust_balance (MNode h a n l r) = Inr (MNode (1 + max (height_mt l) (height_mt r)) a n l r)"
proof -
  have "height_mt l - height_mt r \<in> {-1, 0, 1}" using assms(3) by auto
  from sdiv2_cases(1) [OF this] show ?thesis by (simp add: adjust_balance_def)
qed

lemma adjust_balance_left:
  assumes "avl_mt l" "avl_mt r" "height_mt l = height_mt r + 2"
  shows "\<exists>t. adjust_balance (MNode h a n l r) = Inr t \<and> avl_mt t \<and> t \<noteq> MNull \<and>
             inorder_mt t = inorder_mt l @ (a, n) # inorder_mt r \<and>
             height_mt t \<in> {height_mt l, height_mt l + 1}"
proof -
  have hr: "-1 \<le> height_mt r" using avl_height [OF assms(2)] .
  with assms(3) have "0 \<le> height_mt l" by simp
  with assms(1) obtain la ln ll lr where
    l: "l = MNode (height_mt l) la ln ll lr" "avl_mt ll" "avl_mt lr"
       "height_mt l = 1 + max (height_mt ll) (height_mt lr)" "\<bar>height_mt ll - height_mt lr\<bar> \<le> 1"
    by (rule avl_nonneg_node)
  show ?thesis
  proof (cases "height_mt ll - height_mt lr = -1")
    case True
    then have "0 \<le> height_mt lr" using l(4) assms(3) hr by simp
    with l(3) obtain ma mn ml mr where
      lr: "lr = MNode (height_mt lr) ma mn ml mr" "avl_mt ml" "avl_mt mr"
          "height_mt lr = 1 + max (height_mt ml) (height_mt mr)" "\<bar>height_mt ml - height_mt mr\<bar> \<le> 1"
      by (rule avl_nonneg_node)
    show ?thesis
      using True assms hr l lr
      by (subst l(1), subst lr(1)) (auto simp: adjust_balance_def sdiv2_cases Let_def)
  next
    case False
    show ?thesis
      using False assms hr l
      by (subst l(1)) (auto simp: adjust_balance_def sdiv2_cases Let_def)
  qed
qed


lemma adjust_balance_right:
  assumes "avl_mt l" "avl_mt r" "height_mt r = height_mt l + 2"
  shows "\<exists>t. adjust_balance (MNode h a n l r) = Inr t \<and> avl_mt t \<and> t \<noteq> MNull \<and>
             inorder_mt t = inorder_mt l @ (a, n) # inorder_mt r \<and>
             height_mt t \<in> {height_mt r, height_mt r + 1}"
proof -
  have hl: "-1 \<le> height_mt l" using avl_height [OF assms(1)] .
  with assms(3) have "0 \<le> height_mt r" by simp
  with assms(2) obtain ra rn rl rr where
    r: "r = MNode (height_mt r) ra rn rl rr" "avl_mt rl" "avl_mt rr"
       "height_mt r = 1 + max (height_mt rl) (height_mt rr)" "\<bar>height_mt rl - height_mt rr\<bar> \<le> 1"
    by (rule avl_nonneg_node)
  show ?thesis
  proof (cases "height_mt rl - height_mt rr = 1")
    case True
    then have "0 \<le> height_mt rl" using r(4) assms(3) hl by simp
    with r(2) obtain ma mn ml mr where
      rl: "rl = MNode (height_mt rl) ma mn ml mr" "avl_mt ml" "avl_mt mr"
          "height_mt rl = 1 + max (height_mt ml) (height_mt mr)" "\<bar>height_mt ml - height_mt mr\<bar> \<le> 1"
      by (rule avl_nonneg_node)
    show ?thesis
      using True assms hl r rl
      by (subst r(1), subst rl(1)) (auto simp: adjust_balance_def sdiv2_cases Let_def)
  next
    case False
    show ?thesis
      using False assms hl r
      by (subst r(1)) (auto simp: adjust_balance_def sdiv2_cases Let_def)
  qed
qed

lemma adjust_balance_ok:
  assumes "avl_mt l" "avl_mt r" "\<bar>height_mt l - height_mt r\<bar> \<le> 2"
  shows "\<exists>t. adjust_balance (MNode h a n l r) = Inr t \<and> avl_mt t \<and> t \<noteq> MNull \<and>
             inorder_mt t = inorder_mt l @ (a, n) # inorder_mt r \<and>
             (if \<bar>height_mt l - height_mt r\<bar> \<le> 1 then height_mt t = 1 + max (height_mt l) (height_mt r)
              else height_mt t \<in> {max (height_mt l) (height_mt r), max (height_mt l) (height_mt r) + 1})"
proof -
  consider "\<bar>height_mt l - height_mt r\<bar> \<le> 1" | "height_mt l = height_mt r + 2" | "height_mt r = height_mt l + 2"
    using assms(3) by linarith
  then show ?thesis
  proof cases
    case 1
    with assms show ?thesis by (simp add: adjust_balance_even)
  next
    case 2
    with adjust_balance_left [OF assms(1,2), of h a n] show ?thesis by auto
  next
    case 3
    with adjust_balance_right [OF assms(1,2), of h a n] show ?thesis by auto
  qed
qed

section \<open>Insertion and lookup\<close>

lemma insort_append_left:
  "\<forall>z \<in> set zs. k < fst z \<Longrightarrow> insort_key fst (k, v) (xs @ zs) = insort_key fst (k, v) xs @ zs"
  for k :: nat and v :: nat
  by (induction xs) (auto, cases zs, auto)

lemma insort_append_right:
  "\<forall>x \<in> set xs. fst x < k \<Longrightarrow> insort_key fst (k, v) (xs @ zs) = xs @ insort_key fst (k, v) zs"
  for k :: nat and v :: nat
  by (induction xs) auto

lemma insert_balanced:
  assumes "avl_mt t" "sorted_wrt before_range (inorder_mt t)" "separate_range (x, len) (ranges_mt t)"
  shows "\<exists>t'. hclib_memory_tree_insert x len t = Inr t' \<and> avl_mt t' \<and> t' \<noteq> MNull \<and>
              height_mt t' \<in> {height_mt t, height_mt t + 1} \<and>
              (t = MNull \<longrightarrow> height_mt t' = -1) \<and>
              inorder_mt t' = insort_key fst (x, len) (inorder_mt t)"
  using assms
proof (induction t)
  case MNull
  then show ?case by (simp add: create_memory_tree_node_def)
next
  case (MNode h a n l r)
  have avl: "avl_mt l" "avl_mt r" "\<bar>height_mt l - height_mt r\<bar> \<le> 1"
    "h = -1 \<and> l = MNull \<and> r = MNull \<or> h = 1 + max (height_mt l) (height_mt r)"
    using MNode.prems(1) by auto
  have srt: "sorted_wrt before_range (inorder_mt l)" "sorted_wrt before_range (inorder_mt r)"
    "\<forall>y \<in> set (inorder_mt l). fst y < a" "\<forall>y \<in> set (inorder_mt r). a < fst y"
    using MNode.prems(2) by (auto simp: sorted_wrt_append) (auto simp: before_range_def)
  have sep: "separate_range (x, len) (ranges_mt l)" "separate_range (x, len) (ranges_mt r)"
    "before_range (x, len) (a, n) \<or> before_range (a, n) (x, len)"
    using MNode.prems(3) by (auto simp: separate_range_def ranges_mt_def)
  show ?case
  proof (cases "x < a")
    case True
    obtain l' where l': "hclib_memory_tree_insert x len l = Inr l'" "avl_mt l'" "l' \<noteq> MNull"
      "height_mt l' \<in> {height_mt l, height_mt l + 1}" "l = MNull \<longrightarrow> height_mt l' = -1"
      "inorder_mt l' = insort_key fst (x, len) (inorder_mt l)"
      using MNode.IH(1) [OF avl(1) srt(1) sep(1)] by blast
    have "\<bar>height_mt l' - height_mt r\<bar> \<le> 2" using l'(4) avl(3) by auto
    from adjust_balance_ok [OF l'(2) avl(2) this, of h a n] l'(4,5) avl(3,4)
    have "\<exists>t. adjust_balance (MNode h a n l' r) = Inr t \<and> avl_mt t \<and> t \<noteq> MNull \<and>
            inorder_mt t = inorder_mt l' @ (a, n) # inorder_mt r \<and> height_mt t \<in> {h, h + 1}"
      by (auto split: if_splits)
    moreover have "insort_key fst (x, len) (inorder_mt l @ (a, n) # inorder_mt r)
        = inorder_mt l' @ (a, n) # inorder_mt r"
      using True srt(4) l'(6) by (subst insort_append_left) auto
    ultimately show ?thesis
      using True l'(1) by auto
  next
    case False
    then have "a < x" "a + n \<le> x" using sep(3) by (auto simp: before_range_def)
    obtain r' where r': "hclib_memory_tree_insert x len r = Inr r'" "avl_mt r'" "r' \<noteq> MNull"
      "height_mt r' \<in> {height_mt r, height_mt r + 1}" "r = MNull \<longrightarrow> height_mt r' = -1"
      "inorder_mt r' = insort_key fst (x, len) (inorder_mt r)"
      using MNode.IH(2) [OF avl(2) srt(2) sep(2)] by blast
    have "\<bar>height_mt l - height_mt r'\<bar> \<le> 2" using r'(4) avl(3) by auto
    from adjust_balance_ok [OF avl(1) r'(2) this, of h a n] r'(4,5) avl(3,4)
    have "\<exists>t. adjust_balance (MNode h a n l r') = Inr t \<and> avl_mt t \<and> t \<noteq> MNull \<and>
            inorder_mt t = inorder_mt l @ (a, n) # inorder_mt r' \<and> height_mt t \<in> {h, h + 1}"
      by (auto split: if_splits)
    moreover have "insort_key fst (x, len) (inorder_mt l @ (a, n) # inorder_mt r)
        = inorder_mt l @ (a, n) # inorder_mt r'"
      using srt(3) \<open>a < x\<close> r'(6) by (subst insort_append_right) auto
    ultimately show ?thesis
      using False \<open>a + n \<le> x\<close> r'(1) by auto
  qed
qed

lemma insort_before_range:
  "sorted_wrt before_range xs \<Longrightarrow> separate_range x (set xs) \<Longrightarrow> sorted_wrt before_range (insort_key fst x xs)"
  by (induction xs) (auto simp: separate_range_def before_range_def set_insort_key)

lemma find_mt_iff:
  "sorted_wrt before_range (inorder_mt t) \<Longrightarrow> find_mt x t \<noteq> MNull \<longleftrightarrow> covers (ranges_mt t) x"
proof (induction t)
  case MNull
  then show ?case by (simp add: covers_def ranges_mt_def)
next
  case (MNode h a n l r)
  have srt: "sorted_wrt before_range (inorder_mt l)" "sorted_wrt before_range (inorder_mt r)"
    "\<forall>y \<in> set (inorder_mt l). before_range y (a, n)" "\<forall>y \<in> set (inorder_mt r). before_range (a, n) y"
    using MNode.prems by (auto simp: sorted_wrt_append)
  have split: "covers (ranges_mt (MNode h a n l r)) x \<longleftrightarrow>
      covers (ranges_mt l) x \<or> (a \<le> x \<and> x < a + n) \<or> covers (ranges_mt r) x"
    by (auto simp: covers_def ranges_mt_def)
  have "covers (ranges_mt l) x \<Longrightarrow> x < a"
    using srt(3) by (fastforce simp: covers_def ranges_mt_def before_range_def)
  moreover have "covers (ranges_mt r) x \<Longrightarrow> a < x \<and> a + n \<le> x"
    using srt(4) by (fastforce simp: covers_def ranges_mt_def before_range_def)
  ultimately show ?case
    using split MNode.IH(1) [OF srt(1)] MNode.IH(2) [OF srt(2)] by auto
qed

text \<open>
  The contract of the tree as a set of disjoint ranges: what the users of the memory tree
  (the tracking of pinned host allocations) rely on.
\<close>

locale range_set =
  fixes empty :: 't
    and insert_range :: "nat \<Rightarrow> nat \<Rightarrow> 't \<Rightarrow> 't result"
    and contains :: "nat \<Rightarrow> 't \<Rightarrow> bool"
    and inv :: "'t \<Rightarrow> bool"
    and ranges :: "'t \<Rightarrow> (nat \<times> nat) set"
  assumes inv_empty: "inv empty" and ranges_empty: "ranges empty = {}"
    and insert_ok: "inv t \<Longrightarrow> separate_range (a, n) (ranges t) \<Longrightarrow>
        \<exists>t'. insert_range a n t = Inr t' \<and> inv t' \<and> ranges t' = insert (a, n) (ranges t)"
    and contains_iff: "inv t \<Longrightarrow> contains x t \<longleftrightarrow> covers (ranges t) x"
begin

fun insert_ranges :: "(nat \<times> nat) list \<Rightarrow> 't \<Rightarrow> 't result" where
  "insert_ranges [] t = Inr t"
| "insert_ranges ((a, n) # rs) t = res_bind (insert_range a n t) (insert_ranges rs)"

fun pairwise_separate :: "(nat \<times> nat) set \<Rightarrow> (nat \<times> nat) list \<Rightarrow> bool" where
  "pairwise_separate R [] = True"
| "pairwise_separate R (x # xs) = (separate_range x R \<and> pairwise_separate (insert x R) xs)"

lemma insert_ranges_ok:
  "inv t \<Longrightarrow> pairwise_separate (ranges t) rs \<Longrightarrow>
   \<exists>t'. insert_ranges rs t = Inr t' \<and> inv t' \<and> ranges t' = ranges t \<union> set rs"
proof (induction rs arbitrary: t)
  case Nil
  then show ?case by simp
next
  case (Cons x rs)
  obtain a n where x: "x = (a, n)" by (cases x)
  from Cons.prems x obtain t1 where
    "insert_range a n t = Inr t1" "inv t1" "ranges t1 = insert (a, n) (ranges t)"
    using insert_ok [of t a n] by auto
  with Cons.IH [of t1] Cons.prems x show ?case by auto
qed

lemma contains_after_inserts:
  assumes "pairwise_separate {} rs"
  shows "\<exists>t. insert_ranges rs empty = Inr t \<and> (\<forall>x. contains x t \<longleftrightarrow> covers (set rs) x)"
  using insert_ranges_ok [OF inv_empty, of rs] assms contains_iff by (auto simp: ranges_empty)

end

lemma tree_insert_ok:
  assumes "tree_inv t" "separate_range (a, n) (ranges_mt t)"
  shows "\<exists>t'. hclib_memory_tree_insert a n t = Inr t' \<and> tree_inv t' \<and> ranges_mt t' = insert (a, n) (ranges_mt t)"
proof -
  from assms insert_balanced [of t a n] obtain t' where
    t': "hclib_memory_tree_insert a n t = Inr t'" "avl_mt t'"
        "inorder_mt t' = insort_key fst (a, n) (inorder_mt t)"
    by (auto simp: tree_inv_def)
  with assms show ?thesis
    by (auto simp: tree_inv_def ranges_mt_def insort_before_range set_insort_key)
qed

lemma tree_contains_iff: "tree_inv t \<Longrightarrow> hclib_memory_tree_contains x t \<longleftrightarrow> covers (ranges_mt t) x"
  using find_mt_iff [of t x]
  by (auto simp: hclib_memory_tree_contains_def tree_inv_def covers_def ranges_mt_def)

interpretation mt: range_set MNull hclib_memory_tree_insert hclib_memory_tree_contains tree_inv ranges_mt
  by unfold_locales (auto simp: tree_insert_ok tree_contains_iff, auto simp: tree_inv_def ranges_mt_def)

section \<open>Depth\<close>

fun depth_mt :: "memory_tree \<Rightarrow> nat" where
  "depth_mt MNull = 0"
| "depth_mt (MNode h a n l r) = Suc (max (depth_mt l) (depth_mt r))"

fun node_count :: "memory_tree \<Rightarrow> nat" where
  "node_count MNull = 0"
| "node_count (MNode h a n l r) = Suc (node_count l + node_count r)"

lemma depth_le_height: "avl_mt t \<Longrightarrow> int (depth_mt t) \<le> height_mt t + 2"
  by (induction t) (auto simp: max_def)

lemma count_ge_height: "avl_mt t \<Longrightarrow> 2 ^ nat ((height_mt t + 1) div 2) \<le> node_count t + 1"
proof (induction t)
  case MNull
  then show ?case by simp
next
  case (MNode h a n l r)
  show ?case
  proof (cases "h \<le> 0")
    case True
    then have "h = -1 \<or> h = 0" using avl_height [OF MNode.prems] by auto
    then show ?thesis by auto
  next
    case False
    let ?g = "\<lambda>t. nat ((height_mt t + 1) div 2)"
    have "nat ((h + 1) div 2) \<le> Suc (min (?g l) (?g r))"
      using False MNode.prems by (simp add: min_def max_def split: if_splits) linarith+
    then have "2 ^ nat ((h + 1) div 2) \<le> (2 :: nat) ^ Suc (min (?g l) (?g r))"
      by (rule power_increasing) simp
    also have "\<dots> \<le> 2 ^ ?g l + 2 ^ ?g r"
      by (simp add: min_def)
    also have "\<dots> \<le> (node_count l + 1) + (node_count r + 1)"
      using MNode.IH MNode.prems by (intro add_mono) auto
    finally show ?thesis by simp
  qed
qed

section \<open>Removal\<close>

lemma rotate_inorder:
  "rotate_mt t d = Inr t' \<Longrightarrow> t' = MNull \<or> inorder_mt t' = inorder_mt t"
  by (cases t; cases "child_mt t d"; cases d) auto

lemma rotate_subset: "rotate_mt t d = Inr t' \<Longrightarrow> ranges_mt t' \<subseteq> ranges_mt t"
  using rotate_inorder [of t d t'] by (auto simp: ranges_mt_def)


lemma set_child_ranges:
  "t \<noteq> MNull \<Longrightarrow> ranges_mt (set_child_mt t d c) \<subseteq> insert (start_address t, range_length t)
     (ranges_mt (child_mt t (\<not> d)) \<union> ranges_mt c)"
  by (cases t) (auto simp: ranges_mt_def)

lemma node_ranges:
  "t \<noteq> MNull \<Longrightarrow> ranges_mt t = insert (start_address t, range_length t)
     (ranges_mt (child_mt t (\<not> d)) \<union> ranges_mt (child_mt t d))"
  by (cases t) (auto simp: ranges_mt_def)

lemma set_height_ranges: "set_height_mt t = Inr t' \<Longrightarrow> ranges_mt t' = ranges_mt t"
  by (cases t) (auto simp: ranges_mt_def)

lemma adjust_balance_subset:
  assumes "adjust_balance t = Inr t'"
  shows "ranges_mt t' \<subseteq> ranges_mt t"
proof (cases "t = MNull")
  case True
  with assms show ?thesis by (simp add: adjust_balance_def)
next
  case False
  from assms obtain b u where
    b: "(if b \<noteq> 0 then
          if (1 - b) sdiv 2 \<noteq> 0 \<and> (1 - b) sdiv 2 \<noteq> 1 then Inl Out_of_bounds else
          res_bind (balance_mt (child_mt t ((1 - b) sdiv 2 = 1))) (\<lambda>cb.
          res_bind (if cb = - b then rotate_mt (child_mt t ((1 - b) sdiv 2 = 1)) (\<not> (1 - b) sdiv 2 = 1)
                    else Inr (child_mt t ((1 - b) sdiv 2 = 1))) (\<lambda>c.
          rotate_mt (set_child_mt t ((1 - b) sdiv 2 = 1) c) ((1 - b) sdiv 2 = 1)))
        else Inr t) = Inr u"
    and u1: "(if u = MNull then Inr MNull else set_height_mt u) = Inr t'"
    unfolding adjust_balance_def res_bind_eq_Inr Let_def by blast
  have u: "t' = MNull \<or> set_height_mt u = Inr t'"
    "u = t \<or> (\<exists>d c. rotate_mt (set_child_mt t d c) d = Inr u \<and>
                     (c = child_mt t d \<or> rotate_mt (child_mt t d) (\<not> d) = Inr c))"
    using u1 apply (auto split: if_splits)[1]
    using b by (simp add: res_bind_eq_Inr split: if_splits) blast+
  have "ranges_mt u \<subseteq> ranges_mt t"
  proof (cases "u = t")
    case ut: False
    with u(2) obtain d c where rot: "rotate_mt (set_child_mt t d c) d = Inr u"
      and c: "c = child_mt t d \<or> rotate_mt (child_mt t d) (\<not> d) = Inr c" by blast
    have "ranges_mt c \<subseteq> ranges_mt (child_mt t d)" using c by (auto dest: rotate_subset)
    then show ?thesis
      using rotate_subset [OF rot] set_child_ranges [OF False, of d c] node_ranges [OF False, of d] by blast
  qed simp
  then show ?thesis
    using u(1) set_height_ranges [of u t'] by (auto simp: ranges_mt_def)
qed

lemma remove_subset: "hclib_memory_tree_remove x t = Inr t' \<Longrightarrow> ranges_mt t' \<subseteq> ranges_mt t"
proof (induction x t arbitrary: t' rule: hclib_memory_tree_remove.induct)
  case (1 x t)
  from "1.prems" obtain u where u: "t \<noteq> MNull" "memory_tree_remove_top x t = Inr u"
    "u = MNull \<and> t' = MNull \<or> u \<noteq> MNull \<and>
     (\<exists>c. hclib_memory_tree_remove x (child_mt u (x > start_address u)) = Inr c \<and>
          adjust_balance (set_child_mt u (x > start_address u) c) = Inr t')"
    by (subst (asm) hclib_memory_tree_remove.simps) (auto simp: res_simps Let_def split: if_splits)
  have "ranges_mt u \<subseteq> ranges_mt t"
    using u(2) by (auto simp: memory_tree_remove_top_def res_simps dest: rotate_subset split: if_splits)
  moreover have "ranges_mt t' \<subseteq> ranges_mt u"
  proof (cases "u = MNull")
    case True
    with u(3) show ?thesis by simp
  next
    case False
    define d where "d = (x > start_address u)"
    from False u(3) obtain c where c: "hclib_memory_tree_remove x (child_mt u d) = Inr c"
      "adjust_balance (set_child_mt u d c) = Inr t'" by (auto simp: d_def)
    have "ranges_mt c \<subseteq> ranges_mt (child_mt u d)"
      using "1.IH" [OF u(1,2) False d_def c(1)] .
    then show ?thesis
      using adjust_balance_subset [OF c(2)] set_child_ranges [OF False, of d c] node_ranges [OF False, of d]
      by blast
  qed
  ultimately show ?case by blast
qed

lemma remove_absent: "x \<notin> fst ` ranges_mt t \<Longrightarrow> hclib_memory_tree_remove x t = Inl Assert_failed"
proof (induction x t rule: hclib_memory_tree_remove.induct)
  case (1 x t)
  show ?case
  proof (cases "t = MNull")
    case True
    then show ?thesis by (simp add: hclib_memory_tree_remove.simps)
  next
    case False
    define d where "d = (x > start_address t)"
    have ne: "start_address t \<noteq> x" "x \<notin> fst ` ranges_mt (child_mt t d)"
      using "1.prems" node_ranges [OF False, of d] by (auto simp: image_iff)
    then have top: "memory_tree_remove_top x t = Inr t" by (simp add: memory_tree_remove_top_def)
    from "1.IH" [OF False top False d_def ne(2)] show ?thesis
      using False top by (subst hclib_memory_tree_remove.simps) (simp add: Let_def d_def)
  qed
qed


lemma remove_top_sorted:
  assumes "memory_tree_remove_top x t = Inr u" "u \<noteq> MNull"
  shows "inorder_mt u = inorder_mt t"
  using assms rotate_inorder [of t _ u] by (auto simp: memory_tree_remove_top_def res_simps split: if_splits)

lemma remove_top_start:
  "memory_tree_remove_top x t = Inr u \<Longrightarrow> u \<noteq> MNull \<Longrightarrow> sorted_wrt before_range (inorder_mt t) \<Longrightarrow>
   start_address u \<noteq> x"
  by (cases t; cases "child_left t"; cases "child_right t")
    (auto simp: memory_tree_remove_top_def res_simps sorted_wrt_append before_range_def split: if_splits)

lemma remove_removes:
  "hclib_memory_tree_remove x t = Inr t' \<Longrightarrow> sorted_wrt before_range (inorder_mt t) \<Longrightarrow> x \<notin> fst ` ranges_mt t'"
proof (induction x t arbitrary: t' rule: hclib_memory_tree_remove.induct)
  case (1 x t)
  from "1.prems"(1) obtain u where u: "t \<noteq> MNull" "memory_tree_remove_top x t = Inr u"
    "u = MNull \<and> t' = MNull \<or> u \<noteq> MNull \<and>
     (\<exists>c. hclib_memory_tree_remove x (child_mt u (x > start_address u)) = Inr c \<and>
          adjust_balance (set_child_mt u (x > start_address u) c) = Inr t')"
    by (subst (asm) hclib_memory_tree_remove.simps) (auto simp: res_simps Let_def split: if_splits)
  show ?case
  proof (cases "u = MNull")
    case True
    with u(3) show ?thesis by (simp add: ranges_mt_def)
  next
    case False
    define d where "d = (x > start_address u)"
    from False u(3) obtain c where c: "hclib_memory_tree_remove x (child_mt u d) = Inr c"
      "adjust_balance (set_child_mt u d c) = Inr t'" by (auto simp: d_def)
    have srt: "sorted_wrt before_range (inorder_mt u)"
      using remove_top_sorted [OF u(2) False] "1.prems"(2) by simp
    have xc: "x \<notin> fst ` ranges_mt c"
      using "1.IH" [OF u(1,2) False d_def c(1)] srt False by (cases u) (auto simp: sorted_wrt_append)
    have other: "x \<notin> fst ` ranges_mt (child_mt u (\<not> d))"
      using srt False by (cases u) (auto simp: d_def sorted_wrt_append ranges_mt_def before_range_def)
    have "start_address u \<noteq> x" using remove_top_start [OF u(2) False "1.prems"(2)] .
    have sub: "ranges_mt t' \<subseteq> insert (start_address u, range_length u) (ranges_mt (child_mt u (\<not> d)) \<union> ranges_mt c)"
      using adjust_balance_subset [OF c(2)] set_child_ranges [OF False, of d c] by (rule order_trans)
    show ?thesis
    proof
      assume "x \<in> fst ` ranges_mt t'"
      then obtain n where "(x, n) \<in> ranges_mt t'" by force
      with sub have "(x, n) \<in> insert (start_address u, range_length u) (ranges_mt (child_mt u (\<not> d)) \<union> ranges_mt c)"
        by (rule subsetD)
      then consider "x = start_address u" | "(x, n) \<in> ranges_mt (child_mt u (\<not> d))" | "(x, n) \<in> ranges_mt c"
        by blast
      then show False
        using \<open>start_address u \<noteq> x\<close> xc other by cases (auto intro: rev_image_eqI)
    qed
  qed
qed


section \<open>Properties\<close>

text \<open>
  C20: Inserting a range that overlaps no tracked range always succeeds, keeps the tree ordered
  and height-balanced, and afterwards exactly the old addresses and those of the new range
  are found.
\<close>
theorem memory_tree_insert_contains:
  assumes "tree_inv t" "separate_range (a, n) (ranges_mt t)"
  shows "\<exists>t'. hclib_memory_tree_insert a n t = Inr t' \<and> tree_inv t' \<and>
              (\<forall>x. hclib_memory_tree_contains x t' \<longleftrightarrow>
                   hclib_memory_tree_contains x t \<or> a \<le> x \<and> x < a + n)"
proof -
  obtain t' where t': "hclib_memory_tree_insert a n t = Inr t'" "tree_inv t'"
    "ranges_mt t' = insert (a, n) (ranges_mt t)"
    using mt.insert_ok [OF assms] by blast
  then show ?thesis
    using mt.contains_iff [OF assms(1)] mt.contains_iff [OF t'(2)] by (auto simp: covers_def)
qed

theorem memory_tree_insert_contains_witness:
  "tree_inv (MNode 0 16 8 MNull (MNode (-1) 32 8 MNull MNull)) \<and>
   (\<exists>t'. hclib_memory_tree_insert 48 4 (MNode 0 16 8 MNull (MNode (-1) 32 8 MNull MNull)) = Inr t' \<and>
         hclib_memory_tree_contains 50 t')"
proof -
  let ?t = "MNode 0 16 8 MNull (MNode (-1) 32 8 MNull MNull)"
  have inv: "tree_inv ?t" by (simp add: tree_inv_def before_range_def)
  have sep: "separate_range (48, 4) (ranges_mt ?t)"
    by (simp add: separate_range_def ranges_mt_def before_range_def)
  show ?thesis using inv memory_tree_insert_contains [OF inv sep] by auto
qed



text \<open>
  Asking for an address at which no range starts ends in the failed assertion of
  \<^verbatim>\<open>hclib_memory_tree_remove\<close>; a removal that returns has removed the range it was asked to
  remove and has invented none.
\<close>
theorem memory_tree_remove_sound:
  assumes "tree_inv t"
  shows "(x \<notin> fst ` ranges_mt t \<longrightarrow> hclib_memory_tree_remove x t = Inl Assert_failed) \<and>
         (\<forall>t'. hclib_memory_tree_remove x t = Inr t' \<longrightarrow>
               x \<in> fst ` ranges_mt t \<and> ranges_mt t' \<subseteq> {r \<in> ranges_mt t. fst r \<noteq> x})"
proof -
  have "x \<in> fst ` ranges_mt t \<and> ranges_mt t' \<subseteq> {r \<in> ranges_mt t. fst r \<noteq> x}"
    if rem: "hclib_memory_tree_remove x t = Inr t'" for t'
  proof -
    have "x \<in> fst ` ranges_mt t" using remove_absent [of x t] rem by auto
    moreover have "ranges_mt t' \<subseteq> ranges_mt t" using remove_subset [OF rem] .
    moreover have "x \<notin> fst ` ranges_mt t'"
      using remove_removes [OF rem] assms by (simp add: tree_inv_def)
    ultimately show ?thesis by (auto simp: image_iff)
  qed
  then show ?thesis using remove_absent by blast
qed

theorem memory_tree_remove_sound_witness:
  "tree_inv (MNode 0 16 8 (MNode (-1) 8 2 MNull MNull) (MNode (-1) 32 8 MNull MNull)) \<and>
   (\<exists>t'. hclib_memory_tree_remove 16 (MNode 0 16 8 (MNode (-1) 8 2 MNull MNull) (MNode (-1) 32 8 MNull MNull))
           = Inr t' \<and> 16 \<notin> fst ` ranges_mt t')"
proof -
  let ?t = "MNode 0 16 8 (MNode (-1) 8 2 MNull MNull) (MNode (-1) 32 8 MNull MNull)"
  have inv: "tree_inv ?t" by (simp add: tree_inv_def before_range_def)
  have "\<exists>t'. hclib_memory_tree_remove 16 ?t = Inr t'"
    by (simp add: hclib_memory_tree_remove.simps memory_tree_remove_top_def adjust_balance_def sdiv2_cases)
  then show ?thesis using inv memory_tree_remove_sound [OF inv, of 16] by fastforce
qed

text \<open>
  Removal can lose a range that was not asked for. After the ranges at 16 and 32 are
  inserted, the node at 32 still has its initial height of \<open>-1\<close>, so the root looks like a
  leaf to \<^verbatim>\<open>balance\<close>; removing 16 rotates towards the null left child, frees the root and
  drops the range at 32 with it.
\<close>
lemma memory_tree_remove_loses_range:
  "\<exists>t1 t2. hclib_memory_tree_insert 16 8 MNull = Inr t1 \<and>
           hclib_memory_tree_insert 32 8 t1 = Inr t2 \<and>
           hclib_memory_tree_contains 32 t2 \<and>
           hclib_memory_tree_remove 16 t2 = Inr MNull \<and>
           \<not> hclib_memory_tree_contains 32 MNull"
proof -
  let ?t1 = "create_memory_tree_node 16 8"
  let ?t2 = "MNode 0 16 8 MNull (MNode (-1) 32 8 MNull MNull)"
  have "hclib_memory_tree_insert 16 8 MNull = Inr ?t1" by simp
  moreover have "hclib_memory_tree_insert 32 8 ?t1 = Inr ?t2" by code_simp
  moreover have "hclib_memory_tree_contains 32 ?t2" by (simp add: hclib_memory_tree_contains_def)
  moreover have "hclib_memory_tree_remove 16 ?t2 = Inr MNull"
    by (subst hclib_memory_tree_remove.simps) (simp add: memory_tree_remove_top_def)
  ultimately show ?thesis by (auto simp: hclib_memory_tree_contains_def)
qed

end
