(* ===== verification/Deque_Concurrent.thy ===== *)
theory Deque_Concurrent
  imports Task_Deque
begin

text \<open>
  \<^verbatim>\<open>deque_push\<close>, \<^verbatim>\<open>deque_pop\<close> and \<^verbatim>\<open>deque_steal\<close> of \<^verbatim>\<open>src/src/hclib-deque.c\<close> at the grain of
  their shared memory accesses: the owner of a deque runs pushes and pops, any number of
  thieves run steals, and the accesses interleave in every order (the fences and the
  compare-and-swap of the code make its accesses sequentially consistent). The counters are
  unbounded here; the theory \<^verbatim>\<open>Task_Deque\<close> shows where 32 bits give out.
\<close>

section \<open>Model\<close>

text \<open>Where the owner stands: the constructor names the next access to be made.\<close>

datatype 'a owner_pc =
    O_idle
  | O_push_check 'a        \<comment> \<open>compare \<^verbatim>\<open>tail - head\<close> with the capacity\<close>
  | O_push_write 'a        \<comment> \<open>\<^verbatim>\<open>deq->data[n] = entry\<close>\<close>
  | O_push_inc 'a          \<comment> \<open>\<^verbatim>\<open>deq->tail++\<close>\<close>
  | O_pop_head int         \<comment> \<open>\<^verbatim>\<open>tail\<close> is decremented; read \<^verbatim>\<open>head\<close>\<close>
  | O_pop_take int         \<comment> \<open>\<^verbatim>\<open>size > 0\<close>: read the slot and return it\<close>
  | O_pop_last int         \<comment> \<open>\<^verbatim>\<open>size == 0\<close>: read the slot\<close>
  | O_pop_cas int 'a       \<comment> \<open>\<^verbatim>\<open>hc_cas(&deq->head, head, head + 1)\<close>\<close>
  | O_pop_fix int          \<comment> \<open>read \<^verbatim>\<open>head\<close> for \<^verbatim>\<open>deq->tail = deq->head\<close>\<close>
  | O_pop_settail int      \<comment> \<open>write \<^verbatim>\<open>tail\<close>\<close>

datatype 'a thief_pc =
    T_idle
  | T_rd_head              \<comment> \<open>read \<^verbatim>\<open>head\<close>\<close>
  | T_rd_tail int          \<comment> \<open>read \<^verbatim>\<open>tail\<close>\<close>
  | T_rd_slot int          \<comment> \<open>read the slot\<close>
  | T_cas int 'a           \<comment> \<open>\<^verbatim>\<open>hc_cas(&deq->head, head, head + 1)\<close>\<close>

text \<open>
  \<open>pushed\<close> and \<open>taken\<close> record, in order, the entries whose push completed and the entries
  that a pop or a steal returned.
\<close>

record 'a cdeque =
  c_head :: int
  c_tail :: int
  c_slots :: "nat \<Rightarrow> 'a"
  owner :: "'a owner_pc"
  thieves :: "nat \<Rightarrow> 'a thief_pc"
  pushed :: "'a list"
  taken :: "'a list"

definition slot_of :: "int \<Rightarrow> nat" where
  "slot_of i = nat (i mod INIT_DEQUE_CAPACITY)"

definition cdeque_init :: "(nat \<Rightarrow> 'a) \<Rightarrow> 'a cdeque" where
  "cdeque_init junk = \<lparr>c_head = 0, c_tail = 0, c_slots = junk, owner = O_idle,
     thieves = (\<lambda>_. T_idle), pushed = [], taken = []\<rparr>"

text \<open>
  \<^verbatim>\<open>success\<close> in \<^verbatim>\<open>deque_steal\<close> is not initialised: when the compare-and-swap of the first round
  fails, the loop condition reads an indeterminate value, so both continuations are steps.
\<close>

inductive cdeque_step :: "'a cdeque \<Rightarrow> 'a cdeque \<Rightarrow> bool" where
  push_call: "owner s = O_idle \<Longrightarrow> cdeque_step s (s\<lparr>owner := O_push_check x\<rparr>)"
| push_full: "owner s = O_push_check x \<Longrightarrow> c_tail s - c_head s = INIT_DEQUE_CAPACITY \<Longrightarrow>
    cdeque_step s (s\<lparr>owner := O_idle\<rparr>)"
| push_ok: "owner s = O_push_check x \<Longrightarrow> c_tail s - c_head s \<noteq> INIT_DEQUE_CAPACITY \<Longrightarrow>
    cdeque_step s (s\<lparr>owner := O_push_write x\<rparr>)"
| push_write: "owner s = O_push_write x \<Longrightarrow>
    cdeque_step s (s\<lparr>c_slots := (c_slots s)(slot_of (c_tail s) := x), owner := O_push_inc x\<rparr>)"
| push_inc: "owner s = O_push_inc x \<Longrightarrow>
    cdeque_step s (s\<lparr>c_tail := c_tail s + 1, owner := O_idle, pushed := pushed s @ [x]\<rparr>)"
| pop_call: "owner s = O_idle \<Longrightarrow>
    cdeque_step s (s\<lparr>c_tail := c_tail s - 1, owner := O_pop_head (c_tail s - 1)\<rparr>)"
| pop_empty: "owner s = O_pop_head t \<Longrightarrow> t - c_head s < 0 \<Longrightarrow> cdeque_step s (s\<lparr>owner := O_pop_fix t\<rparr>)"
| pop_many: "owner s = O_pop_head t \<Longrightarrow> t - c_head s > 0 \<Longrightarrow> cdeque_step s (s\<lparr>owner := O_pop_take t\<rparr>)"
| pop_one: "owner s = O_pop_head t \<Longrightarrow> t - c_head s = 0 \<Longrightarrow> cdeque_step s (s\<lparr>owner := O_pop_last t\<rparr>)"
| pop_take: "owner s = O_pop_take t \<Longrightarrow>
    cdeque_step s (s\<lparr>owner := O_idle, taken := taken s @ [c_slots s (slot_of t)]\<rparr>)"
| pop_last: "owner s = O_pop_last t \<Longrightarrow> cdeque_step s (s\<lparr>owner := O_pop_cas t (c_slots s (slot_of t))\<rparr>)"
| pop_cas_won: "owner s = O_pop_cas t x \<Longrightarrow> c_head s = t \<Longrightarrow>
    cdeque_step s (s\<lparr>c_head := t + 1, owner := O_pop_fix t, taken := taken s @ [x]\<rparr>)"
| pop_cas_lost: "owner s = O_pop_cas t x \<Longrightarrow> c_head s \<noteq> t \<Longrightarrow> cdeque_step s (s\<lparr>owner := O_pop_fix t\<rparr>)"
| pop_fix: "owner s = O_pop_fix t \<Longrightarrow> cdeque_step s (s\<lparr>owner := O_pop_settail (c_head s)\<rparr>)"
| pop_settail: "owner s = O_pop_settail h \<Longrightarrow> cdeque_step s (s\<lparr>c_tail := h, owner := O_idle\<rparr>)"
| steal_call: "thieves s i = T_idle \<Longrightarrow> cdeque_step s (s\<lparr>thieves := (thieves s)(i := T_rd_head)\<rparr>)"
| steal_head: "thieves s i = T_rd_head \<Longrightarrow>
    cdeque_step s (s\<lparr>thieves := (thieves s)(i := T_rd_tail (c_head s))\<rparr>)"
| steal_empty: "thieves s i = T_rd_tail h \<Longrightarrow> c_tail s - h \<le> 0 \<Longrightarrow>
    cdeque_step s (s\<lparr>thieves := (thieves s)(i := T_idle)\<rparr>)"
| steal_tail: "thieves s i = T_rd_tail h \<Longrightarrow> c_tail s - h > 0 \<Longrightarrow>
    cdeque_step s (s\<lparr>thieves := (thieves s)(i := T_rd_slot h)\<rparr>)"
| steal_slot: "thieves s i = T_rd_slot h \<Longrightarrow>
    cdeque_step s (s\<lparr>thieves := (thieves s)(i := T_cas h (c_slots s (slot_of h)))\<rparr>)"
| steal_cas_won: "thieves s i = T_cas h x \<Longrightarrow> c_head s = h \<Longrightarrow>
    cdeque_step s (s\<lparr>c_head := h + 1, thieves := (thieves s)(i := T_idle), taken := taken s @ [x]\<rparr>)"
| steal_cas_lost: "thieves s i = T_cas h x \<Longrightarrow> c_head s \<noteq> h \<Longrightarrow>
    cdeque_step s (s\<lparr>thieves := (thieves s)(i := T_idle)\<rparr>)"
| steal_cas_retry: "thieves s i = T_cas h x \<Longrightarrow> c_head s \<noteq> h \<Longrightarrow>
    cdeque_step s (s\<lparr>thieves := (thieves s)(i := T_rd_head)\<rparr>)"

inductive cdeque_reach :: "'a cdeque \<Rightarrow> bool" where
  reach_init: "cdeque_reach (cdeque_init junk)"
| reach_step: "cdeque_reach s \<Longrightarrow> cdeque_step s t \<Longrightarrow> cdeque_reach t"

section \<open>Invariant\<close>

text \<open>
  The entries still in the deque are those from \<^verbatim>\<open>head\<close> up to \<open>high_end\<close>: \<^verbatim>\<open>tail\<close>, except while
  a pop has lowered \<^verbatim>\<open>tail\<close> and has not yet settled who gets the entry there.
\<close>

definition high_end :: "'a cdeque \<Rightarrow> int" where
  "high_end s = (case owner s of
     O_pop_head t \<Rightarrow> t + 1 | O_pop_take t \<Rightarrow> t + 1 | O_pop_last t \<Rightarrow> t + 1 | O_pop_cas t x \<Rightarrow> t + 1
   | O_pop_fix t \<Rightarrow> c_head s | O_pop_settail h \<Rightarrow> c_head s | _ \<Rightarrow> c_tail s)"

definition in_deque :: "'a cdeque \<Rightarrow> 'a list" where
  "in_deque s = map (\<lambda>i. c_slots s (slot_of i)) [c_head s..high_end s - 1]"

text \<open>How far thieves may reach: the owner keeps the last entry once it saw more than one.\<close>

definition thief_limit :: "'a cdeque \<Rightarrow> int" where
  "thief_limit s = (case owner s of O_pop_take t \<Rightarrow> t | _ \<Rightarrow> high_end s)"

definition owner_inv :: "'a cdeque \<Rightarrow> bool" where
  "owner_inv s = (case owner s of
     O_idle \<Rightarrow> c_head s \<le> c_tail s \<and> c_tail s \<le> c_head s + INIT_DEQUE_CAPACITY
   | O_push_check x \<Rightarrow> c_head s \<le> c_tail s \<and> c_tail s \<le> c_head s + INIT_DEQUE_CAPACITY
   | O_push_write x \<Rightarrow> c_head s \<le> c_tail s \<and> c_tail s < c_head s + INIT_DEQUE_CAPACITY
   | O_push_inc x \<Rightarrow> c_head s \<le> c_tail s \<and> c_tail s < c_head s + INIT_DEQUE_CAPACITY \<and>
       c_slots s (slot_of (c_tail s)) = x
   | O_pop_head t \<Rightarrow> c_tail s = t \<and> c_head s \<le> t + 1 \<and> t + 1 \<le> c_head s + INIT_DEQUE_CAPACITY
   | O_pop_take t \<Rightarrow> c_tail s = t \<and> c_head s \<le> t \<and> t < c_head s + INIT_DEQUE_CAPACITY
   | O_pop_last t \<Rightarrow> c_tail s = t \<and> t \<le> c_head s \<and> c_head s \<le> t + 1
   | O_pop_cas t x \<Rightarrow> c_tail s = t \<and> t \<le> c_head s \<and> c_head s \<le> t + 1 \<and>
       (c_head s = t \<longrightarrow> x = c_slots s (slot_of t))
   | O_pop_fix t \<Rightarrow> c_tail s = t \<and> c_head s = t + 1
   | O_pop_settail h \<Rightarrow> c_tail s = h - 1 \<and> c_head s = h)"

fun thief_ok :: "'a cdeque \<Rightarrow> 'a thief_pc \<Rightarrow> bool" where
  "thief_ok s T_idle = True"
| "thief_ok s T_rd_head = True"
| "thief_ok s (T_rd_tail h) = (h \<le> c_head s)"
| "thief_ok s (T_rd_slot h) = (h \<le> c_head s \<and> (h = c_head s \<longrightarrow> h < thief_limit s))"
| "thief_ok s (T_cas h x) =
     (h \<le> c_head s \<and> (h = c_head s \<longrightarrow> h < thief_limit s \<and> x = c_slots s (slot_of h)))"

definition thief_inv :: "'a cdeque \<Rightarrow> bool" where
  "thief_inv s \<longleftrightarrow> (\<forall>i. thief_ok s (thieves s i))"

definition balance_inv :: "'a cdeque \<Rightarrow> bool" where
  "balance_inv s \<longleftrightarrow> mset (pushed s) = mset (taken s) + mset (in_deque s)"

definition cdeque_inv :: "'a cdeque \<Rightarrow> bool" where
  "cdeque_inv s \<longleftrightarrow> owner_inv s \<and> thief_inv s \<and> balance_inv s"

lemma slot_of_neq: "i \<noteq> j \<Longrightarrow> \<bar>i - j\<bar> < INIT_DEQUE_CAPACITY \<Longrightarrow> slot_of i \<noteq> slot_of j"
  using slot_neq [of i j] by (simp add: slot_of_def)

lemma cap_pos: "0 < INIT_DEQUE_CAPACITY"
  by (simp add: INIT_DEQUE_CAPACITY_def)

lemma in_deque_head:
  "c_head s < high_end s \<Longrightarrow>
   in_deque s = c_slots s (slot_of (c_head s)) # map (\<lambda>i. c_slots s (slot_of i)) [c_head s + 1..high_end s - 1]"
  unfolding in_deque_def by (subst upto_rec1) auto

lemma in_deque_last:
  "c_head s < high_end s \<Longrightarrow>
   in_deque s = map (\<lambda>i. c_slots s (slot_of i)) [c_head s..high_end s - 1 - 1] @ [c_slots s (slot_of (high_end s - 1))]"
  unfolding in_deque_def by (subst upto_rec2) auto

lemma in_deque_write:
  assumes "c_head s \<le> c_tail s" "c_tail s < c_head s + INIT_DEQUE_CAPACITY" "i \<in> {c_head s..<c_tail s}"
  shows "slot_of i \<noteq> slot_of (c_tail s)"
  using assms by (intro slot_of_neq) auto

named_theorems deque_state "what the owner's position says about the counters"
declare high_end_def [deque_state] thief_limit_def [deque_state] owner_inv_def [deque_state]

lemma cdeque_inv_thieves: "cdeque_inv s \<Longrightarrow> thief_inv s"
  by (simp add: cdeque_inv_def)

lemma thief_inv_at: "cdeque_inv s \<Longrightarrow> thieves s i = pc \<Longrightarrow> thief_ok s pc"
  by (auto simp: cdeque_inv_def thief_inv_def)

lemma thief_cas_inv:
  "cdeque_inv s \<Longrightarrow> thieves s i = T_cas h x \<Longrightarrow> c_head s = h \<Longrightarrow> h < thief_limit s \<and> x = c_slots s (slot_of h)"
  unfolding cdeque_inv_def thief_inv_def by (metis thief_ok.simps(5))

lemma owner_inv_step: "cdeque_step s t \<Longrightarrow> cdeque_inv s \<Longrightarrow> owner_inv t"
proof (induction rule: cdeque_step.induct)
  case (steal_cas_won s i h x)
  then have "h < thief_limit s" "owner_inv s" using thief_cas_inv [of s i h x] by (auto simp: cdeque_inv_def)
  with steal_cas_won(2) show ?case
    by (cases "owner s") (auto simp: deque_state)
qed (auto simp: cdeque_inv_def owner_inv_def less_imp_le [OF cap_pos] split: owner_pc.splits)

lemma thief_ok_keep:
  "thief_ok s pc \<Longrightarrow> c_head t = c_head s \<Longrightarrow>
   (c_head s < thief_limit s \<longrightarrow> c_head s < thief_limit t \<and> c_slots t (slot_of (c_head s)) = c_slots s (slot_of (c_head s))) \<Longrightarrow>
   thief_ok t pc"
  by (cases pc) auto

lemma thief_ok_advance: "thief_ok s pc \<Longrightarrow> c_head s < c_head t \<Longrightarrow> thief_ok t pc"
  by (cases pc) auto

lemma thief_inv_keep:
  assumes "thief_inv s" "thieves t = thieves s" "c_head t = c_head s"
    "c_head s < thief_limit s \<longrightarrow> c_head s < thief_limit t \<and> c_slots t (slot_of (c_head s)) = c_slots s (slot_of (c_head s))"
  shows "thief_inv t"
  unfolding thief_inv_def
proof
  fix i
  have "thief_ok s (thieves s i)" using assms(1) by (simp add: thief_inv_def)
  from thief_ok_keep [OF this assms(3,4)] show "thief_ok t (thieves t i)" by (simp add: assms(2))
qed

lemma thief_inv_advance:
  assumes "thief_inv s" "thieves t = thieves s" "c_head s < c_head t"
  shows "thief_inv t"
  using assms thief_ok_advance [of s _ t] by (simp add: thief_inv_def)

lemma thief_inv_upd:
  assumes "thief_inv s" "thief_ok s pc"
  shows "thief_inv (s\<lparr>thieves := (thieves s)(i := pc)\<rparr>)"
proof -
  have "thief_ok (s\<lparr>thieves := f\<rparr>) p = thief_ok s p" for f p
    by (cases p) (auto simp: thief_limit_def high_end_def split: owner_pc.splits)
  then show ?thesis using assms by (simp add: thief_inv_def)
qed

lemma thief_inv_step: "cdeque_step s t \<Longrightarrow> cdeque_inv s \<Longrightarrow> thief_inv t"
proof (induction rule: cdeque_step.induct)
  case (push_write s x)
  then have own: "c_head s \<le> c_tail s" "c_tail s < c_head s + INIT_DEQUE_CAPACITY"
    by (simp_all add: cdeque_inv_def owner_inv_def)
  have "c_head s < c_tail s \<longrightarrow> slot_of (c_head s) \<noteq> slot_of (c_tail s)"
    using own slot_of_neq [of "c_head s" "c_tail s"] by auto
  then show ?case
    by (intro thief_inv_keep [OF cdeque_inv_thieves [OF push_write(2)]]) (use push_write in \<open>auto simp: cdeque_inv_def deque_state\<close>)
next
  case (pop_cas_won s t x)
  show ?case by (rule thief_inv_advance [of s]) (use pop_cas_won in \<open>auto simp: cdeque_inv_def\<close>)
next
  case (steal_tail s i h)
  then have "thief_ok s (T_rd_tail h)" "owner_inv s" using thief_inv_at [of s i] by (auto simp: cdeque_inv_def)
  then have "thief_ok s (T_rd_slot h)"
    using steal_tail(2) by (cases "owner s") (auto simp: deque_state)
  with steal_tail show ?case by (intro thief_inv_upd) (auto simp: cdeque_inv_def)
next
  case (steal_slot s i h)
  then have "thief_ok s (T_rd_slot h)" by (blast intro: thief_inv_at)
  with steal_slot show ?case by (intro thief_inv_upd) (auto simp: cdeque_inv_def)
next
  case (steal_cas_won s i h x)
  then have "thief_inv (s\<lparr>thieves := (thieves s)(i := T_idle)\<rparr>)"
    by (intro thief_inv_upd) (auto simp: cdeque_inv_def)
  then show ?case by (rule thief_inv_advance) (use steal_cas_won in auto)
qed ((intro thief_inv_upd, auto simp: cdeque_inv_def)
  | (rule thief_inv_keep, auto simp: cdeque_inv_def deque_state))+

text \<open>Only the steps that move an entry change the balance.\<close>

lemma balance_inv_frame:
  assumes "balance_inv s" "pushed t = pushed s" "taken t = taken s" "c_head t = c_head s" "c_slots t = c_slots s"
    and "[c_head s..high_end t - 1] = [c_head s..high_end s - 1]"
  shows "balance_inv t"
  using assms by (simp add: balance_inv_def in_deque_def)

lemma balance_inv_take_last:
  assumes "balance_inv s" "pushed t = pushed s" "c_head t = c_head s" "c_slots t = c_slots s"
    and "c_head s < high_end s" "high_end t = high_end s - 1"
    and "taken t = taken s @ [c_slots s (slot_of (high_end s - 1))]"
  shows "balance_inv t"
proof -
  have "in_deque s = in_deque t @ [c_slots s (slot_of (high_end s - 1))]"
    unfolding in_deque_last [OF assms(5)] in_deque_def [of t] assms(3,4,6) ..
  then show ?thesis using assms(1,2,7) by (simp add: balance_inv_def)
qed

lemma balance_inv_take_first:
  assumes "balance_inv s" "pushed t = pushed s" "c_head t = c_head s + 1" "c_slots t = c_slots s"
    and "c_head s < high_end s" "high_end t = high_end s"
    and "taken t = taken s @ [c_slots s (slot_of (c_head s))]"
  shows "balance_inv t"
proof -
  have "in_deque s = c_slots s (slot_of (c_head s)) # in_deque t"
    unfolding in_deque_head [OF assms(5)] in_deque_def [of t] assms(3,4,6) ..
  then show ?thesis using assms(1,2,7) by (simp add: balance_inv_def)
qed

lemma balance_inv_step: "cdeque_step s t \<Longrightarrow> cdeque_inv s \<Longrightarrow> balance_inv t"
proof (induction rule: cdeque_step.induct)
  case (push_write s x)
  then have "c_head s \<le> c_tail s" "c_tail s < c_head s + INIT_DEQUE_CAPACITY"
    by (simp_all add: cdeque_inv_def owner_inv_def)
  then have "in_deque (s\<lparr>c_slots := (c_slots s)(slot_of (c_tail s) := x), owner := O_push_inc x\<rparr>) = in_deque s"
    using in_deque_write [of s] push_write by (auto simp: in_deque_def high_end_def)
  with push_write show ?case by (simp add: cdeque_inv_def balance_inv_def)
next
  case (push_inc s x)
  then have "c_head s \<le> c_tail s" "c_slots s (slot_of (c_tail s)) = x"
    by (simp_all add: cdeque_inv_def owner_inv_def)
  with push_inc show ?case
    by (simp add: cdeque_inv_def balance_inv_def in_deque_def high_end_def upto_snoc [of "c_head s" "c_tail s"] del: upto.simps)
next
  case (pop_take s t)
  show ?case
    by (rule balance_inv_take_last [of s]) (use pop_take in \<open>auto simp: cdeque_inv_def deque_state\<close>)
next
  case (pop_cas_won s t x)
  show ?case
    by (rule balance_inv_take_first [of s]) (use pop_cas_won in \<open>auto simp: cdeque_inv_def deque_state\<close>)
next
  case (steal_cas_won s i h x)
  then have inv: "h < thief_limit s" "x = c_slots s (slot_of h)" "owner_inv s" "balance_inv s"
    using thief_cas_inv [of s i h x] by (auto simp: cdeque_inv_def)
  have "c_head s < high_end s" "high_end (s\<lparr>c_head := h + 1, thieves := (thieves s)(i := T_idle), taken := taken s @ [x]\<rparr>) = high_end s"
    using inv(1,3) steal_cas_won(2) by (cases "owner s"; auto simp: deque_state)+
  then show ?case
    using inv(2,4) steal_cas_won(2) by (intro balance_inv_take_first [OF inv(4)]) simp_all
qed (rule balance_inv_frame, auto simp: cdeque_inv_def deque_state split: owner_pc.splits)+

lemma cdeque_inv_init: "cdeque_inv (cdeque_init junk)"
  by (simp add: cdeque_inv_def cdeque_init_def deque_state thief_inv_def balance_inv_def in_deque_def
      less_imp_le [OF cap_pos])

lemma cdeque_inv_step: "cdeque_step s t \<Longrightarrow> cdeque_inv s \<Longrightarrow> cdeque_inv t"
  using owner_inv_step thief_inv_step balance_inv_step unfolding cdeque_inv_def by blast

lemma cdeque_inv_reach: "cdeque_reach s \<Longrightarrow> cdeque_inv s"
  by (induction rule: cdeque_reach.induct) (auto intro: cdeque_inv_init cdeque_inv_step)

section \<open>Properties\<close>


text \<open>A run in which the owner pushes one task.\<close>

lemma one_push_run:
  "cdeque_reach ((cdeque_init (\<lambda>_. 0 :: nat))\<lparr>c_tail := 1, c_slots := (\<lambda>_. 0)(0 := 7), pushed := [7]\<rparr>)"
proof -
  let ?s0 = "cdeque_init (\<lambda>_. 0 :: nat)"
  note init = reach_init [of "\<lambda>_. 0 :: nat"]
  have "cdeque_reach (?s0\<lparr>owner := O_push_check 7\<rparr>)"
    by (rule reach_step [OF init push_call]) (simp add: cdeque_init_def)
  then have "cdeque_reach (?s0\<lparr>owner := O_push_check 7\<rparr>\<lparr>owner := O_push_write 7\<rparr>)"
    by (rule reach_step, intro push_ok) (simp_all add: cdeque_init_def INIT_DEQUE_CAPACITY_def)
  then have "cdeque_reach (?s0\<lparr>owner := O_push_write 7\<rparr>)" by simp
  from reach_step [OF this push_write]
  have "cdeque_reach (?s0\<lparr>c_slots := (\<lambda>_. 0)(0 := 7), owner := O_push_inc 7\<rparr>)"
    by (simp add: cdeque_init_def slot_of_def)
  from reach_step [OF this push_inc] show ?thesis
    by (simp add: cdeque_init_def)
qed


end
