(* ===== verification/Forasync.thy ===== *)
theory Forasync
  imports Hclib_Prelude "HOL-Library.Multiset" "HOL-Library.Signed_Division" "HOL-Library.Monad_Syntax"
begin

text \<open>
  The parallel loops of \<^verbatim>\<open>src/src/hclib.c\<close>. A loop over one to three dimensions is cut into tiles, and
  each tile is run by a task. The model of a task's body gives the tasks it spawns and the calls of
  the user's function it makes, in order; an index vector stands for a call. Additions and
  subtractions of \<^verbatim>\<open>int\<close> wrap around.
\<close>

section \<open>Loop domains and C loops\<close>

record loop_domain =
  low :: int
  high :: int
  stride :: int
  tile :: int

text \<open>\<^verbatim>\<open>for (i = i; i < h; i += s)\<close>, with what the rounds of the loop produce.\<close>

partial_function (option) for_loop :: "int \<Rightarrow> int \<Rightarrow> int \<Rightarrow> (int \<Rightarrow> 'x list option) \<Rightarrow> 'x list option" where
  "for_loop i h s body =
     (if i < h then body i \<bind> (\<lambda>xs. for_loop (wrap32 (i + s)) h s body \<bind> (\<lambda>ys. Some (xs @ ys))) else Some [])"

declare for_loop.simps [code]

definition from_loop :: "'a option \<Rightarrow> 'a result" where
  "from_loop r = (case r of None \<Rightarrow> Inl Diverges | Some x \<Rightarrow> Inr x)"

lemma from_loop_simps [simp]: "from_loop None = Inl Diverges" "from_loop (Some x) = Inr x"
  by (simp_all add: from_loop_def)

section \<open>Runners\<close>

text \<open>The function of a task, with its domain: the recursive function or the runner of a tile.\<close>

datatype job =
    Rec1 loop_domain | Run1 loop_domain
  | Rec2 loop_domain loop_domain | Run2 loop_domain loop_domain
  | Rec3 loop_domain loop_domain loop_domain | Run3 loop_domain loop_domain loop_domain

type_synonym activation = "job list \<times> int list list"

definition forasync1D_runner :: "loop_domain \<Rightarrow> int list list option" where
  "forasync1D_runner d0 = for_loop (low d0) (high d0) (stride d0) (\<lambda>i. Some [[i]])"

definition forasync2D_runner :: "loop_domain \<Rightarrow> loop_domain \<Rightarrow> int list list option" where
  "forasync2D_runner d0 d1 =
     for_loop (low d0) (high d0) (stride d0) (\<lambda>i.
       for_loop (low d1) (high d1) (stride d1) (\<lambda>j. Some [[i, j]]))"

definition forasync3D_runner :: "loop_domain \<Rightarrow> loop_domain \<Rightarrow> loop_domain \<Rightarrow> int list list option" where
  "forasync3D_runner d0 d1 d2 =
     for_loop (low d0) (high d0) (stride d0) (\<lambda>i.
       for_loop (low d1) (high d1) (stride d1) (\<lambda>j.
         for_loop (low d2) (high d2) (stride d2) (\<lambda>k. Some [[i, j, k]])))"

section \<open>Recursive mode\<close>

definition too_long :: "loop_domain \<Rightarrow> bool" where
  "too_long d \<longleftrightarrow> wrap32 (high d - low d) > tile d"

definition mid :: "loop_domain \<Rightarrow> int" where
  "mid d = wrap32 (high d + low d) sdiv 2"

definition upper_half :: "loop_domain \<Rightarrow> loop_domain" where
  "upper_half d = d\<lparr>low := mid d\<rparr>"

definition lower_half :: "loop_domain \<Rightarrow> loop_domain" where
  "lower_half d = d\<lparr>high := mid d\<rparr>"

text \<open>The recursive call is on the same argument with a smaller \<^verbatim>\<open>high\<close>.\<close>

partial_function (option) forasync1D_recursive :: "loop_domain \<Rightarrow> activation option" where
  "forasync1D_recursive d0 =
     (if too_long d0 then
        forasync1D_recursive (lower_half d0) \<bind> (\<lambda>(ts, xs). Some (Rec1 (upper_half d0) # ts, xs))
      else forasync1D_runner d0 \<bind> (\<lambda>xs. Some ([], xs)))"

partial_function (option) forasync2D_recursive :: "loop_domain \<Rightarrow> loop_domain \<Rightarrow> activation option" where
  "forasync2D_recursive d0 d1 =
     (if too_long d0 then
        forasync2D_recursive (lower_half d0) d1 \<bind> (\<lambda>(ts, xs). Some (Rec2 (upper_half d0) d1 # ts, xs))
      else if too_long d1 then
        forasync2D_recursive d0 (lower_half d1) \<bind> (\<lambda>(ts, xs). Some (Rec2 d0 (upper_half d1) # ts, xs))
      else forasync2D_runner d0 d1 \<bind> (\<lambda>xs. Some ([], xs)))"

partial_function (option) forasync3D_recursive :: "loop_domain \<Rightarrow> loop_domain \<Rightarrow> loop_domain \<Rightarrow> activation option" where
  "forasync3D_recursive d0 d1 d2 =
     (if too_long d0 then
        forasync3D_recursive (lower_half d0) d1 d2 \<bind> (\<lambda>(ts, xs). Some (Rec3 (upper_half d0) d1 d2 # ts, xs))
      else if too_long d1 then
        forasync3D_recursive d0 (lower_half d1) d2 \<bind> (\<lambda>(ts, xs). Some (Rec3 d0 (upper_half d1) d2 # ts, xs))
      else if too_long d2 then
        forasync3D_recursive d0 d1 (lower_half d2) \<bind> (\<lambda>(ts, xs). Some (Rec3 d0 d1 (upper_half d2) # ts, xs))
      else forasync3D_runner d0 d1 d2 \<bind> (\<lambda>xs. Some ([], xs)))"

declare forasync1D_recursive.simps [code] forasync2D_recursive.simps [code] forasync3D_recursive.simps [code]

section \<open>Flat mode\<close>

text \<open>
  In one dimension the loop runs to \<^verbatim>\<open>size\<close>, the largest multiple of the tile size up to \<^verbatim>\<open>high\<close>, and a
  last task takes the rest; \<^verbatim>\<open>low0\<close> is the value that the loop variable has after the loop.
\<close>

partial_function (option) last_low :: "int \<Rightarrow> int \<Rightarrow> int \<Rightarrow> int option" where
  "last_low i h s = (if i < h then last_low (wrap32 (i + s)) h s else Some i)"

declare last_low.simps [code]

definition forasync1D_flat :: "loop_domain \<Rightarrow> activation result" where
  "forasync1D_flat d0 =
     (if tile d0 = 0 then Inl Div_by_zero
      else let size = wrap32 (tile d0 * (high d0 sdiv tile d0)) in
        res_bind (from_loop (for_loop (low d0) size (tile d0) (\<lambda>low0.
           Some [Run1 (d0\<lparr>low := low0, high := wrap32 (low0 + tile d0)\<rparr>)]))) (\<lambda>ts.
        res_bind (from_loop (last_low (low d0) size (tile d0))) (\<lambda>low0.
        Inr (if size < high d0 then ts @ [Run1 (d0\<lparr>low := low0\<rparr>)] else ts, []))))"

definition tile_end :: "loop_domain \<Rightarrow> int \<Rightarrow> int" where
  "tile_end d l = (if wrap32 (l + tile d) > high d then high d else wrap32 (l + tile d))"

definition one_tile :: "loop_domain \<Rightarrow> int \<Rightarrow> loop_domain" where
  "one_tile d l = d\<lparr>low := l, high := tile_end d l\<rparr>"

definition forasync2D_flat :: "loop_domain \<Rightarrow> loop_domain \<Rightarrow> activation result" where
  "forasync2D_flat d0 d1 =
     res_bind (from_loop (for_loop (low d0) (high d0) (tile d0) (\<lambda>low0.
        for_loop (low d1) (high d1) (tile d1) (\<lambda>low1. Some [Run2 (one_tile d0 low0) (one_tile d1 low1)])))) (\<lambda>ts.
     Inr (ts, []))"

definition forasync3D_flat :: "loop_domain \<Rightarrow> loop_domain \<Rightarrow> loop_domain \<Rightarrow> activation result" where
  "forasync3D_flat d0 d1 d2 =
     res_bind (from_loop (for_loop (low d0) (high d0) (tile d0) (\<lambda>low0.
        for_loop (low d1) (high d1) (tile d1) (\<lambda>low1.
          for_loop (low d2) (high d2) (tile d2) (\<lambda>low2.
            Some [Run3 (one_tile d0 low0) (one_tile d1 low1) (one_tile d2 low2)]))))) (\<lambda>ts.
     Inr (ts, []))"

section \<open>Entry points\<close>

definition FORASYNC_MODE_RECURSIVE :: int where "FORASYNC_MODE_RECURSIVE = 1"

definition FORASYNC_MODE_FLAT :: int where "FORASYNC_MODE_FLAT = 0"

definition forasync_internal :: "loop_domain list \<Rightarrow> int \<Rightarrow> int \<Rightarrow> activation result" where
  "forasync_internal ds dim mode =
     res_bind (c_assert (0 < dim \<and> dim < 4)) (\<lambda>_.
     if dim = 1 then
       res_bind (arr_get ds 0) (\<lambda>d0.
       if mode = FORASYNC_MODE_RECURSIVE then from_loop (forasync1D_recursive d0) else forasync1D_flat d0)
     else if dim = 2 then
       res_bind (arr_get ds 0) (\<lambda>d0. res_bind (arr_get ds 1) (\<lambda>d1.
       if mode = FORASYNC_MODE_RECURSIVE then from_loop (forasync2D_recursive d0 d1) else forasync2D_flat d0 d1))
     else
       res_bind (arr_get ds 0) (\<lambda>d0. res_bind (arr_get ds 1) (\<lambda>d1. res_bind (arr_get ds 2) (\<lambda>d2.
       if mode = FORASYNC_MODE_RECURSIVE then from_loop (forasync3D_recursive d0 d1 d2) else forasync3D_flat d0 d1 d2))))"

text \<open>A tile size of -1 asks for one tile per worker.\<close>

definition default_tile :: "int \<Rightarrow> loop_domain \<Rightarrow> loop_domain result" where
  "default_tile nworkers d =
     (if tile d = -1 then
        (if nworkers = 0 then Inl Div_by_zero
         else Inr (d\<lparr>tile := wrap32 (wrap32 (wrap32 (high d - low d) + nworkers) - 1) sdiv nworkers\<rparr>))
      else Inr d)"

fun default_tiles :: "int \<Rightarrow> int list \<Rightarrow> loop_domain list \<Rightarrow> loop_domain list result" where
  "default_tiles nworkers [] ds = Inr ds"
| "default_tiles nworkers (i # is) ds =
     res_bind (arr_get ds i) (\<lambda>d.
     res_bind (default_tile nworkers d) (\<lambda>d'.
     res_bind (arr_set ds i d') (\<lambda>ds'. default_tiles nworkers is ds')))"

definition hclib_forasync :: "int \<Rightarrow> loop_domain list \<Rightarrow> int \<Rightarrow> int \<Rightarrow> activation result" where
  "hclib_forasync nworkers ds dim mode =
     res_bind (default_tiles nworkers [0..dim - 1] ds) (\<lambda>ds'. forasync_internal ds' dim mode)"

text \<open>The body of a task.\<close>

fun run_job :: "job \<Rightarrow> activation result" where
  "run_job (Rec1 d0) = from_loop (forasync1D_recursive d0)"
| "run_job (Run1 d0) = res_bind (from_loop (forasync1D_runner d0)) (\<lambda>xs. Inr ([], xs))"
| "run_job (Rec2 d0 d1) = from_loop (forasync2D_recursive d0 d1)"
| "run_job (Run2 d0 d1) = res_bind (from_loop (forasync2D_runner d0 d1)) (\<lambda>xs. Inr ([], xs))"
| "run_job (Rec3 d0 d1 d2) = from_loop (forasync3D_recursive d0 d1 d2)"
| "run_job (Run3 d0 d1 d2) = res_bind (from_loop (forasync3D_runner d0 d1 d2)) (\<lambda>xs. Inr ([], xs))"

section \<open>Running all tasks\<close>

text \<open>
  The pending tasks and the calls made so far; a step runs any one of the pending tasks, as the
  work-stealing runtime may.
\<close>

inductive job_step :: "('t \<Rightarrow> ('t list \<times> 'x list) result) \<Rightarrow> 't multiset \<times> 'x multiset \<Rightarrow> 't multiset \<times> 'x multiset \<Rightarrow> bool"
  for body where
  run: "body t = Inr (ts, xs) \<Longrightarrow> job_step body (add_mset t P, X) (P + mset ts, X + mset xs)"

inductive_cases job_stepE: "job_step body (P, X) (P', X')"

text \<open>
  What a kind of task promises: a task returns, the calls it makes and the work of the tasks it
  spawns are together its work, and it spawns tasks of a smaller rank.
\<close>

locale fork_tree =
  fixes body :: "'t \<Rightarrow> ('t list \<times> 'x list) result" and ok :: "'t \<Rightarrow> bool"
    and work :: "'t \<Rightarrow> 'x multiset" and rank :: "'t \<Rightarrow> nat"
  assumes conserves: "ok t \<Longrightarrow> \<exists>ts xs. body t = Inr (ts, xs) \<and> (\<forall>t' \<in> set ts. ok t') \<and>
      work t = mset xs + sum_list (map work ts) \<and> sum_list (map rank ts) < rank t"
begin

definition all_ok :: "'t multiset \<Rightarrow> bool" where
  "all_ok P \<longleftrightarrow> (\<forall>t \<in># P. ok t)"

definition total :: "'t multiset \<times> 'x multiset \<Rightarrow> 'x multiset" where
  "total s = snd s + sum_mset (image_mset work (fst s))"

definition total_rank :: "'t multiset \<times> 'x multiset \<Rightarrow> nat" where
  "total_rank s = sum_mset (image_mset rank (fst s))"

lemma step_conserves:
  assumes "job_step body (P, X) (P', X')" "all_ok P"
  shows "all_ok P' \<and> total (P', X') = total (P, X) \<and> total_rank (P', X') < total_rank (P, X)"
  using assms(1)
proof (rule job_stepE)
  fix t ts xs Q
  assume 1: "P = add_mset t Q" "P' = Q + mset ts" "X' = X + mset xs" "body t = Inr (ts, xs)"
  have "ok t" using assms(2) 1 by (simp add: all_ok_def)
  then have t: "\<forall>t' \<in> set ts. ok t'" "work t = mset xs + sum_list (map work ts)" "sum_list (map rank ts) < rank t"
    using conserves 1 by fastforce+
  have "sum_mset (image_mset work (mset ts)) = sum_list (map work ts)" "sum_mset (image_mset rank (mset ts)) = sum_list (map rank ts)"
    by (metis mset_map sum_mset_sum_list)+
  then show ?thesis using 1 t assms(2) by (auto simp: all_ok_def total_def total_rank_def)
qed

lemma run_conserves:
  assumes "(job_step body ^^ k) (P, X) (P', X')" "all_ok P"
  shows "all_ok P' \<and> total (P', X') = total (P, X) \<and> k + total_rank (P', X') \<le> total_rank (P, X)"
  using assms
proof (induction k arbitrary: P' X')
  case 0
  then show ?case by simp
next
  case (Suc k)
  then obtain Q Y where q: "(job_step body ^^ k) (P, X) (Q, Y)" "job_step body (Q, Y) (P', X')" by auto
  then show ?case using Suc.IH [OF q(1) Suc.prems(2)] step_conserves [OF q(2)] by auto
qed

text \<open>In any order, the tasks can be run to the end, in a bounded number of steps, and do all the work.\<close>

lemma all_work_done:
  assumes "\<forall>t \<in> set ts. ok t" "(job_step body ^^ k) (mset ts, mset xs) (P, X)"
  shows "k \<le> sum_list (map rank ts)" "P = {#} \<Longrightarrow> X = mset xs + sum_list (map work ts)"
    "P \<noteq> {#} \<Longrightarrow> \<exists>s. job_step body (P, X) s"
proof -
  have sums: "sum_mset (image_mset work (mset ts)) = sum_list (map work ts)" "sum_mset (image_mset rank (mset ts)) = sum_list (map rank ts)"
    by (metis mset_map sum_mset_sum_list)+
  have run: "all_ok P \<and> total (P, X) = total (mset ts, mset xs) \<and> k + total_rank (P, X) \<le> total_rank (mset ts, mset xs)"
    using run_conserves [OF assms(2)] assms(1) by (simp add: all_ok_def)
  then show "k \<le> sum_list (map rank ts)" "P = {#} \<Longrightarrow> X = mset xs + sum_list (map work ts)"
    using sums by (auto simp: total_def total_rank_def)
  assume "P \<noteq> {#}"
  then obtain t' Q where "P = add_mset t' Q" by (metis multiset_cases)
  moreover have "ok t'" using run calculation by (simp add: all_ok_def)
  ultimately show "\<exists>s. job_step body (P, X) s" using conserves [of t'] by (blast intro: job_step.run)
qed

end

section \<open>Loops\<close>

text \<open>The values of the loop variable.\<close>

definition steps :: "int \<Rightarrow> int \<Rightarrow> int \<Rightarrow> int list" where
  "steps l h s = filter (\<lambda>i. s dvd i - l) [l..h - 1]"

lemma steps_empty [simp]: "h \<le> l \<Longrightarrow> steps l h s = []"
  by (simp add: steps_def)

lemma steps_1 [simp]: "steps l h 1 = [l..h - 1]"
  by (simp add: steps_def)

lemma steps_split:
  assumes "l \<le> m" "m \<le> h" "s dvd m - l"
  shows "steps l h s = steps l m s @ steps m h s"
proof -
  have "[l..h - 1] = [l..m - 1] @ [m..h - 1]" using upto_split1 [of l m "h - 1"] assms by (cases "m = h") auto
  moreover have "s dvd i - m \<longleftrightarrow> s dvd i - l" for i
    using assms(3) by (metis diff_add_cancel diff_diff_eq2 dvd_add_left_iff dvd_minus_iff minus_diff_eq)
  ultimately show ?thesis by (simp add: steps_def)
qed

lemma steps_first:
  assumes "l < h" "0 < s"
  shows "steps l h s = l # steps (l + s) h s"
proof -
  have first: "steps l m s = [l]" if "l < m" "m \<le> l + s" for m
  proof -
    have "\<not> s dvd i - l" if "i \<in> set [l + 1..m - 1]" for i
      using that \<open>m \<le> l + s\<close> zdvd_not_zless [of "i - l" s] by auto
    then have "filter (\<lambda>i. s dvd i - l) [l + 1..m - 1] = []" by (simp add: filter_empty_conv)
    moreover have "[l..m - 1] = l # [l + 1..m - 1]" using \<open>l < m\<close> by (simp add: upto_rec1)
    ultimately show ?thesis by (simp add: steps_def)
  qed
  show ?thesis
  proof (cases "l + s \<le> h")
    case True
    then show ?thesis using steps_split [of l "l + s" h s] first [of "l + s"] assms by simp
  next
    case False
    then show ?thesis using first [of h] assms by simp
  qed
qed

lemma for_loop_steps:
  assumes "0 < s" "- 1073741824 \<le> l" "h \<le> 1073741824" "s \<le> 1073741823" "\<And>i. i \<in> set (steps l h s) \<Longrightarrow> body i = Some (f i)"
  shows "for_loop l h s body = Some (concat (map f (steps l h s)))"
  using assms(2,5)
proof (induction "nat (h - l)" arbitrary: l rule: less_induct)
  case less
  show ?case
  proof (cases "l < h")
    case True
    have w: "wrap32 (l + s) = l + s" using less.prems assms(1,3,4) True by (intro wrap32_id) auto
    have "for_loop (l + s) h s body = Some (concat (map f (steps (l + s) h s)))"
      using less.prems assms(1) True by (intro less.hyps) (auto simp: steps_first)
    then show ?thesis using True less.prems(2) [of l] assms(1) w by (subst for_loop.simps) (simp add: steps_first)
  qed (subst for_loop.simps, simp)
qed

section \<open>The work of a task\<close>

definition index_set :: "loop_domain \<Rightarrow> int multiset" where
  "index_set d = mset (steps (low d) (high d) (stride d))"

text \<open>All vectors with one entry from each multiset.\<close>

fun vectors :: "int multiset list \<Rightarrow> int list multiset" where
  "vectors [] = {#[]#}"
| "vectors (A # As) = (\<Sum>i\<in>#A. image_mset ((#) i) (vectors As))"

fun domains :: "job \<Rightarrow> loop_domain list" where
  "domains (Rec1 d0) = [d0]" | "domains (Run1 d0) = [d0]"
| "domains (Rec2 d0 d1) = [d0, d1]" | "domains (Run2 d0 d1) = [d0, d1]"
| "domains (Rec3 d0 d1 d2) = [d0, d1, d2]" | "domains (Run3 d0 d1 d2) = [d0, d1, d2]"

fun is_runner :: "job \<Rightarrow> bool" where
  "is_runner (Run1 d0) = True" | "is_runner (Run2 d0 d1) = True" | "is_runner (Run3 d0 d1 d2) = True"
| "is_runner _ = False"

definition job_work :: "job \<Rightarrow> int list multiset" where
  "job_work t = vectors (map index_set (domains t))"

definition extent :: "loop_domain \<Rightarrow> nat" where
  "extent d = nat (max 1 (high d - low d))"

definition job_rank :: "job \<Rightarrow> nat" where
  "job_rank t = (if is_runner t then 1 else prod_list (map extent (domains t)))"

text \<open>
  Bounds within a quarter of the range of \<^verbatim>\<open>int\<close> keep the arithmetic exact. The recursive mode cuts
  anywhere, so it needs a stride of 1.
\<close>

definition run_ok :: "loop_domain \<Rightarrow> bool" where
  "run_ok d \<longleftrightarrow> 0 < stride d \<and> stride d \<le> 1073741823 \<and>
     {low d, high d} \<subseteq> {- 1073741824..1073741823}"

definition rec_ok :: "loop_domain \<Rightarrow> bool" where
  "rec_ok d \<longleftrightarrow> run_ok d \<and> stride d = 1 \<and> (1 \<le> tile d \<or> high d - low d \<le> tile d)"

definition job_ok :: "job \<Rightarrow> bool" where
  "job_ok t \<longleftrightarrow> (\<forall>d \<in> set (domains t). if is_runner t then run_ok d else rec_ok d)"

lemma vectors_union: "vectors (As @ (B + C) # Ds) = vectors (As @ B # Ds) + vectors (As @ C # Ds)"
  by (induction As) (auto simp: sum_mset.distrib)

lemma mset_concat_map: "mset (concat (map f xs)) = (\<Sum>x\<in>#mset xs. mset (f x))"
  by (induction xs) auto

lemma image_sum_mset: "image_mset f (\<Sum>x\<in>#A. g x) = (\<Sum>x\<in>#A. image_mset f (g x))"
  by (induction A) auto

lemma runner_for:
  assumes "run_ok d" "\<And>i. body i = Some (f i)"
  shows "for_loop (low d) (high d) (stride d) body = Some (concat (map f (steps (low d) (high d) (stride d))))"
  using assms by (intro for_loop_steps) (auto simp: run_ok_def)

lemma runner_work:
  "run_ok d0 \<Longrightarrow> \<exists>xs. forasync1D_runner d0 = Some xs \<and> mset xs = vectors [index_set d0]"
  "run_ok d0 \<Longrightarrow> run_ok d1 \<Longrightarrow> \<exists>xs. forasync2D_runner d0 d1 = Some xs \<and> mset xs = vectors [index_set d0, index_set d1]"
  "run_ok d0 \<Longrightarrow> run_ok d1 \<Longrightarrow> run_ok d2 \<Longrightarrow> \<exists>xs. forasync3D_runner d0 d1 d2 = Some xs \<and>
     mset xs = vectors [index_set d0, index_set d1, index_set d2]"
  by (simp_all add: forasync1D_runner_def forasync2D_runner_def forasync3D_runner_def runner_for
      mset_concat_map index_set_def image_mset.compositionality o_def image_sum_mset)

lemma halves:
  assumes "rec_ok d" "too_long d"
  shows "rec_ok (lower_half d)" "rec_ok (upper_half d)" "index_set d = index_set (lower_half d) + index_set (upper_half d)"
    "extent d = extent (lower_half d) + extent (upper_half d)" "high (lower_half d) - low (lower_half d) < high d - low d"
    "low (lower_half d) < high (lower_half d)"
proof -
  have b: "- 1073741824 \<le> low d" "high d \<le> 1073741823" "low d \<le> 1073741823" "- 1073741824 \<le> high d"
      "1 \<le> tile d \<or> high d - low d \<le> tile d" "stride d = 1"
    using assms(1) by (auto simp: rec_ok_def run_ok_def)
  have "wrap32 (high d - low d) = high d - low d" "wrap32 (high d + low d) = high d + low d"
    using b by (auto intro!: wrap32_id)
  then have long: "low d + 1 < high d" and m: "mid d = (high d + low d) sdiv 2" and t: "1 \<le> tile d"
    using assms(2) b(5) by (auto simp: too_long_def mid_def)
  have in_mid: "low d < mid d" "mid d < high d"
    using long unfolding m by (auto simp: signed_divide_int_def sgn_if)
  show "rec_ok (lower_half d)" "rec_ok (upper_half d)"
    using b in_mid t by (auto simp: rec_ok_def run_ok_def lower_half_def upper_half_def)
  show "index_set d = index_set (lower_half d) + index_set (upper_half d)"
    using steps_split [of "low d" "mid d" "high d" 1] in_mid b(6)
    by (simp add: index_set_def lower_half_def upper_half_def del: steps_1)
  show "extent d = extent (lower_half d) + extent (upper_half d)" "high (lower_half d) - low (lower_half d) < high d - low d"
    "low (lower_half d) < high (lower_half d)"
    using in_mid by (auto simp: extent_def lower_half_def upper_half_def)
qed

section \<open>Recursive mode does all the work\<close>

definition conserved :: "loop_domain list \<Rightarrow> activation option \<Rightarrow> bool" where
  "conserved ds r \<longleftrightarrow> (\<exists>ts xs. r = Some (ts, xs) \<and> (\<forall>t \<in> set ts. job_ok t) \<and>
     vectors (map index_set ds) = mset xs + sum_list (map job_work ts) \<and>
     sum_list (map job_rank ts) < prod_list (map extent ds))"

lemma extent_pos: "0 < prod_list (map extent ds)"
  by (induction ds) (auto simp: extent_def)

lemma conserved_tile:
  assumes "r = Some xs" "mset xs = vectors (map index_set ds)"
  shows "conserved ds (r \<bind> (\<lambda>xs. Some ([], xs)))"
  using assms extent_pos by (simp add: conserved_def)

lemma conserved_split:
  assumes "conserved (As @ lower_half d # Ds) r" "\<forall>d' \<in> set (As @ d # Ds). rec_ok d'" "too_long d"
    and t: "domains t = As @ upper_half d # Ds" "\<not> is_runner t"
  shows "conserved (As @ d # Ds) (r \<bind> (\<lambda>(ts, xs). Some (t # ts, xs)))"
proof -
  have d: "rec_ok d" using assms(2) by simp
  note h = halves [OF d assms(3)]
  obtain ts xs where r: "r = Some (ts, xs)" "\<forall>t \<in> set ts. job_ok t"
      "vectors (map index_set (As @ lower_half d # Ds)) = mset xs + sum_list (map job_work ts)"
      "sum_list (map job_rank ts) < prod_list (map extent (As @ lower_half d # Ds))"
    using assms(1) by (auto simp: conserved_def)
  have "job_ok t" using t h(2) assms(2) by (auto simp: job_ok_def)
  moreover have "vectors (map index_set (As @ d # Ds)) = mset xs + sum_list (map job_work (t # ts))"
    using r(3) t(1) h(3) vectors_union [of "map index_set As"] by (simp add: job_work_def add.commute)
  moreover have "sum_list (map job_rank (t # ts)) < prod_list (map extent (As @ d # Ds))"
    using r(4) t h(4) by (simp add: job_rank_def algebra_simps)
  ultimately show ?thesis using r(1,2) by (simp add: conserved_def)
qed

lemma recursive1_conserved: "rec_ok d0 \<Longrightarrow> conserved [d0] (forasync1D_recursive d0)"
proof (induction "nat (high d0 - low d0)" arbitrary: d0 rule: less_induct)
  case less
  show ?case
  proof (cases "too_long d0")
    case True
    note h = halves [OF less.prems True]
    have "conserved [lower_half d0] (forasync1D_recursive (lower_half d0))"
      using h by (intro less.hyps) auto
    then show ?thesis using conserved_split [of "[]" d0 "[]" _ "Rec1 (upper_half d0)"] True less.prems
      by (subst forasync1D_recursive.simps) simp
  next
    case False
    have "run_ok d0" using less.prems by (simp add: rec_ok_def)
    then show ?thesis using False runner_work(1) [of d0] conserved_tile [of _ _ "[d0]"]
      by (subst forasync1D_recursive.simps) auto
  qed
qed

lemma recursive2_conserved: "rec_ok d0 \<Longrightarrow> rec_ok d1 \<Longrightarrow> conserved [d0, d1] (forasync2D_recursive d0 d1)"
proof (induction "nat (high d0 - low d0) + nat (high d1 - low d1)" arbitrary: d0 d1 rule: less_induct)
  case less
  consider "too_long d0" | "\<not> too_long d0" "too_long d1" | "\<not> too_long d0" "\<not> too_long d1" by blast
  then show ?case
  proof cases
    case 1
    note h = halves [OF less.prems(1) 1]
    have "conserved [lower_half d0, d1] (forasync2D_recursive (lower_half d0) d1)"
      using h less.prems by (intro less.hyps) auto
    then show ?thesis using conserved_split [of "[]" d0 "[d1]" _ "Rec2 (upper_half d0) d1"] 1 less.prems
      by (subst forasync2D_recursive.simps) simp
  next
    case 2
    note h = halves [OF less.prems(2) 2(2)]
    have "conserved [d0, lower_half d1] (forasync2D_recursive d0 (lower_half d1))"
      using h less.prems by (intro less.hyps) auto
    then show ?thesis using conserved_split [of "[d0]" d1 "[]" _ "Rec2 d0 (upper_half d1)"] 2 less.prems
      by (subst forasync2D_recursive.simps) simp
  next
    case 3
    have "run_ok d0" "run_ok d1" using less.prems by (simp_all add: rec_ok_def)
    then show ?thesis using 3 runner_work(2) [of d0 d1] conserved_tile [of _ _ "[d0, d1]"]
      by (subst forasync2D_recursive.simps) auto
  qed
qed

lemma recursive3_conserved:
  "rec_ok d0 \<Longrightarrow> rec_ok d1 \<Longrightarrow> rec_ok d2 \<Longrightarrow> conserved [d0, d1, d2] (forasync3D_recursive d0 d1 d2)"
proof (induction "nat (high d0 - low d0) + nat (high d1 - low d1) + nat (high d2 - low d2)"
    arbitrary: d0 d1 d2 rule: less_induct)
  case less
  consider "too_long d0" | "\<not> too_long d0" "too_long d1" | "\<not> too_long d0" "\<not> too_long d1" "too_long d2"
    | "\<not> too_long d0" "\<not> too_long d1" "\<not> too_long d2" by blast
  then show ?case
  proof cases
    case 1
    note h = halves [OF less.prems(1) 1]
    have "conserved [lower_half d0, d1, d2] (forasync3D_recursive (lower_half d0) d1 d2)"
      using h less.prems by (intro less.hyps) auto
    then show ?thesis using conserved_split [of "[]" d0 "[d1, d2]" _ "Rec3 (upper_half d0) d1 d2"] 1 less.prems
      by (subst forasync3D_recursive.simps) simp
  next
    case 2
    note h = halves [OF less.prems(2) 2(2)]
    have "conserved [d0, lower_half d1, d2] (forasync3D_recursive d0 (lower_half d1) d2)"
      using h less.prems by (intro less.hyps) auto
    then show ?thesis using conserved_split [of "[d0]" d1 "[d2]" _ "Rec3 d0 (upper_half d1) d2"] 2 less.prems
      by (subst forasync3D_recursive.simps) simp
  next
    case 3
    note h = halves [OF less.prems(3) 3(3)]
    have "conserved [d0, d1, lower_half d2] (forasync3D_recursive d0 d1 (lower_half d2))"
      using h less.prems by (intro less.hyps) auto
    then show ?thesis using conserved_split [of "[d0, d1]" d2 "[]" _ "Rec3 d0 d1 (upper_half d2)"] 3 less.prems
      by (subst forasync3D_recursive.simps) simp
  next
    case 4
    have "run_ok d0" "run_ok d1" "run_ok d2" using less.prems by (simp_all add: rec_ok_def)
    then show ?thesis using 4 runner_work(3) [of d0 d1 d2] conserved_tile [of _ _ "[d0, d1, d2]"]
      by (subst forasync3D_recursive.simps) auto
  qed
qed

interpretation jobs: fork_tree run_job job_ok job_work job_rank
proof
  fix t assume "job_ok t"
  then show "\<exists>ts xs. run_job t = Inr (ts, xs) \<and> (\<forall>t' \<in> set ts. job_ok t') \<and>
      job_work t = mset xs + sum_list (map job_work ts) \<and> sum_list (map job_rank ts) < job_rank t"
  proof (cases t)
    case (Rec1 d0)
    then show ?thesis using recursive1_conserved [of d0] \<open>job_ok t\<close>
      by (auto simp: conserved_def job_ok_def job_work_def job_rank_def)
  next
    case (Run1 d0)
    then show ?thesis using runner_work(1) [of d0] \<open>job_ok t\<close> by (auto simp: job_ok_def job_work_def job_rank_def)
  next
    case (Rec2 d0 d1)
    then show ?thesis using recursive2_conserved [of d0 d1] \<open>job_ok t\<close>
      by (auto simp: conserved_def job_ok_def job_work_def job_rank_def)
  next
    case (Run2 d0 d1)
    then show ?thesis using runner_work(2) [of d0 d1] \<open>job_ok t\<close> by (auto simp: job_ok_def job_work_def job_rank_def)
  next
    case (Rec3 d0 d1 d2)
    then show ?thesis using recursive3_conserved [of d0 d1 d2] \<open>job_ok t\<close>
      by (auto simp: conserved_def job_ok_def job_work_def job_rank_def)
  next
    case (Run3 d0 d1 d2)
    then show ?thesis using runner_work(3) [of d0 d1 d2] \<open>job_ok t\<close> by (auto simp: job_ok_def job_work_def job_rank_def)
  qed
qed

section \<open>Flat mode does all the work\<close>

definition flat_ok :: "loop_domain \<Rightarrow> bool" where
  "flat_ok d \<longleftrightarrow> run_ok d \<and> 1 \<le> tile d \<and> tile d \<le> 1073741823 \<and> stride d dvd tile d"

definition tiles :: "loop_domain \<Rightarrow> loop_domain list" where
  "tiles d = map (one_tile d) (steps (low d) (high d) (tile d))"

lemma sum_list_concat: "sum_list (map f (concat (map g xs))) = sum_list (map (\<lambda>x. sum_list (map f (g x))) xs)"
  for f :: "'b \<Rightarrow> 'c :: monoid_add" by (induction xs) (auto simp: add.assoc)

lemma vectors_empty: "vectors (As @ {#} # Ds) = {#}"
  by (induction As) auto

lemma vectors_sum: "vectors (As @ sum_list Bs # Ds) = sum_list (map (\<lambda>B. vectors (As @ B # Ds)) Bs)"
  by (induction Bs) (auto simp: vectors_empty vectors_union)

lemma vectors_sums:
  "vectors (sum_list Bs # Ds) = sum_list (map (\<lambda>B. vectors (B # Ds)) Bs)"
  "vectors (A # sum_list Bs # Ds) = sum_list (map (\<lambda>B. vectors (A # B # Ds)) Bs)"
  "vectors (A # A' # sum_list Bs # Ds) = sum_list (map (\<lambda>B. vectors (A # A' # B # Ds)) Bs)"
  using vectors_sum [of "[]"] vectors_sum [of "[A]"] vectors_sum [of "[A, A']"] by (simp_all del: vectors.simps)

lemma tile_steps:
  assumes "flat_ok d" "- 1073741824 \<le> l"
  shows "mset (steps l (high d) (stride d)) = sum_list (map (\<lambda>l. index_set (one_tile d l)) (steps l (high d) (tile d)))"
  using assms(2)
proof (induction "nat (high d - l)" arbitrary: l rule: less_induct)
  case less
  have b: "high d \<le> 1073741823" "1 \<le> tile d" "tile d \<le> 1073741823" "stride d dvd tile d"
    using assms(1) by (auto simp: flat_ok_def run_ok_def)
  show ?case
  proof (cases "l < high d")
    case True
    have "wrap32 (l + tile d) = l + tile d" using less.prems b True by (intro wrap32_id) auto
    then have e: "tile_end d l = min (l + tile d) (high d)" by (simp add: tile_end_def)
    have IH: "mset (steps (l + tile d) (high d) (stride d)) =
        sum_list (map (\<lambda>l. index_set (one_tile d l)) (steps (l + tile d) (high d) (tile d)))"
      using less.prems b True by (intro less.hyps) auto
    have "mset (steps l (high d) (stride d)) = mset (steps l (min (l + tile d) (high d)) (stride d)) +
        mset (steps (l + tile d) (high d) (stride d))"
      using steps_split [of l "l + tile d" "high d" "stride d"] b by (cases "l + tile d \<le> high d") (auto simp: min_def)
    then show ?thesis using IH True b(2) e by (simp add: steps_first index_set_def one_tile_def)
  qed simp
qed

lemma tiles_index: "flat_ok d \<Longrightarrow> sum_list (map index_set (tiles d)) = index_set d"
  using tile_steps [of d "low d"] by (auto simp: tiles_def flat_ok_def run_ok_def index_set_def o_def)

lemma tiles_vectors:
  assumes "flat_ok d"
  shows "sum_list (map (\<lambda>x. vectors (index_set x # Ds)) (tiles d)) = vectors (index_set d # Ds)"
    "sum_list (map (\<lambda>x. vectors (A # index_set x # Ds)) (tiles d)) = vectors (A # index_set d # Ds)"
    "sum_list (map (\<lambda>x. vectors (A # A' # index_set x # Ds)) (tiles d)) = vectors (A # A' # index_set d # Ds)"
  using vectors_sums [where Bs = "map index_set (tiles d)"] tiles_index [OF assms]
  by (simp_all add: o_def del: vectors.simps)

lemma tiles_ok:
  assumes "flat_ok d" "d' \<in> set (tiles d)"
  shows "run_ok d'"
proof -
  obtain l where l: "d' = one_tile d l" "low d \<le> l" "l < high d" using assms(2) by (auto simp: tiles_def steps_def)
  have b: "- 1073741824 \<le> l" "high d \<le> 1073741823" "1 \<le> tile d" "tile d \<le> 1073741823"
    using assms(1) l by (auto simp: flat_ok_def run_ok_def)
  then have "wrap32 (l + tile d) = l + tile d" using l by (intro wrap32_id) auto
  then show ?thesis using assms(1) l b by (auto simp: flat_ok_def run_ok_def one_tile_def tile_end_def)
qed

lemma tiles_for:
  assumes "flat_ok d" "\<And>l. body l = Some (f (one_tile d l))"
  shows "for_loop (low d) (high d) (tile d) body = Some (concat (map f (tiles d)))"
  using for_loop_steps [of "tile d" "low d" "high d" body "\<lambda>l. f (one_tile d l)"] assms
  by (auto simp: flat_ok_def run_ok_def tiles_def o_def)

text \<open>What a flat loop has to spawn: runners of tiles that make up the whole domain.\<close>

definition spawns_all :: "loop_domain list \<Rightarrow> activation result \<Rightarrow> bool" where
  "spawns_all ds r \<longleftrightarrow> (\<exists>ts. r = Inr (ts, []) \<and> (\<forall>t \<in> set ts. job_ok t \<and> is_runner t) \<and>
     sum_list (map job_work ts) = vectors (map index_set ds))"

lemma flat2_spawns:
  assumes "flat_ok d0" "flat_ok d1"
  shows "spawns_all [d0, d1] (forasync2D_flat d0 d1)"
proof -
  let ?ts = "concat (map (\<lambda>a. concat (map (\<lambda>b. [Run2 a b]) (tiles d1))) (tiles d0))"
  have b: "for_loop (low d1) (high d1) (tile d1) (\<lambda>low1. Some [Run2 a (one_tile d1 low1)]) =
      Some (concat (map (\<lambda>b. [Run2 a b]) (tiles d1)))" for a by (rule tiles_for [OF assms(2)]) simp
  have "for_loop (low d0) (high d0) (tile d0) (\<lambda>low0. for_loop (low d1) (high d1) (tile d1)
      (\<lambda>low1. Some [Run2 (one_tile d0 low0) (one_tile d1 low1)])) = Some ?ts"
    by (rule tiles_for [OF assms(1), where f = "\<lambda>a. concat (map (\<lambda>b. [Run2 a b]) (tiles d1))"]) (rule b)
  then have "forasync2D_flat d0 d1 = Inr (?ts, [])" unfolding forasync2D_flat_def by simp
  moreover have "sum_list (map job_work ?ts) = vectors (map index_set [d0, d1])"
    using assms by (simp add: sum_list_concat job_work_def tiles_vectors o_def del: vectors.simps)
  moreover have "\<forall>t \<in> set ?ts. job_ok t \<and> is_runner t" using tiles_ok assms by (auto simp: job_ok_def)
  ultimately show ?thesis unfolding spawns_all_def by blast
qed

lemma flat3_spawns:
  assumes "flat_ok d0" "flat_ok d1" "flat_ok d2"
  shows "spawns_all [d0, d1, d2] (forasync3D_flat d0 d1 d2)"
proof -
  let ?ts = "concat (map (\<lambda>a. concat (map (\<lambda>b. concat (map (\<lambda>c. [Run3 a b c]) (tiles d2))) (tiles d1))) (tiles d0))"
  have c: "for_loop (low d2) (high d2) (tile d2) (\<lambda>low2. Some [Run3 a b (one_tile d2 low2)]) =
      Some (concat (map (\<lambda>c. [Run3 a b c]) (tiles d2)))" for a b by (rule tiles_for [OF assms(3)]) simp
  have b: "for_loop (low d1) (high d1) (tile d1) (\<lambda>low1. for_loop (low d2) (high d2) (tile d2)
      (\<lambda>low2. Some [Run3 a (one_tile d1 low1) (one_tile d2 low2)])) =
      Some (concat (map (\<lambda>b. concat (map (\<lambda>c. [Run3 a b c]) (tiles d2))) (tiles d1)))" for a
    by (rule tiles_for [OF assms(2), where f = "\<lambda>b. concat (map (\<lambda>c. [Run3 a b c]) (tiles d2))"]) (rule c)
  have "for_loop (low d0) (high d0) (tile d0) (\<lambda>low0. for_loop (low d1) (high d1) (tile d1)
      (\<lambda>low1. for_loop (low d2) (high d2) (tile d2)
      (\<lambda>low2. Some [Run3 (one_tile d0 low0) (one_tile d1 low1) (one_tile d2 low2)]))) = Some ?ts"
    by (rule tiles_for [OF assms(1), where f = "\<lambda>a. concat (map (\<lambda>b. concat (map (\<lambda>c. [Run3 a b c]) (tiles d2))) (tiles d1))"])
      (rule b)
  then have "forasync3D_flat d0 d1 d2 = Inr (?ts, [])" unfolding forasync3D_flat_def by simp
  moreover have "sum_list (map job_work ?ts) = vectors (map index_set [d0, d1, d2])"
    using assms by (simp add: sum_list_concat job_work_def tiles_vectors o_def del: vectors.simps)
  moreover have "\<forall>t \<in> set ?ts. job_ok t \<and> is_runner t" using tiles_ok assms by (auto simp: job_ok_def)
  ultimately show ?thesis unfolding spawns_all_def by blast
qed

lemma last_low_end:
  assumes "0 < s" "s \<le> 1073741823" "h \<le> 1073741823" "- 1073741824 \<le> l" "l \<le> h" "s dvd h - l"
  shows "last_low l h s = Some h"
  using assms(4-6)
proof (induction "nat (h - l)" arbitrary: l rule: less_induct)
  case less
  show ?case
  proof (cases "l < h")
    case True
    then have le: "l + s \<le> h" using less.prems(3) zdvd_imp_le [of s "h - l"] by auto
    have "s dvd h - (l + s)" using less.prems(3) by (metis diff_diff_eq dvd_diff dvd_refl)
    then have "last_low (l + s) h s = Some h" using less.prems le assms(1) True by (intro less.hyps) auto
    moreover have "wrap32 (l + s) = l + s" using le less.prems(1) assms(1,3) by (intro wrap32_id) auto
    ultimately show ?thesis using True by (subst last_low.simps) simp
  next
    case False
    then show ?thesis using less.prems(2) by (subst last_low.simps) simp
  qed
qed

lemma flat1_spawns:
  assumes ok: "flat_ok d" and low: "0 \<le> low d" "low d \<le> high d" "tile d dvd low d"
  shows "spawns_all [d] (forasync1D_flat d)"
proof -
  define size where "size = tile d * (high d div tile d)"
  have b: "high d \<le> 1073741823" "1 \<le> tile d" "tile d \<le> 1073741823" using ok by (auto simp: flat_ok_def run_ok_def)
  have size: "size \<le> high d" "high d < size + tile d"
  proof -
    have "high d = size + high d mod tile d" by (simp add: size_def)
    then show "size \<le> high d" "high d < size + tile d"
      using pos_mod_sign [of "tile d" "high d"] pos_mod_bound [of "tile d" "high d"] b(2) by linarith+
  qed
  have "low d = tile d * (low d div tile d)" using low(3) by simp
  moreover have "low d div tile d \<le> high d div tile d" using low(2) b(2) by (intro zdiv_mono1) auto
  ultimately have le: "low d \<le> size" using mult_left_mono [of "low d div tile d" "high d div tile d" "tile d"] b(2)
    unfolding size_def by linarith
  have dvd: "tile d dvd size - low d" using low(3) by (simp add: size_def)
  have w: "wrap32 (tile d * (high d sdiv tile d)) = size"
  proof -
    have "high d sdiv tile d = high d div tile d" using low b(2) by (auto simp: signed_divide_int_def sgn_if)
    then have "tile d * (high d sdiv tile d) = size" by (simp add: size_def)
    moreover have "wrap32 size = size" by (rule wrap32_id) (use size(1) b(1) le low(1) in linarith)+
    ultimately show ?thesis by simp
  qed
  have tl: "wrap32 (l + tile d) = l + tile d \<and> l + tile d \<le> size" if "l \<in> set (steps (low d) size (tile d))" for l
  proof -
    have l: "low d \<le> l" "l < size" "tile d dvd l - low d" using that by (auto simp: steps_def)
    have "tile d dvd (size - low d) - (l - low d)" using dvd l(3) by (rule dvd_diff)
    then have "tile d dvd size - l" by simp
    then have "l + tile d \<le> size" using l(2) zdvd_imp_le [of "tile d" "size - l"] by auto
    then show ?thesis using l(1) low(1) b size by (auto intro!: wrap32_id)
  qed
  have loop: "for_loop (low d) size (tile d) (\<lambda>l. Some [Run1 (d\<lparr>low := l, high := wrap32 (l + tile d)\<rparr>)]) =
      Some (concat (map (\<lambda>l. [Run1 (one_tile d l)]) (steps (low d) size (tile d))))"
  proof (rule for_loop_steps)
    fix l assume "l \<in> set (steps (low d) size (tile d))"
    then show "Some [Run1 (d\<lparr>low := l, high := wrap32 (l + tile d)\<rparr>)] = Some [Run1 (one_tile d l)]"
      using tl [of l] size by (auto simp: one_tile_def tile_end_def)
  qed (use b size low in auto)
  have rest: "steps size (high d) (tile d) = (if size < high d then [size] else [])"
    using steps_first [of size "high d" "tile d"] size b(2) by auto
  have one: "d\<lparr>low := size\<rparr> = one_tile d size" if "size < high d"
  proof -
    have "wrap32 (size + tile d) = size + tile d" using size b low le by (intro wrap32_id) auto
    then have "tile_end d size = high d" using size by (simp add: tile_end_def)
    then show ?thesis by (simp add: one_tile_def)
  qed
  have "last_low (low d) size (tile d) = Some size" using b size le low dvd by (intro last_low_end) auto
  then have "forasync1D_flat d = Inr (map Run1 (tiles d), [])"
    using loop b(2) rest one w steps_split [OF le size(1) dvd]
    by (auto simp: forasync1D_flat_def tiles_def Let_def)
  moreover have "sum_list (map job_work (map Run1 (tiles d))) = vectors (map index_set [d])"
    using ok by (simp add: job_work_def tiles_vectors o_def del: vectors.simps)
  ultimately show ?thesis using tiles_ok [OF ok] by (auto simp: spawns_all_def job_ok_def simp del: vectors.simps)
qed

section \<open>Properties\<close>

lemma default_tile_ok:
  assumes "run_ok d" "stride d = 1" "0 < n" "1 \<le> tile d \<or> tile d = -1 \<and> high d - low d + n \<le> 2147483647"
  shows "\<exists>d'. default_tile n d = Inr d' \<and> rec_ok d' \<and> index_set d' = index_set d \<and> extent d' = extent d"
proof (cases "tile d = -1")
  case True
  let ?x = "high d - low d + n - 1"
  have b: "- 1073741824 \<le> low d" "low d \<le> 1073741823" "- 1073741824 \<le> high d" "high d \<le> 1073741823"
    using assms(1) by (auto simp: run_ok_def)
  have "wrap32 (high d - low d) = high d - low d" "wrap32 (high d - low d + n) = high d - low d + n" "wrap32 ?x = ?x"
    using assms(3,4) b True by (auto intro!: wrap32_id)
  then have t: "default_tile n d = Inr (d\<lparr>tile := ?x sdiv n\<rparr>)" using True assms(3) by (simp add: default_tile_def)
  have "1 \<le> ?x sdiv n \<or> high d - low d \<le> ?x sdiv n"
  proof (cases "0 \<le> ?x")
    case True
    then have e: "?x sdiv n = ?x div n" using assms(3) by (auto simp: signed_divide_int_def sgn_if)
    then have "0 \<le> ?x sdiv n" using True assms(3) by (simp add: pos_imp_zdiv_nonneg_iff)
    moreover have "1 \<le> ?x sdiv n" if "1 \<le> high d - low d"
      using zdiv_mono1 [of n ?x n] that assms(3) unfolding e by simp
    ultimately show ?thesis by linarith
  next
    case False
    then have "?x sdiv n = - ((- ?x) div n)" using assms(3) by (auto simp: signed_divide_int_def sgn_if)
    moreover have "(- ?x) div n \<le> - ?x" using False assms(3) zdiv_mono2 [of "- ?x" 1 n] by simp
    ultimately show ?thesis using assms(3) by linarith
  qed
  then show ?thesis using t assms(1,2) by (auto simp: rec_ok_def run_ok_def index_set_def extent_def)
next
  case False
  then show ?thesis using assms by (auto simp: default_tile_def rec_ok_def)
qed

lemma default_tiles_ok:
  assumes "\<forall>i \<in> set is. 0 \<le> i \<and> i < int (length ds)" "distinct is"
    and "\<forall>i \<in> set is. \<exists>d'. default_tile n (ds ! nat i) = Inr d' \<and> Q (ds ! nat i) d'"
  shows "\<exists>ds'. default_tiles n is ds = Inr ds' \<and> length ds' = length ds \<and>
     (\<forall>j < length ds. if int j \<in> set is then Q (ds ! j) (ds' ! j) else ds' ! j = ds ! j)"
  using assms
proof (induction "is" arbitrary: ds)
  case Nil
  then show ?case by simp
next
  case (Cons i "is")
  obtain d' where d': "default_tile n (ds ! nat i) = Inr d'" "Q (ds ! nat i) d'" using Cons.prems(3) by auto
  have i: "0 \<le> i" "i < int (length ds)" "i \<notin> set is" using Cons.prems by auto
  let ?ds = "ds[nat i := d']"
  have other: "?ds ! nat i' = ds ! nat i'" if "i' \<in> set is" for i'
  proof -
    have "i' \<noteq> i" "0 \<le> i'" using that i(3) Cons.prems(1) by auto
    then show ?thesis using i(1) by (simp add: nat_eq_iff2)
  qed
  obtain ds' where ds': "default_tiles n is ?ds = Inr ds'" "length ds' = length ds"
      "\<forall>j < length ds. if int j \<in> set is then Q (?ds ! j) (ds' ! j) else ds' ! j = ?ds ! j"
    using Cons.IH [of ?ds] Cons.prems other by auto
  have "default_tiles n (i # is) ds = Inr ds'" using d'(1) ds'(1) i by (simp add: arr_get_def arr_set_def)
  moreover have "if int j \<in> set (i # is) then Q (ds ! j) (ds' ! j) else ds' ! j = ds ! j" if "j < length ds" for j
    using ds'(3) that d'(2) i other [of "int j"] by (cases "int j = i") (auto split: if_splits)
  ultimately show ?case using ds'(2) by blast
qed

text \<open>Every order of running the tasks of an activation ends, and then exactly the calls \<open>X\<close> have been made.\<close>

definition completes :: "activation result \<Rightarrow> int list multiset \<Rightarrow> nat \<Rightarrow> bool" where
  "completes r X bound \<longleftrightarrow> (\<exists>ts xs. r = Inr (ts, xs) \<and>
     (\<forall>k P Y. (job_step run_job ^^ k) (mset ts, mset xs) (P, Y) \<longrightarrow>
        k \<le> bound \<and> (if P = {#} then Y = X else \<exists>s. job_step run_job (P, Y) s)))"

lemma completesI:
  assumes "r = Inr (ts, xs)" "\<forall>t \<in> set ts. job_ok t" "X = mset xs + sum_list (map job_work ts)" "sum_list (map job_rank ts) \<le> bound"
  shows "completes r X bound"
  unfolding completes_def
proof (intro exI conjI allI impI)
  fix k P Y assume "(job_step run_job ^^ k) (mset ts, mset xs) (P, Y)"
  note all = jobs.all_work_done [OF assms(2) this]
  show "k \<le> bound" using all(1) assms(4) by simp
  show "if P = {#} then Y = X else \<exists>s. job_step run_job (P, Y) s" using all(2,3) assms(3) by simp
qed (rule assms(1))

lemma conserved_completes: "conserved ds r \<Longrightarrow> completes (from_loop r) (vectors (map index_set ds)) (prod_list (map extent ds))"
  unfolding conserved_def by (elim exE conjE, rule completesI) auto

lemma list_1_2_3: "length ds \<in> {1, 2, 3} \<Longrightarrow> (\<exists>a. ds = [a]) \<or> (\<exists>a b. ds = [a, b]) \<or> (\<exists>a b c. ds = [a, b, c])"
  by (cases ds; cases "tl ds"; cases "tl (tl ds)") auto

lemma internal_recursive:
  assumes "length ds \<in> {1, 2, 3}" "\<forall>d \<in> set ds. rec_ok d"
  shows "completes (forasync_internal ds (int (length ds)) FORASYNC_MODE_RECURSIVE)
    (vectors (map index_set ds)) (prod_list (map extent ds))"
  using list_1_2_3 [OF assms(1)]
proof (elim disjE exE)
  fix a assume "ds = [a]"
  then show ?thesis using conserved_completes [OF recursive1_conserved, of a] assms(2)
    by (simp add: forasync_internal_def arr_get_def del: vectors.simps)
next
  fix a b assume "ds = [a, b]"
  then show ?thesis using conserved_completes [OF recursive2_conserved, of a b] assms(2)
    by (simp add: forasync_internal_def arr_get_def del: vectors.simps)
next
  fix a b c assume "ds = [a, b, c]"
  then show ?thesis using conserved_completes [OF recursive3_conserved, of a b c] assms(2)
    by (simp add: forasync_internal_def arr_get_def del: vectors.simps)
qed

lemma spawns_all_completes:
  assumes "spawns_all ds r"
  shows "\<exists>ts. r = Inr (ts, []) \<and> completes r (vectors (map index_set ds)) (length ts)"
proof -
  obtain ts where ts: "r = Inr (ts, [])" "\<forall>t \<in> set ts. job_ok t \<and> is_runner t"
      "sum_list (map job_work ts) = vectors (map index_set ds)" using assms by (auto simp: spawns_all_def)
  have "sum_list (map job_rank ts) = length ts" using ts(2) by (induction ts) (auto simp: job_rank_def)
  then show ?thesis using ts completesI [of r ts "[]"] by auto
qed

text \<open>
  C16: \<^verbatim>\<open>hclib_forasync\<close> in recursive mode, in one to three dimensions and with a given or a default
  tile size, calls the user's function for every index vector of the domain exactly once, in
  whatever order the runtime runs the tasks, and the number of tasks is bounded by the number of
  iterations. The strides are 1.
\<close>

theorem forasync_recursive_exact:
  assumes "length ds \<in> {1, 2, 3}" "0 < nworkers"
    and "\<forall>d \<in> set ds. run_ok d \<and> stride d = 1 \<and> (1 \<le> tile d \<or> tile d = -1 \<and> high d - low d + nworkers \<le> 2147483647)"
  shows "completes (hclib_forasync nworkers ds (int (length ds)) FORASYNC_MODE_RECURSIVE)
    (vectors (map (\<lambda>d. mset [low d..high d - 1]) ds)) (prod_list (map extent ds))"
proof -
  let ?Q = "\<lambda>d d'. rec_ok d' \<and> index_set d' = index_set d \<and> extent d' = extent d"
  have "\<forall>i \<in> set [0..int (length ds) - 1]. \<exists>d'. default_tile nworkers (ds ! nat i) = Inr d' \<and> ?Q (ds ! nat i) d'"
    using assms(2,3) default_tile_ok by (metis atLeastLessThan_iff int_nat_eq nat_less_iff nth_mem set_upto atLeastAtMost_iff zle_diff1_eq)
  from default_tiles_ok [OF _ _ this] obtain ds' where ds': "default_tiles nworkers [0..int (length ds) - 1] ds = Inr ds'"
      "length ds' = length ds" "\<forall>j < length ds. ?Q (ds ! j) (ds' ! j)" by auto
  have maps: "map index_set ds' = map index_set ds" "map extent ds' = map extent ds"
    using ds'(2,3) by (auto intro!: nth_equalityI)
  have idx: "map index_set ds = map (\<lambda>d. mset [low d..high d - 1]) ds"
    using assms(3) by (auto simp: index_set_def)
  have "\<forall>d \<in> set ds'. rec_ok d" using ds'(2,3) by (metis in_set_conv_nth)
  then show ?thesis using internal_recursive [of ds'] assms(1) ds'(1,2) maps idx by (simp add: hclib_forasync_def)
qed

theorem forasync_recursive_exact_witness:
  "completes (hclib_forasync 2 [\<lparr>low = 0, high = 3, stride = 1, tile = -1\<rparr>, \<lparr>low = 1, high = 3, stride = 1, tile = 1\<rparr>] 2
     FORASYNC_MODE_RECURSIVE) {#[0, 1], [0, 2], [1, 1], [1, 2], [2, 1], [2, 2]#} 6"
proof -
  let ?ds = "[\<lparr>low = 0, high = 3, stride = 1, tile = -1\<rparr>, \<lparr>low = 1, high = 3, stride = 1, tile = 1\<rparr>]"
  have "vectors (map (\<lambda>d. mset [low d..high d - 1]) ?ds) = {#[0, 1], [0, 2], [1, 1], [1, 2], [2, 1], [2, 2]#}"
    by (simp add: upto_rec1)
  moreover have "prod_list (map extent ?ds) = 6" by (simp add: extent_def)
  ultimately show ?thesis using forasync_recursive_exact [of ?ds 2] by (simp add: run_ok_def del: vectors.simps)
qed

lemma default_tiles_given:
  assumes "\<forall>i \<in> set is. 0 \<le> i \<and> i < int (length ds)" "\<forall>d \<in> set ds. tile d \<noteq> -1"
  shows "default_tiles n is ds = Inr ds"
  using assms by (induction "is") (auto simp: arr_get_def arr_set_def default_tile_def)




end
