(* ===== verification/Forasync_Cpp.thy ===== *)
theory Forasync_Cpp
  imports Forasync
begin

text \<open>
  The C++ interface of the parallel loops, \<^verbatim>\<open>src/inc/hclib-forasync.h\<close>, with the calls of
  \<^verbatim>\<open>src/inc/hclib-async.h\<close> that it makes and the registry of distribution functions of
  \<^verbatim>\<open>src/src/hclib.c\<close>. The templates cut the domain as the C functions do; the tasks they create also
  carry a future to wait for, a locale and a non-blocking flag. The lemmas compare the two.
\<close>

section \<open>Distribution functions\<close>

type_synonym loop_dist_func = "int \<Rightarrow> loop_domain list \<Rightarrow> loop_domain list \<Rightarrow> int \<Rightarrow> nat option"

definition hclib_register_dist_func :: "'g list \<Rightarrow> 'g \<Rightarrow> 'g list \<times> nat" where
  "hclib_register_dist_func funcs func = (funcs @ [func], length (funcs @ [func]) - 1)"

definition hclib_lookup_dist_func :: "'g list \<Rightarrow> nat \<Rightarrow> 'g result" where
  "hclib_lookup_dist_func funcs i = res_bind (c_assert (i < length funcs)) (\<lambda>_. arr_get funcs (int i))"

definition HCLIB_DEFAULT_LOOP_DIST :: nat where "HCLIB_DEFAULT_LOOP_DIST = 0"

section \<open>Creating tasks\<close>

text \<open>A task as it is passed to \<^verbatim>\<open>spawn_await_at\<close>.\<close>

record 'j request =
  req_job :: 'j
  req_futures :: "nat list"
  req_locale :: "nat option"
  req_nb :: bool

definition opt_future :: "nat option \<Rightarrow> nat list" where
  "opt_future f = (case f of None \<Rightarrow> [] | Some p \<Rightarrow> [p])"

definition async_await_at :: "'j \<Rightarrow> nat option \<Rightarrow> nat option \<Rightarrow> 'j request" where
  "async_await_at j future locale =
     \<lparr>req_job = j, req_futures = opt_future future, req_locale = locale, req_nb = False\<rparr>"

definition async_nb_await_at :: "'j \<Rightarrow> nat option \<Rightarrow> nat option \<Rightarrow> 'j request" where
  "async_nb_await_at j future locale =
     \<lparr>req_job = j, req_futures = opt_future future, req_locale = locale, req_nb = True\<rparr>"

definition async_await :: "'j \<Rightarrow> nat option \<Rightarrow> 'j request" where
  "async_await j future = \<lparr>req_job = j, req_futures = opt_future future, req_locale = None, req_nb = False\<rparr>"

definition async_nb_await :: "'j \<Rightarrow> nat option \<Rightarrow> 'j request" where
  "async_nb_await j future = \<lparr>req_job = j, req_futures = opt_future future, req_locale = None, req_nb = True\<rparr>"

section \<open>Loop domains\<close>

definition default_tile_size :: "int \<Rightarrow> int \<Rightarrow> int result" where
  "default_tile_size n nchunks =
     (if nchunks = 0 then Inl Div_by_zero else Inr (wrap32 (wrap32 (n + nchunks) - 1) sdiv nchunks))"

definition loop_domain_1d :: "int \<Rightarrow> int \<Rightarrow> int \<Rightarrow> int \<Rightarrow> loop_domain result" where
  "loop_domain_1d lo hi nchunks s =
     res_bind (default_tile_size (wrap32 (hi - lo)) nchunks) (\<lambda>t.
     Inr \<lparr>low = lo, high = hi, stride = s, tile = t\<rparr>)"

definition loop_domain_2d :: "int \<Rightarrow> int \<Rightarrow> int \<Rightarrow> int \<Rightarrow> int \<Rightarrow> (loop_domain \<times> loop_domain) result" where
  "loop_domain_2d nworkers low1 high1 low2 high2 =
     res_bind (default_tile_size (wrap32 (high1 - low1)) nworkers) (\<lambda>t1.
     res_bind (default_tile_size (wrap32 (high2 - low2)) nworkers) (\<lambda>t2.
     Inr (\<lparr>low = low1, high = high1, stride = 1, tile = t1\<rparr>, \<lparr>low = low2, high = high2, stride = 1, tile = t2\<rparr>)))"

definition loop_domain_3d ::
  "int \<Rightarrow> int \<Rightarrow> int \<Rightarrow> int \<Rightarrow> int \<Rightarrow> int \<Rightarrow> int \<Rightarrow> (loop_domain \<times> loop_domain \<times> loop_domain) result" where
  "loop_domain_3d nworkers low1 high1 low2 high2 low3 high3 =
     res_bind (default_tile_size (wrap32 (high1 - low1)) nworkers) (\<lambda>t1.
     res_bind (default_tile_size (wrap32 (high2 - low2)) nworkers) (\<lambda>t2.
     res_bind (default_tile_size (wrap32 (high3 - low3)) nworkers) (\<lambda>t3.
     Inr (\<lparr>low = low1, high = high1, stride = 1, tile = t1\<rparr>, \<lparr>low = low2, high = high2, stride = 1, tile = t2\<rparr>,
          \<lparr>low = low3, high = high3, stride = 1, tile = t3\<rparr>))))"

section \<open>Recursive mode\<close>

text \<open>
  The lambda of a task calls the template again with the captured future and flag. The assertion on
  the flag is checked on every entry.
\<close>

type_synonym cpp_activation = "(job request list \<times> int list list) result"

definition add_request :: "job request \<Rightarrow> cpp_activation \<Rightarrow> cpp_activation option" where
  "add_request q r = Some (res_bind r (\<lambda>(ts, xs). Inr (q # ts, xs)))"

partial_function (option) cpp_forasync1D_recursive :: "loop_domain \<Rightarrow> nat option \<Rightarrow> bool \<Rightarrow> cpp_activation option" where
  "cpp_forasync1D_recursive d0 future nb =
     (if nb then Some (Inl Assert_failed)
      else if too_long d0 then
        cpp_forasync1D_recursive \<lparr>low = low d0, high = mid d0, stride = stride d0, tile = tile d0\<rparr> future nb \<bind>
          add_request (async_await (Rec1 \<lparr>low = mid d0, high = high d0, stride = stride d0, tile = tile d0\<rparr>) future)
      else forasync1D_runner d0 \<bind> (\<lambda>xs. Some (Inr ([], xs))))"

partial_function (option) cpp_forasync2D_recursive ::
  "loop_domain \<Rightarrow> loop_domain \<Rightarrow> nat option \<Rightarrow> bool \<Rightarrow> cpp_activation option" where
  "cpp_forasync2D_recursive d0 d1 future nb =
     (if nb then Some (Inl Assert_failed)
      else if too_long d0 then
        cpp_forasync2D_recursive \<lparr>low = low d0, high = mid d0, stride = stride d0, tile = tile d0\<rparr> d1 future nb \<bind>
          add_request (async_await (Rec2 \<lparr>low = mid d0, high = high d0, stride = stride d0, tile = tile d0\<rparr> d1) future)
      else if too_long d1 then
        cpp_forasync2D_recursive d0 \<lparr>low = low d1, high = mid d1, stride = stride d1, tile = tile d1\<rparr> future nb \<bind>
          add_request (async_await (Rec2 d0 \<lparr>low = mid d1, high = high d1, stride = stride d1, tile = tile d1\<rparr>) future)
      else forasync2D_runner d0 d1 \<bind> (\<lambda>xs. Some (Inr ([], xs))))"

partial_function (option) cpp_forasync3D_recursive ::
  "loop_domain \<Rightarrow> loop_domain \<Rightarrow> loop_domain \<Rightarrow> nat option \<Rightarrow> bool \<Rightarrow> cpp_activation option" where
  "cpp_forasync3D_recursive d0 d1 d2 future nb =
     (if nb then Some (Inl Assert_failed)
      else if too_long d0 then
        cpp_forasync3D_recursive \<lparr>low = low d0, high = mid d0, stride = stride d0, tile = tile d0\<rparr> d1 d2 future nb \<bind>
          add_request (async_await (Rec3 \<lparr>low = mid d0, high = high d0, stride = stride d0, tile = tile d0\<rparr> d1 d2) future)
      else if too_long d1 then
        cpp_forasync3D_recursive d0 \<lparr>low = low d1, high = mid d1, stride = stride d1, tile = tile d1\<rparr> d2 future nb \<bind>
          add_request (async_await (Rec3 d0 \<lparr>low = mid d1, high = high d1, stride = stride d1, tile = tile d1\<rparr> d2) future)
      else if too_long d2 then
        cpp_forasync3D_recursive d0 d1 \<lparr>low = low d2, high = mid d2, stride = stride d2, tile = tile d2\<rparr> future nb \<bind>
          add_request (async_await (Rec3 d0 d1 \<lparr>low = mid d2, high = high d2, stride = stride d2, tile = tile d2\<rparr>) future)
      else forasync3D_runner d0 d1 d2 \<bind> (\<lambda>xs. Some (Inr ([], xs))))"

declare cpp_forasync1D_recursive.simps [code] cpp_forasync2D_recursive.simps [code] cpp_forasync3D_recursive.simps [code]

section \<open>Flat mode\<close>

definition place_tile :: "loop_dist_func \<Rightarrow> loop_domain \<Rightarrow> nat option \<Rightarrow> bool \<Rightarrow> loop_domain \<Rightarrow> job request" where
  "place_tile func d future nb ld =
     (let locale = func 1 [ld] [d] FORASYNC_MODE_FLAT
      in if nb then async_nb_await_at (Run1 ld) future locale else async_await_at (Run1 ld) future locale)"

definition cpp_forasync1D_flat ::
  "loop_dist_func list \<Rightarrow> loop_domain \<Rightarrow> nat option \<Rightarrow> nat \<Rightarrow> bool \<Rightarrow> cpp_activation" where
  "cpp_forasync1D_flat funcs d0 future dist_func_id nb =
     res_bind (hclib_lookup_dist_func funcs dist_func_id) (\<lambda>func.
     if tile d0 = 0 then Inl Div_by_zero
     else let size = wrap32 (tile d0 * (high d0 sdiv tile d0)) in
       res_bind (from_loop (for_loop (low d0) size (tile d0) (\<lambda>low0.
          Some [place_tile func d0 future nb
                  \<lparr>low = low0, high = wrap32 (low0 + tile d0), stride = stride d0, tile = tile d0\<rparr>]))) (\<lambda>ts.
       res_bind (from_loop (last_low (low d0) size (tile d0))) (\<lambda>low0.
       Inr (if size < high d0 then
              ts @ [place_tile func d0 future nb \<lparr>low = low0, high = high d0, stride = stride d0, tile = tile d0\<rparr>]
            else ts, []))))"

definition await_tile :: "nat option \<Rightarrow> bool \<Rightarrow> job \<Rightarrow> job request" where
  "await_tile future nb j = (if nb then async_nb_await j future else async_await j future)"

definition cpp_forasync2D_flat :: "loop_domain \<Rightarrow> loop_domain \<Rightarrow> nat option \<Rightarrow> bool \<Rightarrow> cpp_activation" where
  "cpp_forasync2D_flat d0 d1 future nb =
     res_bind (from_loop (for_loop (low d0) (high d0) (tile d0) (\<lambda>low0a.
        let high0a = (if wrap32 (low0a + tile d0) > high d0 then high d0 else wrap32 (low0a + tile d0)) in
        for_loop (low d1) (high d1) (tile d1) (\<lambda>low1a.
          let high1a = (if wrap32 (low1a + tile d1) > high d1 then high d1 else wrap32 (low1a + tile d1)) in
          Some [await_tile future nb (Run2 \<lparr>low = low0a, high = high0a, stride = stride d0, tile = tile d0\<rparr>
                  \<lparr>low = low1a, high = high1a, stride = stride d1, tile = tile d1\<rparr>)])))) (\<lambda>ts.
     Inr (ts, []))"

definition cpp_forasync3D_flat :: "loop_domain \<Rightarrow> loop_domain \<Rightarrow> loop_domain \<Rightarrow> nat option \<Rightarrow> bool \<Rightarrow> cpp_activation" where
  "cpp_forasync3D_flat d0 d1 d2 future nb =
     res_bind (from_loop (for_loop (low d0) (high d0) (tile d0) (\<lambda>low0a.
        let high0a = (if wrap32 (low0a + tile d0) > high d0 then high d0 else wrap32 (low0a + tile d0)) in
        for_loop (low d1) (high d1) (tile d1) (\<lambda>low1a.
          let high1a = (if wrap32 (low1a + tile d1) > high d1 then high d1 else wrap32 (low1a + tile d1)) in
          for_loop (low d2) (high d2) (tile d2) (\<lambda>low2a.
            let high2a = (if wrap32 (low2a + tile d2) > high d2 then high d2 else wrap32 (low2a + tile d2)) in
            Some [await_tile future nb (Run3 \<lparr>low = low0a, high = high0a, stride = stride d0, tile = tile d0\<rparr>
                    \<lparr>low = low1a, high = high1a, stride = stride d1, tile = tile d1\<rparr>
                    \<lparr>low = low2a, high = high2a, stride = stride d2, tile = tile d2\<rparr>)]))))) (\<lambda>ts.
     Inr (ts, []))"

section \<open>Entry points\<close>

definition loop_result :: "cpp_activation option \<Rightarrow> cpp_activation" where
  "loop_result r = (case r of None \<Rightarrow> Inl Diverges | Some x \<Rightarrow> x)"

definition forasync1D_internal ::
  "loop_dist_func list \<Rightarrow> loop_domain \<Rightarrow> int \<Rightarrow> nat option \<Rightarrow> nat \<Rightarrow> bool \<Rightarrow> cpp_activation" where
  "forasync1D_internal funcs d0 mode future dist_func_id nb =
     (if mode = FORASYNC_MODE_FLAT then cpp_forasync1D_flat funcs d0 future dist_func_id nb
      else if mode = FORASYNC_MODE_RECURSIVE then
        res_bind (c_assert (dist_func_id = HCLIB_DEFAULT_LOOP_DIST)) (\<lambda>_.
        loop_result (cpp_forasync1D_recursive d0 future nb))
      else Inl Assert_failed)"

definition forasync2D_internal :: "loop_domain \<Rightarrow> loop_domain \<Rightarrow> int \<Rightarrow> nat option \<Rightarrow> bool \<Rightarrow> cpp_activation" where
  "forasync2D_internal d0 d1 mode future nb =
     (if mode = FORASYNC_MODE_FLAT then cpp_forasync2D_flat d0 d1 future nb
      else if mode = FORASYNC_MODE_RECURSIVE then loop_result (cpp_forasync2D_recursive d0 d1 future nb)
      else Inl Assert_failed)"

definition forasync3D_internal ::
  "loop_domain \<Rightarrow> loop_domain \<Rightarrow> loop_domain \<Rightarrow> int \<Rightarrow> nat option \<Rightarrow> bool \<Rightarrow> cpp_activation" where
  "forasync3D_internal d0 d1 d2 mode future nb =
     (if mode = FORASYNC_MODE_FLAT then cpp_forasync3D_flat d0 d1 d2 future nb
      else if mode = FORASYNC_MODE_RECURSIVE then loop_result (cpp_forasync3D_recursive d0 d1 d2 future nb)
      else Inl Assert_failed)"

definition forasync1D_seq :: "loop_domain \<Rightarrow> int list list option" where
  "forasync1D_seq d0 = for_loop (low d0) (high d0) (stride d0) (\<lambda>i. Some [[i]])"

definition forasync2D_seq :: "loop_domain \<Rightarrow> loop_domain \<Rightarrow> int list list option" where
  "forasync2D_seq d0 d1 =
     for_loop (low d0) (high d0) (stride d0) (\<lambda>i. for_loop (low d1) (high d1) (stride d1) (\<lambda>j. Some [[i, j]]))"

definition forasync1D :: "loop_dist_func list \<Rightarrow> loop_domain \<Rightarrow> bool \<Rightarrow> int \<Rightarrow> nat option \<Rightarrow> nat \<Rightarrow> cpp_activation" where
  "forasync1D funcs d0 force_seq mode future dist_func_id =
     (if force_seq then res_bind (from_loop (forasync1D_seq d0)) (\<lambda>xs. Inr ([], xs))
      else forasync1D_internal funcs d0 mode future dist_func_id False)"

definition forasync1D_nb :: "loop_dist_func list \<Rightarrow> loop_domain \<Rightarrow> bool \<Rightarrow> int \<Rightarrow> nat option \<Rightarrow> nat \<Rightarrow> cpp_activation" where
  "forasync1D_nb funcs d0 force_seq mode future dist_func_id =
     (if force_seq then res_bind (from_loop (forasync1D_seq d0)) (\<lambda>xs. Inr ([], xs))
      else forasync1D_internal funcs d0 mode future dist_func_id True)"

definition forasync2D :: "loop_domain \<Rightarrow> loop_domain \<Rightarrow> bool \<Rightarrow> int \<Rightarrow> nat option \<Rightarrow> cpp_activation" where
  "forasync2D d0 d1 force_seq mode future =
     (if force_seq then res_bind (from_loop (forasync2D_seq d0 d1)) (\<lambda>xs. Inr ([], xs))
      else forasync2D_internal d0 d1 mode future False)"

definition forasync2D_nb :: "loop_domain \<Rightarrow> loop_domain \<Rightarrow> bool \<Rightarrow> int \<Rightarrow> nat option \<Rightarrow> cpp_activation" where
  "forasync2D_nb d0 d1 force_seq mode future =
     (if force_seq then res_bind (from_loop (forasync2D_seq d0 d1)) (\<lambda>xs. Inr ([], xs))
      else forasync2D_internal d0 d1 mode future True)"

definition forasync3D :: "loop_domain \<Rightarrow> loop_domain \<Rightarrow> loop_domain \<Rightarrow> bool \<Rightarrow> int \<Rightarrow> nat option \<Rightarrow> cpp_activation" where
  "forasync3D d0 d1 d2 force_seq mode future =
     res_bind (c_assert (\<not> force_seq)) (\<lambda>_. forasync3D_internal d0 d1 d2 mode future False)"

definition forasync3D_nb :: "loop_domain \<Rightarrow> loop_domain \<Rightarrow> loop_domain \<Rightarrow> bool \<Rightarrow> int \<Rightarrow> nat option \<Rightarrow> cpp_activation" where
  "forasync3D_nb d0 d1 d2 force_seq mode future =
     res_bind (c_assert (\<not> force_seq)) (\<lambda>_. forasync3D_internal d0 d1 d2 mode future True)"

section \<open>The templates and the C functions\<close>

lemma half_eq:
  "\<lparr>low = low d, high = mid d, stride = stride d, tile = tile d\<rparr> = lower_half d"
  "\<lparr>low = mid d, high = high d, stride = stride d, tile = tile d\<rparr> = upper_half d"
  by (cases d, simp add: lower_half_def upper_half_def)+

lemma tile_eq:
  "\<lparr>low = l, high = h, stride = stride d, tile = tile d\<rparr> = d\<lparr>low := l, high := h\<rparr>" "d\<lparr>low := l, high := high d\<rparr> = d\<lparr>low := l\<rparr>"
  by (cases d, simp)+

lemma one_tile_eq:
  "\<lparr>low = l, high = (if wrap32 (l + tile d) > high d then high d else wrap32 (l + tile d)), stride = stride d, tile = tile d\<rparr> = one_tile d l"
  by (simp add: tile_eq one_tile_def tile_end_def)

text \<open>The result of a C function with a request made for each of its tasks.\<close>

definition requests :: "(job \<Rightarrow> job request) \<Rightarrow> activation \<Rightarrow> cpp_activation" where
  "requests q a = (case a of (ts, xs) \<Rightarrow> Inr (map q ts, xs))"

lemma requests_cons: "add_request (q t) (requests q (ts, xs)) = Some (requests q (t # ts, xs))"
  by (simp add: add_request_def requests_def)

lemmas requests_await = requests_cons [of "\<lambda>j. async_await j future" for future]

lemma cpp1_of_c:
  assumes "forasync1D_recursive d0 = Some a"
  shows "cpp_forasync1D_recursive d0 future False = Some (requests (\<lambda>j. async_await j future) a)"
proof (rule forasync1D_recursive.raw_induct
    [where P = "\<lambda>d0 a. cpp_forasync1D_recursive d0 future False = Some (requests (\<lambda>j. async_await j future) a)",
      OF _ assms], goal_cases)
  case (1 f d0 a)
  then show ?case
    by (subst cpp_forasync1D_recursive.simps)
      (auto simp: half_eq requests_await requests_def [of _ "([], _)"] split: if_splits bind_splits)
qed

lemma c_of_cpp1:
  assumes "cpp_forasync1D_recursive d0 future nb = Some r"
  shows "\<not> nb \<longrightarrow> forasync1D_recursive d0 \<noteq> None"
proof (rule cpp_forasync1D_recursive.raw_induct
    [where P = "\<lambda>d0 future nb r. \<not> nb \<longrightarrow> forasync1D_recursive d0 \<noteq> None", OF _ assms], goal_cases)
  case (1 f d0 future nb r)
  then show ?case
    by (subst forasync1D_recursive.simps) (auto simp: half_eq split: if_splits bind_splits)
qed

lemma cpp2_of_c:
  assumes "forasync2D_recursive d0 d1 = Some a"
  shows "cpp_forasync2D_recursive d0 d1 future False = Some (requests (\<lambda>j. async_await j future) a)"
proof (rule forasync2D_recursive.raw_induct
    [where P = "\<lambda>d0 d1 a. cpp_forasync2D_recursive d0 d1 future False = Some (requests (\<lambda>j. async_await j future) a)",
      OF _ assms], goal_cases)
  case (1 f d0 d1 a)
  then show ?case
    by (subst cpp_forasync2D_recursive.simps)
      (auto simp: half_eq requests_await requests_def [of _ "([], _)"] split: if_splits bind_splits)
qed

lemma c_of_cpp2:
  assumes "cpp_forasync2D_recursive d0 d1 future nb = Some r"
  shows "\<not> nb \<longrightarrow> forasync2D_recursive d0 d1 \<noteq> None"
proof (rule cpp_forasync2D_recursive.raw_induct
    [where P = "\<lambda>d0 d1 future nb r. \<not> nb \<longrightarrow> forasync2D_recursive d0 d1 \<noteq> None", OF _ assms], goal_cases)
  case (1 f d0 d1 future nb r)
  then show ?case
    by (subst forasync2D_recursive.simps) (auto simp: half_eq split: if_splits bind_splits)
qed

lemma cpp3_of_c:
  assumes "forasync3D_recursive d0 d1 d2 = Some a"
  shows "cpp_forasync3D_recursive d0 d1 d2 future False = Some (requests (\<lambda>j. async_await j future) a)"
proof (rule forasync3D_recursive.raw_induct
    [where P = "\<lambda>d0 d1 d2 a. cpp_forasync3D_recursive d0 d1 d2 future False = Some (requests (\<lambda>j. async_await j future) a)",
      OF _ assms], goal_cases)
  case (1 f d0 d1 d2 a)
  then show ?case
    by (subst cpp_forasync3D_recursive.simps)
      (auto simp: half_eq requests_await requests_def [of _ "([], _)"] split: if_splits bind_splits)
qed

lemma c_of_cpp3:
  assumes "cpp_forasync3D_recursive d0 d1 d2 future nb = Some r"
  shows "\<not> nb \<longrightarrow> forasync3D_recursive d0 d1 d2 \<noteq> None"
proof (rule cpp_forasync3D_recursive.raw_induct
    [where P = "\<lambda>d0 d1 d2 future nb r. \<not> nb \<longrightarrow> forasync3D_recursive d0 d1 d2 \<noteq> None", OF _ assms], goal_cases)
  case (1 f d0 d1 d2 future nb r)
  then show ?case
    by (subst forasync3D_recursive.simps) (auto simp: half_eq split: if_splits bind_splits)
qed

lemma map_for_loop:
  assumes "\<And>i. body' i = map_option (map f) (body i)"
  shows "for_loop i h s body' = map_option (map f) (for_loop i h s body)"
proof (rule option.expand)
  have down: "for_loop i h s body' = Some (map f xs)" if "for_loop i h s body = Some xs" for i xs
  proof (rule for_loop.raw_induct [where P = "\<lambda>i h s b xs. b = body \<longrightarrow> for_loop i h s body' = Some (map f xs)", OF _ that, THEN mp], goal_cases)
    case (1 g i h s b xs)
    then show ?case using assms by (subst for_loop.simps) (auto split: if_splits bind_splits)
  qed simp
  have up: "for_loop i h s body \<noteq> None" if "for_loop i h s body' = Some ys" for i ys
  proof (rule for_loop.raw_induct [where P = "\<lambda>i h s b ys. b = body' \<longrightarrow> for_loop i h s body \<noteq> None", OF _ that, THEN mp], goal_cases)
    case (1 g i h s b ys)
    then show ?case using assms by (subst for_loop.simps) (auto split: if_splits bind_splits, metis option.distinct(1))
  qed simp
  show "(for_loop i h s body' = None) = (map_option (map f) (for_loop i h s body) = None)"
    using down [of i] up [of i] by (cases "for_loop i h s body"; cases "for_loop i h s body'") auto
  assume "for_loop i h s body' \<noteq> None" "map_option (map f) (for_loop i h s body) \<noteq> None"
  then show "the (for_loop i h s body') = the (map_option (map f) (for_loop i h s body))"
    using down [of i] by auto
qed

lemma cpp1_flat:
  assumes "dist_func_id < length funcs"
  shows "cpp_forasync1D_flat funcs d0 future dist_func_id nb =
    res_bind (forasync1D_flat d0)
      (requests (\<lambda>j. case j of Run1 ld \<Rightarrow> place_tile (funcs ! dist_func_id) d0 future nb ld | _ \<Rightarrow> await_tile future nb j))"
    (is "_ = res_bind _ (requests ?q)")
proof (cases "tile d0 = 0")
  case True
  then show ?thesis using assms by (simp add: cpp_forasync1D_flat_def forasync1D_flat_def hclib_lookup_dist_func_def arr_get_def)
next
  case False
  let ?size = "wrap32 (tile d0 * (high d0 sdiv tile d0))" and ?p = "place_tile (funcs ! dist_func_id) d0 future nb"
  have loop: "for_loop (low d0) ?size (tile d0) (\<lambda>low0. Some [?p (d0\<lparr>low := low0, high := wrap32 (low0 + tile d0)\<rparr>)]) =
      map_option (map ?q) (for_loop (low d0) ?size (tile d0) (\<lambda>low0. Some [Run1 (d0\<lparr>low := low0, high := wrap32 (low0 + tile d0)\<rparr>)]))"
    by (rule map_for_loop) simp
  show ?thesis
    using assms False unfolding cpp_forasync1D_flat_def forasync1D_flat_def hclib_lookup_dist_func_def tile_eq Let_def
    by (cases "for_loop (low d0) ?size (tile d0) (\<lambda>low0. Some [Run1 (d0\<lparr>low := low0, high := wrap32 (low0 + tile d0)\<rparr>)])";
        cases "last_low (low d0) ?size (tile d0)") (auto simp: requests_def loop)
qed

lemma cpp2_flat: "cpp_forasync2D_flat d0 d1 future nb = res_bind (forasync2D_flat d0 d1) (requests (await_tile future nb))"
proof -
  have inner: "for_loop (low d1) (high d1) (tile d1) (\<lambda>l1. Some [await_tile future nb (Run2 a (one_tile d1 l1))]) =
      map_option (map (await_tile future nb)) (for_loop (low d1) (high d1) (tile d1) (\<lambda>l1. Some [Run2 a (one_tile d1 l1)]))" for a
    by (rule map_for_loop) simp
  have outer: "for_loop (low d0) (high d0) (tile d0) (\<lambda>l0. for_loop (low d1) (high d1) (tile d1)
        (\<lambda>l1. Some [await_tile future nb (Run2 (one_tile d0 l0) (one_tile d1 l1))])) =
      map_option (map (await_tile future nb)) (for_loop (low d0) (high d0) (tile d0) (\<lambda>l0. for_loop (low d1) (high d1) (tile d1)
        (\<lambda>l1. Some [Run2 (one_tile d0 l0) (one_tile d1 l1)])))"
    by (rule map_for_loop) (rule inner)
  show ?thesis unfolding cpp_forasync2D_flat_def forasync2D_flat_def Let_def one_tile_eq outer
    by (simp add: from_loop_def requests_def split: option.splits)
qed

lemma cpp3_flat:
  "cpp_forasync3D_flat d0 d1 d2 future nb = res_bind (forasync3D_flat d0 d1 d2) (requests (await_tile future nb))"
proof -
  let ?q = "await_tile future nb"
  have inner: "for_loop (low d2) (high d2) (tile d2) (\<lambda>l2. Some [?q (Run3 a b (one_tile d2 l2))]) =
      map_option (map ?q) (for_loop (low d2) (high d2) (tile d2) (\<lambda>l2. Some [Run3 a b (one_tile d2 l2)]))" for a b
    by (rule map_for_loop) simp
  have middle: "for_loop (low d1) (high d1) (tile d1) (\<lambda>l1. for_loop (low d2) (high d2) (tile d2)
        (\<lambda>l2. Some [?q (Run3 a (one_tile d1 l1) (one_tile d2 l2))])) =
      map_option (map ?q) (for_loop (low d1) (high d1) (tile d1) (\<lambda>l1. for_loop (low d2) (high d2) (tile d2)
        (\<lambda>l2. Some [Run3 a (one_tile d1 l1) (one_tile d2 l2)])))" for a
    by (rule map_for_loop) (rule inner)
  have outer: "for_loop (low d0) (high d0) (tile d0) (\<lambda>l0. for_loop (low d1) (high d1) (tile d1)
        (\<lambda>l1. for_loop (low d2) (high d2) (tile d2)
        (\<lambda>l2. Some [?q (Run3 (one_tile d0 l0) (one_tile d1 l1) (one_tile d2 l2))]))) =
      map_option (map ?q) (for_loop (low d0) (high d0) (tile d0) (\<lambda>l0. for_loop (low d1) (high d1) (tile d1)
        (\<lambda>l1. for_loop (low d2) (high d2) (tile d2)
        (\<lambda>l2. Some [Run3 (one_tile d0 l0) (one_tile d1 l1) (one_tile d2 l2)]))))"
    by (rule map_for_loop) (rule middle)
  show ?thesis unfolding cpp_forasync3D_flat_def forasync3D_flat_def Let_def one_tile_eq outer
    by (simp add: from_loop_def requests_def split: option.splits)
qed

lemma loop_result_requests:
  assumes "\<And>a. c = Some a \<Longrightarrow> r = Some (requests q a)" "\<And>x. r = Some x \<Longrightarrow> c \<noteq> None"
  shows "loop_result r = res_bind (from_loop c) (requests q)"
  using assms by (cases c; cases r) (auto simp: loop_result_def)

lemma cpp_recursive:
  "loop_result (cpp_forasync1D_recursive d0 future False) =
     res_bind (from_loop (forasync1D_recursive d0)) (requests (\<lambda>j. async_await j future))"
  "loop_result (cpp_forasync2D_recursive d0 d1 future False) =
     res_bind (from_loop (forasync2D_recursive d0 d1)) (requests (\<lambda>j. async_await j future))"
  "loop_result (cpp_forasync3D_recursive d0 d1 d2 future False) =
     res_bind (from_loop (forasync3D_recursive d0 d1 d2)) (requests (\<lambda>j. async_await j future))"
  by (rule loop_result_requests [OF cpp1_of_c], assumption, simp add: c_of_cpp1 [THEN mp],
      rule loop_result_requests [OF cpp2_of_c], assumption, simp add: c_of_cpp2 [THEN mp],
      rule loop_result_requests [OF cpp3_of_c], assumption, simp add: c_of_cpp3 [THEN mp])

lemma cpp_recursive_nb:
  "loop_result (cpp_forasync1D_recursive d0 future True) = Inl Assert_failed"
  "loop_result (cpp_forasync2D_recursive d0 d1 future True) = Inl Assert_failed"
  "loop_result (cpp_forasync3D_recursive d0 d1 d2 future True) = Inl Assert_failed"
  by (simp_all add: loop_result_def cpp_forasync1D_recursive.simps cpp_forasync2D_recursive.simps cpp_forasync3D_recursive.simps)

section \<open>Properties\<close>



text \<open>
  The non-blocking entry points in their default mode, which is the recursive one, always fail
  an assertion, whatever the domain; only flat or sequential loops can be non-blocking.
\<close>

lemma forasync_nb_recursive_fails:
  "forasync1D_nb funcs d0 False FORASYNC_MODE_RECURSIVE future HCLIB_DEFAULT_LOOP_DIST = Inl Assert_failed \<and>
   forasync2D_nb d0 d1 False FORASYNC_MODE_RECURSIVE future = Inl Assert_failed \<and>
   forasync3D_nb d0 d1 d2 False FORASYNC_MODE_RECURSIVE future = Inl Assert_failed"
  by (simp add: forasync1D_nb_def forasync2D_nb_def forasync3D_nb_def forasync1D_internal_def forasync2D_internal_def
      forasync3D_internal_def FORASYNC_MODE_FLAT_def FORASYNC_MODE_RECURSIVE_def cpp_recursive_nb)

text \<open>The default tile size is the least one with which the given number of tiles covers the range.\<close>

lemma default_tile_size_least:
  assumes "0 \<le> n" "0 < nchunks" "n + nchunks \<le> 2147483647"
  shows "\<exists>t. default_tile_size n nchunks = Inr t \<and> 0 \<le> t \<and> n \<le> t * nchunks \<and> (\<forall>t'. n \<le> t' * nchunks \<longrightarrow> t \<le> t')"
proof -
  let ?t = "(n + nchunks - 1) div nchunks"
  have "wrap32 (n + nchunks) = n + nchunks" "wrap32 (n + nchunks - 1) = n + nchunks - 1"
    using assms by (auto intro!: wrap32_id)
  moreover have "(n + nchunks - 1) sdiv nchunks = ?t" using assms by (auto simp: signed_divide_int_def sgn_if)
  ultimately have run: "default_tile_size n nchunks = Inr ?t" using assms(2) by (simp add: default_tile_size_def)
  have m: "n + nchunks - 1 = ?t * nchunks + (n + nchunks - 1) mod nchunks" by simp
  have "(n + nchunks - 1) mod nchunks < nchunks" using assms(2) by simp
  then have "n \<le> ?t * nchunks" using m by linarith
  moreover have "?t \<le> t'" if "n \<le> t' * nchunks" for t'
  proof -
    have "0 \<le> (n + nchunks - 1) mod nchunks" using assms(2) by simp
    moreover have "n + nchunks - 1 < (t' + 1) * nchunks" using that by (simp add: algebra_simps)
    ultimately have "?t * nchunks < (t' + 1) * nchunks" using m by linarith
    then have "?t < t' + 1" using assms(2) by (metis mult_less_cancel_right_pos)
    then show ?thesis by simp
  qed
  moreover have "0 \<le> ?t" using assms by (simp add: pos_imp_zdiv_nonneg_iff)
  ultimately show ?thesis using run by blast
qed

end
