(* ===== verification/Atomic_Values.thy ===== *)
theory Atomic_Values
  imports Hclib_Prelude "HOL-Library.Multiset"
begin

text \<open>
  Atomic variables with one partial value per worker: \<^verbatim>\<open>src/src/hclib_atomic.c\<close> on a byte array with
  padded blocks, and the class templates of \<^verbatim>\<open>src/inc/hclib_atomic.h\<close>. The user's callbacks get a
  pointer to a block; here they map the contents of the value bytes of a block to new contents.
\<close>

section \<open>The C functions\<close>

definition CACHE_LINE_LEN_IN_BYTES :: nat where "CACHE_LINE_LEN_IN_BYTES = 32"

record 'b hclib_atomic =
  vals :: "'b list"
  nthreads :: nat
  val_size :: nat
  padded_val_size :: nat

definition block :: "nat \<Rightarrow> nat \<Rightarrow> 'b list \<Rightarrow> 'b list" where
  "block off sz mem = take sz (drop off mem)"

definition put_block :: "nat \<Rightarrow> 'b list \<Rightarrow> 'b list \<Rightarrow> 'b list" where
  "put_block off new mem = take off mem @ new @ drop (off + length new) mem"

definition call_at :: "('b list \<Rightarrow> 'b list) \<Rightarrow> nat \<Rightarrow> nat \<Rightarrow> 'b list \<Rightarrow> 'b list" where
  "call_at f off sz mem = put_block off (f (block off sz mem)) mem"

fun init_blocks :: "('b list \<Rightarrow> 'b list) \<Rightarrow> nat list \<Rightarrow> nat \<Rightarrow> nat \<Rightarrow> 'b list \<Rightarrow> 'b list" where
  "init_blocks init [] sz padded mem = mem"
| "init_blocks init (i # is) sz padded mem = init_blocks init is sz padded (call_at init (i * padded) sz mem)"

text \<open>\<open>fresh\<close> is the memory that \<^verbatim>\<open>malloc\<close> returns.\<close>

definition hclib_atomic_init ::
  "nat \<Rightarrow> nat \<Rightarrow> ('b list \<Rightarrow> 'b list) \<Rightarrow> (nat \<Rightarrow> 'b list) \<Rightarrow> 'b hclib_atomic result" where
  "hclib_atomic_init nworkers ele_size init fresh =
     res_bind (c_assert (ele_size > 0)) (\<lambda>_.
     let padded = (CACHE_LINE_LEN_IN_BYTES - ele_size mod CACHE_LINE_LEN_IN_BYTES) + ele_size in
     Inr \<lparr>vals = init_blocks init [0..<nworkers] ele_size padded (fresh (nworkers * padded)),
          nthreads = nworkers, val_size = ele_size, padded_val_size = padded\<rparr>)"

definition hclib_atomic_create ::
  "nat \<Rightarrow> nat \<Rightarrow> ('b list \<Rightarrow> 'b list) \<Rightarrow> (nat \<Rightarrow> 'b list) \<Rightarrow> 'b hclib_atomic result" where
  "hclib_atomic_create nworkers ele_size_in_bytes init fresh = hclib_atomic_init nworkers ele_size_in_bytes init fresh"

definition hclib_atomic_update :: "nat \<Rightarrow> 'b hclib_atomic \<Rightarrow> ('b list \<Rightarrow> 'b list) \<Rightarrow> 'b hclib_atomic" where
  "hclib_atomic_update tid a f = a\<lparr>vals := call_at f (tid * padded_val_size a) (val_size a) (vals a)\<rparr>"

fun gather_blocks :: "('b list \<Rightarrow> 'b list \<Rightarrow> 'b list) \<Rightarrow> nat list \<Rightarrow> 'b hclib_atomic \<Rightarrow> 'b list \<Rightarrow> 'b list" where
  "gather_blocks f [] a result = result"
| "gather_blocks f (i # is) a result =
     gather_blocks f is a
       (call_at (\<lambda>r. f r (block (i * padded_val_size a) (val_size a) (vals a))) 0 (val_size a) result)"

definition hclib_atomic_gather :: "'b hclib_atomic \<Rightarrow> ('b list \<Rightarrow> 'b list \<Rightarrow> 'b list) \<Rightarrow> 'b list" where
  "hclib_atomic_gather a f =
     gather_blocks f [1..<nthreads a] a (block 0 (padded_val_size a) (vals a))"

section \<open>The class templates\<close>

record 't atomic_t =
  t_vals :: "'t list"
  default_value :: 't

definition atomic_t_new :: "nat \<Rightarrow> 't \<Rightarrow> 't atomic_t" where
  "atomic_t_new nworkers set_default_value =
     \<lparr>t_vals = replicate nworkers set_default_value, default_value = set_default_value\<rparr>"

definition atomic_t_update :: "nat \<Rightarrow> ('t \<Rightarrow> 't) \<Rightarrow> 't atomic_t \<Rightarrow> 't atomic_t result" where
  "atomic_t_update wid f a =
     res_bind (arr_get (t_vals a) (int wid)) (\<lambda>v.
     res_bind (arr_set (t_vals a) (int wid) (f v)) (\<lambda>vs. Inr (a\<lparr>t_vals := vs\<rparr>)))"

definition atomic_t_gather :: "('t \<Rightarrow> 't \<Rightarrow> 't) \<Rightarrow> 't atomic_t \<Rightarrow> 't" where
  "atomic_t_gather reduce a = foldl reduce (default_value a) (t_vals a)"

definition atomic_sum_add :: "nat \<Rightarrow> 't :: plus \<Rightarrow> 't atomic_t \<Rightarrow> 't atomic_t result" where
  "atomic_sum_add wid other a = atomic_t_update wid (\<lambda>curr. curr + other) a"

definition atomic_sum_get :: "'t :: plus atomic_t \<Rightarrow> 't" where
  "atomic_sum_get a = atomic_t_gather (\<lambda>a b. a + b) a"

definition atomic_max_update :: "nat \<Rightarrow> 't :: linorder \<Rightarrow> 't atomic_t \<Rightarrow> 't atomic_t result" where
  "atomic_max_update wid other a = atomic_t_update wid (\<lambda>curr. if curr > other then curr else other) a"

definition atomic_max_get :: "'t :: linorder atomic_t \<Rightarrow> 't" where
  "atomic_max_get a = atomic_t_gather (\<lambda>a b. if a > b then a else b) a"

definition atomic_or_add :: "nat \<Rightarrow> bool \<Rightarrow> bool atomic_t \<Rightarrow> bool atomic_t result" where
  "atomic_or_add wid other a = atomic_t_update wid (\<lambda>curr. curr \<or> other) a"

definition atomic_or_get :: "bool atomic_t \<Rightarrow> bool" where
  "atomic_or_get a = atomic_t_gather (\<lambda>a b. a \<or> b) a"

section \<open>Blocks\<close>

lemma block_put_same:
  assumes "off + length new \<le> length mem"
  shows "block off (length new) (put_block off new mem) = new" "length (put_block off new mem) = length mem"
  using assms by (simp_all add: block_def put_block_def)

lemma block_put_other:
  assumes "off + length new \<le> length mem" "off' + sz \<le> off \<or> off + length new \<le> off'"
  shows "block off' sz (put_block off new mem) = block off' sz mem"
proof (rule nth_equalityI)
  show len: "length (block off' sz (put_block off new mem)) = length (block off' sz mem)"
    unfolding block_def length_take length_drop block_put_same(2) [OF assms(1)] ..
  fix i assume "i < length (block off' sz (put_block off new mem))"
  then show "block off' sz (put_block off new mem) ! i = block off' sz mem ! i"
    using assms by (auto simp: block_def put_block_def nth_append)
qed

text \<open>The blocks of an atomic variable: all inside the memory, and the value of each worker.\<close>

definition atomic_wf :: "'b hclib_atomic \<Rightarrow> bool" where
  "atomic_wf a \<longleftrightarrow> 0 < val_size a \<and> val_size a \<le> padded_val_size a \<and> length (vals a) = nthreads a * padded_val_size a"

definition val_of :: "'b hclib_atomic \<Rightarrow> nat \<Rightarrow> 'b list" where
  "val_of a i = block (i * padded_val_size a) (val_size a) (vals a)"

lemma block_in:
  assumes "i < (n :: nat)"
  shows "i * p + p \<le> n * p"
  using mult_le_mono1 [of "Suc i" n p] assms by simp

lemma call_at_blocks:
  assumes "i < n" "j < n" "sz \<le> p" "length mem = n * p" "\<And>b. length b = sz \<Longrightarrow> length (f b) = sz"
  shows "block (j * p) sz (call_at f (i * p) sz mem) = (if i = j then f (block (j * p) sz mem) else block (j * p) sz mem)"
    "length (call_at f (i * p) sz mem) = n * p"
proof -
  have "length (block (i * p) sz mem) = sz" using assms(3,4) block_in [OF assms(1), of p] by (simp add: block_def)
  then have len: "length (f (block (i * p) sz mem)) = sz" by (rule assms(5))
  have fits: "i * p + length (f (block (i * p) sz mem)) \<le> length mem"
    unfolding len assms(4) using assms(3) block_in [OF assms(1), of p] by linarith
  show "length (call_at f (i * p) sz mem) = n * p" unfolding call_at_def block_put_same(2) [OF fits] by (rule assms(4))
  show "block (j * p) sz (call_at f (i * p) sz mem) = (if i = j then f (block (j * p) sz mem) else block (j * p) sz mem)"
  proof (cases "i = j")
    case True
    then show ?thesis using block_put_same(1) [OF fits] unfolding len by (simp add: call_at_def)
  next
    case False
    then have "j * p + sz \<le> i * p \<or> i * p + length (f (block (i * p) sz mem)) \<le> j * p"
      unfolding len using block_in [of j i p] block_in [of i j p] assms(3) by (cases "i < j") linarith+
    then show ?thesis using block_put_other [OF fits] False by (simp add: call_at_def)
  qed
qed

lemma init_blocks_all:
  assumes "set is \<subseteq> {..<n}" "distinct is" "sz \<le> p" "length mem = n * p" "\<And>b. length b = sz \<Longrightarrow> length (init b) = sz"
  shows "length (init_blocks init is sz p mem) = n * p \<and>
    (\<forall>j < n. block (j * p) sz (init_blocks init is sz p mem) =
       (if j \<in> set is then init (block (j * p) sz mem) else block (j * p) sz mem))"
  using assms(1,2,4)
proof (induction "is" arbitrary: mem)
  case Nil
  then show ?case by simp
next
  case (Cons i "is")
  have i: "i < n" "set is \<subseteq> {..<n}" "distinct is" "i \<notin> set is" using Cons.prems by auto
  have c: "block (j * p) sz (call_at init (i * p) sz mem) = (if i = j then init (block (j * p) sz mem) else block (j * p) sz mem)"
    if "j < n" for j by (rule call_at_blocks(1) [OF i(1) that assms(3) Cons.prems(3) assms(5)])
  have l: "length (call_at init (i * p) sz mem) = n * p"
    by (rule call_at_blocks(2) [OF i(1) i(1) assms(3) Cons.prems(3) assms(5)])
  show ?case using Cons.IH [OF i(2,3) l] c i(4) by auto
qed

section \<open>Updates\<close>

fun run_updates :: "(nat \<times> ('b list \<Rightarrow> 'b list)) list \<Rightarrow> 'b hclib_atomic \<Rightarrow> 'b hclib_atomic" where
  "run_updates [] a = a"
| "run_updates ((tid, f) # us) a = run_updates us (hclib_atomic_update tid a f)"

text \<open>What the updates of one worker do to its value.\<close>

fun local_value :: "nat \<Rightarrow> (nat \<times> ('v \<Rightarrow> 'v)) list \<Rightarrow> 'v \<Rightarrow> 'v" where
  "local_value i [] v = v"
| "local_value i ((tid, f) # us) v = local_value i us (if tid = i then f v else v)"

definition keeps_length :: "nat \<Rightarrow> ('b list \<Rightarrow> 'b list) \<Rightarrow> bool" where
  "keeps_length n f \<longleftrightarrow> (\<forall>b. length b = n \<longrightarrow> length (f b) = n)"

lemma update_val:
  assumes "atomic_wf a" "tid < nthreads a" "keeps_length (val_size a) f"
  shows "atomic_wf (hclib_atomic_update tid a f)"
    "nthreads (hclib_atomic_update tid a f) = nthreads a" "val_size (hclib_atomic_update tid a f) = val_size a"
    "i < nthreads a \<Longrightarrow> val_of (hclib_atomic_update tid a f) i = (if tid = i then f (val_of a i) else val_of a i)"
proof -
  have wf: "val_size a \<le> padded_val_size a" "length (vals a) = nthreads a * padded_val_size a" "0 < val_size a"
    using assms(1) by (auto simp: atomic_wf_def)
  have kl: "\<And>b. length b = val_size a \<Longrightarrow> length (f b) = val_size a" using assms(3) by (simp add: keeps_length_def)
  note c = call_at_blocks [OF assms(2) _ wf(1,2) kl]
  show "atomic_wf (hclib_atomic_update tid a f)"
    using c(2) [OF assms(2)] wf by (simp add: atomic_wf_def hclib_atomic_update_def)
  show "i < nthreads a \<Longrightarrow> val_of (hclib_atomic_update tid a f) i = (if tid = i then f (val_of a i) else val_of a i)"
    using c(1) [of i] by (simp add: val_of_def hclib_atomic_update_def)
qed (simp_all add: hclib_atomic_update_def)

lemma run_updates_val:
  assumes "atomic_wf a" "\<forall>(tid, f) \<in> set us. tid < nthreads a \<and> keeps_length (val_size a) f"
  shows "atomic_wf (run_updates us a) \<and> nthreads (run_updates us a) = nthreads a \<and> val_size (run_updates us a) = val_size a \<and>
     (\<forall>i < nthreads a. val_of (run_updates us a) i = local_value i us (val_of a i))"
  using assms
proof (induction us arbitrary: a)
  case Nil
  then show ?case by simp
next
  case (Cons u us)
  obtain tid f where u: "u = (tid, f)" by (cases u)
  then have t: "tid < nthreads a" "keeps_length (val_size a) f" using Cons.prems(2) by auto
  note v = update_val [OF Cons.prems(1) t]
  show ?case using Cons.IH [OF v(1)] Cons.prems(2) v(2-4) u by auto
qed

lemma gather_blocks_fold:
  assumes "length r = padded_val_size a" "val_size a \<le> padded_val_size a"
    and g: "\<And>x y. length x = val_size a \<Longrightarrow> length y = val_size a \<Longrightarrow> length (g x y) = val_size a"
    and l: "\<forall>i \<in> set is. length (val_of a i) = val_size a"
  shows "take (val_size a) (gather_blocks g is a r) = foldl g (take (val_size a) r) (map (val_of a) is)"
  using assms(1) l
proof (induction "is" arbitrary: r)
  case Nil
  then show ?case by simp
next
  case (Cons i "is")
  let ?new = "g (block 0 (val_size a) r) (val_of a i)"
  have b: "length (block 0 (val_size a) r) = val_size a" using Cons.prems(1) assms(2) by (simp add: block_def)
  have len: "length ?new = val_size a" using g b Cons.prems(2) by simp
  have fits: "0 + length ?new \<le> length r" using len Cons.prems(1) assms(2) by simp
  have "take (val_size a) (put_block 0 ?new r) = ?new" using block_put_same(1) [OF fits] unfolding len by (simp add: block_def)
  moreover have "length (put_block 0 ?new r) = padded_val_size a" using block_put_same(2) [OF fits] Cons.prems(1) by simp
  ultimately show ?case using Cons.IH Cons.prems(2) by (simp add: call_at_def val_of_def block_def)
qed

lemma init_val:
  assumes "0 < sz" "keeps_length sz init" "\<And>k. length (fresh k) = k"
  shows "\<exists>a. hclib_atomic_init n sz init fresh = Inr a \<and> atomic_wf a \<and> nthreads a = n \<and> val_size a = sz \<and>
     32 dvd padded_val_size a \<and>
     (\<forall>i < n. val_of a i = init (block (i * padded_val_size a) sz (fresh (n * padded_val_size a))))"
proof -
  define p where "p = (32 - sz mod 32) + sz"
  have "p = 32 * (sz div 32 + 1)" unfolding p_def by presburger
  then have p: "sz \<le> p" "32 dvd p" by (simp_all add: p_def)
  let ?a = "\<lparr>vals = init_blocks init [0..<n] sz p (fresh (n * p)), nthreads = n, val_size = sz, padded_val_size = p\<rparr>"
  have run: "hclib_atomic_init n sz init fresh = Inr ?a"
    using assms(1) by (simp add: hclib_atomic_init_def CACHE_LINE_LEN_IN_BYTES_def p_def Let_def)
  have "length (init_blocks init [0..<n] sz p (fresh (n * p))) = n * p \<and>
    (\<forall>j < n. block (j * p) sz (init_blocks init [0..<n] sz p (fresh (n * p))) = init (block (j * p) sz (fresh (n * p))))"
    using init_blocks_all [of "[0..<n]" n sz p "fresh (n * p)" init] p assms by (simp add: keeps_length_def atLeast0LessThan)
  then show ?thesis using run p assms(1) by (auto simp: atomic_wf_def val_of_def)
qed

section \<open>Properties\<close>

text \<open>
  C31: after any sequence of updates by the workers, \<^verbatim>\<open>hclib_atomic_gather\<close> reduces, in worker order, the
  values that each worker's own updates give from the initial value; no update touches the block
  of another worker, and blocks start at multiples of a cache line.
\<close>

theorem atomic_gather_reduces:
  assumes "0 < n" "0 < sz" "keeps_length sz init" "\<forall>k. length (fresh k) = k"
    and "\<forall>(tid, f) \<in> set us. tid < n \<and> keeps_length sz f" "\<forall>y. length y = sz \<longrightarrow> keeps_length sz (\<lambda>x. g x y)"
  shows "\<exists>a. hclib_atomic_create n sz init fresh = Inr a \<and> 32 dvd padded_val_size a \<and>
    take sz (hclib_atomic_gather (run_updates us a) g) =
      foldl g (local_value 0 us (init (take sz (fresh (n * padded_val_size a)))))
        (map (\<lambda>i. local_value i us (init (block (i * padded_val_size a) sz (fresh (n * padded_val_size a))))) [1..<n])"
proof -
  obtain a where a: "hclib_atomic_init n sz init fresh = Inr a" "atomic_wf a" "nthreads a = n" "val_size a = sz"
      "32 dvd padded_val_size a" "\<forall>i < n. val_of a i = init (block (i * padded_val_size a) sz (fresh (n * padded_val_size a)))"
    using init_val [of sz init fresh n] assms(2-4) by auto
  define a' where "a' = run_updates us a"
  have a': "atomic_wf a'" "nthreads a' = n" "val_size a' = sz" "\<forall>i < n. val_of a' i = local_value i us (val_of a i)"
    using run_updates_val [OF a(2), of us] assms(5) a(3,4) unfolding a'_def by auto
  have wf: "sz \<le> padded_val_size a'" "length (vals a') = n * padded_val_size a'" using a' by (auto simp: atomic_wf_def)
  have len: "length (val_of a' i) = sz" if "i < n" for i
    using block_in [OF that, of "padded_val_size a'"] wf a'(3) by (simp add: val_of_def block_def)
  have "length (block 0 (padded_val_size a') (vals a')) = padded_val_size a'"
    using wf(2) assms(1) by (simp add: block_def)
  then have "take sz (hclib_atomic_gather a' g) = foldl g (take sz (block 0 (padded_val_size a') (vals a'))) (map (val_of a') [1..<n])"
    using gather_blocks_fold [of _ a' g "[1..<n]"] a'(2,3) wf(1) len assms(6)
    by (simp add: hclib_atomic_gather_def keeps_length_def)
  also have "take sz (block 0 (padded_val_size a') (vals a')) = val_of a' 0"
    using wf(1) a'(3) by (simp add: val_of_def block_def min_def)
  also have "map (val_of a') [1..<n] =
      map (\<lambda>i. local_value i us (init (block (i * padded_val_size a) sz (fresh (n * padded_val_size a))))) [1..<n]"
    using a'(4) a(6) by simp
  finally show ?thesis using a a'(4) assms(1) unfolding a'_def by (simp add: hclib_atomic_create_def block_def)
qed

theorem atomic_gather_reduces_witness:
  "\<exists>a. hclib_atomic_create 2 1 (\<lambda>_. [0]) (\<lambda>k. replicate k 9) = Inr a \<and>
     take 1 (hclib_atomic_gather (run_updates [(0, map ((+) 3)), (1, map ((+) 4)), (0, map ((+) 5))] a)
       (\<lambda>x y. [hd x + hd y])) = [12 :: nat]"
proof -
  have "keeps_length 1 (\<lambda>_. [0 :: nat])" "\<forall>k. length (replicate k (9 :: nat)) = k"
    "\<forall>(tid, f) \<in> set [(0, map ((+) 3)), (1, map ((+) 4)), (0, map ((+) 5))]. tid < (2 :: nat) \<and> keeps_length 1 (f :: nat list \<Rightarrow> nat list)"
    "\<forall>y. length y = 1 \<longrightarrow> keeps_length 1 (\<lambda>x. [hd x + hd y :: nat])"
    by (simp_all add: keeps_length_def)
  from atomic_gather_reduces [of 2 1, OF _ _ this] show ?thesis by (auto simp: upt_rec)
qed

section \<open>Sums, maxima and disjunctions\<close>

fun run_t_updates :: "(nat \<times> 'x) list \<Rightarrow> (nat \<Rightarrow> 'x \<Rightarrow> 't atomic_t \<Rightarrow> 't atomic_t result) \<Rightarrow> 't atomic_t \<Rightarrow> 't atomic_t result" where
  "run_t_updates [] upd a = Inr a"
| "run_t_updates ((wid, x) # us) upd a = res_bind (upd wid x a) (run_t_updates us upd)"

text \<open>
  An operation that is the update with a commutative, associative reduction: the gathered value is
  the reduction of the initial one and of all operands.
\<close>

locale reduction =
  fixes op :: "'t \<Rightarrow> 't \<Rightarrow> 't"
  assumes assoc: "op (op x y) z = op x (op y z)" and commute: "op x y = op y x"
begin

lemma left_commute: "op x (op y z) = op y (op x z)"
  by (metis assoc commute)

lemma foldl_op: "foldl op (op d x) vs = op (foldl op d vs) x"
  by (induction vs arbitrary: d) (auto, metis assoc commute)

lemma foldl_update:
  "i < length vs \<Longrightarrow> foldl op d (vs[i := op (vs ! i) x]) = op (foldl op d vs) x"
proof (induction vs arbitrary: d i)
  case (Cons v vs)
  show ?case
  proof (cases i)
    case 0
    then show ?thesis using foldl_op [of "op d v" x vs] by (simp add: assoc)
  next
    case (Suc j)
    then show ?thesis using Cons by simp
  qed
qed simp

lemma gather_updates:
  assumes "\<And>wid x a. upd wid x a = atomic_t_update wid (\<lambda>curr. op curr x) a" "\<forall>(wid, x) \<in> set us. wid < length (t_vals a)"
  shows "\<exists>a'. run_t_updates us upd a = Inr a' \<and> atomic_t_gather op a' = foldl op (atomic_t_gather op a) (map snd us)"
  using assms(2)
proof (induction us arbitrary: a)
  case Nil
  then show ?case by simp
next
  case (Cons u us)
  obtain wid x where u: "u = (wid, x)" "wid < length (t_vals a)" using Cons.prems by (cases u) auto
  let ?a = "a\<lparr>t_vals := (t_vals a)[wid := op (t_vals a ! wid) x]\<rparr>"
  have "upd wid x a = Inr ?a" using u(2) assms(1) by (simp add: atomic_t_update_def)
  moreover have "atomic_t_gather op ?a = op (atomic_t_gather op a) x"
    using u(2) by (simp add: atomic_t_gather_def foldl_update)
  ultimately show ?case using Cons.IH [of ?a] Cons.prems u(1) by auto
qed

lemma gather_new:
  "atomic_t_gather op (atomic_t_new n d) = foldl op d (replicate n d)"
  by (simp add: atomic_t_gather_def atomic_t_new_def)

end

interpretation sum: reduction "(+) :: int \<Rightarrow> int \<Rightarrow> int"
  by unfold_locales auto

interpretation max: reduction "\<lambda>a b :: int. if a > b then a else b"
  by unfold_locales auto

interpretation disj: reduction "\<lambda>a b. a \<or> b"
  by unfold_locales auto

lemma new_length [simp]: "length (t_vals (atomic_t_new n x)) = n"
  by (simp add: atomic_t_new_def)

lemma foldl_sum: "foldl (+) (a :: int) xs = a + sum_list xs"
  by (induction xs arbitrary: a) auto

lemma foldl_max: "foldl (\<lambda>a b :: int. if a > b then a else b) a xs = Max (insert a (set xs))"
proof (induction xs arbitrary: a)
  case (Cons x xs)
  have "Max (insert (max a x) (set xs)) = Max (insert a (insert x (set xs)))"
    by (cases "xs = []") (simp_all add: max.assoc)
  moreover have "(if a > x then a else x) = max a x" by (simp add: max_def)
  ultimately show ?case using Cons by simp
qed simp

lemma foldl_disj: "foldl (\<lambda>a b. a \<or> b) a xs \<longleftrightarrow> a \<or> True \<in> set xs"
  by (induction xs arbitrary: a) auto

text \<open>
  After any updates by \<open>n\<close> workers, an \<^verbatim>\<open>atomic_max_t\<close> holds the largest of the default and all
  operands, and an \<^verbatim>\<open>atomic_or_t\<close> their disjunction. An \<^verbatim>\<open>atomic_sum_t\<close> holds the sum of all operands plus
  \<open>n + 1\<close> times the default, since the default is the initial value of every worker and of the
  reduction; the sum is the expected one for the default 0 only.
\<close>

theorem atomic_templates_correct:
  fixes d :: int
  assumes "\<forall>(wid, x) \<in> set us. wid < n" "\<forall>(wid, x) \<in> set bs. wid < n"
  shows "(\<exists>a. run_t_updates us atomic_sum_add (atomic_t_new n d) = Inr a \<and>
            atomic_sum_get a = (int n + 1) * d + sum_list (map snd us)) \<and>
         (\<exists>a. run_t_updates us atomic_max_update (atomic_t_new n d) = Inr a \<and>
            atomic_max_get a = Max (insert d (snd ` set us))) \<and>
         (\<exists>a. run_t_updates bs atomic_or_add (atomic_t_new n b) = Inr a \<and>
            atomic_or_get a = (b \<or> True \<in> snd ` set bs))"
proof (intro conjI)
  show "\<exists>a. run_t_updates us atomic_sum_add (atomic_t_new n d) = Inr a \<and>
      atomic_sum_get a = (int n + 1) * d + sum_list (map snd us)"
  proof -
    have "\<And>wid x a. atomic_sum_add wid (x :: int) a = atomic_t_update wid (\<lambda>curr. curr + x) a" by (simp add: atomic_sum_add_def)
    from sum.gather_updates [OF this, of us "atomic_t_new n d"] obtain a where
      "run_t_updates us atomic_sum_add (atomic_t_new n d) = Inr a" "atomic_t_gather (+) a = foldl (+) (atomic_t_gather (+) (atomic_t_new n d)) (map snd us)"
      using assms(1) by (auto simp: case_prod_beta)
    then show ?thesis by (simp add: atomic_sum_get_def sum.gather_new foldl_sum sum_list_replicate algebra_simps)
  qed
  show "\<exists>a. run_t_updates us atomic_max_update (atomic_t_new n d) = Inr a \<and> atomic_max_get a = Max (insert d (snd ` set us))"
  proof -
    have "foldl (\<lambda>a b. if a > b then a else b) d (replicate n d) = d" by (induction n) auto
    then have "atomic_t_gather (\<lambda>a b. if a > b then a else b) (atomic_t_new n d) = d"
      by (simp add: max.gather_new)
    then show ?thesis
      using max.gather_updates [of atomic_max_update us "atomic_t_new n d"] assms(1)
      by (auto simp: atomic_max_update_def atomic_max_get_def foldl_max)
  qed
  show "\<exists>a. run_t_updates bs atomic_or_add (atomic_t_new n b) = Inr a \<and> atomic_or_get a = (b \<or> True \<in> snd ` set bs)"
    using disj.gather_updates [of atomic_or_add bs "atomic_t_new n b"] assms(2)
    by (auto simp: atomic_or_add_def atomic_or_get_def disj.gather_new foldl_disj)
qed

theorem atomic_templates_correct_witness:
  "\<exists>a. run_t_updates [(0, 4), (1, 6)] atomic_sum_add (atomic_t_new 2 5) = Inr a \<and> atomic_sum_get a = (25 :: int)"
  using atomic_templates_correct [of "[(0, 4), (1, 6)]" 2 "[]" 5] by simp

end
