(* ===== verification/Promise.thy ===== *)
theory Promise
  imports Work_Stealing
begin

text \<open>
  \<^verbatim>\<open>src/src/hclib-promise.c\<close> and the scheduling functions of \<^verbatim>\<open>src/src/hclib-runtime.c\<close> that it calls:
  tasks, promises, the wait lists of promises, and how a task that depends on futures becomes
  eligible. Heap objects are addressed by numbers; a future is named by its owner, as
  \<^verbatim>\<open>&promise->future\<close> and \<^verbatim>\<open>future->owner\<close> are inverse. Operations run without interference,
  so each compare-and-swap succeeds at once.
\<close>

section \<open>Data\<close>

definition MAX_NUM_WAITS :: int where "MAX_NUM_WAITS = 4"

text \<open>\<^verbatim>\<open>SATISFIED_FUTURE_WAITLIST_PTR\<close> is the null pointer.\<close>

datatype waiter = Satisfied_ptr | Sentinel_ptr | Waiter nat

record 'd promise =
  satisfied :: bool
  datum :: "'d option"
  wait_list_head :: waiter

text \<open>\<open>fp\<close> stands for \<^verbatim>\<open>_fp\<close> together with \<^verbatim>\<open>args\<close>.\<close>

record 'c task =
  fp :: 'c
  t_finish :: "nat option"
  waiting_on :: "nat option list"
  waiting_on_extra :: "nat option list option"
  waiting_on_index :: int
  t_locale :: "nat option"
  non_blocking :: bool
  next_waiter :: waiter

record finish =
  parent :: "nat option"
  counter :: int
  finish_dep :: "nat option"

record rt_worker = worker_state +
  current_finish :: "nat option"
  curr_task :: "nat option"

text \<open>The heap, the pool of locales, and the workers with their paths; \<open>next_addr\<close> is a fresh address.\<close>

record ('c, 'd, 'i) rt =
  tasks :: "nat \<Rightarrow> 'c task option"
  promises :: "nat \<Rightarrow> 'd promise option"
  finishes :: "nat \<Rightarrow> finish option"
  next_addr :: nat
  rt_pool :: "(nat, 'i) pool"
  rt_paths :: "worker_paths list"
  rt_workers :: "rt_worker list"

definition get_task :: "('c, 'd, 'i) rt \<Rightarrow> nat \<Rightarrow> 'c task result" where
  "get_task st t = from_ptr (tasks st t)"

definition put_task :: "nat \<Rightarrow> 'c task \<Rightarrow> ('c, 'd, 'i) rt \<Rightarrow> ('c, 'd, 'i) rt" where
  "put_task t tk st = st\<lparr>tasks := (tasks st)(t \<mapsto> tk)\<rparr>"

definition get_promise :: "('c, 'd, 'i) rt \<Rightarrow> nat \<Rightarrow> 'd promise result" where
  "get_promise st p = from_ptr (promises st p)"

definition put_promise :: "nat \<Rightarrow> 'd promise \<Rightarrow> ('c, 'd, 'i) rt \<Rightarrow> ('c, 'd, 'i) rt" where
  "put_promise p pr st = st\<lparr>promises := (promises st)(p \<mapsto> pr)\<rparr>"

section \<open>Promises\<close>

definition hclib_promise_init :: "'d promise" where
  "hclib_promise_init = \<lparr>satisfied = False, datum = None, wait_list_head = Sentinel_ptr\<rparr>"

definition hclib_promise_create :: "('c, 'd, 'i) rt \<Rightarrow> ('c, 'd, 'i) rt \<times> nat" where
  "hclib_promise_create st =
     (put_promise (next_addr st) hclib_promise_init (st\<lparr>next_addr := next_addr st + 1\<rparr>), next_addr st)"

definition hclib_get_future_for_promise :: "nat \<Rightarrow> nat" where
  "hclib_get_future_for_promise p = p"

fun create_promises :: "nat \<Rightarrow> ('c, 'd, 'i) rt \<Rightarrow> ('c, 'd, 'i) rt \<times> nat option list" where
  "create_promises 0 st = (st, [])"
| "create_promises (Suc n) st =
     (let (st1, p) = hclib_promise_create st; (st2, ps) = create_promises n st1 in (st2, Some p # ps))"

text \<open>
  The array has \<^verbatim>\<open>nb_promises\<close> elements; the terminator is written at index \<^verbatim>\<open>nb_promises - 1\<close>, which is
  outside an array of size 0.
\<close>

definition hclib_promise_create_n :: "nat \<Rightarrow> bool \<Rightarrow> ('c, 'd, 'i) rt \<Rightarrow> (('c, 'd, 'i) rt \<times> nat option list) result" where
  "hclib_promise_create_n nb null_terminated st =
     (let (st', ps) = create_promises (if null_terminated then nb - 1 else nb) st
      in if null_terminated then
           (if nb = 0 then Inl Out_of_bounds else Inr (st', ps @ [None]))
         else Inr (st', ps))"

definition hclib_future_get :: "('c, 'd, 'i) rt \<Rightarrow> nat \<Rightarrow> 'd option result" where
  "hclib_future_get st p =
     res_bind (get_promise st p) (\<lambda>pr.
     res_bind (c_assert (satisfied pr)) (\<lambda>_. Inr (datum pr)))"

definition hclib_future_is_satisfied :: "('c, 'd, 'i) rt \<Rightarrow> nat \<Rightarrow> bool result" where
  "hclib_future_is_satisfied st p = res_bind (get_promise st p) (\<lambda>pr. Inr (satisfied pr))"

definition hclib_promise_free :: "nat \<Rightarrow> ('c, 'd, 'i) rt \<Rightarrow> ('c, 'd, 'i) rt" where
  "hclib_promise_free p st = st\<lparr>promises := (promises st)(p := None)\<rparr>"

fun free_promises :: "nat option list \<Rightarrow> ('c, 'd, 'i) rt \<Rightarrow> ('c, 'd, 'i) rt" where
  "free_promises [] st = st"
| "free_promises (p # ps) st =
     free_promises ps (case p of None \<Rightarrow> st | Some a \<Rightarrow> hclib_promise_free a st)"

definition hclib_promise_free_n :: "nat option list \<Rightarrow> nat \<Rightarrow> bool \<Rightarrow> ('c, 'd, 'i) rt \<Rightarrow> ('c, 'd, 'i) rt" where
  "hclib_promise_free_n ps nb null_terminated st =
     free_promises (take (if null_terminated then nb - 1 else nb) ps) st"

section \<open>Registration\<close>

text \<open>The result says whether the task is now waiting.\<close>

definition register_if_promise_not_ready ::
  "nat \<Rightarrow> nat \<Rightarrow> ('c, 'd, 'i) rt \<Rightarrow> (('c, 'd, 'i) rt \<times> bool) result" where
  "register_if_promise_not_ready t p st =
     res_bind (get_promise st p) (\<lambda>pr.
     if wait_list_head pr = Satisfied_ptr then Inr (st, False)
     else res_bind (get_task st t) (\<lambda>tk.
          Inr (put_promise p (pr\<lparr>wait_list_head := Waiter t\<rparr>)
                 (put_task t (tk\<lparr>next_waiter := wait_list_head pr\<rparr>) st), True)))"

fun register_inline :: "nat \<Rightarrow> int list \<Rightarrow> ('c, 'd, 'i) rt \<Rightarrow> (('c, 'd, 'i) rt \<times> bool) result" where
  "register_inline t [] st = Inr (st, False)"
| "register_inline t (i # is) st =
     res_bind (get_task st t) (\<lambda>tk.
     let st1 = put_task t (tk\<lparr>waiting_on_index := i\<rparr>) st in
     res_bind (arr_get (waiting_on tk) i) (\<lambda>f.
     case f of
       None \<Rightarrow> register_inline t is st1
     | Some p \<Rightarrow>
         res_bind (register_if_promise_not_ready t p st1) (\<lambda>(st2, waiting).
         if waiting then Inr (st2, True) else register_inline t is st2)))"

text \<open>The array \<^verbatim>\<open>waiting_on_extra\<close> from the current position on; it ends at the first null entry.\<close>

fun register_extra :: "nat \<Rightarrow> nat option list \<Rightarrow> int \<Rightarrow> ('c, 'd, 'i) rt \<Rightarrow> (('c, 'd, 'i) rt \<times> bool) result" where
  "register_extra t [] i st = Inl Out_of_bounds"
| "register_extra t (None # es) i st = Inr (st, False)"
| "register_extra t (Some p # es) i st =
     res_bind (get_task st t) (\<lambda>tk.
     res_bind (register_if_promise_not_ready t p (put_task t (tk\<lparr>waiting_on_index := i + 1\<rparr>) st)) (\<lambda>(st1, waiting).
     if waiting then Inr (st1, True) else register_extra t es (i + 1) st1))"

definition register_on_all_promise_dependencies ::
  "nat \<Rightarrow> ('c, 'd, 'i) rt \<Rightarrow> (('c, 'd, 'i) rt \<times> bool) result" where
  "register_on_all_promise_dependencies t st =
     res_bind (get_task st t) (\<lambda>tk.
     res_bind (register_inline t [waiting_on_index tk + 1..MAX_NUM_WAITS - 1] st) (\<lambda>(st1, waiting).
     if waiting then Inr (st1, False)
     else res_bind (get_task st1 t) (\<lambda>tk1.
          case waiting_on_extra tk1 of
            None \<Rightarrow> Inr (st1, True)
          | Some ex \<Rightarrow>
              res_bind (register_extra t (drop (nat (waiting_on_index tk1 - MAX_NUM_WAITS + 1)) ex)
                          (waiting_on_index tk1) st1) (\<lambda>(st2, w).
              Inr (st2, \<not> w)))))"

section \<open>Scheduling\<close>

text \<open>Without a locale of its own the task goes to locale 0; a full deque aborts.\<close>

definition rt_schedule_async :: "nat \<Rightarrow> nat \<Rightarrow> ('c, 'd, 'i) rt \<Rightarrow> ('c, 'd, 'i) rt result" where
  "rt_schedule_async t wid st =
     res_bind (get_task st t) (\<lambda>tk.
     let l = (case t_locale tk of Some l \<Rightarrow> l | None \<Rightarrow> 0) in
     res_bind (deque_push_locale (worker_state.truncate (rt_workers st ! wid)) (rt_pool st) l t) (\<lambda>(pool', ok).
     res_bind (c_assert ok) (\<lambda>_. Inr (st\<lparr>rt_pool := pool'\<rparr>))))"

definition is_eligible_to_schedule :: "nat \<Rightarrow> ('c, 'd, 'i) rt \<Rightarrow> (('c, 'd, 'i) rt \<times> bool) result" where
  "is_eligible_to_schedule t st =
     res_bind (get_task st t) (\<lambda>tk.
     res_bind (arr_get (waiting_on tk) 0) (\<lambda>f.
     if f \<noteq> None then register_on_all_promise_dependencies t st else Inr (st, True)))"

definition try_schedule_async :: "nat \<Rightarrow> nat \<Rightarrow> ('c, 'd, 'i) rt \<Rightarrow> ('c, 'd, 'i) rt result" where
  "try_schedule_async t wid st =
     res_bind (is_eligible_to_schedule t st) (\<lambda>(st1, ok).
     if ok then rt_schedule_async t wid st1 else Inr st1)"

text \<open>
  The loop over the tasks that waited on a promise. A well-formed list has every task at most
  once, so the number of addresses bounds its length; a longer one is cyclic.
\<close>

fun put_loop :: "nat \<Rightarrow> nat \<Rightarrow> waiter \<Rightarrow> ('c, 'd, 'i) rt \<Rightarrow> ('c, 'd, 'i) rt result" where
  "put_loop n wid Sentinel_ptr st = Inr st"
| "put_loop n wid Satisfied_ptr st = Inl Assert_failed"
| "put_loop 0 wid (Waiter t) st = Inl Diverges"
| "put_loop (Suc n) wid (Waiter t) st =
     res_bind (get_task st t) (\<lambda>tk.
     res_bind (register_on_all_promise_dependencies t st) (\<lambda>(st1, ok).
     res_bind (if ok then try_schedule_async t wid st1 else Inr st1) (\<lambda>st2.
     put_loop n wid (next_waiter tk) st2)))"

definition hclib_promise_put :: "nat \<Rightarrow> nat option \<Rightarrow> 'd option \<Rightarrow> ('c, 'd, 'i) rt \<Rightarrow> ('c, 'd, 'i) rt result" where
  "hclib_promise_put wid promise d st =
     (case promise of
        None \<Rightarrow> Inl Assert_failed
      | Some p \<Rightarrow>
          res_bind (get_promise st p) (\<lambda>pr.
          res_bind (c_assert (\<not> satisfied pr)) (\<lambda>_.
          put_loop (next_addr st) wid (wait_list_head pr)
            (put_promise p \<lparr>satisfied = True, datum = d, wait_list_head = Satisfied_ptr\<rparr> st))))"

section \<open>The dependencies of a task\<close>

text \<open>The inline futures and the extra ones up to the null entry; \<^verbatim>\<open>waiting_on_index\<close> indexes this list.\<close>

definition deps :: "'c task \<Rightarrow> nat option list" where
  "deps tk = waiting_on tk @ (case waiting_on_extra tk of None \<Rightarrow> [] | Some ex \<Rightarrow> takeWhile (\<lambda>f. f \<noteq> None) ex)"

definition task_valid :: "'c task \<Rightarrow> bool" where
  "task_valid tk \<longleftrightarrow> length (waiting_on tk) = 4 \<and> -1 \<le> waiting_on_index tk \<and>
     waiting_on_index tk < int (length (deps tk)) \<and>
     (case waiting_on_extra tk of None \<Rightarrow> True | Some ex \<Rightarrow> None \<in> set ex)"

definition dep_closed :: "('c, 'd, 'i) rt \<Rightarrow> nat option \<Rightarrow> bool" where
  "dep_closed st f = (case f of None \<Rightarrow> True
     | Some p \<Rightarrow> (case promises st p of None \<Rightarrow> False | Some pr \<Rightarrow> wait_list_head pr = Satisfied_ptr))"

definition deps_exist :: "('c, 'd, 'i) rt \<Rightarrow> 'c task \<Rightarrow> bool" where
  "deps_exist st tk \<longleftrightarrow> (\<forall>p. Some p \<in> set (deps tk) \<longrightarrow> promises st p \<noteq> None)"

section \<open>What registration does\<close>

text \<open>
  The outcome of scanning the dependencies \<open>lo\<close> to \<open>hi - 1\<close> of a task: either the task waits at the
  first open one, or all are closed and the index stands at the last one scanned.
\<close>

definition reg_outcome ::
  "('c, 'd, 'i) rt \<Rightarrow> nat \<Rightarrow> 'c task \<Rightarrow> nat \<Rightarrow> nat \<Rightarrow> ('c, 'd, 'i) rt \<times> bool \<Rightarrow> bool" where
  "reg_outcome st t tk lo hi r = (case r of (st', waiting) \<Rightarrow>
     if waiting then
       \<exists>j p pr. lo \<le> j \<and> j < hi \<and> deps tk ! j = Some p \<and> promises st p = Some pr \<and>
         wait_list_head pr \<noteq> Satisfied_ptr \<and> (\<forall>i. lo \<le> i \<and> i < j \<longrightarrow> dep_closed st (deps tk ! i)) \<and>
         st' = put_promise p (pr\<lparr>wait_list_head := Waiter t\<rparr>)
                 (put_task t (tk\<lparr>waiting_on_index := int j, next_waiter := wait_list_head pr\<rparr>) st)
     else (\<forall>i. lo \<le> i \<and> i < hi \<longrightarrow> dep_closed st (deps tk ! i)) \<and>
          st' = put_task t (if lo < hi then tk\<lparr>waiting_on_index := int hi - 1\<rparr> else tk) st)"

lemma reg_outcome_waits:
  assumes "lo \<le> j" "j < hi" "deps tk ! j = Some p" "promises st p = Some pr" "wait_list_head pr \<noteq> Satisfied_ptr"
    and "\<And>i. lo \<le> i \<Longrightarrow> i < j \<Longrightarrow> dep_closed st (deps tk ! i)"
  shows "reg_outcome st t tk lo hi (put_promise p (pr\<lparr>wait_list_head := Waiter t\<rparr>)
           (put_task t (tk\<lparr>waiting_on_index := int j, next_waiter := wait_list_head pr\<rparr>) st), True)"
  unfolding reg_outcome_def prod.case if_True
  by (rule exI [of _ j], rule exI [of _ p], rule exI [of _ pr]) (use assms in auto)

lemma put_task_twice [simp]: "put_task t a (put_task t b st) = put_task t a st"
  by (simp add: put_task_def)

lemma put_task_same: "tasks st t = Some tk \<Longrightarrow> put_task t tk st = st"
  by (simp add: put_task_def fun_upd_idem)

lemma put_sel [simp]:
  "promises (put_task t tk st) = promises st" "tasks (put_task t tk st) = (tasks st)(t \<mapsto> tk)"
  "tasks (put_promise p pr st) = tasks st" "promises (put_promise p pr st) = (promises st)(p \<mapsto> pr)"
  "finishes (put_task t tk st) = finishes st" "finishes (put_promise p pr st) = finishes st"
  "next_addr (put_task t tk st) = next_addr st" "next_addr (put_promise p pr st) = next_addr st"
  "rt_pool (put_task t tk st) = rt_pool st" "rt_pool (put_promise p pr st) = rt_pool st"
  "rt_paths (put_task t tk st) = rt_paths st" "rt_paths (put_promise p pr st) = rt_paths st"
  "rt_workers (put_task t tk st) = rt_workers st" "rt_workers (put_promise p pr st) = rt_workers st"
  by (simp_all add: put_task_def put_promise_def)

lemma dep_closed_put_task [simp]: "dep_closed (put_task t tk st) = dep_closed st"
  by (simp add: dep_closed_def fun_eq_iff split: option.splits)

lemma deps_index [simp]:
  "deps (tk\<lparr>waiting_on_index := i\<rparr>) = deps tk" "deps (tk\<lparr>next_waiter := w\<rparr>) = deps tk"
  by (simp_all add: deps_def)

lemma reg_outcome_closed:
  assumes "reg_outcome (put_task t (tk\<lparr>waiting_on_index := int lo\<rparr>) st) t (tk\<lparr>waiting_on_index := int lo\<rparr>) (lo + 1) hi r"
    and "dep_closed st (deps tk ! lo)" "lo < hi"
  shows "reg_outcome st t tk lo hi r"
proof -
  obtain st' waiting where r: "r = (st', waiting)" by (cases r)
  have split: "(\<forall>i. lo \<le> i \<and> i < j \<longrightarrow> P i) \<longleftrightarrow> P lo \<and> (\<forall>i. lo + 1 \<le> i \<and> i < j \<longrightarrow> P i)" if "lo < j" for P j
    using that by (metis Suc_eq_plus1 Suc_le_eq le_less order_refl)
  show ?thesis
  proof (cases waiting)
    case True
    with assms(1) r obtain j p pr where j: "lo + 1 \<le> j" "j < hi" "deps tk ! j = Some p" "promises st p = Some pr"
      "wait_list_head pr \<noteq> Satisfied_ptr" "\<forall>i. lo + 1 \<le> i \<and> i < j \<longrightarrow> dep_closed st (deps tk ! i)"
      "st' = put_promise p (pr\<lparr>wait_list_head := Waiter t\<rparr>)
                 (put_task t (tk\<lparr>waiting_on_index := int j, next_waiter := wait_list_head pr\<rparr>) st)"
      by (auto simp: reg_outcome_def)
    have "\<forall>i. lo \<le> i \<and> i < j \<longrightarrow> dep_closed st (deps tk ! i)"
      using split [of j "\<lambda>i. dep_closed st (deps tk ! i)"] j(1,6) assms(2) by simp
    then show ?thesis using True r j by (auto intro!: reg_outcome_waits)
  next
    case False
    note cl = split [OF assms(3), of "\<lambda>i. dep_closed st (deps tk ! i)"]
    show ?thesis
    proof (cases "lo + 1 < hi")
      case True
      then show ?thesis using assms r cl False by (auto simp: reg_outcome_def)
    next
      case no: False
      then have hi: "hi = Suc lo" using assms(3) by simp
      show ?thesis using assms r cl False unfolding hi by (auto simp: reg_outcome_def)
    qed
  qed
qed

lemma register_if_cases:
  assumes "tasks st t = Some tk" "promises st p = Some pr"
  shows "register_if_promise_not_ready t p st =
    (if dep_closed st (Some p) then Inr (st, False)
     else Inr (put_promise p (pr\<lparr>wait_list_head := Waiter t\<rparr>) (put_task t (tk\<lparr>next_waiter := wait_list_head pr\<rparr>) st), True))"
  using assms by (simp add: register_if_promise_not_ready_def get_promise_def get_task_def dep_closed_def)

lemma register_inline_outcome:
  assumes "tasks st t = Some tk" "length (waiting_on tk) = 4" "deps_exist st tk" "lo \<le> 4"
  shows "\<exists>r. register_inline t [int lo..3] st = Inr r \<and> reg_outcome st t tk lo 4 r"
  using assms
proof (induction "4 - lo" arbitrary: lo st tk)
  case 0
  then show ?case by (auto simp: reg_outcome_def put_task_same)
next
  case (Suc k)
  then have lo: "lo < 4" by simp
  let ?tk = "tk\<lparr>waiting_on_index := int lo\<rparr>"
  let ?st = "put_task t ?tk st"
  have list: "[int lo..3] = int lo # [int (lo + 1)..3]" using lo by (simp add: upto_rec1 add.commute)
  have dep: "deps tk ! lo = waiting_on tk ! lo" using Suc.prems(2) lo by (simp add: deps_def nth_append)
  have get: "get_task st t = Inr tk" "arr_get (waiting_on tk) (int lo) = Inr (deps tk ! lo)"
    using Suc.prems(1,2) lo dep by (simp_all add: get_task_def)
  have "\<exists>r. register_inline t [int (lo + 1)..3] ?st = Inr r \<and> reg_outcome ?st t ?tk (lo + 1) 4 r"
    using Suc.prems Suc.hyps(2) by (intro Suc.hyps(1)) (auto simp: deps_exist_def)
  then obtain r where r: "register_inline t [int (lo + 1)..3] ?st = Inr r" "reg_outcome ?st t ?tk (lo + 1) 4 r" by blast
  show ?case
  proof (cases "dep_closed st (deps tk ! lo)")
    case True
    have "register_inline t [int lo..3] st = register_inline t [int (lo + 1)..3] ?st"
    proof (cases "deps tk ! lo")
      case None
      then show ?thesis unfolding list using get by simp
    next
      case (Some p)
      then obtain pr where pr: "promises ?st p = Some pr" using True by (auto simp: dep_closed_def split: option.splits)
      then have "register_if_promise_not_ready t p ?st = Inr (?st, False)"
        using True Some register_if_cases [of ?st t ?tk p pr] by simp
      then show ?thesis unfolding list using get Some by simp
    qed
    then show ?thesis using reg_outcome_closed [OF r(2) True lo] r(1) by auto
  next
    case False
    then obtain p where p: "deps tk ! lo = Some p" by (auto simp: dep_closed_def split: option.splits)
    have "Some p \<in> set (deps tk)" using p lo Suc.prems(2) nth_mem [of lo "deps tk"] by (simp add: deps_def)
    then obtain pr where pr: "promises st p = Some pr" using Suc.prems(3) by (auto simp: deps_exist_def)
    have "register_inline t [int lo..3] st = Inr (put_promise p (pr\<lparr>wait_list_head := Waiter t\<rparr>)
        (put_task t (?tk\<lparr>next_waiter := wait_list_head pr\<rparr>) st), True)"
      unfolding list using get p pr False register_if_cases [of ?st t ?tk p pr] by simp
    moreover have "wait_list_head pr \<noteq> Satisfied_ptr" using False p pr by (simp add: dep_closed_def)
    ultimately show ?thesis using reg_outcome_waits [of lo lo 4 tk p st pr t] p pr lo by simp
  qed
qed

lemma drop_takeWhile:
  assumes "None \<in> set ex" "k \<le> length (takeWhile (\<lambda>f. f \<noteq> None) ex)"
  shows "drop k ex = (if k < length (takeWhile (\<lambda>f. f \<noteq> None) ex) then takeWhile (\<lambda>f. f \<noteq> None) ex ! k # drop (k + 1) ex
                      else None # drop (k + 1) ex)"
proof -
  let ?m = "length (takeWhile (\<lambda>f. f \<noteq> None) ex)"
  have m: "?m < length ex" using assms(1) by (induction ex) auto
  then have d: "drop k ex = ex ! k # drop (k + 1) ex" using assms(2) by (simp add: Cons_nth_drop_Suc)
  show ?thesis
  proof (cases "k < ?m")
    case True
    then show ?thesis using d by (simp add: takeWhile_nth)
  next
    case False
    then have "k = ?m" using assms(2) by simp
    then show ?thesis using d nth_length_takeWhile [OF m] by simp
  qed
qed

lemma register_extra_outcome:
  assumes "tasks st t = Some tk" "length (waiting_on tk) = 4" "deps_exist st tk"
    and ex: "waiting_on_extra tk = Some ex" "None \<in> set ex" and "4 \<le> lo" "lo \<le> length (deps tk)"
  shows "\<exists>r. register_extra t (drop (lo - 4) ex) (int lo - 1) st = Inr r \<and> reg_outcome st t tk lo (length (deps tk)) r"
  using assms
proof (induction "length (deps tk) - lo" arbitrary: lo st tk)
  case 0
  let ?tw = "takeWhile (\<lambda>f. f \<noteq> None) ex"
  have len: "length (deps tk) = 4 + length ?tw" using 0(3,5) by (simp add: deps_def)
  then have "lo - 4 = length ?tw" using 0(1,7,8) by simp
  then have "drop (lo - 4) ex = None # drop (lo - 4 + 1) ex" using drop_takeWhile [OF 0(6), of "lo - 4"] by simp
  then show ?case using 0 by (auto simp: reg_outcome_def put_task_same)
next
  case (Suc k)
  let ?tw = "takeWhile (\<lambda>f. f \<noteq> None) ex" and ?hi = "length (deps tk)"
  have len: "?hi = 4 + length ?tw" using Suc.prems(2,4) by (simp add: deps_def)
  have lo: "lo < ?hi" "lo - 4 < length ?tw" using Suc.hyps(2) Suc.prems(6) len by auto
  have dep: "deps tk ! lo = ?tw ! (lo - 4)" using Suc.prems(2,4,6) lo by (simp add: deps_def nth_append)
  have "?tw ! (lo - 4) \<in> set ?tw" using lo by simp
  then have "?tw ! (lo - 4) \<noteq> None" using set_takeWhileD by fastforce
  then obtain p where p: "deps tk ! lo = Some p" using dep by auto
  have "Some p \<in> set (deps tk)" using p lo nth_mem by metis
  then obtain pr where pr: "promises st p = Some pr" using Suc.prems(3) by (auto simp: deps_exist_def)
  have "lo - 4 + 1 = lo + 1 - 4" using Suc.prems(6) by simp
  then have list: "drop (lo - 4) ex = Some p # drop (lo + 1 - 4) ex"
    using drop_takeWhile [OF Suc.prems(5), of "lo - 4"] lo dep p by (simp del: diff_Suc_numeral)
  let ?tk = "tk\<lparr>waiting_on_index := int lo\<rparr>"
  let ?st = "put_task t ?tk st"
  have reg: "register_extra t (drop (lo - 4) ex) (int lo - 1) st =
     res_bind (register_if_promise_not_ready t p ?st) (\<lambda>(st1, waiting).
       if waiting then Inr (st1, True) else register_extra t (drop (lo + 1 - 4) ex) (int (lo + 1) - 1) st1)"
  proof -
    have e: "int lo - 1 + 1 = int lo" "int (lo + 1) - 1 = int lo" by simp_all
    show ?thesis
      unfolding list register_extra.simps e get_task_def Suc.prems(1) by (simp only: from_ptr_simps res_bind_Inr)
  qed
  have "\<exists>r. register_extra t (drop (lo + 1 - 4) ex) (int (lo + 1) - 1) ?st = Inr r \<and>
            reg_outcome ?st t ?tk (lo + 1) (length (deps ?tk)) r"
    using Suc.prems Suc.hyps(2) lo by (intro Suc.hyps(1)) (auto simp: deps_exist_def)
  then obtain r where r: "register_extra t (drop (lo + 1 - 4) ex) (int (lo + 1) - 1) ?st = Inr r"
    "reg_outcome ?st t ?tk (lo + 1) ?hi r" by auto
  show ?case
  proof (cases "dep_closed st (Some p)")
    case True
    then have "register_if_promise_not_ready t p ?st = Inr (?st, False)"
      using register_if_cases [of ?st t ?tk p pr] pr by simp
    then show ?thesis using reg r(1) reg_outcome_closed [OF r(2) _ lo(1)] True p by auto
  next
    case False
    then have "register_if_promise_not_ready t p ?st = Inr (put_promise p (pr\<lparr>wait_list_head := Waiter t\<rparr>)
        (put_task t (?tk\<lparr>next_waiter := wait_list_head pr\<rparr>) st), True)"
      using register_if_cases [of ?st t ?tk p pr] pr by simp
    moreover have "wait_list_head pr \<noteq> Satisfied_ptr" using False pr by (simp add: dep_closed_def)
    ultimately show ?thesis using reg reg_outcome_waits [of lo lo ?hi tk p st pr t] p pr lo(1) by simp
  qed
qed

lemma reg_outcome_widen: "reg_outcome st t tk lo hi (st', True) \<Longrightarrow> hi \<le> hi' \<Longrightarrow> reg_outcome st t tk lo hi' (st', True)"
  by (auto simp: reg_outcome_def)

lemma reg_outcome_join:
  assumes a: "reg_outcome st t tk lo mid (st1, False)" and lo: "lo < mid" "mid \<le> hi"
    and b: "reg_outcome st1 t (tk\<lparr>waiting_on_index := int mid - 1\<rparr>) mid hi r"
  shows "reg_outcome st t tk lo hi r"
proof -
  have st1: "st1 = put_task t (tk\<lparr>waiting_on_index := int mid - 1\<rparr>) st"
    and cl: "\<And>i. lo \<le> i \<Longrightarrow> i < mid \<Longrightarrow> dep_closed st (deps tk ! i)"
    using a lo(1) by (auto simp: reg_outcome_def)
  obtain st' w where r: "r = (st', w)" by (cases r)
  show ?thesis
  proof (cases w)
    case True
    with b r st1 obtain j p pr where j: "mid \<le> j" "j < hi" "deps tk ! j = Some p" "promises st p = Some pr"
      "wait_list_head pr \<noteq> Satisfied_ptr" "\<And>i. mid \<le> i \<Longrightarrow> i < j \<Longrightarrow> dep_closed st (deps tk ! i)"
      "st' = put_promise p (pr\<lparr>wait_list_head := Waiter t\<rparr>)
                 (put_task t (tk\<lparr>waiting_on_index := int j, next_waiter := wait_list_head pr\<rparr>) st)"
      by (auto simp: reg_outcome_def)
    have "dep_closed st (deps tk ! i)" if "lo \<le> i" "i < j" for i
      using cl j(6) that by (cases "i < mid") auto
    then show ?thesis using True r j lo by (auto intro!: reg_outcome_waits)
  next
    case False
    have "dep_closed st (deps tk ! i)" if "lo \<le> i" "i < hi" for i
      using cl b r st1 False that by (cases "i < mid") (auto simp: reg_outcome_def)
    moreover have "st' = put_task t (tk\<lparr>waiting_on_index := int hi - 1\<rparr>) st"
    proof (cases "mid < hi")
      case True
      then show ?thesis using b r st1 False by (simp add: reg_outcome_def)
    next
      case no: False
      then have "mid = hi" using lo(2) by simp
      then show ?thesis using b r st1 False by (simp add: reg_outcome_def)
    qed
    ultimately show ?thesis using False r lo by (simp add: reg_outcome_def)
  qed
qed

lemma register_on_all_outcome:
  assumes t: "tasks st t = Some tk" "task_valid tk" "deps_exist st tk"
  shows "\<exists>st' w. register_on_all_promise_dependencies t st = Inr (st', \<not> w) \<and>
           reg_outcome st t tk (nat (waiting_on_index tk + 1)) (length (deps tk)) (st', w)"
proof -
  let ?hi = "length (deps tk)"
  obtain lo where lo: "waiting_on_index tk = int lo - 1" "nat (waiting_on_index tk + 1) = lo" "lo \<le> ?hi"
    using t(2) by (auto simp: task_valid_def intro!: that [of "nat (waiting_on_index tk + 1)"])
  have len: "length (waiting_on tk) = 4" "4 \<le> ?hi" using t(2) by (auto simp: task_valid_def deps_def)
  note defs = register_on_all_promise_dependencies_def get_task_def MAX_NUM_WAITS_def
  have extra: "\<exists>st' w. (case waiting_on_extra tk1 of
            None \<Rightarrow> Inr (st1, True)
          | Some ex \<Rightarrow> res_bind (register_extra t (drop (mid - 4) ex) (int mid - 1) st1) (\<lambda>(st2, w). Inr (st2, \<not> w)))
        = Inr (st', \<not> w) \<and> reg_outcome st1 t tk1 mid ?hi (st', w)"
    if st1: "tasks st1 t = Some tk1" "promises st1 = promises st" "deps tk1 = deps tk" "waiting_on tk1 = waiting_on tk"
      "waiting_on_extra tk1 = waiting_on_extra tk" and mid: "4 \<le> mid" "mid \<le> ?hi" for st1 tk1 mid
  proof (cases "waiting_on_extra tk")
    case None
    then have "mid = ?hi" using mid len by (simp add: deps_def)
    then show ?thesis using None st1 by (auto simp: reg_outcome_def put_task_same intro!: exI [of _ False])
  next
    case (Some ex)
    have "None \<in> set ex" "deps_exist st1 tk1"
      using t(2,3) Some st1 by (auto simp: task_valid_def deps_exist_def)
    then show ?thesis using register_extra_outcome [of st1 t tk1 ex mid] st1 len mid Some by fastforce
  qed
  show ?thesis
  proof (cases "lo < 4")
    case False
    have e: "nat (waiting_on_index tk - 4 + 1) = lo - 4" "[waiting_on_index tk + 1..3] = []"
      using False lo(1) by simp_all
    have reg: "register_on_all_promise_dependencies t st = (case waiting_on_extra tk of None \<Rightarrow> Inr (st, True)
          | Some ex \<Rightarrow> res_bind (register_extra t (drop (nat (waiting_on_index tk - 4 + 1)) ex) (waiting_on_index tk) st)
                        (\<lambda>(st2, w). Inr (st2, \<not> w)))"
      using t(1) e(2) unfolding defs by simp
    have "\<exists>st' w. (case waiting_on_extra tk of None \<Rightarrow> Inr (st, True)
          | Some ex \<Rightarrow> res_bind (register_extra t (drop (lo - 4) ex) (int lo - 1) st) (\<lambda>(st2, w). Inr (st2, \<not> w)))
        = Inr (st', \<not> w) \<and> reg_outcome st t tk lo ?hi (st', w)"
      using extra [OF t(1) refl refl refl refl, of lo] False lo(3) by simp
    then show ?thesis unfolding reg e(1) lo(2) unfolding lo(1) by simp
  next
    case True
    obtain st1 w where r: "register_inline t [int lo..3] st = Inr (st1, w)" "reg_outcome st t tk lo 4 (st1, w)"
      using register_inline_outcome [OF t(1) len(1) t(3), of lo] True by auto
    show ?thesis
    proof (cases w)
      case w: True
      then show ?thesis using r lo t(1) reg_outcome_widen [of st t tk lo 4 st1 ?hi] len
        by (auto simp: defs intro!: exI [of _ True])
    next
      case w: False
      let ?tk1 = "tk\<lparr>waiting_on_index := int 4 - 1\<rparr>"
      have st1: "st1 = put_task t ?tk1 st" using r(2) w True by (simp add: reg_outcome_def)
      obtain st' w' where "(case waiting_on_extra ?tk1 of
            None \<Rightarrow> Inr (st1, True)
          | Some ex \<Rightarrow> res_bind (register_extra t (drop (4 - 4) ex) (int 4 - 1) st1) (\<lambda>(st2, w). Inr (st2, \<not> w)))
        = Inr (st', \<not> w')" "reg_outcome st1 t ?tk1 4 ?hi (st', w')"
        using extra [of st1 ?tk1 4] st1 len by auto
      then show ?thesis
        using reg_outcome_join [of st t tk lo 4 st1 ?hi "(st', w')"] r w lo t(1) True len st1
        by (cases "waiting_on_extra tk") (auto simp: defs)
    qed
  qed
qed

section \<open>Arrays of promises\<close>

lemma create_promises_eq:
  "create_promises k st = (st\<lparr>promises := (\<lambda>a. if next_addr st \<le> a \<and> a < next_addr st + k then Some hclib_promise_init
       else promises st a), next_addr := next_addr st + k\<rparr>, map Some [next_addr st..<next_addr st + k])"
proof (induction k arbitrary: st)
  case 0
  have "(\<lambda>a. if next_addr st \<le> a \<and> a < next_addr st + 0 then Some hclib_promise_init else promises st a) = promises st"
    by (auto simp: fun_eq_iff)
  then show ?case by simp
next
  case (Suc k)
  have "(\<lambda>a. if Suc (next_addr st) \<le> a \<and> a < Suc (next_addr st + k) then Some hclib_promise_init
       else if a = next_addr st then Some hclib_promise_init else promises st a) =
     (\<lambda>a. if next_addr st \<le> a \<and> a < Suc (next_addr st + k) then Some hclib_promise_init else promises st a)"
    by (auto simp: fun_eq_iff)
  then show ?case by (simp add: Suc hclib_promise_create_def put_promise_def fun_upd_def upt_conv_Cons cong: if_cong)
qed

lemma free_promises_range:
  "promises (free_promises (map Some ps) st) = (\<lambda>a. if a \<in> set ps then None else promises st a)"
  by (induction ps arbitrary: st) (auto simp: hclib_promise_free_def fun_eq_iff)

text \<open>
  An array of promises holds fresh, unsatisfied promises, with a null entry at its end when asked
  for, and freeing the array gives back exactly these promises. A null-terminated array of length 0
  is an error: the terminator is written outside the array.
\<close>

theorem promise_array_roundtrip:
  assumes "\<forall>a \<ge> next_addr st. promises st a = None"
  shows "if null_terminated \<and> nb = 0 then hclib_promise_create_n nb null_terminated st = Inl Out_of_bounds
         else \<exists>st' ps. hclib_promise_create_n nb null_terminated st = Inr (st', ps) \<and> length ps = nb \<and> distinct ps \<and>
           (\<forall>i < nb. ps ! i = None \<longleftrightarrow> null_terminated \<and> i = nb - 1) \<and>
           (\<forall>a. Some a \<in> set ps \<longrightarrow> promises st a = None \<and> promises st' a = Some hclib_promise_init) \<and>
           (\<forall>a. Some a \<notin> set ps \<longrightarrow> promises st' a = promises st a) \<and>
           promises (hclib_promise_free_n ps nb null_terminated st') = promises st"
proof (cases "null_terminated \<and> nb = 0")
  case True
  then show ?thesis by (simp add: hclib_promise_create_n_def create_promises_eq)
next
  case False
  define k where "k = (if null_terminated then nb - 1 else nb)"
  define st' where "st' = st\<lparr>promises := (\<lambda>a. if next_addr st \<le> a \<and> a < next_addr st + k then Some hclib_promise_init
       else promises st a), next_addr := next_addr st + k\<rparr>"
  define ps where "ps = map Some [next_addr st..<next_addr st + k] @ (if null_terminated then [None] else [])"
  have run: "hclib_promise_create_n nb null_terminated st = Inr (st', ps)"
    using False by (auto simp: hclib_promise_create_n_def create_promises_eq k_def st'_def ps_def)
  have len: "length ps = nb" "k \<le> nb" using False by (auto simp: ps_def k_def)
  have mem: "Some a \<in> set ps \<longleftrightarrow> next_addr st \<le> a \<and> a < next_addr st + k" for a by (auto simp: ps_def)
  have "take k ps = map Some [next_addr st..<next_addr st + k]" by (simp add: ps_def)
  then have free: "promises (hclib_promise_free_n ps nb null_terminated st') = promises st"
    using assms unfolding hclib_promise_free_n_def k_def [symmetric]
    by (auto simp: free_promises_range st'_def fun_eq_iff)
  moreover have "distinct ps" by (auto simp: ps_def distinct_map)
  moreover have "ps ! i = None \<longleftrightarrow> null_terminated \<and> i = nb - 1" if "i < nb" for i
    using that False by (auto simp: ps_def k_def nth_append)
  ultimately show ?thesis using run len mem assms False by (auto simp: st'_def)
qed

definition empty_rt :: "(nat, nat, nat) rt" where
  "empty_rt = \<lparr>tasks = (\<lambda>_. None), promises = (\<lambda>_. None), finishes = (\<lambda>_. None), next_addr = 5,
     rt_pool = [], rt_paths = [], rt_workers = []\<rparr>"

theorem promise_array_roundtrip_witness:
  "\<exists>st' ps. hclib_promise_create_n 3 True empty_rt = Inr (st', ps) \<and> ps ! 2 = None \<and>
     promises (hclib_promise_free_n ps 3 True st') = (\<lambda>_. None)"
proof -
  have e: "promises empty_rt = (\<lambda>_. None)" by (simp add: empty_rt_def)
  then have "\<forall>a \<ge> next_addr empty_rt. promises empty_rt a = None" by simp
  from promise_array_roundtrip [OF this, of True 3] show ?thesis unfolding e by fastforce
qed

end
