(* ===== verification/Scheduler_Invariant.thy ===== *)
theory Scheduler_Invariant
  imports Promise
begin

text \<open>
  The invariant of the scheduler: every task is in exactly one place (a deque, the wait list of one
  open promise, or the hands of the runtime), tasks in deques have all their futures satisfied, and
  the wait lists are well formed. Registration, scheduling and \<^verbatim>\<open>hclib_promise_put\<close> keep it.
\<close>

section \<open>The scheduler's invariant\<close>

text \<open>The list of tasks that hangs off a wait list pointer.\<close>

fun chain :: "(nat \<Rightarrow> 'c task option) \<Rightarrow> waiter \<Rightarrow> nat list \<Rightarrow> bool" where
  "chain T w [] = (w = Sentinel_ptr)"
| "chain T w (t # ts) = (w = Waiter t \<and> (case T t of None \<Rightarrow> False | Some tk \<Rightarrow> chain T (next_waiter tk) ts))"

text \<open>A task that waits on \<open>p\<close>, one that may go on to its next dependency, and one that is ready.\<close>

definition task_ok :: "('c, 'd, 'i) rt \<Rightarrow> nat \<Rightarrow> ('c task \<Rightarrow> bool) \<Rightarrow> bool" where
  "task_ok st t P = (case tasks st t of None \<Rightarrow> False | Some tk \<Rightarrow> task_valid tk \<and> deps_exist st tk \<and> P tk)"

definition waits_ok :: "('c, 'd, 'i) rt \<Rightarrow> nat \<Rightarrow> nat \<Rightarrow> bool" where
  "waits_ok st p t \<longleftrightarrow> task_ok st t (\<lambda>tk. 0 \<le> waiting_on_index tk \<and> deps tk ! nat (waiting_on_index tk) = Some p \<and>
      (\<forall>j. int j < waiting_on_index tk \<longrightarrow> dep_closed st (deps tk ! j)))"

definition resumes_ok :: "('c, 'd, 'i) rt \<Rightarrow> nat \<Rightarrow> bool" where
  "resumes_ok st t \<longleftrightarrow> task_ok st t (\<lambda>tk. \<forall>j. int j \<le> waiting_on_index tk \<longrightarrow> dep_closed st (deps tk ! j))"

definition ready_ok :: "('c, 'd, 'i) rt \<Rightarrow> nat \<Rightarrow> bool" where
  "ready_ok st t \<longleftrightarrow> task_ok st t (\<lambda>tk. \<forall>f \<in> set (deps tk). dep_closed st f)"

definition prom_inv :: "('c, 'd, 'i) rt \<Rightarrow> (nat \<Rightarrow> nat list) \<Rightarrow> bool" where
  "prom_inv st W \<longleftrightarrow>
     (\<forall>p. case promises st p of None \<Rightarrow> W p = []
        | Some pr \<Rightarrow> satisfied pr = (wait_list_head pr = Satisfied_ptr) \<and>
            (if satisfied pr then W p = [] else chain (tasks st) (wait_list_head pr) (W p))) \<and>
     (\<forall>p. distinct (W p) \<and> (\<forall>t \<in> set (W p). waits_ok st p t)) \<and>
     (\<forall>p q. p \<noteq> q \<longrightarrow> set (W p) \<inter> set (W q) = {})"

definition pool_tasks :: "nat \<Rightarrow> ('a, 'i) pool \<Rightarrow> 'a multiset" where
  "pool_tasks n ls = (\<Sum>l<length ls. \<Sum>w<n. mset (tasks_at ls l w))"

definition waiting :: "(nat \<Rightarrow> nat list) \<Rightarrow> nat set" where
  "waiting W = (\<Union>p. set (W p))"

text \<open>
  \<open>C\<close> are tasks in the hands of the runtime (just created, or being taken off a wait list), \<open>E\<close> the
  tasks being executed. Every task is in exactly one place, tasks in the pool are ready,
  and no deque has seen more pushes than there are addresses in use.
\<close>

definition place_inv ::
  "nat \<Rightarrow> ('c, 'd, 'i) rt \<Rightarrow> (nat \<Rightarrow> nat list) \<Rightarrow> nat set \<Rightarrow> nat set \<Rightarrow> bool" where
  "place_inv n st W C E \<longleftrightarrow>
     (\<forall>t. count (pool_tasks n (rt_pool st)) t \<le> 1) \<and>
     (\<forall>t. t \<in># pool_tasks n (rt_pool st) \<longrightarrow> t \<notin> C \<union> E \<union> waiting W \<and> ready_ok st t) \<and>
     C \<inter> E = {} \<and> waiting W \<inter> (C \<union> E) = {} \<and>
     (\<forall>t. tasks st t \<noteq> None \<longleftrightarrow> t \<in># pool_tasks n (rt_pool st) \<or> t \<in> C \<union> E \<union> waiting W) \<and>
     (\<forall>t. tasks st t \<noteq> None \<longrightarrow> t < next_addr st) \<and>
     (\<forall>l < length (rt_pool st). \<forall>w < n. tail (deques (rt_pool st ! l) ! w) + int (card (C \<union> waiting W)) \<le> int (next_addr st))"

definition site_inv :: "nat \<Rightarrow> ('c, 'd, 'i) rt \<Rightarrow> bool" where
  "site_inv n st \<longleftrightarrow> pool_wf n (rt_pool st) \<and> rt_pool st \<noteq> [] \<and> length (rt_workers st) = n \<and>
     (\<forall>w < n. ws_id (rt_workers st ! w) = int w) \<and>
     (\<forall>l < length (rt_pool st). reachable (rt_pool st ! l) \<noteq> None) \<and>
     (\<forall>t tk l. tasks st t = Some tk \<and> t_locale tk = Some l \<longrightarrow> l < length (rt_pool st))"

definition sched_inv ::
  "nat \<Rightarrow> ('c, 'd, 'i) rt \<Rightarrow> (nat \<Rightarrow> nat list) \<Rightarrow> nat set \<Rightarrow> nat set \<Rightarrow> bool" where
  "sched_inv n st W C E \<longleftrightarrow> prom_inv st W \<and> place_inv n st W C E \<and> site_inv n st"

lemma pool_tasks_changed:
  assumes "only_changed n ls l w ts ls'" "l < length ls" "w < n"
  shows "pool_tasks n ls' + mset (tasks_at ls l w) = pool_tasks n ls + mset ts"
proof -
  let ?f = "\<lambda>ls l. \<Sum>w<n. mset (tasks_at ls l w)"
  have same: "?f ls' l' = ?f ls l'" if "l' \<in> {..<length ls} - {l}" for l'
    using assms(1) that by (intro sum.cong) (auto simp: only_changed_def)
  have samew: "(\<Sum>w' \<in> {..<n} - {w}. mset (tasks_at ls' l w')) = (\<Sum>w' \<in> {..<n} - {w}. mset (tasks_at ls l w'))"
    using assms(1,2) by (intro sum.cong) (auto simp: only_changed_def)
  have row: "?f ls' l + mset (tasks_at ls l w) = ?f ls l + mset ts"
    using sum.remove [of "{..<n}" w "\<lambda>w. mset (tasks_at ls' l w)"] sum.remove [of "{..<n}" w "\<lambda>w. mset (tasks_at ls l w)"]
      samew assms(1,3) by (simp add: only_changed_def)
  have "pool_tasks n ls' = ?f ls' l + (\<Sum>l' \<in> {..<length ls} - {l}. ?f ls l')"
    using sum.remove [of "{..<length ls}" l "?f ls'"] assms(1,2) same by (simp add: pool_tasks_def only_changed_def)
  moreover have "pool_tasks n ls = ?f ls l + (\<Sum>l' \<in> {..<length ls} - {l}. ?f ls l')"
    using sum.remove [of "{..<length ls}" l "?f ls"] assms(2) by (simp add: pool_tasks_def)
  ultimately show ?thesis using row by (simp add: ac_simps)
qed

text \<open>A push appends to one deque, unless the locale is not reachable or the deque is full.\<close>

lemma push_locale_cases:
  assumes wf: "pool_wf n ls" "l < length ls" "ws_id ws = int w" "w < n"
    and room: "tail (deques (ls ! l) ! w) < MAX_INT" and r: "reachable (ls ! l) \<noteq> None"
  shows "(\<exists>ls'. deque_push_locale ws ls l t = Inr (ls', True) \<and> only_changed n ls l w (tasks_at ls l w @ [t]) ls' \<and>
           map reachable ls' = map reachable ls \<and>
           (\<forall>l' < length ls. \<forall>w' < n. tail (deques (ls' ! l') ! w') \<le> tail (deques (ls ! l') ! w') + 1)) \<or>
         deque_push_locale ws ls l t = Inl Assert_failed \<and> reachable (ls ! l) = Some False \<or>
         (\<exists>ls'. deque_push_locale ws ls l t = Inr (ls', False)) \<and> length (tasks_at ls l w) = nat INIT_DEQUE_CAPACITY"
proof -
  let ?q = "deques (ls ! l) ! w"
  note q = pool_get [OF wf(1,2,4)]
  obtain b where b: "reachable (ls ! l) = Some b" using r by blast
  have len: "length (deque_list ?q) \<le> nat INIT_DEQUE_CAPACITY"
    using deque_list_length [OF q(2)] q(2) by (auto simp: deque_wf_def)
  consider "\<not> b" | "b" "length (deque_list ?q) = nat INIT_DEQUE_CAPACITY"
    | "b" "length (deque_list ?q) < nat INIT_DEQUE_CAPACITY" using len by linarith
  then show ?thesis
  proof cases
    case 1
    then show ?thesis using b by (simp add: deque_push_locale_def)
  next
    case 2
    then show ?thesis using b q wf(3) push_full [OF q(2)] by (simp add: deque_push_locale_def tasks_at_def)
  next
    case 3
    obtain q' where q': "deque_push ?q t = Inr (q', True)" "deque_wf q'" "deque_list q' = deque_list ?q @ [t]"
        "tail q' = tail ?q + 1"
      using push_room [OF q(2) 3(2) room, of t] by blast
    let ?ls' = "put_deque ls l (int w) q'"
    have "deque_push_locale ws ls l t = Inr (?ls', True)"
      using b 3(1) q q'(1) wf(3) by (simp add: deque_push_locale_def)
    moreover have "only_changed n ls l w (tasks_at ls l w @ [t]) ?ls'"
      using put_changed [OF wf(1,2,4) q'(2)] q'(3) by (simp add: tasks_at_def)
    moreover have "map reachable ?ls' = map reachable ls"
      by (rule nth_equalityI) (auto simp: put_deque_def nth_upd_if)
    moreover have "length (deques (ls ! l)) = n" using wf(1,2) by (simp add: pool_wf_def)
    then have "\<forall>l' < length ls. \<forall>w' < n. tail (deques (?ls' ! l') ! w') \<le> tail (deques (ls ! l') ! w') + 1"
      using q'(4) by (auto simp: put_deque_def nth_upd_if)
    ultimately show ?thesis by blast
  qed
qed

section \<open>Scheduling keeps the invariant\<close>

text \<open>Enough room for every task in a single deque, and no locale that nobody visits.\<close>

definition roomy :: "('c, 'd, 'i) rt \<Rightarrow> bool" where
  "roomy st \<longleftrightarrow> (\<forall>l < length (rt_pool st). reachable (rt_pool st ! l) = Some True) \<and>
     card {t. tasks st t \<noteq> None} \<le> nat INIT_DEQUE_CAPACITY"

lemma place_invD:
  assumes "place_inv n st W C E"
  shows "count (pool_tasks n (rt_pool st)) t \<le> 1"
    and "t \<in># pool_tasks n (rt_pool st) \<Longrightarrow> t \<notin> C \<union> E \<union> waiting W \<and> ready_ok st t"
    and "C \<inter> E = {}" "waiting W \<inter> (C \<union> E) = {}"
    and "tasks st t \<noteq> None \<longleftrightarrow> t \<in># pool_tasks n (rt_pool st) \<or> t \<in> C \<union> E \<union> waiting W"
    and "tasks st t \<noteq> None \<Longrightarrow> t < next_addr st"
    and "l < length (rt_pool st) \<Longrightarrow> w < n \<Longrightarrow>
         tail (deques (rt_pool st ! l) ! w) + int (card (C \<union> waiting W)) \<le> int (next_addr st)"
  using assms unfolding place_inv_def by blast+

lemma place_invI:
  assumes "\<And>t. count (pool_tasks n (rt_pool st)) t \<le> 1"
    and "\<And>t. t \<in># pool_tasks n (rt_pool st) \<Longrightarrow> t \<notin> C \<union> E \<union> waiting W \<and> ready_ok st t"
    and "C \<inter> E = {}" "waiting W \<inter> (C \<union> E) = {}"
    and "\<And>t. tasks st t \<noteq> None \<longleftrightarrow> t \<in># pool_tasks n (rt_pool st) \<or> t \<in> C \<union> E \<union> waiting W"
    and "\<And>t. tasks st t \<noteq> None \<Longrightarrow> t < next_addr st"
    and "\<And>l w. l < length (rt_pool st) \<Longrightarrow> w < n \<Longrightarrow>
         tail (deques (rt_pool st ! l) ! w) + int (card (C \<union> waiting W)) \<le> int (next_addr st)"
  shows "place_inv n st W C E"
  using assms unfolding place_inv_def by blast

lemma tasks_finite: "place_inv n st W C E \<Longrightarrow> finite {t. tasks st t \<noteq> None}"
  by (rule finite_subset [of _ "{..<next_addr st}"]) (auto simp: place_inv_def)

lemma place_inv_in:
  assumes "place_inv n st W C E" "t \<in> C \<union> E \<union> waiting W"
  shows "tasks st t \<noteq> None" "t \<notin># pool_tasks n (rt_pool st)"
  using assms unfolding place_inv_def by blast+

lemma held_finite:
  assumes "place_inv n st W C E"
  shows "finite (C \<union> waiting W)"
  by (rule finite_subset [OF _ tasks_finite [OF assms]]) (use place_inv_in(1) [OF assms] in auto)

lemma tasks_at_le_pool:
  assumes "l < length ls" "w < n"
  shows "mset (tasks_at ls l w) \<subseteq># pool_tasks n ls"
proof -
  have "mset (tasks_at ls l w) \<subseteq># (\<Sum>w<n. mset (tasks_at ls l w))"
    using assms(2) by (subst sum.remove [of _ w]) auto
  also have "\<dots> \<subseteq># pool_tasks n ls"
    unfolding pool_tasks_def using assms(1) by (subst sum.remove [of _ l]) auto
  finally show ?thesis .
qed

text \<open>A task in hand leaves no room for a full deque.\<close>

lemma roomy_not_full:
  assumes inv: "place_inv n st W C E" and t: "t \<in> C" and "roomy st" and lw: "l < length (rt_pool st)" "w < n"
  shows "length (tasks_at (rt_pool st) l w) < nat INIT_DEQUE_CAPACITY"
proof -
  let ?M = "pool_tasks n (rt_pool st)" and ?T = "{t. tasks st t \<noteq> None}"
  have fin: "finite ?T" by (rule tasks_finite [OF inv])
  have "length (tasks_at (rt_pool st) l w) \<le> size ?M"
    using size_mset_mono [OF tasks_at_le_pool [OF lw]] by simp
  also have "size ?M = card (set_mset ?M)"
  proof -
    have "count ?M x = 1" if "x \<in># ?M" for x
      using inv that unfolding place_inv_def by (metis count_greater_eq_one_iff le_antisym)
    then show ?thesis by (simp add: size_multiset_overloaded_eq)
  qed
  also have "\<dots> < card ?T"
    by (rule psubset_card_mono [OF fin]) (use inv t in \<open>auto simp: place_inv_def\<close>)
  finally show ?thesis using assms(3) by (simp add: roomy_def)
qed

lemma pool_sel [simp]: "dep_closed (st\<lparr>rt_pool := ls\<rparr>) = dep_closed st" "deps_exist (st\<lparr>rt_pool := ls\<rparr>) = deps_exist st"
  by (simp_all add: dep_closed_def deps_exist_def fun_eq_iff split: option.splits)

lemma pool_task_ok [simp]: "task_ok (st\<lparr>rt_pool := ls\<rparr>) t P = task_ok st t P"
  by (simp add: task_ok_def split: option.splits)

lemma pool_waits [simp]: "waits_ok (st\<lparr>rt_pool := ls\<rparr>) = waits_ok st" "ready_ok (st\<lparr>rt_pool := ls\<rparr>) = ready_ok st"
  "resumes_ok (st\<lparr>rt_pool := ls\<rparr>) = resumes_ok st"
  by (simp_all add: waits_ok_def ready_ok_def resumes_ok_def fun_eq_iff)

lemma pool_prom_inv [simp]: "prom_inv (st\<lparr>rt_pool := ls\<rparr>) W = prom_inv st W"
  by (simp add: prom_inv_def cong: option.case_cong)

text \<open>A ready task in hand goes to a deque.\<close>

lemma schedule_inv:
  assumes inv: "sched_inv n st W C E" and t: "t \<in> C" "ready_ok st t" and w: "wid < n"
    and max: "int (next_addr st) \<le> MAX_INT"
  shows "(\<exists>ls. rt_schedule_async t wid st = Inr (st\<lparr>rt_pool := ls\<rparr>) \<and> sched_inv n (st\<lparr>rt_pool := ls\<rparr>) W (C - {t}) E \<and>
              map reachable ls = map reachable (rt_pool st) \<and> pool_tasks n ls = pool_tasks n (rt_pool st) + {#t#}) \<or>
         rt_schedule_async t wid st = Inl Assert_failed \<and> \<not> roomy st"
proof -
  have P: "prom_inv st W" and L: "place_inv n st W C E" and S: "site_inv n st"
    using inv by (auto simp: sched_inv_def)
  let ?ls = "rt_pool st"
  obtain tk where tk: "tasks st t = Some tk" using t(2) by (auto simp: ready_ok_def task_ok_def split: option.splits)
  define l where "l = (case t_locale tk of Some l \<Rightarrow> l | None \<Rightarrow> 0)"
  have l: "l < length ?ls" using S tk by (auto simp: site_inv_def l_def split: option.splits)
  let ?ws = "worker_state.truncate (rt_workers st ! wid)"
  have ws: "ws_id ?ws = int wid" using S w by (simp add: site_inv_def worker_state.truncate_def)
  have wf: "pool_wf n ?ls" and re: "reachable (?ls ! l) \<noteq> None" using S l by (auto simp: site_inv_def)
  have fin: "finite (C \<union> waiting W)" by (rule held_finite [OF L])
  have card: "int (card (C \<union> waiting W)) = int (card (C - {t} \<union> waiting W)) + 1"
  proof -
    have "t \<notin> waiting W" using L t(1) unfolding place_inv_def by blast
    then have e: "C - {t} \<union> waiting W = (C \<union> waiting W) - {t}" by auto
    show ?thesis unfolding e using card.remove [OF fin, of t] t(1) by simp
  qed
  have bound: "tail (deques (?ls ! l') ! w') + int (card (C \<union> waiting W)) \<le> int (next_addr st)"
    if "l' < length ?ls" "w' < n" for l' w' by (rule place_invD(7) [OF L that])
  have room: "tail (deques (?ls ! l) ! wid) < MAX_INT" using bound [OF l w] max card by linarith
  have run: "rt_schedule_async t wid st = res_bind (deque_push_locale ?ws ?ls l t) (\<lambda>(pool', ok).
     res_bind (c_assert ok) (\<lambda>_. Inr (st\<lparr>rt_pool := pool'\<rparr>)))"
    using tk by (simp add: rt_schedule_async_def get_task_def l_def)
  from push_locale_cases [OF wf l ws w room re, of t] show ?thesis
  proof (elim disjE exE conjE, goal_cases)
    case (1 ls)
    have pool: "pool_tasks n ls = pool_tasks n ?ls + {#t#}"
      using pool_tasks_changed [OF 1(2) l w] by simp
    have len: "length ls = length ?ls" "pool_wf n ls" using 1(2) by (auto simp: only_changed_def)
    have "tail (deques (ls ! l') ! w') + int (card (C - {t} \<union> waiting W)) \<le> int (next_addr st)"
      if "l' < length ls" "w' < n" for l' w'
    proof -
      have "tail (deques (ls ! l') ! w') \<le> tail (deques (?ls ! l') ! w') + 1" using 1(4) that len(1) by simp
      then show ?thesis using bound [of l' w'] that len(1) card by linarith
    qed
    moreover have "t \<notin># pool_tasks n ?ls" using place_inv_in(2) [OF L] t(1) by blast
    then have "count (pool_tasks n ?ls + {#t#}) t' \<le> 1" for t'
      using place_invD(1) [OF L, of t'] by (auto simp: not_in_iff)
    moreover have "t' \<notin> (C - {t}) \<union> E \<union> waiting W \<and> ready_ok st t'" if "t' \<in># pool_tasks n ?ls + {#t#}" for t'
      using place_invD(2) [OF L, of t'] place_invD(3,4) [OF L] t that by auto
    moreover have "(tasks st t' \<noteq> None) \<longleftrightarrow> t' \<in># pool_tasks n ?ls + {#t#} \<or> t' \<in> (C - {t}) \<union> E \<union> waiting W" for t'
      using place_invD(5) [OF L, of t'] t(1) tk by auto
    ultimately have "place_inv n (st\<lparr>rt_pool := ls\<rparr>) W (C - {t}) E"
      using place_invD(3,4,6) [OF L] pool by (intro place_invI) auto
    moreover have "site_inv n (st\<lparr>rt_pool := ls\<rparr>)"
      using S len 1(3) by (auto simp: site_inv_def dest: map_eq_imp_length_eq) (metis nth_map)
    ultimately show ?thesis using P 1(1,3) pool run by (auto simp: sched_inv_def)
  next
    case 2
    then show ?thesis using run l by (auto simp: roomy_def)
  next
    case (3 ls')
    then show ?thesis using run roomy_not_full [OF L t(1) _ l w] by auto
  qed
qed

section \<open>Registration keeps the invariant\<close>

lemma chain_upd [simp]: "t \<notin> set ts \<Longrightarrow> chain (T(t \<mapsto> x)) w ts = chain T w ts"
  by (induction ts arbitrary: w) (auto split: option.splits)

text \<open>What is known of a task depends on its record and on which futures are closed.\<close>

lemma ok_cong:
  assumes "tasks st' t = tasks st t" "dep_closed st' = dep_closed st" "\<And>p. promises st' p = None \<longleftrightarrow> promises st p = None"
  shows "waits_ok st' p t = waits_ok st p t" "resumes_ok st' t = resumes_ok st t" "ready_ok st' t = ready_ok st t"
proof -
  have "deps_exist st' = deps_exist st" using assms(3) by (simp add: deps_exist_def fun_eq_iff)
  then show "waits_ok st' p t = waits_ok st p t" "resumes_ok st' t = resumes_ok st t" "ready_ok st' t = ready_ok st t"
    using assms(1,2) by (simp_all add: waits_ok_def resumes_ok_def ready_ok_def task_ok_def split: option.splits)
qed

lemma dep_closed_wait:
  assumes "promises st p = Some pr" "wait_list_head pr \<noteq> Satisfied_ptr"
  shows "dep_closed (put_promise p (pr\<lparr>wait_list_head := Waiter t\<rparr>) st) = dep_closed st"
  using assms by (auto simp: dep_closed_def fun_eq_iff split: option.splits)

lemma waiting_cons: "waiting (W(p := t # W p)) = insert t (waiting W)"
  by (auto simp: waiting_def split: if_splits)

lemma in_waiting: "t \<notin> waiting W \<Longrightarrow> t \<notin> set (W p)"
  by (auto simp: waiting_def)

lemma prom_invD:
  assumes "prom_inv st W"
  shows "promises st p = None \<Longrightarrow> W p = []"
    and "promises st p = Some pr \<Longrightarrow> satisfied pr = (wait_list_head pr = Satisfied_ptr)"
    and "promises st p = Some pr \<Longrightarrow> satisfied pr \<Longrightarrow> W p = []"
    and "promises st p = Some pr \<Longrightarrow> \<not> satisfied pr \<Longrightarrow> chain (tasks st) (wait_list_head pr) (W p)"
    and "distinct (W p)" "t \<in> set (W p) \<Longrightarrow> waits_ok st p t" "p \<noteq> q \<Longrightarrow> set (W p) \<inter> set (W q) = {}"
proof -
  have a: "case promises st p of None \<Rightarrow> W p = []
        | Some pr \<Rightarrow> satisfied pr = (wait_list_head pr = Satisfied_ptr) \<and>
            (if satisfied pr then W p = [] else chain (tasks st) (wait_list_head pr) (W p))"
    using assms unfolding prom_inv_def by blast
  then show "promises st p = None \<Longrightarrow> W p = []"
    "promises st p = Some pr \<Longrightarrow> satisfied pr = (wait_list_head pr = Satisfied_ptr)"
    "promises st p = Some pr \<Longrightarrow> satisfied pr \<Longrightarrow> W p = []"
    "promises st p = Some pr \<Longrightarrow> \<not> satisfied pr \<Longrightarrow> chain (tasks st) (wait_list_head pr) (W p)" by simp_all
  show "distinct (W p)" "t \<in> set (W p) \<Longrightarrow> waits_ok st p t" "p \<noteq> q \<Longrightarrow> set (W p) \<inter> set (W q) = {}"
    using assms unfolding prom_inv_def by blast+
qed

lemma prom_invI:
  assumes "\<And>p. promises st p = None \<Longrightarrow> W p = []"
    and "\<And>p pr. promises st p = Some pr \<Longrightarrow> satisfied pr = (wait_list_head pr = Satisfied_ptr)"
    and "\<And>p pr. promises st p = Some pr \<Longrightarrow> satisfied pr \<Longrightarrow> W p = []"
    and "\<And>p pr. promises st p = Some pr \<Longrightarrow> \<not> satisfied pr \<Longrightarrow> chain (tasks st) (wait_list_head pr) (W p)"
    and "\<And>p. distinct (W p)" "\<And>p t. t \<in> set (W p) \<Longrightarrow> waits_ok st p t" "\<And>p q. p \<noteq> q \<Longrightarrow> set (W p) \<inter> set (W q) = {}"
  shows "prom_inv st W"
  unfolding prom_inv_def using assms by (auto split: option.splits)

text \<open>Writing to a task that waits nowhere.\<close>

lemma prom_inv_put_task:
  assumes "prom_inv st W" "t \<notin> waiting W"
  shows "prom_inv (put_task t tk st) W"
proof (rule prom_invI)
  fix p t' assume "t' \<in> set (W p)"
  then show "waits_ok (put_task t tk st) p t'"
    using prom_invD(6) [OF assms(1)] assms(2) by (subst ok_cong(1) [of _ t' st]) (auto simp: waiting_def)
qed (use prom_invD [OF assms(1)] in_waiting [OF assms(2)] in auto)

lemma prom_inv_wait:
  assumes inv: "prom_inv st W" and t: "t \<notin> waiting W" and p: "promises st p = Some pr" "wait_list_head pr \<noteq> Satisfied_ptr"
    and ok: "waits_ok (put_task t tk st) p t" "next_waiter tk = wait_list_head pr"
  shows "prom_inv (put_promise p (pr\<lparr>wait_list_head := Waiter t\<rparr>) (put_task t tk st)) (W(p := t # W p))"
    (is "prom_inv ?st _")
proof (rule prom_invI)
  note D = prom_invD [OF inv] and notin = in_waiting [OF t]
  have closed: "dep_closed ?st = dep_closed st"
    using dep_closed_wait [of "put_task t tk st" p pr t] p by simp
  have unsat: "\<not> satisfied pr" using D(2) [OF p(1)] p(2) by simp
  fix q pr' r t'
  show "promises ?st q = None \<Longrightarrow> (W(p := t # W p)) q = []" using D(1) by (auto split: if_splits)
  show "promises ?st q = Some pr' \<Longrightarrow> satisfied pr' = (wait_list_head pr' = Satisfied_ptr)"
    using D(2) unsat by (auto split: if_splits)
  show "promises ?st q = Some pr' \<Longrightarrow> satisfied pr' \<Longrightarrow> (W(p := t # W p)) q = []"
    using D(3) unsat by (auto split: if_splits)
  show "promises ?st q = Some pr' \<Longrightarrow> \<not> satisfied pr' \<Longrightarrow> chain (tasks ?st) (wait_list_head pr') ((W(p := t # W p)) q)"
    using D(4) ok(2) p(1) unsat notin by (auto split: if_splits)
  show "distinct ((W(p := t # W p)) q)" using D(5) notin by auto
  show "q \<noteq> r \<Longrightarrow> set ((W(p := t # W p)) q) \<inter> set ((W(p := t # W p)) r) = {}"
    using D(7) notin by auto
  show "waits_ok ?st q t'" if "t' \<in> set ((W(p := t # W p)) q)"
  proof (cases "t' = t")
    case True
    then have "q = p" using that notin by (auto split: if_splits)
    then show ?thesis
      using True ok(1) ok_cong(1) [of ?st t "put_task t tk st" p] closed p(1) by simp
  next
    case False
    then have "waits_ok st q t'" using that D(6) by (auto split: if_splits)
    then show ?thesis using False closed p(1) ok_cong(1) [of ?st t' st q] by simp
  qed
qed

text \<open>
  What scheduling never changes: the tasks but for their place in the wait lists, which promises
  are satisfied and with what, the finish scopes, the workers.
\<close>

definition task_core :: "'c task \<Rightarrow> 'c task" where
  "task_core tk = tk\<lparr>waiting_on_index := 0, next_waiter := Sentinel_ptr\<rparr>"

definition keeps :: "('c, 'd, 'i) rt \<Rightarrow> ('c, 'd, 'i) rt \<Rightarrow> bool" where
  "keeps st st' \<longleftrightarrow> (\<forall>t. map_option task_core (tasks st' t) = map_option task_core (tasks st t)) \<and>
     dep_closed st' = dep_closed st \<and>
     (\<forall>p. map_option satisfied (promises st' p) = map_option satisfied (promises st p)) \<and>
     (\<forall>p. map_option datum (promises st' p) = map_option datum (promises st p)) \<and>
     finishes st' = finishes st \<and> next_addr st' = next_addr st \<and>
     map reachable (rt_pool st') = map reachable (rt_pool st) \<and>
     rt_paths st' = rt_paths st \<and> rt_workers st' = rt_workers st"

lemma keeps_refl [simp]: "keeps st st"
  by (simp add: keeps_def)

lemma keeps_trans: "keeps a b \<Longrightarrow> keeps b c \<Longrightarrow> keeps a c"
  unfolding keeps_def by metis

lemma keeps_none:
  assumes "keeps st st'"
  shows "tasks st' t = None \<longleftrightarrow> tasks st t = None" "promises st' p = None \<longleftrightarrow> promises st p = None"
  using assms unfolding keeps_def by (metis option.map_disc_iff)+

lemma keeps_roomy: "keeps st st' \<Longrightarrow> roomy st' = roomy st"
proof -
  assume k: "keeps st st'"
  have len: "length (rt_pool st') = length (rt_pool st)" using k unfolding keeps_def by (metis length_map)
  have "reachable (rt_pool st' ! l) = reachable (rt_pool st ! l)" if "l < length (rt_pool st)" for l
    using k len that unfolding keeps_def by (metis nth_map)
  then show ?thesis using len keeps_none(1) [OF k] by (simp add: roomy_def)
qed

lemma task_core_sel [simp]: "t_locale (task_core tk) = t_locale tk" "t_finish (task_core tk) = t_finish tk"
  "fp (task_core tk) = fp tk" "non_blocking (task_core tk) = non_blocking tk"
  by (simp_all add: task_core_def)

lemma task_core_upd [simp]: "task_core (tk\<lparr>waiting_on_index := i\<rparr>) = task_core tk" "task_core (tk\<lparr>next_waiter := w\<rparr>) = task_core tk"
  by (simp_all add: task_core_def)

text \<open>Nothing but the named task and the wait lists differs.\<close>

definition same_but :: "('c, 'd, 'i) rt \<Rightarrow> nat \<Rightarrow> ('c, 'd, 'i) rt \<Rightarrow> bool" where
  "same_but st t st' \<longleftrightarrow> keeps st st' \<and> (\<forall>t'. t' \<noteq> t \<longrightarrow> tasks st' t' = tasks st t') \<and> rt_pool st' = rt_pool st"

lemma same_but_ok:
  assumes "same_but st t st'" "t' \<noteq> t"
  shows "waits_ok st' p t' = waits_ok st p t'" "resumes_ok st' t' = resumes_ok st t'" "ready_ok st' t' = ready_ok st t'"
  using assms keeps_none(2) [of st st'] by (intro ok_cong; simp add: same_but_def keeps_def)+

lemma same_but_site:
  assumes "same_but st t st'" "site_inv n st"
  shows "site_inv n st'"
proof -
  have "l < length (rt_pool st)" if "tasks st' t' = Some tk" "t_locale tk = Some l" for t' tk l
  proof -
    have "map_option task_core (tasks st' t') = map_option task_core (tasks st t')"
      using assms(1) unfolding same_but_def keeps_def by blast
    then have "map_option t_locale (tasks st t') = Some (Some l)"
      using that by (cases "tasks st t'") (auto, metis task_core_sel(1))
    then obtain tk0 where "tasks st t' = Some tk0" "t_locale tk0 = Some l" by auto
    then show ?thesis using assms(2) by (auto simp: site_inv_def)
  qed
  then show ?thesis using assms by (auto simp: site_inv_def same_but_def keeps_def)
qed

lemma same_but_place:
  assumes "same_but st t st'" "place_inv n st W C E" "t \<in> C" "waiting W' \<union> C' = waiting W \<union> C" "waiting W' \<inter> C' = {}"
  shows "place_inv n st' W' C' E"
proof (rule place_invI)
  note D = place_invD [OF assms(2)]
  have s: "rt_pool st' = rt_pool st" "next_addr st' = next_addr st" "\<And>t'. tasks st' t' = None \<longleftrightarrow> tasks st t' = None"
    using assms(1) keeps_none(1) [of st st'] by (auto simp: same_but_def keeps_def)
  have u: "C' \<union> waiting W' = C \<union> waiting W" using assms(4) by auto
  fix t' l w
  show "count (pool_tasks n (rt_pool st')) t' \<le> 1" using D(1) s(1) by simp
  show "t' \<notin> C' \<union> E \<union> waiting W' \<and> ready_ok st' t'" if "t' \<in># pool_tasks n (rt_pool st')"
  proof -
    have "t' \<noteq> t" using that D(2) s(1) assms(3) by auto
    then show ?thesis using that D(2) [of t'] s(1) u same_but_ok(3) [OF assms(1)] by auto
  qed
  show "C' \<inter> E = {}" "waiting W' \<inter> (C' \<union> E) = {}" using D(3,4) u assms(5) by auto
  show "tasks st' t' \<noteq> None \<longleftrightarrow> t' \<in># pool_tasks n (rt_pool st') \<or> t' \<in> C' \<union> E \<union> waiting W'"
    using D(5) [of t'] s u by auto
  show "tasks st' t' \<noteq> None \<Longrightarrow> t' < next_addr st'" using D(6) s by auto
  show "tail (deques (rt_pool st' ! l) ! w) + int (card (C' \<union> waiting W')) \<le> int (next_addr st')"
    if "l < length (rt_pool st')" "w < n" using that D(7) [of l w] unfolding s(1,2) u by blast
qed

lemma ready_resumes: "ready_ok st t \<Longrightarrow> resumes_ok st t"
  by (auto simp: ready_ok_def resumes_ok_def task_ok_def task_valid_def split: option.splits)

lemma same_but_put_task:
  assumes "tasks st t = Some tk"
  shows "same_but st t (put_task t (tk\<lparr>waiting_on_index := i\<rparr>) st)"
  using assms by (simp add: same_but_def keeps_def)

lemma same_but_wait:
  assumes "tasks st t = Some tk" "promises st p = Some pr" "wait_list_head pr \<noteq> Satisfied_ptr"
  shows "same_but st t (put_promise p (pr\<lparr>wait_list_head := Waiter t\<rparr>)
           (put_task t (tk\<lparr>waiting_on_index := i, next_waiter := w\<rparr>) st))"
proof -
  have "dep_closed (put_promise p (pr\<lparr>wait_list_head := Waiter t\<rparr>)
      (put_task t (tk\<lparr>waiting_on_index := i, next_waiter := w\<rparr>) st)) = dep_closed st"
    using dep_closed_wait [of "put_task t (tk\<lparr>waiting_on_index := i, next_waiter := w\<rparr>) st" p pr t] assms by simp
  then show ?thesis using assms unfolding same_but_def keeps_def by simp
qed

lemma task_valid_index [simp]:
  "task_valid (tk\<lparr>next_waiter := w\<rparr>) = task_valid tk"
  "task_valid tk \<Longrightarrow> -1 \<le> i \<Longrightarrow> i < int (length (deps tk)) \<Longrightarrow> task_valid (tk\<lparr>waiting_on_index := i\<rparr>)"
  by (auto simp: task_valid_def split: option.splits)

lemma deps_exist_put [simp]: "deps_exist (put_task t tk st) = deps_exist st"
  "deps_exist st (tk\<lparr>next_waiter := w\<rparr>) = deps_exist st tk" "deps_exist st (tk\<lparr>waiting_on_index := i\<rparr>) = deps_exist st tk"
  by (simp_all add: deps_exist_def fun_eq_iff)

text \<open>Registration goes on from the last future looked at and ends at the first open one, if any.\<close>

lemma register_inv:
  assumes inv: "sched_inv n st W C E" and t: "t \<in> C" "resumes_ok st t"
  shows "\<exists>st' ok. register_on_all_promise_dependencies t st = Inr (st', ok) \<and> same_but st t st' \<and> (ok \<longleftrightarrow> ready_ok st t) \<and>
     (if ok then sched_inv n st' W C E \<and> ready_ok st' t
      else \<exists>p pr. promises st p = Some pr \<and> \<not> satisfied pr \<and> sched_inv n st' (W(p := t # W p)) (C - {t}) E)"
proof -
  have P: "prom_inv st W" and L: "place_inv n st W C E" and S: "site_inv n st"
    using inv by (auto simp: sched_inv_def)
  obtain tk where tk: "tasks st t = Some tk" "task_valid tk" "deps_exist st tk"
    and past: "\<And>j. int j \<le> waiting_on_index tk \<Longrightarrow> dep_closed st (deps tk ! j)"
    using t(2) by (auto simp: resumes_ok_def task_ok_def split: option.splits)
  have wc: "waiting W \<inter> C = {}" using place_invD(4) [OF L] by auto
  have nw: "t \<notin> waiting W" using place_invD(4) [OF L] t(1) by auto
  define lo where "lo = nat (waiting_on_index tk + 1)"
  have lo: "waiting_on_index tk = int lo - 1" "lo \<le> length (deps tk)"
    using tk(2) by (auto simp: task_valid_def lo_def)
  obtain st' w where r: "register_on_all_promise_dependencies t st = Inr (st', \<not> w)"
      "reg_outcome st t tk lo (length (deps tk)) (st', w)"
    using register_on_all_outcome [OF tk] unfolding lo_def by blast
  have ready: "ready_ok st t \<longleftrightarrow> (\<forall>i. lo \<le> i \<and> i < length (deps tk) \<longrightarrow> dep_closed st (deps tk ! i))"
  proof -
    have "dep_closed st (deps tk ! i)" if "i < lo" for i using past [of i] lo(1) that by simp
    then show ?thesis using tk unfolding ready_ok_def task_ok_def by (simp add: all_set_conv_all_nth) (meson not_le)
  qed
  show ?thesis
  proof (cases w)
    case False
    then have all: "ready_ok st t" and st': "st' = put_task t (if lo < length (deps tk) then
        tk\<lparr>waiting_on_index := int (length (deps tk)) - 1\<rparr> else tk) st"
      using r(2) ready by (auto simp: reg_outcome_def)
    have same: "same_but st t st'"
      using same_but_put_task [OF tk(1)] same_but_put_task [OF tk(1), of "waiting_on_index tk"] st' by (auto split: if_splits)
    have "sched_inv n st' W C E"
      using prom_inv_put_task [OF P nw] same_but_site [OF same S] same_but_place [OF same L t(1) refl wc]
      unfolding sched_inv_def st' by blast
    moreover have "ready_ok st' t" using all tk lo(2) unfolding st' by (auto simp: ready_ok_def task_ok_def)
    ultimately show ?thesis using r(1) same all False by auto
  next
    case True
    obtain j p pr where j: "lo \<le> j" "j < length (deps tk)" "deps tk ! j = Some p" "promises st p = Some pr"
      "wait_list_head pr \<noteq> Satisfied_ptr" "\<And>i. lo \<le> i \<Longrightarrow> i < j \<Longrightarrow> dep_closed st (deps tk ! i)"
      and st': "st' = put_promise p (pr\<lparr>wait_list_head := Waiter t\<rparr>)
                 (put_task t (tk\<lparr>waiting_on_index := int j, next_waiter := wait_list_head pr\<rparr>) st)"
      using r(2) True by (auto simp: reg_outcome_def)
    let ?tk = "tk\<lparr>waiting_on_index := int j, next_waiter := wait_list_head pr\<rparr>"
    have same: "same_but st t st'" unfolding st' by (rule same_but_wait [OF tk(1) j(4,5)])
    have unsat: "\<not> satisfied pr" using prom_invD(2) [OF P j(4)] j(5) by simp
    have "dep_closed st (deps tk ! i)" if "i < j" for i
      using past [of i] j(6) [of i] lo(1) that by (cases "i < lo") auto
    then have "waits_ok (put_task t ?tk st) p t" using tk j(2,3) by (auto simp: waits_ok_def task_ok_def)
    then have "prom_inv st' (W(p := t # W p))"
      unfolding st' by (intro prom_inv_wait [OF P nw j(4,5)]) auto
    moreover have "place_inv n st' (W(p := t # W p)) (C - {t}) E"
      by (rule same_but_place [OF same L t(1)]) (use nw t(1) place_invD(4) [OF L] in \<open>auto simp: waiting_cons\<close>)
    ultimately have "sched_inv n st' (W(p := t # W p)) (C - {t}) E"
      using same_but_site [OF same S] by (simp add: sched_inv_def)
    moreover have "\<not> dep_closed st (deps tk ! j)" using j(3,4,5) by (simp add: dep_closed_def)
    then have "\<not> ready_ok st t" using ready j(1,2) by blast
    ultimately show ?thesis using r(1) same True j(4) unsat by auto
  qed
qed

section \<open>Putting a promise\<close>

lemma keeps_pool: "map reachable ls = map reachable (rt_pool st) \<Longrightarrow> keeps st (st\<lparr>rt_pool := ls\<rparr>)"
  by (simp add: keeps_def)

lemma keeps_ok:
  assumes "keeps st st'" "tasks st' t = tasks st t"
  shows "waits_ok st' p t = waits_ok st p t" "resumes_ok st' t = resumes_ok st t" "ready_ok st' t = ready_ok st t"
  using assms keeps_none(2) [OF assms(1)] by (intro ok_cong; simp add: keeps_def)+

text \<open>A ready task that is offered to the scheduler again is registered nowhere and goes to a deque.\<close>

lemma try_schedule_ready:
  assumes inv: "sched_inv n st W C E" and t: "t \<in> C" "ready_ok st t" and w: "wid < n" and max: "int (next_addr st) \<le> MAX_INT"
  shows "(\<exists>st'. try_schedule_async t wid st = Inr st' \<and> sched_inv n st' W (C - {t}) E \<and> keeps st st' \<and>
              (\<forall>t'. t' \<noteq> t \<longrightarrow> tasks st' t' = tasks st t') \<and>
              pool_tasks n (rt_pool st') = pool_tasks n (rt_pool st) + {#t#}) \<or>
         try_schedule_async t wid st = Inl Assert_failed \<and> \<not> roomy st"
proof -
  obtain tk where tk: "tasks st t = Some tk" "length (waiting_on tk) = 4"
    using t(2) by (auto simp: ready_ok_def task_ok_def task_valid_def split: option.splits)
  have elig: "is_eligible_to_schedule t st =
      (if waiting_on tk ! 0 \<noteq> None then register_on_all_promise_dependencies t st else Inr (st, True))"
    using tk arr_get_int [of 0 "waiting_on tk"] by (simp add: is_eligible_to_schedule_def get_task_def)
  have same: "same_but st t st" by (simp add: same_but_def)
  obtain st1 where st1: "is_eligible_to_schedule t st = Inr (st1, True)" "same_but st t st1"
      "sched_inv n st1 W C E" "ready_ok st1 t"
  proof (cases "waiting_on tk ! 0")
    case None
    then show ?thesis using that [of st] elig inv t(2) same by simp
  next
    case (Some f)
    then show ?thesis using that elig register_inv [OF inv t(1) ready_resumes [OF t(2)]] t(2) by auto
  qed
  have k: "keeps st st1" "rt_pool st1 = rt_pool st" "\<And>t'. t' \<noteq> t \<Longrightarrow> tasks st1 t' = tasks st t'"
    using st1(2) by (auto simp: same_but_def)
  have max1: "int (next_addr st1) \<le> MAX_INT" using k(1) max by (simp add: keeps_def)
  have run: "try_schedule_async t wid st = rt_schedule_async t wid st1"
    using st1(1) by (simp add: try_schedule_async_def)
  from schedule_inv [OF st1(3) t(1) st1(4) w max1] show ?thesis
  proof (elim disjE exE conjE, goal_cases)
    case (1 ls)
    have "keeps st (st1\<lparr>rt_pool := ls\<rparr>)" by (rule keeps_trans [OF k(1) keeps_pool [OF 1(3)]])
    then show ?thesis using 1 run k by auto
  next
    case 2
    then show ?thesis using run keeps_roomy [OF k(1)] by simp
  qed
qed

text \<open>
  One round of the loop: the task at the head of the list goes to a deque when it is ready, and to
  the wait list of its next open future otherwise.
\<close>

lemma put_round:
  assumes inv: "sched_inv n st W C E" and t: "t \<in> C" "resumes_ok st t" and w: "wid < n" and max: "int (next_addr st) \<le> MAX_INT"
  defines "r \<equiv> res_bind (register_on_all_promise_dependencies t st) (\<lambda>(st1, ok).
                if ok then try_schedule_async t wid st1 else Inr st1)"
  shows "(\<exists>st' W'. r = Inr st' \<and> sched_inv n st' W' (C - {t}) E \<and> keeps st st' \<and>
              (\<forall>t'. t' \<noteq> t \<longrightarrow> tasks st' t' = tasks st t') \<and>
              pool_tasks n (rt_pool st') = pool_tasks n (rt_pool st) + (if ready_ok st t then {#t#} else {#}) \<and>
              waiting W' = waiting W \<union> (if ready_ok st t then {} else {t})) \<or>
         r = Inl Assert_failed \<and> \<not> roomy st"
proof -
  obtain st1 ok where st1: "register_on_all_promise_dependencies t st = Inr (st1, ok)" "same_but st t st1" "ok \<longleftrightarrow> ready_ok st t"
    and cases: "if ok then sched_inv n st1 W C E \<and> ready_ok st1 t
      else \<exists>p pr. promises st p = Some pr \<and> \<not> satisfied pr \<and> sched_inv n st1 (W(p := t # W p)) (C - {t}) E"
    using register_inv [OF inv t] by blast
  have k: "keeps st st1" "rt_pool st1 = rt_pool st" "\<And>t'. t' \<noteq> t \<Longrightarrow> tasks st1 t' = tasks st t'"
    using st1(2) by (auto simp: same_but_def)
  show ?thesis
  proof (cases ok)
    case True
    have max1: "int (next_addr st1) \<le> MAX_INT" using k(1) max by (simp add: keeps_def)
    have ok1: "sched_inv n st1 W C E" "ready_ok st1 t" using cases True by auto
    have r: "r = try_schedule_async t wid st1" using st1(1) True by (simp add: r_def)
    from try_schedule_ready [OF ok1(1) t(1) ok1(2) w max1] show ?thesis
    proof (elim disjE exE conjE, goal_cases)
      case (1 st')
      have "keeps st st'" by (rule keeps_trans [OF k(1) 1(3)])
      then have "r = Inr st' \<and> sched_inv n st' W (C - {t}) E \<and> keeps st st' \<and>
              (\<forall>t'. t' \<noteq> t \<longrightarrow> tasks st' t' = tasks st t') \<and>
              pool_tasks n (rt_pool st') = pool_tasks n (rt_pool st) + (if ready_ok st t then {#t#} else {#}) \<and>
              waiting W = waiting W \<union> (if ready_ok st t then {} else {t})"
        using 1 r k st1(3) True by auto
      then show ?thesis by blast
    next
      case 2
      then show ?thesis using r keeps_roomy [OF k(1)] by simp
    qed
  next
    case False
    then obtain p where "sched_inv n st1 (W(p := t # W p)) (C - {t}) E" using cases by auto
    then have "r = Inr st1 \<and> sched_inv n st1 (W(p := t # W p)) (C - {t}) E \<and> keeps st st1 \<and>
              (\<forall>t'. t' \<noteq> t \<longrightarrow> tasks st1 t' = tasks st t') \<and>
              pool_tasks n (rt_pool st1) = pool_tasks n (rt_pool st) + (if ready_ok st t then {#t#} else {#}) \<and>
              waiting (W(p := t # W p)) = waiting W \<union> (if ready_ok st t then {} else {t})"
      using st1 k False by (simp add: r_def waiting_cons)
    then show ?thesis by blast
  qed
qed

lemma put_loop_inv:
  assumes "sched_inv n st W C E" "wid < n" "int (next_addr st) \<le> MAX_INT"
    and "chain (tasks st) w ts" "distinct ts" "set ts \<subseteq> C" "\<forall>t \<in> set ts. resumes_ok st t" "length ts \<le> fuel"
  shows "(\<exists>st' W'. put_loop fuel wid w st = Inr st' \<and> sched_inv n st' W' (C - set ts) E \<and> keeps st st' \<and>
              pool_tasks n (rt_pool st') = pool_tasks n (rt_pool st) + mset (filter (ready_ok st) ts) \<and>
              waiting W' = waiting W \<union> {t \<in> set ts. \<not> ready_ok st t}) \<or>
         put_loop fuel wid w st = Inl Assert_failed \<and> \<not> roomy st"
  using assms
proof (induction ts arbitrary: fuel w st W C)
  case Nil
  then show ?case by (auto intro!: exI [of _ W])
next
  case (Cons t ts)
  obtain fuel' where fuel: "fuel = Suc fuel'" "length ts \<le> fuel'" using Cons.prems(8) by (cases fuel) auto
  obtain tk where tk: "w = Waiter t" "tasks st t = Some tk" "chain (tasks st) (next_waiter tk) ts"
    using Cons.prems(4) by (auto split: option.splits)
  let ?r = "res_bind (register_on_all_promise_dependencies t st) (\<lambda>(st1, ok). if ok then try_schedule_async t wid st1 else Inr st1)"
  have run: "put_loop fuel wid w st = res_bind ?r (put_loop fuel' wid (next_waiter tk))"
    using tk by (cases "register_on_all_promise_dependencies t st") (auto simp: fuel(1) get_task_def)
  have t: "t \<in> C" "resumes_ok st t" "t \<notin> set ts" "distinct ts" using Cons.prems(5-7) by auto
  from put_round [OF Cons.prems(1) t(1,2) Cons.prems(2,3)] show ?case
  proof (elim disjE exE conjE, goal_cases)
    case (1 st1 W1)
    have k: "keeps st st1" and same: "\<And>t'. t' \<in> set ts \<Longrightarrow> tasks st1 t' = tasks st t'" using 1 t(3) by auto
    have chain1: "chain (tasks st1) (next_waiter tk) ts"
      using tk(3) same by (induction ts arbitrary: tk) (auto split: option.splits)
    have "set ts \<subseteq> C - {t}" "\<forall>t' \<in> set ts. resumes_ok st1 t'"
      using Cons.prems(6,7) t(3) keeps_ok(2) [OF k] same by auto
    moreover have "int (next_addr st1) \<le> MAX_INT" using k Cons.prems(3) by (simp add: keeps_def)
    moreover have run1: "put_loop fuel wid w st = put_loop fuel' wid (next_waiter tk) st1" using run 1(1) by simp
    moreover have ready: "\<forall>t' \<in> set ts. ready_ok st1 t' = ready_ok st t'" using keeps_ok(3) [OF k] same by blast
    moreover have "C - set (t # ts) = C - {t} - set ts" by auto
    ultimately have "(\<exists>st' W'. put_loop fuel wid w st = Inr st' \<and> sched_inv n st' W' (C - set (t # ts)) E \<and> keeps st1 st' \<and>
              pool_tasks n (rt_pool st') = pool_tasks n (rt_pool st1) + mset (filter (ready_ok st) ts) \<and>
              waiting W' = waiting W1 \<union> {t' \<in> set ts. \<not> ready_ok st t'}) \<or>
         put_loop fuel wid w st = Inl Assert_failed \<and> \<not> roomy st1"
      using Cons.IH [OF 1(2) Cons.prems(2) _ chain1 t(4) _ _ fuel(2)] filter_cong [OF refl, of ts "ready_ok st1" "ready_ok st"]
      by (simp cong: conj_cong)
    then show ?case
    proof (elim disjE exE conjE, goal_cases)
      case (1 st' W')
      then have "keeps st st'" using keeps_trans [OF k] by blast
      moreover have "pool_tasks n (rt_pool st') = pool_tasks n (rt_pool st) + mset (filter (ready_ok st) (t # ts))"
        "waiting W' = waiting W \<union> {t' \<in> set (t # ts). \<not> ready_ok st t'}"
        using 1(4,5) \<open>pool_tasks n (rt_pool st1) = _\<close> \<open>waiting W1 = _\<close> by auto
      ultimately show ?case using 1(1,2) by blast
    next
      case 2
      then show ?case using keeps_roomy [OF k] by simp
    qed
  next
    case 2
    then show ?case using run by simp
  qed
qed

text \<open>Closing a promise: its waiters are taken in hand, and more dependencies are closed.\<close>

definition close_promise :: "nat \<Rightarrow> 'd option \<Rightarrow> ('c, 'd, 'i) rt \<Rightarrow> ('c, 'd, 'i) rt" where
  "close_promise p d st = put_promise p \<lparr>satisfied = True, datum = d, wait_list_head = Satisfied_ptr\<rparr> st"

lemma close_closed:
  assumes "promises st p = Some pr"
  shows "dep_closed (close_promise p d st) f \<longleftrightarrow> dep_closed st f \<or> f = Some p"
    and "deps_exist (close_promise p d st) = deps_exist st"
  using assms by (auto simp: close_promise_def dep_closed_def deps_exist_def fun_eq_iff split: option.splits)

lemma close_ok:
  assumes "promises st p = Some pr"
  shows "waits_ok st q t \<Longrightarrow> waits_ok (close_promise p d st) q t" "ready_ok st t \<Longrightarrow> ready_ok (close_promise p d st) t"
    "waits_ok st p t \<Longrightarrow> resumes_ok (close_promise p d st) t"
proof -
  note c = close_closed [OF assms, where d = d]
  have ts: "tasks (close_promise p d st) = tasks st" by (simp add: close_promise_def)
  show "waits_ok st q t \<Longrightarrow> waits_ok (close_promise p d st) q t" "ready_ok st t \<Longrightarrow> ready_ok (close_promise p d st) t"
    by (auto simp: waits_ok_def ready_ok_def task_ok_def c ts split: option.splits)
  assume "waits_ok st p t"
  then obtain tk where tk: "tasks st t = Some tk" "task_valid tk" "deps_exist st tk" "0 \<le> waiting_on_index tk"
      "deps tk ! nat (waiting_on_index tk) = Some p" "\<And>j. int j < waiting_on_index tk \<Longrightarrow> dep_closed st (deps tk ! j)"
    by (auto simp: waits_ok_def task_ok_def split: option.splits)
  have "dep_closed st (deps tk ! j) \<or> deps tk ! j = Some p" if "int j \<le> waiting_on_index tk" for j
  proof (cases "int j = waiting_on_index tk")
    case True
    then show ?thesis using tk(5) by (metis nat_int)
  qed (use tk(6) that in auto)
  then show "resumes_ok (close_promise p d st) t" using tk by (simp add: resumes_ok_def task_ok_def c ts)
qed

lemma waiting_close: "prom_inv st W \<Longrightarrow> waiting (W(p := [])) = waiting W - set (W p)"
  using prom_invD(7) [of st W p] by (fastforce simp: waiting_def split: if_splits)

lemma close_inv:
  assumes inv: "sched_inv n st W C E" and p: "promises st p = Some pr" "\<not> satisfied pr"
  shows "sched_inv n (close_promise p d st) (W(p := [])) (C \<union> set (W p)) E"
proof -
  have P: "prom_inv st W" and L: "place_inv n st W C E" and S: "site_inv n st"
    using inv by (auto simp: sched_inv_def)
  have ts: "tasks (close_promise p d st) = tasks st" "rt_pool (close_promise p d st) = rt_pool st"
      "next_addr (close_promise p d st) = next_addr st" "rt_workers (close_promise p d st) = rt_workers st"
      "promises (close_promise p d st) = (promises st)(p \<mapsto> \<lparr>satisfied = True, datum = d, wait_list_head = Satisfied_ptr\<rparr>)"
    by (simp_all add: close_promise_def)
  have sub: "set (W p) \<subseteq> waiting W" by (auto simp: waiting_def)
  have "prom_inv (close_promise p d st) (W(p := []))"
    using prom_invD [OF P] close_ok(1) [OF p(1)] by (intro prom_invI) (auto simp: ts split: if_splits)
  moreover have "place_inv n (close_promise p d st) (W(p := [])) (C \<union> set (W p)) E"
  proof (rule place_invI)
    note D = place_invD [OF L]
    have u: "C \<union> set (W p) \<union> waiting (W(p := [])) = C \<union> waiting W" using sub waiting_close [OF P] by auto
    fix t l w
    show "count (pool_tasks n (rt_pool (close_promise p d st))) t \<le> 1" using D(1) ts by simp
    show "t \<notin> C \<union> set (W p) \<union> E \<union> waiting (W(p := [])) \<and> ready_ok (close_promise p d st) t"
      if "t \<in># pool_tasks n (rt_pool (close_promise p d st))"
      using D(2) [of t] that close_ok(2) [OF p(1)] u unfolding ts by blast
    show "(C \<union> set (W p)) \<inter> E = {}" "waiting (W(p := [])) \<inter> (C \<union> set (W p) \<union> E) = {}"
      using D(3,4) sub waiting_close [OF P] by auto
    show "tasks (close_promise p d st) t \<noteq> None \<longleftrightarrow>
       t \<in># pool_tasks n (rt_pool (close_promise p d st)) \<or> t \<in> C \<union> set (W p) \<union> E \<union> waiting (W(p := []))"
      using D(5) [of t] u unfolding ts by blast
    show "tasks (close_promise p d st) t \<noteq> None \<Longrightarrow> t < next_addr (close_promise p d st)" using D(6) ts by simp
    show "tail (deques (rt_pool (close_promise p d st) ! l) ! w) + int (card (C \<union> set (W p) \<union> waiting (W(p := []))))
        \<le> int (next_addr (close_promise p d st))" if "l < length (rt_pool (close_promise p d st))" "w < n"
      using D(7) [of l w] that unfolding ts u by blast
  qed
  ultimately show ?thesis using S by (simp add: sched_inv_def site_inv_def ts)
qed

lemma promise_put_inv:
  assumes inv: "sched_inv n st W C E" and p: "promises st p = Some pr" "\<not> satisfied pr" and w: "wid < n"
    and max: "int (next_addr st) \<le> MAX_INT"
  shows "(\<exists>st' W'. hclib_promise_put wid (Some p) d st = Inr st' \<and> sched_inv n st' W' C E \<and>
              keeps (close_promise p d st) st' \<and>
              pool_tasks n (rt_pool st') = pool_tasks n (rt_pool st) + mset (filter (ready_ok (close_promise p d st)) (W p)) \<and>
              waiting W' = waiting W - {t \<in> set (W p). ready_ok (close_promise p d st) t}) \<or>
         hclib_promise_put wid (Some p) d st = Inl Assert_failed \<and> \<not> roomy st"
proof -
  have P: "prom_inv st W" and L: "place_inv n st W C E" using inv by (auto simp: sched_inv_def)
  let ?st = "close_promise p d st"
  have s: "rt_pool ?st = rt_pool st" "next_addr ?st = next_addr st" "tasks ?st = tasks st" "roomy ?st = roomy st"
    by (simp_all add: close_promise_def roomy_def)
  have run: "hclib_promise_put wid (Some p) d st = put_loop (next_addr st) wid (wait_list_head pr) ?st"
    using p by (simp add: hclib_promise_put_def get_promise_def close_promise_def)
  have ch: "chain (tasks ?st) (wait_list_head pr) (W p)" "distinct (W p)"
    using prom_invD(4) [OF P p] prom_invD(5) [OF P] s by auto
  have res: "\<forall>t \<in> set (W p). resumes_ok ?st t" using prom_invD(6) [OF P] close_ok(3) [OF p(1)] by blast
  have sub: "set (W p) \<subseteq> waiting W" by (auto simp: waiting_def)
  have "set (W p) \<subseteq> {..<next_addr st}" using sub place_inv_in(1) [OF L] place_invD(6) [OF L] by blast
  then have fuel: "length (W p) \<le> next_addr st"
    using card_mono [of "{..<next_addr st}" "set (W p)"] distinct_card [OF ch(2)] by simp
  have diff: "C \<union> set (W p) - set (W p) = C" using sub place_invD(4) [OF L] by auto
  have un: "waiting (W(p := [])) \<union> {t \<in> set (W p). \<not> ready_ok ?st t} = waiting W - {t \<in> set (W p). ready_ok ?st t}"
    using waiting_close [OF P] sub by auto
  have max': "int (next_addr ?st) \<le> MAX_INT" using max s by simp
  show ?thesis
    using put_loop_inv [OF close_inv [OF inv p] w max' ch _ res fuel] unfolding run diff un s by simp
qed

section \<open>Properties\<close>

text \<open>
  A runtime with one worker and one locale: promise 0 is open, and task 1 waits on it with no other
  dependency.
\<close>

definition one_waiter :: "(nat, nat, nat) rt" where
  "one_waiter = \<lparr>tasks = [1 \<mapsto> \<lparr>fp = 7, t_finish = None, waiting_on = [Some 0, None, None, None], waiting_on_extra = None,
       waiting_on_index = 0, t_locale = None, non_blocking = False, next_waiter = Sentinel_ptr\<rparr>],
     promises = [0 \<mapsto> \<lparr>satisfied = False, datum = None, wait_list_head = Waiter 1\<rparr>],
     finishes = (\<lambda>_. None), next_addr = 2,
     rt_pool = [\<lparr>loc_id = 0, loc_type = 0, lbl = ''sysmem'', special_type = None, metadata = None, idle_funcs = [],
       reachable = Some True, deques = [new_deque]\<rparr>],
     rt_paths = [\<lparr>pop_path = [0], steal_path = [0], last_successful_steal_locale = 0\<rparr>],
     rt_workers = [\<lparr>ws_id = 0, ws_nworkers = 1, base_intra_socket_workers = 0, limit_intra_socket_workers = 0,
       current_finish = None, curr_task = None\<rparr>]\<rparr>"

lemma one_waiter_inv: "sched_inv 1 one_waiter ((\<lambda>_. [])(0 := [1])) {} {}"
proof -
  have w: "waiting ((\<lambda>_. [])(0 := [1])) = {1 :: nat}" by (auto simp: waiting_def split: if_splits)
  have pool: "pool_tasks 1 (rt_pool one_waiter) = {#}"
    by (simp add: pool_tasks_def one_waiter_def tasks_at_def deque_wf_new)
  have "prom_inv one_waiter ((\<lambda>_. [])(0 := [1]))"
    by (rule prom_invI) (auto simp: one_waiter_def waits_ok_def task_ok_def task_valid_def deps_def deps_exist_def split: if_splits)
  moreover have "place_inv 1 one_waiter ((\<lambda>_. [])(0 := [1])) {} {}"
    by (rule place_invI; (unfold w pool)?; auto simp: one_waiter_def new_deque_def split: if_splits)
  moreover have "site_inv 1 one_waiter"
    by (auto simp: site_inv_def one_waiter_def pool_wf_def deque_wf_new split: if_splits)
  ultimately show ?thesis by (simp add: sched_inv_def)
qed



end
