(* ===== verification/Finish_Scopes.thy ===== *)
theory Finish_Scopes
  imports Scheduler_Invariant
begin

text \<open>
  The parts of \<^verbatim>\<open>src/src/hclib-runtime.c\<close> and \<^verbatim>\<open>src/src/hclib.c\<close> that create tasks, run them and count
  them: spawning, \<^verbatim>\<open>execute_task\<close>, the search for a task, and finish scopes. A finish counts
  its live tasks, its open child scopes, and itself while its body runs; the lemmas here
  say how each operation changes that count and the invariant of the scheduler.
\<close>

section \<open>Functions and data of the runtime\<close>

text \<open>
  What a task runs: a user function with its argument, \<^verbatim>\<open>future_caller\<close> with its wrapper (the promise
  and the user function), or \<^verbatim>\<open>_finish_ctx_resume\<close> with a suspended context. What a
  promise holds: a user value, or the finish that \<^verbatim>\<open>check_out_finish\<close> puts.
\<close>

datatype 'u code = User 'u | Future_caller nat 'u | Resume nat

datatype 'd data = User_data 'd | Finish_ptr nat

type_synonym ('u, 'd, 'i) hrt = "('u code, 'd data, 'i) rt"

definition get_finish :: "('c, 'd, 'i) rt \<Rightarrow> nat \<Rightarrow> finish result" where
  "get_finish st f = from_ptr (finishes st f)"

definition put_finish :: "nat \<Rightarrow> finish \<Rightarrow> ('c, 'd, 'i) rt \<Rightarrow> ('c, 'd, 'i) rt" where
  "put_finish f fin st = st\<lparr>finishes := (finishes st)(f \<mapsto> fin)\<rparr>"

definition set_worker :: "nat \<Rightarrow> nat option \<Rightarrow> nat option \<Rightarrow> ('c, 'd, 'i) rt \<Rightarrow> ('c, 'd, 'i) rt" where
  "set_worker wid f t st =
     st\<lparr>rt_workers := (rt_workers st)[wid := (rt_workers st ! wid)\<lparr>current_finish := f, curr_task := t\<rparr>]\<rparr>"

abbreviation cur_finish :: "('c, 'd, 'i) rt \<Rightarrow> nat \<Rightarrow> nat option" where
  "cur_finish st wid \<equiv> current_finish (rt_workers st ! wid)"

abbreviation cur_task :: "('c, 'd, 'i) rt \<Rightarrow> nat \<Rightarrow> nat option" where
  "cur_task st wid \<equiv> curr_task (rt_workers st ! wid)"

section \<open>Counting\<close>

definition check_in_finish :: "nat option \<Rightarrow> ('c, 'd, 'i) rt \<Rightarrow> ('c, 'd, 'i) rt result" where
  "check_in_finish finish st =
     (case finish of
        None \<Rightarrow> Inr st
      | Some f \<Rightarrow> res_bind (get_finish st f) (\<lambda>fin.
          Inr (put_finish f (fin\<lparr>counter := wrap32 (counter fin + 1)\<rparr>) st)))"

definition check_out_finish :: "nat \<Rightarrow> nat option \<Rightarrow> ('u, 'd, 'i) hrt \<Rightarrow> ('u, 'd, 'i) hrt result" where
  "check_out_finish wid finish st =
     (case finish of
        None \<Rightarrow> Inr st
      | Some f \<Rightarrow> res_bind (get_finish st f) (\<lambda>fin.
          let st1 = put_finish f (fin\<lparr>counter := wrap32 (counter fin - 1)\<rparr>) st in
          if counter fin = 1 then
            res_bind (from_ptr (finish_dep fin)) (\<lambda>p. hclib_promise_put wid (Some p) (Some (Finish_ptr f)) st1)
          else Inr st1))"

section \<open>Running a task\<close>

text \<open>\<^verbatim>\<open>execute_task\<close> before and after the call of the task's function.\<close>

definition execute_begin :: "nat \<Rightarrow> nat \<Rightarrow> ('c, 'd, 'i) rt \<Rightarrow> ('c, 'd, 'i) rt result" where
  "execute_begin wid t st = res_bind (get_task st t) (\<lambda>tk. Inr (set_worker wid (t_finish tk) (Some t) st))"

definition execute_end :: "nat \<Rightarrow> nat \<Rightarrow> ('u, 'd, 'i) hrt \<Rightarrow> ('u, 'd, 'i) hrt result" where
  "execute_end wid t st =
     res_bind (get_task st t) (\<lambda>tk.
     res_bind (check_out_finish wid (t_finish tk) st) (\<lambda>st1.
     Inr (st1\<lparr>tasks := (tasks st1)(t := None)\<rparr>)))"

definition hclib_default_queue_capacity :: "nat \<Rightarrow> ('c, 'd, 'i) rt \<Rightarrow> (int \<times> int) result" where
  "hclib_default_queue_capacity wid st =
     res_bind (get_deque_locale (rt_pool st) 0 (ws_id (rt_workers st ! wid))) (\<lambda>q.
     Inr (wrap32 (tail q - head q), INIT_DEQUE_CAPACITY))"

section \<open>Creating tasks\<close>

text \<open>A task from \<^verbatim>\<open>calloc\<close>, with its function; the null pointer as \<^verbatim>\<open>next_waiter\<close> is \<open>Satisfied_ptr\<close>.\<close>

definition new_task :: "'c \<Rightarrow> bool \<Rightarrow> 'c task" where
  "new_task c nb = \<lparr>fp = c, t_finish = None, waiting_on = replicate 4 None, waiting_on_extra = None,
     waiting_on_index = 0, t_locale = None, non_blocking = nb, next_waiter = Satisfied_ptr\<rparr>"

definition alloc_task :: "'c \<Rightarrow> bool \<Rightarrow> ('c, 'd, 'i) rt \<Rightarrow> ('c, 'd, 'i) rt \<times> nat" where
  "alloc_task c nb st =
     (put_task (next_addr st) (new_task c nb) (st\<lparr>next_addr := next_addr st + 1\<rparr>), next_addr st)"

definition set_futures :: "nat option list \<Rightarrow> 'c task \<Rightarrow> 'c task" where
  "set_futures futures tk =
     (if futures = [] then tk
      else let n_inlined = min (length futures) (nat MAX_NUM_WAITS) in
        tk\<lparr>waiting_on := take n_inlined futures @ drop n_inlined (waiting_on tk),
           waiting_on_extra := (if int (length futures) > MAX_NUM_WAITS
                                then Some (drop (nat MAX_NUM_WAITS) futures @ [None]) else waiting_on_extra tk),
           waiting_on_index := -1\<rparr>)"

definition spawn_handler ::
  "nat \<Rightarrow> nat \<Rightarrow> nat option \<Rightarrow> nat option list \<Rightarrow> bool \<Rightarrow> ('c, 'd, 'i) rt \<Rightarrow> ('c, 'd, 'i) rt result" where
  "spawn_handler wid t loc futures escaping st =
     (let f = (if escaping then None else cur_finish st wid) in
      res_bind (check_in_finish f st) (\<lambda>st1.
      res_bind (get_task st1 t) (\<lambda>tk.
      let tk1 = tk\<lparr>t_finish := f\<rparr>;
          tk2 = (case loc of None \<Rightarrow> tk1 | Some l \<Rightarrow> tk1\<lparr>t_locale := Some l\<rparr>)
      in try_schedule_async t wid (put_task t (set_futures futures tk2) st1))))"

definition spawn_at :: "nat \<Rightarrow> nat \<Rightarrow> nat option \<Rightarrow> ('c, 'd, 'i) rt \<Rightarrow> ('c, 'd, 'i) rt result" where
  "spawn_at wid t loc = spawn_handler wid t loc [] False"

definition spawn :: "nat \<Rightarrow> nat \<Rightarrow> ('c, 'd, 'i) rt \<Rightarrow> ('c, 'd, 'i) rt result" where
  "spawn wid t = spawn_handler wid t None [] False"

definition spawn_escaping :: "nat \<Rightarrow> nat \<Rightarrow> nat option \<Rightarrow> ('c, 'd, 'i) rt \<Rightarrow> ('c, 'd, 'i) rt result" where
  "spawn_escaping wid t future = spawn_handler wid t None [future] True"

definition spawn_escaping_at :: "nat \<Rightarrow> nat option \<Rightarrow> nat \<Rightarrow> nat option \<Rightarrow> ('c, 'd, 'i) rt \<Rightarrow> ('c, 'd, 'i) rt result" where
  "spawn_escaping_at wid loc t future = spawn_handler wid t loc [future] True"

definition spawn_await_at :: "nat \<Rightarrow> nat \<Rightarrow> nat option list \<Rightarrow> nat option \<Rightarrow> ('c, 'd, 'i) rt \<Rightarrow> ('c, 'd, 'i) rt result" where
  "spawn_await_at wid t futures loc = spawn_handler wid t loc futures False"

definition spawn_await :: "nat \<Rightarrow> nat \<Rightarrow> nat option list \<Rightarrow> ('c, 'd, 'i) rt \<Rightarrow> ('c, 'd, 'i) rt result" where
  "spawn_await wid t futures = spawn_await_at wid t futures None"

definition hclib_async ::
  "nat \<Rightarrow> 'c \<Rightarrow> nat option list \<Rightarrow> nat option \<Rightarrow> ('c, 'd, 'i) rt \<Rightarrow> ('c, 'd, 'i) rt result" where
  "hclib_async wid c futures loc st =
     (let (st1, t) = alloc_task c False st in
      if futures \<noteq> [] then spawn_await_at wid t futures loc st1 else spawn_at wid t loc st1)"

definition hclib_async_nb :: "nat \<Rightarrow> 'c \<Rightarrow> nat option \<Rightarrow> ('c, 'd, 'i) rt \<Rightarrow> ('c, 'd, 'i) rt result" where
  "hclib_async_nb wid c loc st = (let (st1, t) = alloc_task c True st in spawn_at wid t loc st1)"

text \<open>The promise of the wrapper is an object of its own here; the result is its future.\<close>

definition hclib_async_future ::
  "nat \<Rightarrow> 'u \<Rightarrow> nat option list \<Rightarrow> nat option \<Rightarrow> ('u, 'd, 'i) hrt \<Rightarrow> (('u, 'd, 'i) hrt \<times> nat) result" where
  "hclib_async_future wid c futures loc st =
     (let (st1, p) = hclib_promise_create st in
      res_bind (hclib_async wid (Future_caller p c) futures loc st1) (\<lambda>st2. Inr (st2, hclib_get_future_for_promise p)))"

section \<open>Finish scopes\<close>

definition hclib_start_finish :: "nat \<Rightarrow> ('c, 'd, 'i) rt \<Rightarrow> ('c, 'd, 'i) rt result" where
  "hclib_start_finish wid st =
     (let f = next_addr st; par = cur_finish st wid in
      res_bind (check_in_finish par
                  (put_finish f \<lparr>parent = par, counter = 1, finish_dep = None\<rparr> (st\<lparr>next_addr := f + 1\<rparr>))) (\<lambda>st1.
      Inr (set_worker wid (Some f) (cur_task st1 wid) st1)))"

text \<open>\<^verbatim>\<open>hclib_end_finish\<close> after \<^verbatim>\<open>help_finish\<close> has returned.\<close>

definition leave_finish :: "nat \<Rightarrow> nat \<Rightarrow> nat option \<Rightarrow> ('u, 'd, 'i) hrt \<Rightarrow> ('u, 'd, 'i) hrt result" where
  "leave_finish wid f tsk st =
     res_bind (get_finish st f) (\<lambda>fin.
     res_bind (check_out_finish wid (parent fin) st) (\<lambda>st1.
     let st2 = set_worker wid (parent fin) tsk st1 in Inr (st2\<lparr>finishes := (finishes st2)(f := None)\<rparr>)))"

definition hclib_end_finish_nonblocking_helper :: "nat \<Rightarrow> nat \<Rightarrow> ('u, 'd, 'i) hrt \<Rightarrow> ('u, 'd, 'i) hrt result" where
  "hclib_end_finish_nonblocking_helper wid event st =
     res_bind (from_ptr (cur_finish st wid)) (\<lambda>f.
     res_bind (get_finish st f) (\<lambda>fin.
     res_bind (c_assert (counter fin > 0)) (\<lambda>_.
     res_bind (check_out_finish wid (Some f) (put_finish f (fin\<lparr>finish_dep := Some event\<rparr>) st)) (\<lambda>st1.
     res_bind (check_out_finish wid (parent fin) st1) (\<lambda>st2.
     Inr (set_worker wid (parent fin) (cur_task st wid) st2))))))"

definition hclib_end_finish_nonblocking :: "nat \<Rightarrow> ('u, 'd, 'i) hrt \<Rightarrow> (('u, 'd, 'i) hrt \<times> nat) result" where
  "hclib_end_finish_nonblocking wid st =
     (let (st1, event) = hclib_promise_create st in
      res_bind (hclib_end_finish_nonblocking_helper wid event st1) (\<lambda>st2.
      Inr (st2, hclib_get_future_for_promise event)))"

section \<open>The search for a task\<close>

text \<open>
  \<^verbatim>\<open>find_and_run_task\<close> up to the point where it has a task: one pop, then attempts to steal until the
  flag has the wanted value. A call of \<open>find_step\<close> is one pop or one attempt.
\<close>

datatype search = Got nat | Give_up | Try_steal

fun reschedule :: "nat \<Rightarrow> nat option list \<Rightarrow> ('c, 'd, 'i) rt \<Rightarrow> ('c, 'd, 'i) rt result" where
  "reschedule wid [] st = Inr st"
| "reschedule wid (t # ts) st =
     res_bind (from_ptr t) (\<lambda>t'. res_bind (rt_schedule_async t' wid st) (\<lambda>st1. reschedule wid ts st1))"

definition pop_step :: "nat \<Rightarrow> ('c, 'd, 'i) rt \<Rightarrow> (('c, 'd, 'i) rt \<times> search) result" where
  "pop_step wid st =
     res_bind (locale_pop_task (worker_state.truncate (rt_workers st ! wid)) (rt_paths st ! wid) (rt_pool st)) (\<lambda>(ls, r).
     Inr (st\<lparr>rt_pool := ls\<rparr>, case r of Some t \<Rightarrow> Got t | None \<Rightarrow> Try_steal))"

definition steal_step :: "nat \<Rightarrow> ('c, 'd, 'i) rt \<Rightarrow> (('c, 'd, 'i) rt \<times> search) result" where
  "steal_step wid st =
     res_bind (locale_steal_task (worker_state.truncate (rt_workers st ! wid)) (rt_paths st ! wid) (rt_pool st)) (\<lambda>(ls, paths, r).
     let st1 = st\<lparr>rt_pool := ls, rt_paths := (rt_paths st)[wid := paths]\<rparr> in
     case r of
       None \<Rightarrow> Inr (st1, Try_steal)
     | Some (stolen, victim) \<Rightarrow>
         res_bind (arr_get stolen 0) (\<lambda>s.
         res_bind (from_ptr s) (\<lambda>t.
         res_bind (reschedule wid (tl stolen) st1) (\<lambda>st2. Inr (st2, Got t)))))"

definition find_step :: "nat \<Rightarrow> bool \<Rightarrow> bool \<Rightarrow> ('c, 'd, 'i) rt \<Rightarrow> (('c, 'd, 'i) rt \<times> search) result" where
  "find_step wid stealing reached st =
     (if \<not> stealing then pop_step wid st
      else if reached then Inr (st, Give_up) else steal_step wid st)"

text \<open>Whether \<^verbatim>\<open>find_and_run_task\<close> executes the task it has found, or returns it.\<close>

definition runs_here :: "bool \<Rightarrow> nat option \<Rightarrow> 'c task \<Rightarrow> bool" where
  "runs_here on_fresh_ctx current tk \<longleftrightarrow>
     on_fresh_ctx \<or> non_blocking tk \<or> (t_finish tk \<noteq> None \<and> t_finish tk = current)"

section \<open>What the scheduler's invariant does not depend on\<close>

lemma finish_sel [simp]:
  "tasks (put_finish f fin st) = tasks st" "promises (put_finish f fin st) = promises st"
  "finishes (put_finish f fin st) = (finishes st)(f \<mapsto> fin)" "next_addr (put_finish f fin st) = next_addr st"
  "rt_pool (put_finish f fin st) = rt_pool st" "rt_paths (put_finish f fin st) = rt_paths st"
  "rt_workers (put_finish f fin st) = rt_workers st"
  by (simp_all add: put_finish_def)

lemma worker_sel [simp]:
  "tasks (set_worker w f t st) = tasks st" "promises (set_worker w f t st) = promises st"
  "finishes (set_worker w f t st) = finishes st" "next_addr (set_worker w f t st) = next_addr st"
  "rt_pool (set_worker w f t st) = rt_pool st" "rt_paths (set_worker w f t st) = rt_paths st"
  "length (rt_workers (set_worker w f t st)) = length (rt_workers st)"
  by (simp_all add: set_worker_def)

lemma set_worker_nth:
  "rt_workers (set_worker w f t st) ! v =
     (if v = w \<and> w < length (rt_workers st) then (rt_workers st ! w)\<lparr>current_finish := f, curr_task := t\<rparr> else rt_workers st ! v)"
  by (auto simp: set_worker_def nth_upd_if)

lemma truncate_worker [simp]:
  "worker_state.truncate (w\<lparr>current_finish := f, curr_task := t\<rparr>) = worker_state.truncate w"
  "ws_id (w\<lparr>current_finish := f, curr_task := t\<rparr>) = ws_id w"
  by (simp_all add: worker_state.truncate_def)

text \<open>Same tasks, promises, pool and number of addresses, and the same workers but for what they run.\<close>

definition same_sched :: "('c, 'd, 'i) rt \<Rightarrow> ('c, 'd, 'i) rt \<Rightarrow> bool" where
  "same_sched st st' \<longleftrightarrow> tasks st' = tasks st \<and> promises st' = promises st \<and> rt_pool st' = rt_pool st \<and>
     next_addr st' = next_addr st \<and> rt_paths st' = rt_paths st \<and>
     map worker_state.truncate (rt_workers st') = map worker_state.truncate (rt_workers st)"

lemma same_sched_refl [simp]: "same_sched st st"
  by (simp add: same_sched_def)

lemma same_sched_trans: "same_sched a b \<Longrightarrow> same_sched b c \<Longrightarrow> same_sched a c"
  by (simp add: same_sched_def)

lemma truncate_eq: "worker_state.truncate w = worker_state.truncate v \<Longrightarrow> ws_id w = ws_id v"
  by (simp add: worker_state.truncate_def)

lemma same_sched_workers:
  assumes "same_sched st st'"
  shows "length (rt_workers st') = length (rt_workers st)"
    "w < length (rt_workers st) \<Longrightarrow> worker_state.truncate (rt_workers st' ! w) = worker_state.truncate (rt_workers st ! w)"
proof -
  have m: "map worker_state.truncate (rt_workers st') = map worker_state.truncate (rt_workers st)"
    using assms by (simp add: same_sched_def)
  then show l: "length (rt_workers st') = length (rt_workers st)" by (rule map_eq_imp_length_eq)
  show "worker_state.truncate (rt_workers st' ! w) = worker_state.truncate (rt_workers st ! w)" if "w < length (rt_workers st)"
    using that l m by (metis nth_map)
qed

text \<open>What is known of tasks depends on the tasks and promises only.\<close>

lemma dep_cong:
  assumes "promises st' = promises st"
  shows "dep_closed st' = dep_closed st" "deps_exist st' = deps_exist st"
  unfolding fun_eq_iff dep_closed_def deps_exist_def assms by simp_all

lemma heap_cong:
  assumes "tasks st' = tasks st" "promises st' = promises st"
  shows "dep_closed st' = dep_closed st" "deps_exist st' = deps_exist st" "waits_ok st' = waits_ok st" "resumes_ok st' = resumes_ok st"
    "ready_ok st' = ready_ok st" "prom_inv st' W = prom_inv st W"
proof -
  show d: "dep_closed st' = dep_closed st" "deps_exist st' = deps_exist st"
    by (rule dep_cong [OF assms(2)])+
  show ok: "waits_ok st' = waits_ok st" "resumes_ok st' = resumes_ok st" "ready_ok st' = ready_ok st"
    unfolding fun_eq_iff waits_ok_def resumes_ok_def ready_ok_def task_ok_def assms(1) d by simp_all
  show "prom_inv st' W = prom_inv st W" unfolding prom_inv_def assms ok by simp
qed

lemma same_sched_inv:
  assumes "same_sched st st'"
  shows "sched_inv n st' W C E = sched_inv n st W C E"
proof -
  have s: "tasks st' = tasks st" "promises st' = promises st" "rt_pool st' = rt_pool st" "next_addr st' = next_addr st"
    using assms by (auto simp: same_sched_def)
  note ok = heap_cong [OF s(1,2)]
  note l = same_sched_workers [OF assms]
  have "(\<forall>w < n. ws_id (rt_workers st' ! w) = int w) = (\<forall>w < n. ws_id (rt_workers st ! w) = int w)" if "length (rt_workers st) = n"
    using l(2) that truncate_eq by metis
  then have "site_inv n st' = site_inv n st" using s l(1) by (auto simp: site_inv_def)
  then show ?thesis unfolding sched_inv_def place_inv_def s ok by simp
qed

lemma same_sched_put_finish [simp]: "same_sched st (put_finish f fin st)"
  by (simp add: same_sched_def)

lemma same_sched_finishes [simp]: "same_sched st (st\<lparr>finishes := x\<rparr>)"
  by (simp add: same_sched_def)

lemma same_sched_set_worker [simp]: "same_sched st (set_worker w f t st)"
proof -
  have "map worker_state.truncate (rt_workers (set_worker w f t st)) = map worker_state.truncate (rt_workers st)"
    by (cases "w < length (rt_workers st)") (auto simp: set_worker_def map_update list_update_beyond list_update_same_conv)
  then show ?thesis by (simp add: same_sched_def)
qed

section \<open>Tasks enter and leave\<close>

lemma new_task_deps [simp]: "deps (new_task c nb) = replicate 4 None" "task_valid (new_task c nb)"
  by (simp_all add: new_task_def deps_def task_valid_def)

lemma place_fresh:
  assumes "place_inv n st W C E"
  shows "tasks st (next_addr st) = None" "next_addr st \<notin> C \<union> E \<union> waiting W" "next_addr st \<notin># pool_tasks n (rt_pool st)"
  using place_invD(5,6) [OF assms, of "next_addr st"] by (auto simp del: not_None_eq)

text \<open>A task that has just been allocated, or whose fields are being set, is in the hands of the runtime.\<close>

lemma place_cong:
  assumes "place_inv n st W C E" "rt_pool st' = rt_pool st" "next_addr st' = next_addr st"
    and "\<And>t. tasks st' t = None \<longleftrightarrow> tasks st t = None" "\<And>t. t \<in># pool_tasks n (rt_pool st) \<Longrightarrow> ready_ok st t \<Longrightarrow> ready_ok st' t"
  shows "place_inv n st' W C E"
proof (rule place_invI)
  note D = place_invD [OF assms(1)]
  fix t l w
  show "count (pool_tasks n (rt_pool st')) t \<le> 1" using D(1) assms(2) by simp
  show "t \<notin> C \<union> E \<union> waiting W \<and> ready_ok st' t" if "t \<in># pool_tasks n (rt_pool st')"
    using that D(2) assms(2,5) by simp
  show "C \<inter> E = {}" "waiting W \<inter> (C \<union> E) = {}" by (rule D(3), rule D(4))
  show "tasks st' t \<noteq> None \<longleftrightarrow> t \<in># pool_tasks n (rt_pool st') \<or> t \<in> C \<union> E \<union> waiting W"
    using D(5) [of t] assms(2) assms(4) [of t] by simp
  show "t < next_addr st'" if "tasks st' t \<noteq> None" using that D(6) [of t] assms(3) assms(4) [of t] by simp
  show "tail (deques (rt_pool st' ! l) ! w) + int (card (C \<union> waiting W)) \<le> int (next_addr st')"
    if "l < length (rt_pool st')" "w < n" using that D(7) [of l w] assms(2,3) by simp
qed

text \<open>A task in the hands of the runtime may be written to.\<close>

lemma sched_put_held:
  assumes inv: "sched_inv n st W C E" and t: "t \<in> C \<union> E" and l: "\<And>l. t_locale tk = Some l \<Longrightarrow> l < length (rt_pool st)"
  shows "sched_inv n (put_task t tk st) W C E"
proof -
  have P: "prom_inv st W" and L: "place_inv n st W C E" and S: "site_inv n st" using inv by (auto simp: sched_inv_def)
  have t': "t \<notin> waiting W" "t \<notin># pool_tasks n (rt_pool st)" "tasks st t \<noteq> None"
    using place_invD(2,4) [OF L] place_inv_in [OF L, of t] t by blast+
  have "place_inv n (put_task t tk st) W C E"
  proof (rule place_cong [OF L])
    fix t' assume a: "t' \<in># pool_tasks n (rt_pool st)" "ready_ok st t'"
    then have "t' \<noteq> t" using t'(2) by auto
    then show "ready_ok (put_task t tk st) t'" using a(2) by (subst ok_cong(3) [of _ t' st]) auto
  qed (use t'(3) in auto)
  moreover have "site_inv n (put_task t tk st)" using S l by (auto simp: site_inv_def split: if_splits)
  ultimately show ?thesis using prom_inv_put_task [OF P t'(1)] by (simp add: sched_inv_def)
qed

lemma alloc_inv:
  assumes inv: "sched_inv n st W C E"
  shows "sched_inv n (fst (alloc_task c nb st)) W (insert (next_addr st) C) E"
proof -
  let ?a = "next_addr st" and ?st = "fst (alloc_task c nb st)"
  have P: "prom_inv st W" and L: "place_inv n st W C E" and S: "site_inv n st" using inv by (auto simp: sched_inv_def)
  note fresh = place_fresh [OF L] and D = place_invD [OF L]
  have st: "?st = put_task ?a (new_task c nb) (st\<lparr>next_addr := ?a + 1\<rparr>)" by (simp add: alloc_task_def)
  have P1: "prom_inv (st\<lparr>next_addr := ?a + 1\<rparr>) W" using P by (subst heap_cong(6) [of _ st]) simp_all
  have "prom_inv ?st W" unfolding st by (rule prom_inv_put_task [OF P1]) (use fresh(2) in auto)
  moreover have "site_inv n ?st" using S by (auto simp: st site_inv_def new_task_def split: if_splits)
  moreover have "place_inv n ?st W (insert ?a C) E"
  proof (rule place_invI)
    have fin: "finite (C \<union> waiting W)" by (rule held_finite [OF L])
    fix t l w
    show "count (pool_tasks n (rt_pool ?st)) t \<le> 1" using D(1) by (simp add: st)
    show "insert ?a C \<inter> E = {}" "waiting W \<inter> (insert ?a C \<union> E) = {}" using D(3,4) fresh(2) by auto
    show "tasks ?st t \<noteq> None \<longleftrightarrow> t \<in># pool_tasks n (rt_pool ?st) \<or> t \<in> insert ?a C \<union> E \<union> waiting W"
      using D(5) [of t] by (simp add: st)
    show "t < next_addr ?st" if "tasks ?st t \<noteq> None"
    proof (cases "t = ?a")
      case False
      then have "tasks st t \<noteq> None" using that by (simp add: st)
      then show ?thesis using D(6) [of t] by (simp add: st)
    qed (simp add: st)
    show "t \<notin> insert ?a C \<union> E \<union> waiting W \<and> ready_ok ?st t" if "t \<in># pool_tasks n (rt_pool ?st)"
    proof -
      have t: "t \<in># pool_tasks n (rt_pool st)" using that by (simp add: st)
      then have "t \<noteq> ?a" using fresh(3) by auto
      then have "ready_ok ?st t = ready_ok (st\<lparr>next_addr := ?a + 1\<rparr>) t" unfolding st by (intro ok_cong) auto
      also have "\<dots> = ready_ok st t" by (subst heap_cong(5) [of _ st]) simp_all
      finally have "ready_ok ?st t = ready_ok st t" .
      then show ?thesis using D(2) [OF t] fresh(3) t by auto
    qed
    show "tail (deques (rt_pool ?st ! l) ! w) + int (card (insert ?a C \<union> waiting W)) \<le> int (next_addr ?st)"
      if "l < length (rt_pool ?st)" "w < n"
      using D(7) [of l w] that fin fresh(2) by (simp add: st card_insert_if)
  qed
  ultimately show ?thesis by (simp add: sched_inv_def)
qed

lemma try_schedule_inv:
  assumes inv: "sched_inv n st W C E" and t: "t \<in> C" "tasks st t = Some tk"
    and ok: "if waiting_on tk ! 0 = None then ready_ok st t else resumes_ok st t"
    and w: "wid < n" and max: "int (next_addr st) \<le> MAX_INT"
  shows "(\<exists>st' W'. try_schedule_async t wid st = Inr st' \<and> sched_inv n st' W' (C - {t}) E \<and> keeps st st') \<or>
         try_schedule_async t wid st = Inl Assert_failed \<and> \<not> roomy st"
proof (cases "waiting_on tk ! 0 = None")
  case True
  then show ?thesis using try_schedule_ready [OF inv t(1) _ w max] ok by auto
next
  case False
  then have res: "resumes_ok st t" using ok by simp
  then have len: "length (waiting_on tk) = 4" using t(2) by (simp add: resumes_ok_def task_ok_def task_valid_def)
  obtain st1 ok where st1: "register_on_all_promise_dependencies t st = Inr (st1, ok)" "same_but st t st1" "ok \<longleftrightarrow> ready_ok st t"
    and cases: "if ok then sched_inv n st1 W C E \<and> ready_ok st1 t
      else \<exists>p pr. promises st p = Some pr \<and> \<not> satisfied pr \<and> sched_inv n st1 (W(p := t # W p)) (C - {t}) E"
    using register_inv [OF inv t(1) res] by blast
  have k: "keeps st st1" using st1(2) by (simp add: same_but_def)
  have tried: "try_schedule_async t wid st = (if ok then rt_schedule_async t wid st1 else Inr st1)"
    using t(2) False st1(1) len
    by (auto simp: try_schedule_async_def is_eligible_to_schedule_def get_task_def arr_get_def)
  show ?thesis
  proof (cases ok)
    case True
    then have s1: "sched_inv n st1 W C E" "ready_ok st1 t" using cases by auto
    have max1: "int (next_addr st1) \<le> MAX_INT" using max k by (simp add: keeps_def)
    show ?thesis
      using schedule_inv [OF s1(1) t(1) s1(2) w max1] tried True keeps_roomy [OF k] keeps_trans [OF k keeps_pool] by auto
  next
    case False
    then show ?thesis using tried cases k by auto
  qed
qed

text \<open>The futures of a new task.\<close>

lemma set_futures_fields:
  assumes "waiting_on tk = replicate 4 None" "waiting_on_extra tk = None" "fs \<noteq> []"
  shows "waiting_on (set_futures fs tk) = take 4 fs @ replicate (4 - length fs) None"
    "waiting_on_extra (set_futures fs tk) = (if length fs > 4 then Some (drop 4 fs @ [None]) else None)"
    "waiting_on_index (set_futures fs tk) = -1"
  using assms by (auto simp: set_futures_def MAX_NUM_WAITS_def Let_def min_def)

lemma takeWhile_None: "takeWhile (\<lambda>f. f \<noteq> None) (xs @ [None]) = takeWhile (\<lambda>f. f \<noteq> None) xs"
  by (induction xs) auto

lemma set_futures_deps:
  assumes "waiting_on tk = replicate 4 None" "waiting_on_extra tk = None" "fs \<noteq> []"
  shows "deps (set_futures fs tk) = take 4 fs @ replicate (4 - length fs) None @ takeWhile (\<lambda>f. f \<noteq> None) (drop 4 fs)"
    "task_valid (set_futures fs tk)" "waiting_on (set_futures fs tk) ! 0 = hd fs"
proof -
  note F = set_futures_fields [OF assms]
  show d: "deps (set_futures fs tk) = take 4 fs @ replicate (4 - length fs) None @ takeWhile (\<lambda>f. f \<noteq> None) (drop 4 fs)"
    by (simp add: deps_def F takeWhile_None del: not_None_eq)
  show "task_valid (set_futures fs tk)" unfolding task_valid_def d F by (simp add: min_def)
  show "waiting_on (set_futures fs tk) ! 0 = hd fs" unfolding F using assms(3) by (cases fs) (auto simp: nth_append)
qed

lemma set_futures_sub:
  assumes "waiting_on tk = replicate 4 None" "waiting_on_extra tk = None"
  shows "set (deps (set_futures fs tk)) \<subseteq> insert None (set fs)"
proof (cases "fs = []")
  case True
  then show ?thesis using assms by (simp add: set_futures_def deps_def)
next
  case False
  show ?thesis unfolding set_futures_deps(1) [OF assms False]
    by (auto dest: set_takeWhileD in_set_takeD in_set_dropD)
qed

section \<open>What a finish counts\<close>

definition members :: "('c, 'd, 'i) rt \<Rightarrow> nat \<Rightarrow> nat set" where
  "members st f = {t. map_option t_finish (tasks st t) = Some (Some f)}"

text \<open>A scope is open while \<^verbatim>\<open>finish_dep\<close> is null; the scopes opened inside it and still open.\<close>

definition open_scope :: "('c, 'd, 'i) rt \<Rightarrow> nat \<Rightarrow> bool" where
  "open_scope st f \<longleftrightarrow> map_option finish_dep (finishes st f) = Some None"

definition children :: "('c, 'd, 'i) rt \<Rightarrow> nat \<Rightarrow> nat set" where
  "children st f = {g. map_option (\<lambda>fin. (parent fin, finish_dep fin)) (finishes st g) = Some (Some f, None)}"

text \<open>
  The counter of a finish is off by \<open>\<delta> f\<close>, which is 0 outside the operations: 1 for its body, 1 for each
  live task, 1 for each open scope inside it.
\<close>

definition scope_inv :: "('c, 'd, 'i) rt \<Rightarrow> (nat \<Rightarrow> int) \<Rightarrow> bool" where
  "scope_inv st \<delta> \<longleftrightarrow>
     (\<forall>f fin. finishes st f = Some fin \<longrightarrow> f < next_addr st \<and> (\<forall>g. parent fin = Some g \<longrightarrow> g < f) \<and>
        counter fin = of_bool (finish_dep fin = None) + int (card (members st f)) + int (card (children st f)) + \<delta> f) \<and>
     (\<forall>f. members st f \<union> children st f \<noteq> {} \<longrightarrow> finishes st f \<noteq> None) \<and>
     (\<forall>t. tasks st t \<noteq> None \<longrightarrow> t < next_addr st)"

definition bump :: "nat option \<Rightarrow> int \<Rightarrow> (nat \<Rightarrow> int) \<Rightarrow> nat \<Rightarrow> int" where
  "bump f d \<delta> = (case f of None \<Rightarrow> \<delta> | Some a \<Rightarrow> \<delta>(a := \<delta> a + d))"

lemma bump_simps [simp]: "bump None d \<delta> = \<delta>" "bump (Some a) d \<delta> = \<delta>(a := \<delta> a + d)"
  by (simp_all add: bump_def)

lemma bump_cancel [simp]: "bump f d (bump f (- d) \<delta>) = \<delta>" "bump f (- d) (bump f d \<delta>) = \<delta>"
  by (cases f; simp add: fun_eq_iff)+

lemma bump_cancel1 [simp]: "bump f 1 (bump f (-1) \<delta>) = \<delta>" "bump f (-1) (bump f 1 \<delta>) = \<delta>"
  using bump_cancel [of f 1] by simp_all

lemma scope_invD:
  assumes "scope_inv st \<delta>"
  shows "finishes st f = Some fin \<Longrightarrow> f < next_addr st"
    and "finishes st f = Some fin \<Longrightarrow> parent fin = Some g \<Longrightarrow> g < f"
    and "finishes st f = Some fin \<Longrightarrow>
      counter fin = of_bool (finish_dep fin = None) + int (card (members st f)) + int (card (children st f)) + \<delta> f"
    and "t \<in> members st f \<Longrightarrow> finishes st f \<noteq> None" "g \<in> children st f \<Longrightarrow> finishes st f \<noteq> None"
    and "tasks st t \<noteq> None \<Longrightarrow> t < next_addr st"
  using assms unfolding scope_inv_def by blast+

lemma scope_invI:
  assumes "\<And>f fin. finishes st f = Some fin \<Longrightarrow> f < next_addr st"
    and "\<And>f fin g. finishes st f = Some fin \<Longrightarrow> parent fin = Some g \<Longrightarrow> g < f"
    and "\<And>f fin. finishes st f = Some fin \<Longrightarrow>
      counter fin = of_bool (finish_dep fin = None) + int (card (members st f)) + int (card (children st f)) + \<delta> f"
    and "\<And>t f. t \<in> members st f \<Longrightarrow> finishes st f \<noteq> None" "\<And>f g. g \<in> children st f \<Longrightarrow> finishes st f \<noteq> None"
    and "\<And>t. tasks st t \<noteq> None \<Longrightarrow> t < next_addr st"
  shows "scope_inv st \<delta>"
  using assms unfolding scope_inv_def by blast

lemma members_bound:
  assumes "scope_inv st \<delta>"
  shows "finite (members st f)" "card (members st f) \<le> next_addr st"
    "finite (children st f)" "card (children st f) \<le> next_addr st"
proof -
  have sub: "members st f \<subseteq> {..<next_addr st}" "children st f \<subseteq> {..<next_addr st}"
    using scope_invD(1,6) [OF assms] by (auto simp: members_def children_def)
  then show "finite (members st f)" "finite (children st f)" by (auto intro: finite_subset)
  show "card (members st f) \<le> next_addr st" "card (children st f) \<le> next_addr st"
    using sub card_mono [of "{..<next_addr st}"] by fastforce+
qed

lemma scope_cong:
  assumes "scope_inv st \<delta>" "\<And>t. map_option t_finish (tasks st' t) = map_option t_finish (tasks st t)"
    and "finishes st' = finishes st" "next_addr st' = next_addr st"
  shows "scope_inv st' \<delta>"
proof -
  have m: "members st' = members st" "children st' = children st" using assms(2,3) by (simp_all add: members_def children_def fun_eq_iff)
  have t: "tasks st' t = None \<longleftrightarrow> tasks st t = None" for t using assms(2) [of t] by (metis option.map_disc_iff)
  show ?thesis using assms(1) unfolding scope_inv_def assms(3,4) m t .
qed

text \<open>The counters stay in the range of an \<^verbatim>\<open>int\<close> while no more than \<open>10 ^ 9\<close> objects have been allocated.\<close>

definition few_objects :: "('c, 'd, 'i) rt \<Rightarrow> bool" where
  "few_objects st \<longleftrightarrow> next_addr st \<le> 10 ^ 9"

lemma counter_range:
  assumes "scope_inv st \<delta>" "few_objects st" "finishes st f = Some fin" "\<bar>\<delta> f\<bar> \<le> 2"
  shows "- 2 \<le> counter fin" "counter fin < 2147483640"
  using members_bound [OF assms(1), of f] scope_invD(3) [OF assms(1,3)] assms(2,4)
  by (auto simp: few_objects_def of_bool_def)

lemma put_counter_sets:
  assumes "finishes st f = Some fin"
  shows "members (put_finish f (fin\<lparr>counter := c\<rparr>) st) = members st" "children (put_finish f (fin\<lparr>counter := c\<rparr>) st) = children st"
  using assms by (auto simp: members_def children_def fun_eq_iff)

lemma put_counter_inv:
  assumes inv: "scope_inv st \<delta>" and f: "finishes st f = Some fin" and c: "c = counter fin + d"
  shows "scope_inv (put_finish f (fin\<lparr>counter := c\<rparr>) st) (bump (Some f) d \<delta>)" (is "scope_inv ?st _")
proof (rule scope_invI)
  note D = scope_invD [OF inv] and S = put_counter_sets [OF f]
  fix g fin' h t
  show "g < next_addr ?st" if "finishes ?st g = Some fin'" using that D(1) f by (auto split: if_splits)
  show "h < g" if "finishes ?st g = Some fin'" "parent fin' = Some h" using that D(2) f by (auto split: if_splits)
  show "counter fin' = of_bool (finish_dep fin' = None) + int (card (members ?st g)) + int (card (children ?st g)) + bump (Some f) d \<delta> g"
    if "finishes ?st g = Some fin'" using that D(3) f c unfolding S by (auto split: if_splits)
  show "finishes ?st g \<noteq> None" if "t \<in> members ?st g" using that D(4) unfolding S by auto
  show "finishes ?st g \<noteq> None" if "h \<in> children ?st g" using that D(5) unfolding S by auto
  show "t < next_addr ?st" if "tasks ?st t \<noteq> None" using that D(6) by simp
qed

text \<open>What an operation leaves as it is: the tasks but for their wait list fields, and the shape of the scopes.\<close>

definition shape :: "finish \<Rightarrow> nat option \<times> nat option" where
  "shape fin = (parent fin, finish_dep fin)"

definition evolves :: "('c, 'd, 'i) rt \<Rightarrow> ('c, 'd, 'i) rt \<Rightarrow> bool" where
  "evolves st st' \<longleftrightarrow> (\<forall>t. map_option task_core (tasks st' t) = map_option task_core (tasks st t)) \<and>
     (\<forall>f. map_option shape (finishes st' f) = map_option shape (finishes st f)) \<and>
     (\<forall>p. promises st' p = None \<longleftrightarrow> promises st p = None) \<and> (\<forall>f. dep_closed st f \<longrightarrow> dep_closed st' f) \<and>
     next_addr st' = next_addr st \<and> length (rt_pool st') = length (rt_pool st) \<and> rt_workers st' = rt_workers st \<and>
     rt_paths st' = rt_paths st"

lemma evolves_refl [simp]: "evolves st st"
  by (simp add: evolves_def)

lemma evolves_trans: "evolves a b \<Longrightarrow> evolves b c \<Longrightarrow> evolves a c"
  unfolding evolves_def by metis

lemma keeps_evolves: "keeps st st' \<Longrightarrow> evolves st st'"
  unfolding keeps_def evolves_def by (metis length_map option.map_disc_iff)

lemma close_evolves: "promises st p = Some pr \<Longrightarrow> evolves st (close_promise p d st)"
  using close_closed(1) [of st p pr d] by (simp add: evolves_def close_promise_def)

lemma put_counter_evolves: "finishes st f = Some fin \<Longrightarrow> evolves st (put_finish f (fin\<lparr>counter := c\<rparr>) st)"
  using dep_cong(1) [of "put_finish f (fin\<lparr>counter := c\<rparr>) st" st] by (simp add: evolves_def shape_def)

lemma evolves_core: "evolves st st' \<Longrightarrow> tasks st t = Some tk \<Longrightarrow> \<exists>tk'. tasks st' t = Some tk' \<and> task_core tk' = task_core tk"
  unfolding evolves_def by (metis map_option_eq_Some)

lemma task_core_t_finish: "map_option task_core a = map_option task_core b \<Longrightarrow> map_option t_finish a = map_option t_finish b"
  by (cases a; cases b) (auto, metis task_core_sel(2))

lemma task_core_fp: "task_core a = task_core b \<Longrightarrow> fp a = fp b \<and> t_finish a = t_finish b \<and> non_blocking a = non_blocking b \<and> t_locale a = t_locale b"
  by (metis task_core_sel)

lemma keeps_scope: "keeps st st' \<Longrightarrow> scope_inv st \<delta> \<Longrightarrow> scope_inv st' \<delta>"
  by (rule scope_cong) (auto simp: keeps_def intro: task_core_t_finish)

lemma check_in_inv:
  assumes inv: "scope_inv st \<delta>" and "few_objects st" "\<And>a. \<bar>\<delta> a\<bar> \<le> 1" and f: "\<And>a. f = Some a \<Longrightarrow> finishes st a \<noteq> None"
  shows "\<exists>st'. check_in_finish f st = Inr st' \<and> same_sched st st' \<and> scope_inv st' (bump f 1 \<delta>) \<and>
     rt_workers st' = rt_workers st \<and>
     evolves st st'"
proof (cases f)
  case None
  then show ?thesis using inv by (simp add: check_in_finish_def)
next
  case (Some a)
  then obtain fin where a: "finishes st a = Some fin" using f by blast
  have "\<bar>\<delta> a\<bar> \<le> 2" using assms(3) [of a] by simp
  then have "wrap32 (counter fin + 1) = counter fin + 1" using counter_range [OF inv assms(2) a] by simp
  then show ?thesis
    using put_counter_inv [OF inv a, of "counter fin + 1" 1] put_counter_evolves [OF a] a Some
    by (auto simp: check_in_finish_def get_finish_def)
qed

text \<open>A put that returns.\<close>

lemma put_returns:
  assumes inv: "sched_inv n st W C E" "scope_inv st \<delta>" and w: "wid < n" and few: "few_objects st"
    and put: "hclib_promise_put wid (Some p) d st = Inr st'"
  shows "\<exists>W'. sched_inv n st' W' C E \<and> scope_inv st' \<delta> \<and> evolves st st'"
proof -
  obtain pr where pr: "promises st p = Some pr" "\<not> satisfied pr"
    using put by (auto simp: hclib_promise_put_def get_promise_def res_simps)
  have max: "int (next_addr st) \<le> MAX_INT" using few by (simp add: few_objects_def MAX_INT_def)
  obtain W' where W': "sched_inv n st' W' C E" "keeps (close_promise p d st) st'"
    using promise_put_inv [OF inv(1) pr w max, of d] put by auto
  have "scope_inv (close_promise p d st) \<delta>" by (rule scope_cong [OF inv(2)]) (simp_all add: close_promise_def)
  then have "scope_inv st' \<delta>" by (rule keeps_scope [OF W'(2)])
  moreover have "evolves st st'" by (rule evolves_trans [OF close_evolves [OF pr(1)] keeps_evolves [OF W'(2)]])
  ultimately show ?thesis using W'(1) by blast
qed

lemma check_out_inv:
  assumes inv: "sched_inv n st W C E" "scope_inv st \<delta>" and w: "wid < n" and few: "few_objects st" "\<And>a. \<bar>\<delta> a\<bar> \<le> 2"
    and out: "check_out_finish wid f st = Inr st'"
  shows "\<exists>W'. sched_inv n st' W' C E \<and> scope_inv st' (bump f (-1) \<delta>) \<and> evolves st st'"
proof (cases f)
  case None
  then show ?thesis using inv out by (auto simp: check_out_finish_def)
next
  case (Some a)
  then obtain fin where a: "finishes st a = Some fin" using out by (auto simp: check_out_finish_def get_finish_def res_simps)
  let ?st = "put_finish a (fin\<lparr>counter := counter fin - 1\<rparr>) st"
  have "wrap32 (counter fin - 1) = counter fin - 1" using counter_range [OF inv(2) few(1) a few(2)] by simp
  then have step: "if counter fin = 1 then \<exists>p. hclib_promise_put wid (Some p) (Some (Finish_ptr a)) ?st = Inr st' else st' = ?st"
    using out a Some by (auto simp: check_out_finish_def get_finish_def res_simps)
  have s: "sched_inv n ?st W C E" using same_sched_inv [of st ?st] inv(1) by simp
  have sc: "scope_inv ?st (bump f (-1) \<delta>)" using put_counter_inv [OF inv(2) a, of _ "-1"] Some by simp
  have ev: "evolves st ?st" by (rule put_counter_evolves [OF a])
  show ?thesis
  proof (cases "counter fin = 1")
    case True
    then obtain p where p: "hclib_promise_put wid (Some p) (Some (Finish_ptr a)) ?st = Inr st'" using step by auto
    have "few_objects ?st" using few(1) by (simp add: few_objects_def)
    then show ?thesis using put_returns [OF s sc w _ p] evolves_trans [OF ev] by blast
  next
    case False
    then show ?thesis using step s sc ev by auto
  qed
qed

section \<open>Spawning keeps the invariants\<close>

lemma scope_alloc:
  assumes inv: "scope_inv st \<delta>" and tk: "t_finish tk = None"
  shows "scope_inv (put_task (next_addr st) tk (st\<lparr>next_addr := next_addr st + 1\<rparr>)) \<delta>" (is "scope_inv ?st _")
proof -
  note D = scope_invD [OF inv]
  have "tasks st (next_addr st) = None" using D(6) [of "next_addr st"] by blast
  then have m: "members ?st = members st" "children ?st = children st" using tk by (auto simp: members_def children_def fun_eq_iff)
  show ?thesis
  proof (rule scope_invI)
    fix f fin g t
    show "f < next_addr ?st" if "finishes ?st f = Some fin" using that D(1) [of f fin] by simp
    show "g < f" if "finishes ?st f = Some fin" "parent fin = Some g" using that D(2) by simp
    show "counter fin = of_bool (finish_dep fin = None) + int (card (members ?st f)) + int (card (children ?st f)) + \<delta> f"
      if "finishes ?st f = Some fin" using that D(3) unfolding m by simp
    show "finishes ?st f \<noteq> None" if "t \<in> members ?st f" using that D(4) unfolding m by simp
    show "finishes ?st f \<noteq> None" if "g \<in> children ?st f" using that D(5) unfolding m by simp
    show "t < next_addr ?st" if "tasks ?st t \<noteq> None" using that D(6) [of t] by (cases "t = next_addr st") auto
  qed
qed

lemma scope_set_finish:
  assumes inv: "scope_inv st \<delta>" and t: "tasks st t = Some tk0" "t_finish tk0 = None"
    and f: "\<And>a. t_finish tk = Some a \<Longrightarrow> finishes st a \<noteq> None"
  shows "scope_inv (put_task t tk st) (bump (t_finish tk) (-1) \<delta>)" (is "scope_inv ?st _")
proof -
  note D = scope_invD [OF inv]
  have c: "children ?st = children st" by (simp add: children_def fun_eq_iff)
  have m: "members ?st a = (if t_finish tk = Some a then insert t (members st a) else members st a)" for a
    using t by (auto simp: members_def)
  have nt: "t \<notin> members st a" for a using t by (auto simp: members_def)
  show ?thesis
  proof (rule scope_invI)
    fix a fin g t'
    show "a < next_addr ?st" if "finishes ?st a = Some fin" using that D(1) by simp
    show "g < a" if "finishes ?st a = Some fin" "parent fin = Some g" using that D(2) by simp
    show "counter fin = of_bool (finish_dep fin = None) + int (card (members ?st a)) + int (card (children ?st a)) + bump (t_finish tk) (-1) \<delta> a"
      if "finishes ?st a = Some fin"
      using that D(3) [of a fin] nt [of a] members_bound(1) [OF inv, of a] unfolding c m
      by (auto simp: bump_def split: option.split)
    show "finishes ?st a \<noteq> None" if "t' \<in> members ?st a" using that D(4) [of t' a] f [of a] unfolding m by (auto split: if_splits)
    show "finishes ?st a \<noteq> None" if "g \<in> children ?st a" using that D(5) unfolding c by simp
    show "t' < next_addr ?st" if "tasks ?st t' \<noteq> None" using that D(6) [of t'] t(1) by (cases "t' = t") (auto intro: D(6))
  qed
qed

text \<open>
  Futures that may be passed to a spawn: they exist, and the first is null only if all are, as
  \<^verbatim>\<open>is_eligible_to_schedule\<close> assumes.
\<close>

definition futures_ok :: "('c, 'd, 'i) rt \<Rightarrow> nat option list \<Rightarrow> bool" where
  "futures_ok st fs \<longleftrightarrow> (\<forall>p. Some p \<in> set fs \<longrightarrow> promises st p \<noteq> None) \<and> (fs \<noteq> [] \<and> hd fs = None \<longrightarrow> set fs \<subseteq> {None})"

lemma new_task_ok:
  assumes tk: "waiting_on tk = replicate 4 None" "waiting_on_extra tk = None" "waiting_on_index tk = 0"
    and fs: "futures_ok st fs" and t: "tasks st t = Some (set_futures fs tk)"
  shows "if waiting_on (set_futures fs tk) ! 0 = None then ready_ok st t else resumes_ok st t"
proof -
  let ?tk = "set_futures fs tk"
  have sub: "set (deps ?tk) \<subseteq> insert None (set fs)" by (rule set_futures_sub [OF tk(1,2)])
  have ex: "deps_exist st ?tk" using sub fs by (auto simp: deps_exist_def futures_ok_def)
  show ?thesis
  proof (cases "fs = []")
    case True
    then have "?tk = tk" by (simp add: set_futures_def)
    moreover have "deps tk = replicate 4 None" using tk by (simp add: deps_def)
    ultimately show ?thesis using t ex tk by (simp add: ready_ok_def task_ok_def task_valid_def dep_closed_def)
  next
    case False
    note F = set_futures_deps [OF tk(1,2) False] and i = set_futures_fields(3) [OF tk(1,2) False]
    have "ready_ok st t" if "hd fs = None"
    proof -
      have "set (deps ?tk) \<subseteq> {None}" using sub fs that False by (auto simp: futures_ok_def)
      then show ?thesis using t ex F(2) by (auto simp: ready_ok_def task_ok_def dep_closed_def)
    qed
    moreover have "resumes_ok st t" using t ex F(2) i by (simp add: resumes_ok_def task_ok_def)
    ultimately show ?thesis using F(3) by simp
  qed
qed

lemma set_futures_sel [simp]: "t_finish (set_futures fs tk) = t_finish tk" "fp (set_futures fs tk) = fp tk"
  "t_locale (set_futures fs tk) = t_locale tk" "non_blocking (set_futures fs tk) = non_blocking tk"
  by (simp_all add: set_futures_def Let_def)

text \<open>Up to the scheduling of the new task.\<close>

lemma spawn_prepares:
  assumes inv: "sched_inv n st W {} E" "scope_inv st (\<lambda>_. 0)" and w: "wid < n"
    and few: "few_objects (st\<lparr>next_addr := next_addr st + 1\<rparr>)"
    and args: "futures_ok st fs" "\<And>l. loc = Some l \<Longrightarrow> l < length (rt_pool st)"
      "\<And>a. \<not> escaping \<Longrightarrow> cur_finish st wid = Some a \<Longrightarrow> finishes st a \<noteq> None"
  obtains st2 tk where "spawn_handler wid (next_addr st) loc fs escaping (fst (alloc_task c nb st)) = try_schedule_async (next_addr st) wid st2"
    "sched_inv n st2 W {next_addr st} E" "scope_inv st2 (\<lambda>_. 0)" "tasks st2 = (tasks st)(next_addr st \<mapsto> tk)"
    "rt_pool st2 = rt_pool st" "promises st2 = promises st" "int (next_addr st2) \<le> MAX_INT"
    "if waiting_on tk ! 0 = None then ready_ok st2 (next_addr st) else resumes_ok st2 (next_addr st)"
    "fp tk = c" "t_finish tk = (if escaping then None else cur_finish st wid)" "non_blocking tk = nb"
    "evolves (put_task (next_addr st) tk (st\<lparr>next_addr := next_addr st + 1\<rparr>)) st2"
    "t_locale tk = loc" "waiting_on tk = waiting_on (set_futures fs (new_task c nb))"
proof -
  let ?t = "next_addr st" and ?f = "if escaping then None else cur_finish st wid"
  define st0 where "st0 = fst (alloc_task c nb st)"
  have st0: "st0 = put_task ?t (new_task c nb) (st\<lparr>next_addr := ?t + 1\<rparr>)" by (simp add: st0_def alloc_task_def)
  have sched0: "sched_inv n st0 W {?t} E" unfolding st0_def using alloc_inv [OF inv(1)] by simp
  have scope0: "scope_inv st0 (\<lambda>_. 0)" unfolding st0 by (rule scope_alloc [OF inv(2)]) (simp add: new_task_def)
  have few0: "few_objects st0" using few by (simp add: st0 few_objects_def)
  have cur0: "cur_finish st0 wid = cur_finish st wid" "finishes st0 = finishes st" by (simp_all add: st0)
  obtain st1 where st1: "check_in_finish ?f st0 = Inr st1" "same_sched st0 st1" "scope_inv st1 (bump ?f 1 (\<lambda>_. 0))" "evolves st0 st1"
  proof -
    have "finishes st0 a \<noteq> None" if "?f = Some a" for a using that args(3) [of a] cur0(2) by (auto split: if_splits)
    then show ?thesis using check_in_inv [OF scope0 few0, of ?f] that by auto
  qed
  have t1: "tasks st1 ?t = Some (new_task c nb)" "next_addr st1 = ?t + 1" "promises st1 = promises st"
      "rt_pool st1 = rt_pool st" using st1(2) by (simp_all add: same_sched_def st0)
  define tk2 where "tk2 = (case loc of None \<Rightarrow> (new_task c nb)\<lparr>t_finish := ?f\<rparr>
      | Some l \<Rightarrow> (new_task c nb)\<lparr>t_finish := ?f, t_locale := Some l\<rparr>)"
  let ?tk = "set_futures fs tk2"
  have tk2: "waiting_on tk2 = replicate 4 None" "waiting_on_extra tk2 = None" "waiting_on_index tk2 = 0" "t_finish tk2 = ?f"
      "fp tk2 = c" "non_blocking tk2 = nb" "t_locale tk2 = loc"
    by (simp_all add: tk2_def new_task_def split: option.splits)
  define st2 where "st2 = put_task ?t ?tk st1"
  have run: "spawn_handler wid ?t loc fs escaping st0 = try_schedule_async ?t wid st2"
    unfolding st2_def tk2_def spawn_handler_def Let_def cur0(1) st1(1) res_bind_Inr
      get_task_def t1(1) from_ptr_simps by (cases loc) simp_all
  have sched1: "sched_inv n st1 W {?t} E" using sched0 same_sched_inv [OF st1(2)] by simp
  have sched2: "sched_inv n st2 W {?t} E" unfolding st2_def
    by (rule sched_put_held [OF sched1]) (use tk2(7) args(2) t1(4) in auto)
  have exf: "finishes st1 a \<noteq> None" if "?f = Some a" for a
    using that args(3) st1(4) cur0 unfolding evolves_def by (metis option.distinct(1) option.map_disc_iff)
  have "scope_inv st2 (bump (t_finish ?tk) (-1) (bump ?f 1 (\<lambda>_. 0)))" unfolding st2_def
    by (rule scope_set_finish [OF st1(3) t1(1)]) (use exf tk2(4) in \<open>auto simp: new_task_def\<close>)
  then have scope2: "scope_inv st2 (\<lambda>_. 0)" using tk2(4) by simp
  have ok: "if waiting_on ?tk ! 0 = None then ready_ok st2 ?t else resumes_ok st2 ?t"
    by (rule new_task_ok [OF tk2(1-3)]) (use args(1) t1(3) in \<open>auto simp: futures_ok_def st2_def\<close>)
  have max: "int (next_addr st2) \<le> MAX_INT" using few t1(2) by (simp add: st2_def few_objects_def MAX_INT_def)
  let ?mid = "put_task ?t ?tk (st\<lparr>next_addr := ?t + 1\<rparr>)"
  have "dep_closed st2 = dep_closed ?mid" by (rule dep_cong) (use t1(3) in \<open>simp add: st2_def\<close>)
  then have "evolves ?mid st2" using st1(2,4) by (simp add: evolves_def st2_def st0 same_sched_def)
  moreover have "tasks st2 = (tasks st)(?t \<mapsto> ?tk)" "rt_pool st2 = rt_pool st" "promises st2 = promises st"
    using st1(2) t1(3,4) by (simp_all add: st2_def same_sched_def st0)
  moreover have "waiting_on ?tk = waiting_on (set_futures fs (new_task c nb))" using tk2(1) by (simp add: set_futures_def new_task_def Let_def)
  ultimately show thesis using run sched2 scope2 ok max tk2(4-7) unfolding st0_def
    by (intro that [of st2 ?tk]) simp_all
qed

lemma spawn_inv:
  assumes inv: "sched_inv n st W {} E" "scope_inv st (\<lambda>_. 0)" and w: "wid < n"
    and few: "few_objects (st\<lparr>next_addr := next_addr st + 1\<rparr>)"
    and args: "futures_ok st fs" "\<And>l. loc = Some l \<Longrightarrow> l < length (rt_pool st)"
      "\<And>a. \<not> escaping \<Longrightarrow> cur_finish st wid = Some a \<Longrightarrow> finishes st a \<noteq> None"
    and spawn: "spawn_handler wid (next_addr st) loc fs escaping (fst (alloc_task c nb st)) = Inr st'"
  shows "\<exists>W' tk. sched_inv n st' W' {} E \<and> scope_inv st' (\<lambda>_. 0) \<and>
     fp tk = c \<and> t_finish tk = (if escaping then None else cur_finish st wid) \<and> non_blocking tk = nb \<and>
     evolves (put_task (next_addr st) tk (st\<lparr>next_addr := next_addr st + 1\<rparr>)) st'"
proof -
  obtain st2 tk where st2: "spawn_handler wid (next_addr st) loc fs escaping (fst (alloc_task c nb st)) = try_schedule_async (next_addr st) wid st2"
    "sched_inv n st2 W {next_addr st} E" "scope_inv st2 (\<lambda>_. 0)" "tasks st2 = (tasks st)(next_addr st \<mapsto> tk)"
    "rt_pool st2 = rt_pool st" "promises st2 = promises st" "int (next_addr st2) \<le> MAX_INT"
    "if waiting_on tk ! 0 = None then ready_ok st2 (next_addr st) else resumes_ok st2 (next_addr st)"
    and tk: "fp tk = c" "t_finish tk = (if escaping then None else cur_finish st wid)" "non_blocking tk = nb"
    "evolves (put_task (next_addr st) tk (st\<lparr>next_addr := next_addr st + 1\<rparr>)) st2"
    "t_locale tk = loc" "waiting_on tk = waiting_on (set_futures fs (new_task c nb))"
    by (rule spawn_prepares [OF inv w few args])
  obtain W' where W': "sched_inv n st' W' {} E" "keeps st2 st'"
    using try_schedule_inv [OF st2(2) _ _ st2(8) w st2(7)] spawn st2(1,4) by auto
  have "evolves (put_task (next_addr st) tk (st\<lparr>next_addr := next_addr st + 1\<rparr>)) st'" by (rule evolves_trans [OF tk(4) keeps_evolves [OF W'(2)]])
  then show ?thesis using W'(1) keeps_scope [OF W'(2) st2(3)] tk by blast
qed

text \<open>A spawn fails only for want of room in a deque or of a worker that reaches the locale.\<close>

lemma spawn_returns:
  assumes inv: "sched_inv n st W {} E" "scope_inv st (\<lambda>_. 0)" and w: "wid < n"
    and few: "few_objects (st\<lparr>next_addr := next_addr st + 1\<rparr>)"
    and args: "futures_ok st fs" "\<And>l. loc = Some l \<Longrightarrow> l < length (rt_pool st)"
      "\<And>a. \<not> escaping \<Longrightarrow> cur_finish st wid = Some a \<Longrightarrow> finishes st a \<noteq> None"
    and room: "\<And>l. l < length (rt_pool st) \<Longrightarrow> reachable (rt_pool st ! l) = Some True"
      "card {t. tasks st t \<noteq> None} < nat INIT_DEQUE_CAPACITY"
  shows "\<exists>st'. spawn_handler wid (next_addr st) loc fs escaping (fst (alloc_task c nb st)) = Inr st'"
proof -
  obtain st2 tk where st2: "spawn_handler wid (next_addr st) loc fs escaping (fst (alloc_task c nb st)) = try_schedule_async (next_addr st) wid st2"
    "sched_inv n st2 W {next_addr st} E" "scope_inv st2 (\<lambda>_. 0)" "tasks st2 = (tasks st)(next_addr st \<mapsto> tk)"
    "rt_pool st2 = rt_pool st" "promises st2 = promises st" "int (next_addr st2) \<le> MAX_INT"
    "if waiting_on tk ! 0 = None then ready_ok st2 (next_addr st) else resumes_ok st2 (next_addr st)"
    "fp tk = c" "t_finish tk = (if escaping then None else cur_finish st wid)" "non_blocking tk = nb"
    "evolves (put_task (next_addr st) tk (st\<lparr>next_addr := next_addr st + 1\<rparr>)) st2"
    "t_locale tk = loc" "waiting_on tk = waiting_on (set_futures fs (new_task c nb))"
    by (rule spawn_prepares [OF inv w few args])
  have "place_inv n st W {} E" using inv(1) by (simp add: sched_inv_def)
  then have "{t. tasks st t \<noteq> None} \<subseteq> {..< next_addr st}" using place_invD(6) by blast
  then have "finite {t. tasks st t \<noteq> None}" by (rule finite_subset) simp
  then have "card {t. tasks st2 t \<noteq> None} \<le> Suc (card {t. tasks st t \<noteq> None})"
    using card_insert_le_m1 [of "Suc (card {t. tasks st t \<noteq> None})" "{t. tasks st t \<noteq> None}" "next_addr st"] st2(4)
    by (simp add: insert_Collect if_distrib cong: if_cong)
  then have "roomy st2" using room st2(5) by (simp add: roomy_def)
  then show ?thesis using try_schedule_inv [OF st2(2) _ _ st2(8) w st2(7)] st2(1,4) by auto
qed

section \<open>The end of a task\<close>

lemma sched_free:
  assumes inv: "sched_inv n st W C E" and t: "t \<in> E"
  shows "sched_inv n (st\<lparr>tasks := (tasks st)(t := None)\<rparr>) W C (E - {t})" (is "sched_inv n ?st W C _")
proof -
  have P: "prom_inv st W" and L: "place_inv n st W C E" and S: "site_inv n st" using inv by (auto simp: sched_inv_def)
  note D = place_invD [OF L]
  have nt: "t \<notin> waiting W" "t \<notin># pool_tasks n (rt_pool st)" "t \<notin> C"
    using D(4) D(3) place_inv_in(2) [OF L, of t] t by auto
  have ok: "waits_ok ?st p t' = waits_ok st p t'" "ready_ok ?st t' = ready_ok st t'" if "t' \<noteq> t" for p t'
  proof -
    have "dep_closed ?st = dep_closed st" by (rule dep_cong) simp
    then show "waits_ok ?st p t' = waits_ok st p t'" "ready_ok ?st t' = ready_ok st t'" using that by (intro ok_cong; simp)+
  qed
  have chain: "chain ((tasks st)(t := None)) w ts = chain (tasks st) w ts" if "t \<notin> set ts" for w ts
    using that by (induction ts arbitrary: w) (auto split: option.splits)
  have "prom_inv ?st W"
  proof (rule prom_invI)
    fix p t' assume "t' \<in> set (W p)"
    then show "waits_ok ?st p t'" using prom_invD(6) [OF P] nt(1) ok(1) by (metis in_waiting)
  next
    fix p pr assume "promises ?st p = Some pr" "\<not> satisfied pr"
    then show "chain (tasks ?st) (wait_list_head pr) (W p)"
      using prom_invD(4) [OF P] chain [OF in_waiting [OF nt(1)]] by simp
  qed (use prom_invD [OF P] in auto)
  moreover have "place_inv n ?st W C (E - {t})"
  proof (rule place_invI)
    fix t' l w
    show "count (pool_tasks n (rt_pool ?st)) t' \<le> 1" using D(1) by simp
    show "t' \<notin> C \<union> (E - {t}) \<union> waiting W \<and> ready_ok ?st t'" if "t' \<in># pool_tasks n (rt_pool ?st)"
    proof -
      have t': "t' \<in># pool_tasks n (rt_pool st)" "t' \<noteq> t" using that nt(2) by auto
      then show ?thesis using D(2) [of t'] ok(2) by auto
    qed
    show "C \<inter> (E - {t}) = {}" "waiting W \<inter> (C \<union> (E - {t})) = {}" using D(3,4) by auto
    show "tasks ?st t' \<noteq> None \<longleftrightarrow> t' \<in># pool_tasks n (rt_pool ?st) \<or> t' \<in> C \<union> (E - {t}) \<union> waiting W"
    proof (cases "t' = t")
      case True
      then show ?thesis using nt by simp
    next
      case False
      then show ?thesis using D(5) [of t'] by simp
    qed
    show "t' < next_addr ?st" if "tasks ?st t' \<noteq> None" using that D(6) [of t'] by (cases "t' = t") auto
    show "tail (deques (rt_pool ?st ! l) ! w) + int (card (C \<union> waiting W)) \<le> int (next_addr ?st)"
      if "l < length (rt_pool ?st)" "w < n" using that D(7) by simp
  qed
  moreover have "site_inv n ?st" using S by (auto simp: site_inv_def split: if_splits)
  ultimately show ?thesis by (simp add: sched_inv_def)
qed

lemma scope_free:
  assumes inv: "scope_inv st \<delta>" and t: "tasks st t = Some tk"
  shows "scope_inv (st\<lparr>tasks := (tasks st)(t := None)\<rparr>) (bump (t_finish tk) 1 \<delta>)" (is "scope_inv ?st _")
proof -
  note D = scope_invD [OF inv]
  have c: "children ?st = children st" by (simp add: children_def fun_eq_iff)
  have m: "members ?st a = members st a - {t}" for a by (auto simp: members_def)
  have tm: "t \<in> members st a \<longleftrightarrow> t_finish tk = Some a" for a using t by (auto simp: members_def)
  show ?thesis
  proof (rule scope_invI)
    fix a fin g t'
    show "a < next_addr ?st" if "finishes ?st a = Some fin" using that D(1) by simp
    show "g < a" if "finishes ?st a = Some fin" "parent fin = Some g" using that D(2) by simp
    show "counter fin = of_bool (finish_dep fin = None) + int (card (members ?st a)) + int (card (children ?st a)) + bump (t_finish tk) 1 \<delta> a"
      if "finishes ?st a = Some fin"
    proof -
      have "int (card (members st a)) = int (card (members st a - {t})) + of_bool (t \<in> members st a)"
        using members_bound(1) [OF inv, of a] card_Suc_Diff1 [of "members st a" t] by auto
      then show ?thesis using that D(3) [of a fin] tm [of a] unfolding c m by (auto simp: bump_def split: option.split)
    qed
    show "finishes ?st a \<noteq> None" if "t' \<in> members ?st a" using that D(4) [of t' a] unfolding m by auto
    show "finishes ?st a \<noteq> None" if "g \<in> children ?st a" using that D(5) unfolding c by simp
    show "t' < next_addr ?st" if "tasks ?st t' \<noteq> None" using that D(6) [of t'] by (cases "t' = t") auto
  qed
qed

lemma execute_end_inv:
  assumes inv: "sched_inv n st W {} E" "scope_inv st (\<lambda>_. 0)" and w: "wid < n" and few: "few_objects st"
    and t: "t \<in> E" and run: "execute_end wid t st = Inr st'"
  shows "\<exists>W' st1. sched_inv n st' W' {} (E - {t}) \<and> scope_inv st' (\<lambda>_. 0) \<and>
     evolves st st1 \<and> st' = st1\<lparr>tasks := (tasks st1)(t := None)\<rparr>"
proof -
  obtain tk st1 where tk: "tasks st t = Some tk" and out: "check_out_finish wid (t_finish tk) st = Inr st1"
    and st': "st' = st1\<lparr>tasks := (tasks st1)(t := None)\<rparr>"
    using run by (auto simp: execute_end_def get_task_def res_simps)
  obtain W' where W': "sched_inv n st1 W' {} E" "scope_inv st1 (bump (t_finish tk) (-1) (\<lambda>_. 0))" "evolves st st1"
    using check_out_inv [OF inv w few _ out] by auto
  obtain tk1 where tk1: "tasks st1 t = Some tk1" "t_finish tk1 = t_finish tk"
    using evolves_core [OF W'(3) tk] task_core_fp by metis
  have "scope_inv st' (\<lambda>_. 0)" unfolding st' using scope_free [OF W'(2) tk1(1)] tk1(2) by simp
  moreover have "sched_inv n st' W' {} (E - {t})" unfolding st' by (rule sched_free [OF W'(1) t])
  ultimately show ?thesis using W'(3) st' by blast
qed

section \<open>Opening and closing scopes\<close>

lemma sched_next_addr:
  assumes inv: "sched_inv n st W C E" and a: "next_addr st \<le> a"
  shows "sched_inv n (st\<lparr>next_addr := a\<rparr>) W C E" (is "sched_inv n ?st W C E")
proof -
  have L: "place_inv n st W C E" using inv by (simp add: sched_inv_def)
  note ok = heap_cong [of ?st st, simplified]
  have "place_inv n ?st W C E"
  proof (rule place_invI)
    fix t l w
    show "t < next_addr ?st" if "tasks ?st t \<noteq> None" using that place_invD(6) [OF L, of t] a by simp
    show "tail (deques (rt_pool ?st ! l) ! w) + int (card (C \<union> waiting W)) \<le> int (next_addr ?st)"
      if "l < length (rt_pool ?st)" "w < n" using that place_invD(7) [OF L, of l w] a by simp
  qed (use place_invD [OF L] ok in auto)
  then show ?thesis using inv ok by (simp add: sched_inv_def site_inv_def)
qed

lemma scope_start:
  assumes inv: "scope_inv st \<delta>" and par: "\<And>a. par = Some a \<Longrightarrow> finishes st a \<noteq> None" and z: "\<delta> (next_addr st) = 0"
  shows "scope_inv (put_finish (next_addr st) \<lparr>parent = par, counter = 1, finish_dep = None\<rparr> (st\<lparr>next_addr := next_addr st + 1\<rparr>))
           (bump par (-1) \<delta>)" (is "scope_inv ?st _")
proof -
  let ?f = "next_addr st"
  note D = scope_invD [OF inv]
  have none: "finishes st ?f = None" using D(1) [of ?f] by (cases "finishes st ?f") auto
  have par_lt: "a < ?f" if "par = Some a" for a using par [OF that] D(1) [of a] by auto
  have m: "members ?st = members st" by (simp add: members_def fun_eq_iff)
  have c: "children ?st a = (if par = Some a then insert ?f (children st a) else children st a)" for a
    using none by (auto simp: children_def)
  have nf: "?f \<notin> children st a" for a using none by (simp add: children_def)
  have e: "members st ?f = {}" "children st ?f = {}" using D(4,5) none by blast+
  show ?thesis
  proof (rule scope_invI)
    fix a fin g t
    show "a < next_addr ?st" if "finishes ?st a = Some fin" using that D(1) [of a] by (auto split: if_splits)
    show "g < a" if "finishes ?st a = Some fin" "parent fin = Some g" using that D(2) par_lt by (auto split: if_splits)
    show "counter fin = of_bool (finish_dep fin = None) + int (card (members ?st a)) + int (card (children ?st a)) + bump par (-1) \<delta> a"
      if "finishes ?st a = Some fin"
    proof (cases "a = ?f")
      case True
      then have "par \<noteq> Some a" using par_lt by auto
      then show ?thesis using that True e z unfolding m c by (auto simp: bump_def split: option.split)
    next
      case False
      then show ?thesis using that D(3) [of a fin] nf [of a] members_bound(3) [OF inv, of a] unfolding m c
        by (auto simp: bump_def split: option.split)
    qed
    show "finishes ?st a \<noteq> None" if "t \<in> members ?st a" using that D(4) [of t a] unfolding m by auto
    show "finishes ?st a \<noteq> None" if "g \<in> children ?st a" using that D(5) [of g a] par [of a] unfolding c by (auto split: if_splits)
    show "t < next_addr ?st" if "tasks ?st t \<noteq> None" using that D(6) [of t] by simp
  qed
qed

lemma start_finish_inv:
  assumes inv: "sched_inv n st W {} E" "scope_inv st (\<lambda>_. 0)" and few: "few_objects (st\<lparr>next_addr := next_addr st + 1\<rparr>)"
    and par: "\<And>a. cur_finish st wid = Some a \<Longrightarrow> finishes st a \<noteq> None"
    and run: "hclib_start_finish wid st = Inr st'"
  shows "\<exists>fin st1. sched_inv n st' W {} E \<and> scope_inv st' (\<lambda>_. 0) \<and> parent fin = cur_finish st wid \<and> finish_dep fin = None \<and>
     evolves (put_finish (next_addr st) fin (st\<lparr>next_addr := next_addr st + 1\<rparr>)) st1 \<and>
     promises st1 = promises st \<and> st' = set_worker wid (Some (next_addr st)) (cur_task st wid) st1"
proof -
  let ?f = "next_addr st" and ?par = "cur_finish st wid"
  let ?fin = "\<lparr>parent = ?par, counter = 1, finish_dep = None\<rparr>"
  define st0 where "st0 = put_finish ?f ?fin (st\<lparr>next_addr := ?f + 1\<rparr>)"
  have s0: "scope_inv st0 (bump ?par (-1) (\<lambda>_. 0))" unfolding st0_def by (rule scope_start [OF inv(2) par]) auto
  have few0: "few_objects st0" using few by (simp add: st0_def few_objects_def)
  have "\<bar>bump ?par (-1) (\<lambda>_. 0) a\<bar> \<le> 1" for a by (simp add: bump_def split: option.split)
  moreover have "finishes st0 a \<noteq> None" if "?par = Some a" for a using par [OF that] by (simp add: st0_def)
  ultimately obtain st1 where st1: "check_in_finish ?par st0 = Inr st1" "same_sched st0 st1" "scope_inv st1 (\<lambda>_. 0)"
      "rt_workers st1 = rt_workers st0" "evolves st0 st1"
    using check_in_inv [OF s0 few0, of ?par] by auto
  have st': "st' = set_worker wid (Some ?f) (cur_task st wid) st1"
    using run st1(1,4) unfolding hclib_start_finish_def Let_def st0_def by simp
  have "sched_inv n (st\<lparr>next_addr := ?f + 1\<rparr>) W {} E" by (rule sched_next_addr [OF inv(1)]) simp
  then have "sched_inv n st0 W {} E" unfolding st0_def using same_sched_inv [OF same_sched_put_finish] by blast
  then have "sched_inv n st1 W {} E" using same_sched_inv [OF st1(2)] by simp
  then have "sched_inv n st' W {} E" unfolding st' using same_sched_inv [OF same_sched_set_worker] by blast
  moreover have "scope_inv st' (\<lambda>_. 0)" unfolding st' by (rule scope_cong [OF st1(3)]) simp_all
  moreover have "promises st1 = promises st" using st1(2) by (simp add: same_sched_def st0_def)
  ultimately show ?thesis using st1(5) st' by (intro exI [of _ ?fin] exI [of _ st1]) (simp add: st0_def)
qed

text \<open>A scope that leaves the children of its parent.\<close>

lemma children_without:
  assumes "\<And>g. g \<noteq> f \<Longrightarrow> finishes st' g = finishes st g" "\<not> open_scope st' f"
  shows "children st' a = children st a - {f}"
proof -
  have "g \<in> children st' a \<longleftrightarrow> g \<in> children st a \<and> g \<noteq> f" for g
    using assms by (cases "g = f") (auto simp: children_def open_scope_def)
  then show ?thesis by blast
qed

lemma in_children: "finishes st f = Some fin \<Longrightarrow> finish_dep fin = None \<Longrightarrow> f \<in> children st a \<longleftrightarrow> parent fin = Some a"
  by (simp add: children_def)

lemma card_children_without:
  assumes "scope_inv st \<delta>"
  shows "int (card (children st a - {f})) = int (card (children st a)) - of_bool (f \<in> children st a)"
  using members_bound(3) [OF assms, of a] card_Suc_Diff1 [of "children st a" f] by auto

lemma scope_remove:
  assumes inv: "scope_inv st \<delta>" and f: "finishes st f = Some fin" "finish_dep fin = None"
    and e: "members st f = {}" "children st f = {}"
  shows "scope_inv (st\<lparr>finishes := (finishes st)(f := None)\<rparr>) (bump (parent fin) 1 \<delta>)" (is "scope_inv ?st _")
proof -
  note D = scope_invD [OF inv]
  have m: "members ?st = members st" by (simp add: members_def fun_eq_iff)
  have c: "children ?st a = children st a - {f}" "f \<in> children st a \<longleftrightarrow> parent fin = Some a" for a
    using in_children [OF f] by (auto intro!: children_without simp: open_scope_def)
  show ?thesis
  proof (rule scope_invI)
    fix a fin' g t
    show "a < next_addr ?st" if "finishes ?st a = Some fin'" using that D(1) by (auto split: if_splits)
    show "g < a" if "finishes ?st a = Some fin'" "parent fin' = Some g" using that D(2) by (auto split: if_splits)
    show "counter fin' = of_bool (finish_dep fin' = None) + int (card (members ?st a)) + int (card (children ?st a)) + bump (parent fin) 1 \<delta> a"
      if "finishes ?st a = Some fin'"
      using that D(3) [of a fin'] unfolding m c(1) card_children_without [OF inv] c(2)
      by (cases "parent fin") (auto split: if_splits)
    show "finishes ?st a \<noteq> None" if "t \<in> members ?st a" using that D(4) [of t a] e(1) unfolding m by auto
    show "finishes ?st a \<noteq> None" if "g \<in> children ?st a" using that D(5) [of g a] e(2) unfolding c(1) by auto
    show "t < next_addr ?st" if "tasks ?st t \<noteq> None" using that D(6) by simp
  qed
qed

lemma scope_set_dep:
  assumes inv: "scope_inv st \<delta>" and f: "finishes st f = Some fin" "finish_dep fin = None"
  shows "scope_inv (put_finish f (fin\<lparr>finish_dep := Some e\<rparr>) st) (bump (Some f) 1 (bump (parent fin) 1 \<delta>))" (is "scope_inv ?st _")
proof -
  note D = scope_invD [OF inv]
  have m: "members ?st = members st" by (simp add: members_def fun_eq_iff)
  have c: "children ?st a = children st a - {f}" "f \<in> children st a \<longleftrightarrow> parent fin = Some a" for a
    using in_children [OF f] by (auto intro!: children_without simp: open_scope_def)
  show ?thesis
  proof (rule scope_invI)
    fix a fin' g t
    show "a < next_addr ?st" if "finishes ?st a = Some fin'" using that D(1) f by (auto split: if_splits)
    show "g < a" if "finishes ?st a = Some fin'" "parent fin' = Some g" using that D(2) f by (auto split: if_splits)
    show "counter fin' = of_bool (finish_dep fin' = None) + int (card (members ?st a)) + int (card (children ?st a)) +
        bump (Some f) 1 (bump (parent fin) 1 \<delta>) a"
      if "finishes ?st a = Some fin'"
      using that D(3) [of a] f unfolding m c(1) card_children_without [OF inv] c(2)
      by (cases "parent fin") (auto split: if_splits)
    show "finishes ?st a \<noteq> None" if "t \<in> members ?st a" using that D(4) [of t a] unfolding m by auto
    show "finishes ?st a \<noteq> None" if "g \<in> children ?st a" using that D(5) [of g a] unfolding c(1) by auto
    show "t < next_addr ?st" if "tasks ?st t \<noteq> None" using that D(6) by simp
  qed
qed

text \<open>A counter of 1 means that only the body of the scope is left.\<close>

lemma counter_one:
  assumes "scope_inv st (\<lambda>_. 0)" "finishes st f = Some fin" "finish_dep fin = None" "counter fin = 1"
  shows "members st f = {}" "children st f = {}"
proof -
  have "card (members st f) = 0 \<and> card (children st f) = 0" using scope_invD(3) [OF assms(1,2)] assms(3,4) by simp
  then show "members st f = {}" "children st f = {}" using members_bound(1,3) [OF assms(1), of f] by auto
qed

lemma shape_eq: "(\<lambda>fin. (parent fin, finish_dep fin)) = shape"
  by (rule ext) (simp add: shape_def)

lemma evolves_shape:
  assumes "evolves st st'" "finishes st f = Some fin"
  shows "\<exists>fin'. finishes st' f = Some fin' \<and> parent fin' = parent fin \<and> finish_dep fin' = finish_dep fin"
proof -
  have "map_option shape (finishes st' f) = Some (shape fin)" using assms by (simp add: evolves_def)
  then show ?thesis by (auto simp: shape_def)
qed

lemma evolves_sets:
  assumes e: "evolves st st'"
  shows "members st' = members st" "children st' = children st"
proof -
  have "map_option t_finish (tasks st' t) = map_option t_finish (tasks st t)" for t
    using e by (intro task_core_t_finish) (simp add: evolves_def)
  then show "members st' = members st" by (simp add: members_def fun_eq_iff)
  show "children st' = children st" using e by (simp add: children_def shape_eq evolves_def fun_eq_iff)
qed

lemma leave_finish_inv:
  assumes inv: "sched_inv n st W {} E" "scope_inv st (\<lambda>_. 0)" and w: "wid < n" and few: "few_objects st"
    and f: "finishes st f = Some fin" "finish_dep fin = None" "counter fin = 1"
    and run: "leave_finish wid f tsk st = Inr st'"
  shows "\<exists>W' st1. sched_inv n st' W' {} E \<and> scope_inv st' (\<lambda>_. 0) \<and> evolves st st1 \<and>
     st' = set_worker wid (parent fin) tsk (st1\<lparr>finishes := (finishes st1)(f := None)\<rparr>)"
proof -
  obtain st1 where out: "check_out_finish wid (parent fin) st = Inr st1"
    and st': "st' = set_worker wid (parent fin) tsk (st1\<lparr>finishes := (finishes st1)(f := None)\<rparr>)"
    using run f(1) by (auto simp: leave_finish_def get_finish_def res_simps Let_def set_worker_def)
  obtain W' where W': "sched_inv n st1 W' {} E" "scope_inv st1 (bump (parent fin) (-1) (\<lambda>_. 0))" "evolves st st1"
    using check_out_inv [OF inv w few _ out] by auto
  obtain fin1 where fin1: "finishes st1 f = Some fin1" "parent fin1 = parent fin" "finish_dep fin1 = None"
    using evolves_shape [OF W'(3) f(1)] f(2) by auto
  have "members st1 f = {}" "children st1 f = {}" using evolves_sets [OF W'(3)] counter_one [OF inv(2) f] by auto
  then have "scope_inv (st1\<lparr>finishes := (finishes st1)(f := None)\<rparr>) (\<lambda>_. 0)"
    using scope_remove [OF W'(2) fin1(1,3)] fin1(2) by simp
  then have "scope_inv st' (\<lambda>_. 0)" unfolding st' by (rule scope_cong) simp_all
  moreover have "same_sched st1 st'" unfolding st' by (rule same_sched_trans [OF same_sched_finishes same_sched_set_worker])
  then have "sched_inv n st' W' {} E" using same_sched_inv W'(1) by blast
  ultimately show ?thesis using W'(3) st' by blast
qed

lemma end_nonblocking_inv:
  assumes inv: "sched_inv n st W {} E" "scope_inv st (\<lambda>_. 0)" and w: "wid < n" and few: "few_objects st"
    and f: "cur_finish st wid = Some f" "finishes st f = Some fin" "finish_dep fin = None"
    and run: "hclib_end_finish_nonblocking_helper wid e st = Inr st'"
  shows "\<exists>W' st2. sched_inv n st' W' {} E \<and> scope_inv st' (\<lambda>_. 0) \<and>
     evolves (put_finish f (fin\<lparr>finish_dep := Some e\<rparr>) st) st2 \<and> st' = set_worker wid (parent fin) (cur_task st wid) st2"
proof -
  define st0 where "st0 = put_finish f (fin\<lparr>finish_dep := Some e\<rparr>) st"
  obtain st1 st2 where out: "check_out_finish wid (Some f) st0 = Inr st1" "check_out_finish wid (parent fin) st1 = Inr st2"
    and st': "st' = set_worker wid (parent fin) (cur_task st wid) st2"
    using run f by (auto simp: hclib_end_finish_nonblocking_helper_def get_finish_def res_simps st0_def)
  have s0: "sched_inv n st0 W {} E" unfolding st0_def using inv(1) same_sched_inv [OF same_sched_put_finish] by blast
  have sc0: "scope_inv st0 (bump (Some f) 1 (bump (parent fin) 1 (\<lambda>_. 0)))" unfolding st0_def by (rule scope_set_dep [OF inv(2) f(2,3)])
  have few0: "few_objects st0" using few by (simp add: st0_def few_objects_def)
  have "\<bar>bump (Some f) 1 (bump (parent fin) 1 (\<lambda>_. 0)) a\<bar> \<le> 2" for a by (simp add: bump_def split: option.split)
  from check_out_inv [OF s0 sc0 w few0 this out(1)] obtain W1 where
    W1: "sched_inv n st1 W1 {} E" "scope_inv st1 (bump (Some f) (-1) (bump (Some f) 1 (bump (parent fin) 1 (\<lambda>_. 0))))" "evolves st0 st1"
    by blast
  have sc1: "scope_inv st1 (bump (parent fin) 1 (\<lambda>_. 0))" using W1(2) bump_cancel1(2) [of "Some f"] by simp
  have few1: "few_objects st1" using few0 W1(3) by (simp add: few_objects_def evolves_def)
  have "\<bar>bump (parent fin) 1 (\<lambda>_. 0) a\<bar> \<le> 2" for a by (simp add: bump_def split: option.split)
  from check_out_inv [OF W1(1) sc1 w few1 this out(2)] obtain W2 where
    W2: "sched_inv n st2 W2 {} E" "scope_inv st2 (\<lambda>_. 0)" "evolves st1 st2" by auto
  have "sched_inv n st' W2 {} E" unfolding st' using W2(1) same_sched_inv [OF same_sched_set_worker] by blast
  moreover have "scope_inv st' (\<lambda>_. 0)" unfolding st' by (rule scope_cong [OF W2(2)]) simp_all
  ultimately show ?thesis using evolves_trans [OF W1(3) W2(3)] st' unfolding st0_def by blast
qed

end
