(* ===== verification/Task_Search.thy ===== *)
theory Task_Search
  imports Finish_Scopes
begin

text \<open>
  What the search for a task (\<^verbatim>\<open>find_and_run_task\<close>, \<^verbatim>\<open>hclib_yield\<close>) does to the invariants: a task that has
  been found leaves the pool, is ready, and was in no other place; nothing else changes.
  Also the creation of promises.
\<close>

section \<open>Popping and stealing never push\<close>

definition quiet :: "nat \<Rightarrow> ('a, 'i) pool \<Rightarrow> ('a, 'i) pool \<Rightarrow> bool" where
  "quiet n ls ls' \<longleftrightarrow> map reachable ls' = map reachable ls \<and>
     (\<forall>l < length ls. \<forall>w < n. tail (deques (ls' ! l) ! w) \<le> tail (deques (ls ! l) ! w))"

lemma quiet_refl [simp]: "quiet n ls ls"
  by (simp add: quiet_def)

lemma quiet_put:
  assumes "pool_wf n ls" "l < length ls" "w < n" "tail q \<le> tail (deques (ls ! l) ! w)"
  shows "quiet n ls (put_deque ls l (int w) q)"
proof -
  have "length (deques (ls ! l)) = n" using assms by (simp add: pool_wf_def)
  moreover have "map reachable (put_deque ls l (int w) q) = map reachable ls"
    by (rule nth_equalityI) (auto simp: put_deque_def nth_upd_if)
  ultimately show ?thesis using assms by (auto simp: quiet_def put_deque_def nth_upd_if)
qed

lemma pop_tail:
  assumes "deque_wf q" "deque_pop q = Inr (q', r)"
  shows "tail q' \<le> tail q"
proof -
  have b: "0 \<le> head q" "head q \<le> tail q" "tail q \<le> MAX_INT" using assms(1) by (auto simp: deque_wf_def)
  then have "wrap32 (tail q - 1) = tail q - 1" "wrap32 (tail q - 1 - head q) = tail q - 1 - head q"
    by (auto intro!: wrap32_id simp: MAX_INT_def)
  then show ?thesis
    using assms(2) b by (auto simp: deque_pop_def Let_def res_simps MAX_INT_def split: if_splits)
qed

lemma steal_tail: "deque_steal q = Inr (q', r) \<Longrightarrow> tail q' = tail q"
  by (auto simp: deque_steal_def STEAL_CHUNK_SIZE_def res_simps split: if_splits)

lemma pop_along_quiet:
  assumes "pool_wf n ls" "set p \<subseteq> {..<length ls}" "w < n" "pop_along ls (int w) p = Inr (ls', r)"
  shows "quiet n ls ls'"
  using assms(2,4)
proof (induction p)
  case (Cons l p)
  then have l: "l < length ls" by simp
  note q = pool_get [OF assms(1) l assms(3)]
  show ?case
  proof (cases "tasks_at ls l w = []")
    case True
    then have "pop_along ls (int w) (l # p) = pop_along ls (int w) p"
      using q pop_empty_same [OF q(2)] by (simp add: tasks_at_def Let_def)
    then show ?thesis using Cons by simp
  next
    case False
    then obtain ys y where "deque_list (deques (ls ! l) ! w) = ys @ [y]"
      unfolding tasks_at_def by (meson rev_exhaust)
    then obtain q' where q': "deque_pop (deques (ls ! l) ! w) = Inr (q', Some y)" using dq.pop_some [OF q(2)] by blast
    then have "ls' = put_deque ls l (int w) q'" using Cons.prems(2) q by (simp add: Let_def)
    then show ?thesis using quiet_put [OF assms(1) l assms(3)] pop_tail [OF q(2) q'] by simp
  qed
qed simp

lemma steal_from_quiet:
  assumes "pool_wf n ls" "l < length ls" "\<forall>v \<in> set vs. 0 \<le> v \<and> v < int n" "steal_from ls l vs = Inr (ls', r)"
  shows "quiet n ls ls'"
  using assms(3,4)
proof (induction vs)
  case (Cons v vs)
  obtain w where w: "v = int w" "w < n" using Cons.prems by (cases v) auto
  note q = pool_get [OF assms(1,2) w(2)]
  show ?case
  proof (cases "tasks_at ls l w = []")
    case True
    then have "steal_from ls l (v # vs) = steal_from ls l vs"
      using q dq.steal_none [OF q(2)] w(1) by (simp add: tasks_at_def Let_def)
    then show ?thesis using Cons by simp
  next
    case False
    then obtain y ys where "deque_list (deques (ls ! l) ! w) = y # ys" unfolding tasks_at_def by (meson list.exhaust)
    then obtain q' where q': "deque_steal (deques (ls ! l) ! w) = Inr (q', [Some y])" using dq.steal_some [OF q(2)] by blast
    then have "ls' = put_deque ls l v q'" using Cons.prems(2) q w(1) by (simp add: Let_def)
    then show ?thesis using quiet_put [OF assms(1,2) w(2)] steal_tail [OF q'] w(1) by simp
  qed
qed simp

lemma steal_along_quiet:
  assumes wf: "pool_wf n ls" "set (steal_path paths) \<subseteq> {..<length ls}" "socket_ok n ws"
    and last: "0 \<le> last_successful_steal_locale paths" and "\<forall>i \<in> set is. 0 \<le> i" "steal_path paths \<noteq> []"
    and run: "steal_along ws paths is ls = Inr (ls', paths', r)"
  shows "quiet n ls ls'"
  using assms(5) run
proof (induction "is")
  case (Cons i "is")
  let ?len = "int (length (steal_path paths))" and ?k = "scan_index paths i"
  let ?l = "steal_path paths ! nat ?k"
  have "?k = (last_successful_steal_locale paths + i) mod ?len"
    unfolding scan_index_def using last Cons.prems assms(6) by (intro smod_small) auto
  then have k: "0 \<le> ?k" "?k < ?len" using assms(6) by auto
  then have get: "arr_get (steal_path paths) ?k = Inr ?l" by (simp add: arr_get_def)
  have l: "?l < length ls" using wf(2) k nth_mem [of "nat ?k" "steal_path paths"] by (simp add: nat_less_iff subset_iff)
  have rng: "\<forall>v \<in> set (intra_victims ws). 0 \<le> v \<and> v < int n" "\<forall>v \<in> set (leftover_victims ws). 0 \<le> v \<and> v < int n"
    using victims_all [OF wf(3)] by (auto simp: victims_def set_eq_iff)
  note first = steal_from_first [OF wf(1) l rng(1)] steal_from_first [OF wf(1) l rng(2)]
  have none: "ls1 = ls" if "steal_from ls ?l vs = Inr (ls1, None)" "vs = intra_victims ws \<or> vs = leftover_victims ws" for vs ls1
    using that first by (auto split: option.splits)
  from Cons.prems(2) get obtain ls1 r1 where s1: "steal_from ls ?l (intra_victims ws) = Inr (ls1, r1)"
    by (auto simp: scan_index_def Let_def res_simps)
  show ?case
  proof (cases r1)
    case (Some sv)
    then have "ls' = ls1" using Cons.prems(2) get s1 by (auto simp: scan_index_def Let_def)
    then show ?thesis using steal_from_quiet [OF wf(1) l rng(1) s1] by simp
  next
    case None
    then have e1: "ls1 = ls" using none [OF _ disjI1 [OF refl]] s1 by simp
    from Cons.prems(2) get s1 None obtain ls2 r2 where s2: "steal_from ls1 ?l (leftover_victims ws) = Inr (ls2, r2)"
      by (auto simp: scan_index_def Let_def res_simps)
    show ?thesis
    proof (cases r2)
      case (Some sv)
      then have "ls' = ls2" using Cons.prems(2) get s1 s2 None by (auto simp: scan_index_def Let_def)
      then show ?thesis using steal_from_quiet [OF wf(1) l rng(2)] s2 e1 by simp
    next
      case none2: None
      then have "ls2 = ls" using none [OF _ disjI2 [OF refl]] s2 e1 by simp
      then have "steal_along ws paths is ls = Inr (ls', paths', r)"
        using Cons.prems(2) get s1 s2 None none2 by (auto simp: scan_index_def Let_def)
      then show ?thesis using Cons.IH Cons.prems(1) by simp
    qed
  qed
qed simp

section \<open>A found task leaves the pool\<close>

lemma take_inv:
  assumes inv: "sched_inv n st W C E" and lw: "l < length (rt_pool st)" "w < n"
    and ch: "only_changed n (rt_pool st) l w ts ls'" "quiet n (rt_pool st) ls'"
    and t: "mset (tasks_at (rt_pool st) l w) = mset ts + {#t#}"
  shows "sched_inv n (st\<lparr>rt_pool := ls'\<rparr>) W C (insert t E)" "ready_ok st t" "t \<notin> C \<union> E \<union> waiting W"
proof -
  have P: "prom_inv st W" and L: "place_inv n st W C E" and S: "site_inv n st" using inv by (auto simp: sched_inv_def)
  note D = place_invD [OF L]
  let ?st = "st\<lparr>rt_pool := ls'\<rparr>"
  have "pool_tasks n ls' + (mset ts + {#t#}) = pool_tasks n (rt_pool st) + mset ts"
    using pool_tasks_changed [OF ch(1) lw] unfolding t .
  then have pool: "pool_tasks n (rt_pool st) = add_mset t (pool_tasks n ls')" by (simp add: ac_simps)
  then have in_pool: "t \<in># pool_tasks n (rt_pool st)" by simp
  have nt: "t \<notin># pool_tasks n ls'" using D(1) [of t] unfolding pool by (simp add: not_in_iff)
  show r: "ready_ok st t" "t \<notin> C \<union> E \<union> waiting W" using D(2) [OF in_pool] by auto
  have len: "length ls' = length (rt_pool st)" using ch(1) by (simp add: only_changed_def)
  have "place_inv n ?st W C (insert t E)"
  proof (rule place_invI)
    fix t' l' w'
    have c: "count (pool_tasks n ls') t' \<le> count (pool_tasks n (rt_pool st)) t'" unfolding pool by simp
    show "count (pool_tasks n (rt_pool ?st)) t' \<le> 1" using le_trans [OF c D(1)] by simp
    show "t' \<notin> C \<union> insert t E \<union> waiting W \<and> ready_ok ?st t'" if "t' \<in># pool_tasks n (rt_pool ?st)"
    proof -
      have t': "t' \<in># pool_tasks n ls'" using that by simp
      then have "t' \<noteq> t" using nt by auto
      moreover have "t' \<in># pool_tasks n (rt_pool st)" unfolding pool using t' by simp
      ultimately show ?thesis using D(2) [of t'] by auto
    qed
    show "C \<inter> insert t E = {}" "waiting W \<inter> (C \<union> insert t E) = {}" using D(3,4) r(2) by auto
    show "tasks ?st t' \<noteq> None \<longleftrightarrow> t' \<in># pool_tasks n (rt_pool ?st) \<or> t' \<in> C \<union> insert t E \<union> waiting W"
      using D(5) [of t'] unfolding pool by auto
    show "t' < next_addr ?st" if "tasks ?st t' \<noteq> None" using that D(6) by simp
    show "tail (deques (rt_pool ?st ! l') ! w') + int (card (C \<union> waiting W)) \<le> int (next_addr ?st)"
      if "l' < length (rt_pool ?st)" "w' < n"
    proof -
      have "tail (deques (ls' ! l') ! w') \<le> tail (deques (rt_pool st ! l') ! w')" using ch(2) that len by (simp add: quiet_def)
      then show ?thesis using D(7) [of l' w'] that len by simp
    qed
  qed
  moreover have "site_inv n ?st"
  proof -
    have "reachable (ls' ! l') = reachable (rt_pool st ! l')" if "l' < length ls'" for l'
      using ch(2) that len by (metis nth_map quiet_def)
    then show ?thesis using S ch(1) len by (auto simp: site_inv_def only_changed_def)
  qed
  ultimately show "sched_inv n ?st W C (insert t E)" using P by (simp add: sched_inv_def)
qed

text \<open>The paths of every worker lead through the pool.\<close>

definition path_ok :: "nat \<Rightarrow> nat \<Rightarrow> worker_state \<Rightarrow> worker_paths \<Rightarrow> bool" where
  "path_ok n len ws paths \<longleftrightarrow> set (pop_path paths) \<subseteq> {..<len} \<and> set (steal_path paths) \<subseteq> {..<len} \<and>
     steal_path paths \<noteq> [] \<and> 0 \<le> last_successful_steal_locale paths \<and> socket_ok n ws"

definition search_inv :: "nat \<Rightarrow> ('c, 'd, 'i) rt \<Rightarrow> bool" where
  "search_inv n st \<longleftrightarrow> length (rt_paths st) = n \<and> length (rt_workers st) = n \<and>
     (\<forall>w < n. path_ok n (length (rt_pool st)) (worker_state.truncate (rt_workers st ! w)) (rt_paths st ! w))"

lemma path_ok_last: "path_ok n len ws paths \<Longrightarrow> 0 \<le> k \<Longrightarrow> path_ok n len ws (paths\<lparr>last_successful_steal_locale := k\<rparr>)"
  by (simp add: path_ok_def)

lemma search_cong:
  assumes "search_inv n st" "rt_paths st' = rt_paths st" "length (rt_pool st') = length (rt_pool st)"
    and "map worker_state.truncate (rt_workers st') = map worker_state.truncate (rt_workers st)"
  shows "search_inv n st'"
proof -
  have l: "length (rt_workers st') = length (rt_workers st)" using assms(4) by (rule map_eq_imp_length_eq)
  have "worker_state.truncate (rt_workers st' ! w) = worker_state.truncate (rt_workers st ! w)" if "w < length (rt_workers st)" for w
    using that l assms(4) by (metis nth_map)
  then show ?thesis using assms(1-3) l by (auto simp: search_inv_def)
qed

text \<open>What a search leaves as it is.\<close>

definition searched :: "nat \<Rightarrow> ('c, 'd, 'i) rt \<Rightarrow> ('c, 'd, 'i) rt \<Rightarrow> bool" where
  "searched n st st' \<longleftrightarrow> tasks st' = tasks st \<and> promises st' = promises st \<and> finishes st' = finishes st \<and>
     next_addr st' = next_addr st \<and> rt_workers st' = rt_workers st \<and> length (rt_pool st') = length (rt_pool st) \<and>
     (search_inv n st \<longrightarrow> search_inv n st')"

definition found_inv :: "nat \<Rightarrow> ('c, 'd, 'i) rt \<Rightarrow> (nat \<Rightarrow> nat list) \<Rightarrow> nat set \<Rightarrow> search \<Rightarrow> bool" where
  "found_inv n st W E r = (case r of Got t \<Rightarrow> sched_inv n st W {} (insert t E) \<and> t \<notin> E \<and> ready_ok st t
     | _ \<Rightarrow> sched_inv n st W {} E)"

lemma pop_step_inv:
  assumes inv: "sched_inv n st W {} E" "search_inv n st" and w: "wid < n" and run: "pop_step wid st = Inr (st', r)"
  shows "found_inv n st' W E r \<and> searched n st st' \<and> r \<noteq> Give_up"
proof -
  let ?ls = "rt_pool st" and ?p = "pop_path (rt_paths st ! wid)"
  have site: "pool_wf n ?ls" "ws_id (rt_workers st ! wid) = int wid" using inv(1) w by (auto simp: sched_inv_def site_inv_def)
  have sub: "set ?p \<subseteq> {..<length ?ls}" using inv(2) w by (simp add: search_inv_def path_ok_def)
  obtain ls opt where pop: "pop_along ?ls (int wid) ?p = Inr (ls, opt)" and st': "st' = st\<lparr>rt_pool := ls\<rparr>"
    and r: "r = (case opt of Some t \<Rightarrow> Got t | None \<Rightarrow> Try_steal)"
    using run site(2) by (auto simp: pop_step_def locale_pop_task_def worker_state.truncate_def res_simps)
  note first = pop_along_first [OF site(1) sub w]
  note q = pop_along_quiet [OF site(1) sub w pop]
  have len: "length ls = length ?ls" using q by (metis length_map quiet_def)
  have s: "searched n st st'" using len by (auto simp: searched_def st' intro: search_cong)
  show ?thesis
  proof (cases "find (\<lambda>l. tasks_at ?ls l wid \<noteq> []) ?p")
    case None
    then have "opt = None" "ls = ?ls" using first pop by auto
    then show ?thesis using inv(1) s by (simp add: r found_inv_def st')
  next
    case (Some l)
    then have l: "l < length ?ls" "tasks_at ?ls l wid \<noteq> []" using sub nth_mem by (fastforce simp: find_Some_iff)+
    have opt: "opt = Some (last (tasks_at ?ls l wid))" and ch: "only_changed n ?ls l wid (butlast (tasks_at ?ls l wid)) ls"
      using first pop Some by auto
    have m: "mset (tasks_at ?ls l wid) = mset (butlast (tasks_at ?ls l wid)) + {#last (tasks_at ?ls l wid)#}"
      using append_butlast_last_id [OF l(2)] by (metis mset.simps(1) mset.simps(2) mset_append)
    show ?thesis using take_inv [OF inv(1) l(1) w ch q m] s opt by (simp add: r found_inv_def st')
  qed
qed

lemma steal_step_inv:
  assumes inv: "sched_inv n st W {} E" "search_inv n st" and w: "wid < n" and run: "steal_step wid st = Inr (st', r)"
  shows "found_inv n st' W E r \<and> searched n st st' \<and> r \<noteq> Give_up"
proof -
  let ?ls = "rt_pool st" and ?paths = "rt_paths st ! wid" and ?ws = "worker_state.truncate (rt_workers st ! wid)"
  let ?is = "[0..int (length (steal_path ?paths)) - 1]"
  have wf: "pool_wf n ?ls" using inv(1) by (simp add: sched_inv_def site_inv_def)
  have p: "set (steal_path ?paths) \<subseteq> {..<length ?ls}" "steal_path ?paths \<noteq> []" "socket_ok n ?ws"
      "0 \<le> last_successful_steal_locale ?paths" "length (rt_paths st) = n"
    using inv(2) w by (simp_all add: search_inv_def path_ok_def)
  have nn: "\<forall>i \<in> set ?is. 0 \<le> i" by simp
  obtain ls paths opt where steal: "steal_along ?ws ?paths ?is ?ls = Inr (ls, paths, opt)"
    using run by (auto simp: steal_step_def locale_steal_task_def res_simps)
  note first = steal_along_first [OF wf p(1,3,4) nn p(2)] and q = steal_along_quiet [OF wf p(1,3,4) nn p(2) steal]
  have len: "length ls = length ?ls" using q by (metis length_map quiet_def)
  have s: "searched n st (st\<lparr>rt_pool := ls, rt_paths := (rt_paths st)[wid := paths]\<rparr>)"
    if "paths = ?paths \<or> (\<exists>k \<ge> 0. paths = ?paths\<lparr>last_successful_steal_locale := k\<rparr>)"
    using that len w p(5) by (auto simp: searched_def search_inv_def nth_upd_if intro: path_ok_last)
  show ?thesis
  proof (cases "find (nonempty_at ?paths ?ls) (scan ?ws ?paths ?is)")
    case None
    then have e: "opt = None" "ls = ?ls" "paths = ?paths" using first steal by auto
    then have "st' = st\<lparr>rt_pool := ls, rt_paths := (rt_paths st)[wid := paths]\<rparr>" "r = Try_steal"
      using run steal by (auto simp: steal_step_def locale_steal_task_def Let_def)
    moreover have "same_sched st (st\<lparr>rt_pool := ?ls, rt_paths := (rt_paths st)[wid := ?paths]\<rparr>)"
      by (simp add: same_sched_def list_update_id)
    ultimately show ?thesis using e s inv(1) same_sched_inv by (auto simp: found_inv_def)
  next
    case (Some kv)
    obtain k v where kv: "kv = (k, v)" by (cases kv)
    let ?l = "steal_path ?paths ! nat k"
    let ?ts = "tasks_at ?ls ?l (nat v)"
    have kv_in: "0 \<le> k" "k < int (length (steal_path ?paths))" "0 \<le> v" "v < int n" "?ts \<noteq> []"
    proof -
      have "(k, v) \<in> set (scan ?ws ?paths ?is)" "nonempty_at ?paths ?ls (k, v)" using Some kv by (auto simp: find_Some_iff)
      then show "0 \<le> k" "k < int (length (steal_path ?paths))" "0 \<le> v" "v < int n" "?ts \<noteq> []"
        using scan_covers [OF p(3,2,4)] by (auto simp: nonempty_at_def)
    qed
    have l: "?l < length ?ls" using p(1) kv_in(1,2) nth_mem [of "nat k" "steal_path ?paths"] by (simp add: nat_less_iff subset_iff)
    have e: "paths = ?paths\<lparr>last_successful_steal_locale := k\<rparr>" "opt = Some ([Some (hd ?ts)], v)"
        and ch: "only_changed n ?ls ?l (nat v) (tl ?ts) ls"
      using first steal Some kv by (auto simp: Let_def)
    have st': "st' = st\<lparr>rt_pool := ls, rt_paths := (rt_paths st)[wid := paths]\<rparr>" "r = Got (hd ?ts)"
      using run steal e(2) by (auto simp: steal_step_def locale_steal_task_def Let_def arr_get_def)
    have m: "mset ?ts = mset (tl ?ts) + {#hd ?ts#}" using kv_in(5) by (cases ?ts) auto
    have v: "nat v < n" using kv_in(3,4) by simp
    note t = take_inv [OF inv(1) l v ch q m]
    have "found_inv n (st\<lparr>rt_pool := ls\<rparr>) W E r" using t by (simp add: found_inv_def st'(2))
    moreover have "sched_inv n st' W {} F = sched_inv n (st\<lparr>rt_pool := ls\<rparr>) W {} F" for F
    proof -
      have "ready_ok st' = ready_ok (st\<lparr>rt_pool := ls\<rparr>)" "prom_inv st' W = prom_inv (st\<lparr>rt_pool := ls\<rparr>) W"
        by (rule heap_cong; simp add: st'(1))+
      then show ?thesis by (simp add: sched_inv_def place_inv_def site_inv_def st'(1))
    qed
    moreover have "ready_ok st' = ready_ok (st\<lparr>rt_pool := ls\<rparr>)" by (rule heap_cong) (simp_all add: st'(1))
    ultimately have "found_inv n st' W E r" by (simp add: found_inv_def st'(2))
    then show ?thesis using s e(1) kv_in(1) st' by auto
  qed
qed

lemma find_step_inv:
  assumes "sched_inv n st W {} E" "search_inv n st" "wid < n" "find_step wid stealing reached st = Inr (st', r)"
  shows "found_inv n st' W E r \<and> searched n st st'"
proof (cases "stealing \<and> reached")
  case True
  then show ?thesis using assms by (auto simp: find_step_def found_inv_def searched_def)
next
  case False
  then show ?thesis using pop_step_inv [OF assms(1-3)] steal_step_inv [OF assms(1-3)] assms(4)
    by (auto simp: find_step_def split: if_splits)
qed

lemma searched_scope: "searched n st st' \<Longrightarrow> scope_inv st \<delta> \<Longrightarrow> scope_inv st' \<delta>"
  by (rule scope_cong) (simp_all add: searched_def)

section \<open>New promises\<close>

lemma promise_create_inv:
  assumes inv: "sched_inv n st W C E" and fresh: "promises st (next_addr st) = None"
  shows "sched_inv n (fst (hclib_promise_create st)) W C E"
proof -
  let ?a = "next_addr st" and ?pr = "hclib_promise_init :: 'b promise"
  define st1 where "st1 = put_promise ?a ?pr (st\<lparr>next_addr := ?a + 1\<rparr>)"
  have st1: "fst (hclib_promise_create st) = st1" by (simp add: hclib_promise_create_def st1_def)
  have inv0: "sched_inv n (st\<lparr>next_addr := ?a + 1\<rparr>) W C E" by (rule sched_next_addr [OF inv]) simp
  then have P: "prom_inv (st\<lparr>next_addr := ?a + 1\<rparr>) W" and L: "place_inv n (st\<lparr>next_addr := ?a + 1\<rparr>) W C E"
    and S: "site_inv n (st\<lparr>next_addr := ?a + 1\<rparr>)" by (auto simp: sched_inv_def)
  let ?st0 = "st\<lparr>next_addr := ?a + 1\<rparr>"
  have cl: "dep_closed st1 = dep_closed ?st0"
    using fresh unfolding dep_closed_def st1_def fun_eq_iff by (auto simp: hclib_promise_init_def split: option.split)
  have ex: "deps_exist ?st0 tk \<Longrightarrow> deps_exist st1 tk" for tk by (auto simp: deps_exist_def st1_def)
  have mono: "task_ok ?st0 t Q \<Longrightarrow> task_ok st1 t Q" for t Q
    using ex by (auto simp: task_ok_def st1_def split: option.splits)
  have ok: "waits_ok ?st0 p t \<Longrightarrow> waits_ok st1 p t" "ready_ok ?st0 t \<Longrightarrow> ready_ok st1 t" for p t
    unfolding waits_ok_def ready_ok_def cl by (erule mono)+
  have Wa: "W ?a = []" using prom_invD(1) [OF P, of ?a] fresh by simp
  have "prom_inv st1 W"
  proof (rule prom_invI)
    fix p t assume "t \<in> set (W p)"
    then show "waits_ok st1 p t" using prom_invD(6) [OF P] ok(1) by blast
  next
    fix p pr assume p: "promises st1 p = Some pr"
    show "satisfied pr = (wait_list_head pr = Satisfied_ptr)"
      using p prom_invD(2) [OF P, of p pr] by (auto simp: st1_def hclib_promise_init_def split: if_splits)
    show "W p = []" if "satisfied pr"
      using p prom_invD(3) [OF P, of p pr] that Wa by (auto simp: st1_def split: if_splits)
    show "chain (tasks st1) (wait_list_head pr) (W p)" if "\<not> satisfied pr"
      using p prom_invD(4) [OF P, of p pr] that Wa by (auto simp: st1_def hclib_promise_init_def split: if_splits)
  next
    fix p assume "promises st1 p = None"
    then show "W p = []" using prom_invD(1) [OF P, of p] by (auto simp: st1_def split: if_splits)
  qed (use prom_invD(5,7) [OF P] in auto)
  moreover have "place_inv n st1 W C E" by (rule place_cong [OF L]) (simp_all add: st1_def ok(2) [unfolded st1_def, simplified])
  moreover have "site_inv n st1" using S by (auto simp: site_inv_def st1_def)
  ultimately show ?thesis unfolding st1 by (simp add: sched_inv_def)
qed

end
