(* ===== verification/Runtime_Machine.thy ===== *)
theory Runtime_Machine
  imports Task_Search
begin

text \<open>
  The workers of \<^verbatim>\<open>src/src/hclib-runtime.c\<close> as a machine. A lightweight context is a stack of activation
  records of the runtime's functions; a worker runs one context, a blocked task may leave its
  context behind as a continuation that a task of its own resumes later, on any worker. User code
  is arbitrary: a body may do any of the actions of the interface in any order.
\<close>

section \<open>Contexts\<close>

text \<open>Where a search loop stands: at its loop condition, at the pop, or in the loop of steal attempts.\<close>

datatype phase = Check | Pop | Steal

text \<open>
  The activation records, with the local variables that they need:
  \<^item> \<open>Body t fs\<close>: \<^verbatim>\<open>execute_task\<close> of \<open>t\<close> in the task's function, which has opened the scopes \<open>fs\<close>;
  \<^item> \<open>End_finish f tsk ws\<close>: \<^verbatim>\<open>hclib_end_finish\<close> in \<^verbatim>\<open>help_finish\<close>, with the worker read at its start;
  \<^item> \<open>Finish_swapped f tsk p\<close>: the same, swapped out until the promise \<open>p\<close> is satisfied;
  \<^item> \<open>Future_wait p fin tsk ws\<close>, \<open>Wait_swapped p fin tsk\<close>: \<^verbatim>\<open>hclib_future_wait\<close>;
  \<^item> \<open>Yield loc fin tsk\<close>, \<open>Yield_swapped fin tsk\<close>: \<^verbatim>\<open>hclib_yield\<close>;
  \<^item> \<open>Help_finish f t c\<close>, \<open>Help_wait p t c\<close>, \<open>Yield_helper loc t c\<close>: the functions that a new context starts
    with, where \<open>c\<close> is the context swapped out;
  \<^item> \<open>Work_loop ws\<close>: the loop of \<^verbatim>\<open>core_work_loop\<close>;
  \<^item> \<open>Finalize fs\<close>: \<^verbatim>\<open>_hclib_finalize_ctx\<close>, which owns the root scope.
\<close>

datatype frame =
    Body nat "nat list"
  | End_finish nat "nat option" nat phase
  | Finish_swapped nat "nat option" nat
  | Future_wait nat "nat option" "nat option" nat phase
  | Wait_swapped nat "nat option" "nat option"
  | Yield "nat option" "nat option" "nat option" phase
  | Yield_swapped "nat option" "nat option"
  | Help_finish nat nat nat
  | Help_wait nat nat nat
  | Yield_helper "nat option" nat nat
  | Work_loop nat phase
  | Finalize "nat list"

text \<open>
  \<open>ctxs\<close> holds the stacks of all contexts, top first, and \<open>curr_ctx\<close> what each worker runs; a worker
  that is back in its system thread runs none.
\<close>

record ('u, 'd, 'i) machine =
  heap :: "('u, 'd, 'i) hrt"
  ctxs :: "nat \<Rightarrow> frame list option"
  curr_ctx :: "nat option list"
  next_ctx :: nat
  done_flags :: "bool list"

definition frames_at :: "('u, 'd, 'i) machine \<Rightarrow> nat \<Rightarrow> (nat \<times> frame list) result" where
  "frames_at m w =
     (case curr_ctx m ! w of None \<Rightarrow> Inl Null_deref
      | Some c \<Rightarrow> res_bind (from_ptr (ctxs m c)) (\<lambda>fr. Inr (c, fr)))"

definition set_frames :: "nat \<Rightarrow> frame list \<Rightarrow> ('u, 'd, 'i) machine \<Rightarrow> ('u, 'd, 'i) machine" where
  "set_frames c fr m = m\<lparr>ctxs := (ctxs m)(c \<mapsto> fr)\<rparr>"

text \<open>
  \<^verbatim>\<open>_finish_ctx_resume\<close>: the worker goes on with the suspended context, which destroys the one it was
  resumed from.
\<close>

definition finish_ctx_resume :: "nat \<Rightarrow> nat \<Rightarrow> nat \<Rightarrow> ('u, 'd, 'i) machine \<Rightarrow> ('u, 'd, 'i) machine result" where
  "finish_ctx_resume w old c m =
     (if ctxs m c = None then Inl Null_deref
      else Inr (m\<lparr>curr_ctx := (curr_ctx m)[w := Some c], ctxs := (ctxs m)(old := None)\<rparr>))"

text \<open>\<^verbatim>\<open>LiteCtx_create\<close> and \<^verbatim>\<open>ctx_swap\<close> to a new context that starts in \<open>helper\<close>.\<close>

definition swap_to_new :: "nat \<Rightarrow> frame \<Rightarrow> ('u, 'd, 'i) machine \<Rightarrow> ('u, 'd, 'i) machine" where
  "swap_to_new w helper m =
     m\<lparr>ctxs := (ctxs m)(next_ctx m \<mapsto> [helper]), curr_ctx := (curr_ctx m)[w := Some (next_ctx m)], next_ctx := next_ctx m + 1\<rparr>"

text \<open>The jump back to the system thread, which destroys the context it comes from.\<close>

definition leave_ctx :: "nat \<Rightarrow> nat \<Rightarrow> ('u, 'd, 'i) machine \<Rightarrow> ('u, 'd, 'i) machine" where
  "leave_ctx w c m = m\<lparr>curr_ctx := (curr_ctx m)[w := None], ctxs := (ctxs m)(c := None)\<rparr>"

section \<open>Running tasks\<close>

text \<open>\<open>execute_task\<close> on top of the frames \<open>fr\<close> of context \<open>c\<close>.\<close>

definition start_task :: "nat \<Rightarrow> nat \<Rightarrow> nat \<Rightarrow> frame list \<Rightarrow> ('u, 'd, 'i) machine \<Rightarrow> ('u, 'd, 'i) machine result" where
  "start_task w t c fr m =
     res_bind (get_task (heap m) t) (\<lambda>tk.
     res_bind (execute_begin w t (heap m)) (\<lambda>st.
     case fp tk of
       Resume c' \<Rightarrow> finish_ctx_resume w c c' (set_frames c fr (m\<lparr>heap := st\<rparr>))
     | _ \<Rightarrow> Inr (set_frames c (Body t [] # fr) (m\<lparr>heap := st\<rparr>))))"

text \<open>
  One round of \<^verbatim>\<open>find_and_run_task\<close> in phase \<open>ph\<close>: the frame as a function of the phase, what
  to do with a task that must not run here, and the policy as arguments.
\<close>

definition search_round ::
  "nat \<Rightarrow> nat \<Rightarrow> phase \<Rightarrow> bool \<Rightarrow> bool \<Rightarrow> nat option \<Rightarrow> (phase \<Rightarrow> frame) \<Rightarrow>
   (nat \<Rightarrow> ('u, 'd, 'i) machine \<Rightarrow> ('u, 'd, 'i) machine result) \<Rightarrow>
   nat \<Rightarrow> frame list \<Rightarrow> ('u, 'd, 'i) machine \<Rightarrow> ('u, 'd, 'i) machine result" where
  "search_round w ws ph reached on_fresh cur frm swp c rest m =
     res_bind (find_step ws (ph = Steal) reached (heap m)) (\<lambda>(st, r).
     let m1 = m\<lparr>heap := st\<rparr> in
     case r of
       Try_steal \<Rightarrow> Inr (set_frames c (frm Steal # rest) m1)
     | Give_up \<Rightarrow> Inr (set_frames c (frm Check # rest) m1)
     | Got t \<Rightarrow>
         res_bind (get_task st t) (\<lambda>tk.
         if runs_here on_fresh cur tk then start_task w t c (frm Check # rest) m1 else swp t m1))"

text \<open>The start of a helper context: a task that resumes \<open>c'\<close> is spawned, then the work loop runs.\<close>

definition start_helper ::
  "nat \<Rightarrow> nat \<Rightarrow> nat \<Rightarrow> nat \<Rightarrow> (nat \<Rightarrow> ('u, 'd, 'i) hrt \<Rightarrow> ('u, 'd, 'i) hrt result) \<Rightarrow>
   ('u, 'd, 'i) machine \<Rightarrow> ('u, 'd, 'i) machine result" where
  "start_helper w c t c' spawn_it m =
     (let (st, r) = alloc_task (Resume c') False (heap m) in
      res_bind (spawn_it r st) (\<lambda>st1.
      start_task w t c [Work_loop w Pop] (m\<lparr>heap := st1\<rparr>)))"

section \<open>The steps of the runtime\<close>

text \<open>\<^verbatim>\<open>help_finish\<close>, and the rest of \<^verbatim>\<open>hclib_end_finish\<close> when it is done.\<close>

definition drop_scope :: "frame list \<Rightarrow> frame list" where
  "drop_scope fr = (case fr of Body t fs # r \<Rightarrow> Body t (tl fs) # r | Finalize fs # r \<Rightarrow> Finalize (tl fs) # r | _ \<Rightarrow> fr)"

definition run_end_finish ::
  "nat \<Rightarrow> nat \<Rightarrow> nat \<Rightarrow> nat option \<Rightarrow> nat \<Rightarrow> phase \<Rightarrow> frame list \<Rightarrow> ('u, 'd, 'i) machine \<Rightarrow> ('u, 'd, 'i) machine result" where
  "run_end_finish w c f tsk ws ph rest m =
     res_bind (get_finish (heap m) f) (\<lambda>fin.
     if ph = Check then
       (if counter fin > 1 then Inr (set_frames c (End_finish f tsk ws Pop # rest) m)
        else res_bind (c_assert (counter fin = 1)) (\<lambda>_.
             res_bind (leave_finish w f tsk (heap m)) (\<lambda>st.
             Inr (set_frames c (drop_scope rest) (m\<lparr>heap := st\<rparr>)))))
     else
       search_round w ws ph (counter fin = 1) True (Some f) (End_finish f tsk ws)
         (\<lambda>t m1. let (st, p) = hclib_promise_create (heap m1) in
            res_bind (get_finish st f) (\<lambda>fin1.
            Inr (swap_to_new w (Help_finish f t c)
              (set_frames c (Finish_swapped f tsk p # rest)
                (m1\<lparr>heap := put_finish f (fin1\<lparr>finish_dep := Some p\<rparr>) st\<rparr>)))))
         c rest m)"

definition run_finish_swapped ::
  "nat \<Rightarrow> nat \<Rightarrow> nat \<Rightarrow> nat option \<Rightarrow> nat \<Rightarrow> frame list \<Rightarrow> ('u, 'd, 'i) machine \<Rightarrow> ('u, 'd, 'i) machine result" where
  "run_finish_swapped w c f tsk p rest m =
     (let st = hclib_promise_free p (heap m) in
      res_bind (get_finish st f) (\<lambda>fin.
      res_bind (c_assert (counter fin = 0)) (\<lambda>_.
      res_bind (leave_finish w f tsk st) (\<lambda>st1.
      Inr (set_frames c (drop_scope rest) (m\<lparr>heap := st1\<rparr>))))))"

definition run_help_finish ::
  "nat \<Rightarrow> nat \<Rightarrow> nat \<Rightarrow> nat \<Rightarrow> nat \<Rightarrow> ('u, 'd, 'i) machine \<Rightarrow> ('u, 'd, 'i) machine result" where
  "run_help_finish w c f t c' m =
     start_helper w c t c' (\<lambda>r st.
       res_bind (get_finish st f) (\<lambda>fin.
       res_bind (spawn_escaping w r (finish_dep fin) st) (\<lambda>st1. check_out_finish w (Some f) st1))) m"

text \<open>\<^verbatim>\<open>hclib_future_wait\<close>.\<close>

definition run_future_wait ::
  "nat \<Rightarrow> nat \<Rightarrow> nat \<Rightarrow> nat option \<Rightarrow> nat option \<Rightarrow> nat \<Rightarrow> phase \<Rightarrow> frame list \<Rightarrow> ('u, 'd, 'i) machine \<Rightarrow> ('u, 'd, 'i) machine result" where
  "run_future_wait w c p fin tsk ws ph rest m =
     res_bind (hclib_future_is_satisfied (heap m) p) (\<lambda>sat.
     if ph = Check then
       Inr (if sat then set_frames c rest (m\<lparr>heap := set_worker w fin tsk (heap m)\<rparr>)
            else set_frames c (Future_wait p fin tsk ws Pop # rest) m)
     else
       search_round w ws ph sat False None (Future_wait p fin tsk ws)
         (\<lambda>t m1. Inr (swap_to_new w (Help_wait p t c) (set_frames c (Wait_swapped p fin tsk # rest) m1)))
         c rest m)"

definition run_wait_swapped ::
  "nat \<Rightarrow> nat \<Rightarrow> nat \<Rightarrow> nat option \<Rightarrow> nat option \<Rightarrow> frame list \<Rightarrow> ('u, 'd, 'i) machine \<Rightarrow> ('u, 'd, 'i) machine result" where
  "run_wait_swapped w c p fin tsk rest m =
     res_bind (hclib_future_is_satisfied (heap m) p) (\<lambda>sat.
     res_bind (c_assert sat) (\<lambda>_. Inr (set_frames c rest (m\<lparr>heap := set_worker w fin tsk (heap m)\<rparr>))))"

definition run_help_wait :: "nat \<Rightarrow> nat \<Rightarrow> nat \<Rightarrow> nat \<Rightarrow> nat \<Rightarrow> ('u, 'd, 'i) machine \<Rightarrow> ('u, 'd, 'i) machine result" where
  "run_help_wait w c p t c' m = start_helper w c t c' (\<lambda>r st. spawn_escaping w r (Some p) st) m"

text \<open>\<^verbatim>\<open>hclib_yield\<close>: it reads its worker in every round, and gives up when one pop and one steal find nothing.\<close>

definition run_yield ::
  "nat \<Rightarrow> nat \<Rightarrow> nat option \<Rightarrow> nat option \<Rightarrow> nat option \<Rightarrow> phase \<Rightarrow> frame list \<Rightarrow> ('u, 'd, 'i) machine \<Rightarrow> ('u, 'd, 'i) machine result" where
  "run_yield w c loc fin tsk ph rest m =
     res_bind (if ph = Steal then steal_step w (heap m) else pop_step w (heap m)) (\<lambda>(st, r).
     let m1 = m\<lparr>heap := st\<rparr> in
     case r of
       Got t \<Rightarrow>
         res_bind (get_task st t) (\<lambda>tk.
         if non_blocking tk then start_task w t c (Yield loc fin tsk Pop # rest) m1
         else Inr (swap_to_new w (Yield_helper loc t c) (set_frames c (Yield_swapped fin tsk # rest) m1)))
     | _ \<Rightarrow>
         Inr (if ph = Steal then set_frames c rest (m1\<lparr>heap := set_worker w fin tsk st\<rparr>)
              else set_frames c (Yield loc fin tsk Steal # rest) m1))"

definition run_yield_swapped ::
  "nat \<Rightarrow> nat \<Rightarrow> nat option \<Rightarrow> nat option \<Rightarrow> frame list \<Rightarrow> ('u, 'd, 'i) machine \<Rightarrow> ('u, 'd, 'i) machine result" where
  "run_yield_swapped w c fin tsk rest m = Inr (set_frames c rest (m\<lparr>heap := set_worker w fin tsk (heap m)\<rparr>))"

definition run_yield_helper :: "nat \<Rightarrow> nat \<Rightarrow> nat option \<Rightarrow> nat \<Rightarrow> nat \<Rightarrow> ('u, 'd, 'i) machine \<Rightarrow> ('u, 'd, 'i) machine result" where
  "run_yield_helper w c loc t c' m = start_helper w c t c' (\<lambda>r st. spawn_escaping_at w loc r None st) m"

text \<open>\<^verbatim>\<open>core_work_loop\<close>, a do-while loop; the worker is read at the start of a round.\<close>

definition run_work_loop ::
  "nat \<Rightarrow> nat \<Rightarrow> nat \<Rightarrow> phase \<Rightarrow> frame list \<Rightarrow> ('u, 'd, 'i) machine \<Rightarrow> ('u, 'd, 'i) machine result" where
  "run_work_loop w c ws ph rest m =
     (if ph = Check then
        Inr (if done_flags m ! ws then set_frames c (Work_loop ws Pop # rest) m else leave_ctx w c m)
      else
        let ws' = (if ph = Pop then w else ws) in
        search_round w ws' ph (\<not> done_flags m ! ws') True None (Work_loop ws') (\<lambda>t m1. Inl Assert_failed) c rest m)"

text \<open>\<^verbatim>\<open>_hclib_finalize_ctx\<close> after its \<^verbatim>\<open>hclib_end_finish\<close>.\<close>

definition hclib_signal_join :: "('u, 'd, 'i) machine \<Rightarrow> ('u, 'd, 'i) machine" where
  "hclib_signal_join m = m\<lparr>done_flags := map (\<lambda>_. False) (done_flags m)\<rparr>"

definition run_finalize :: "nat \<Rightarrow> nat \<Rightarrow> ('u, 'd, 'i) machine \<Rightarrow> ('u, 'd, 'i) machine result" where
  "run_finalize w c m = Inr (leave_ctx w c (hclib_signal_join m))"

text \<open>One step of the runtime functions of worker \<open>w\<close>.\<close>

definition run_frame :: "nat \<Rightarrow> ('u, 'd, 'i) machine \<Rightarrow> ('u, 'd, 'i) machine result" where
  "run_frame w m =
     res_bind (frames_at m w) (\<lambda>(c, fr).
     case fr of
       End_finish f tsk ws ph # rest \<Rightarrow> run_end_finish w c f tsk ws ph rest m
     | Finish_swapped f tsk p # rest \<Rightarrow> run_finish_swapped w c f tsk p rest m
     | Future_wait p fin tsk ws ph # rest \<Rightarrow> run_future_wait w c p fin tsk ws ph rest m
     | Wait_swapped p fin tsk # rest \<Rightarrow> run_wait_swapped w c p fin tsk rest m
     | Yield loc fin tsk ph # rest \<Rightarrow> run_yield w c loc fin tsk ph rest m
     | Yield_swapped fin tsk # rest \<Rightarrow> run_yield_swapped w c fin tsk rest m
     | Help_finish f t c' # rest \<Rightarrow> run_help_finish w c f t c' m
     | Help_wait p t c' # rest \<Rightarrow> run_help_wait w c p t c' m
     | Yield_helper loc t c' # rest \<Rightarrow> run_yield_helper w c loc t c' m
     | Work_loop ws ph # rest \<Rightarrow> run_work_loop w c ws ph rest m
     | Finalize fs # rest \<Rightarrow> run_finalize w c m
     | _ \<Rightarrow> Inl Diverges)"

section \<open>The actions of user code\<close>

datatype ('u, 'd) action =
    Async 'u "nat option list" "nat option"
  | Async_nb 'u "nat option"
  | Async_future 'u "nat option list" "nat option"
  | Promise_create
  | Promise_put nat 'd
  | Start_finish
  | End_finish_call
  | End_finish_nonblocking
  | Future_wait_call nat
  | Yield_call "nat option"
  | Return 'd

text \<open>\<^verbatim>\<open>hclib_end_finish\<close> up to the call of \<^verbatim>\<open>help_finish\<close>.\<close>

definition hclib_end_finish ::
  "nat \<Rightarrow> nat \<Rightarrow> frame list \<Rightarrow> ('u, 'd, 'i) machine \<Rightarrow> ('u, 'd, 'i) machine result" where
  "hclib_end_finish w c fr m =
     (case cur_finish (heap m) w of
        None \<Rightarrow> Inl Assert_failed
      | Some f \<Rightarrow> res_bind (get_finish (heap m) f) (\<lambda>fin.
          res_bind (c_assert (counter fin > 0)) (\<lambda>_.
          Inr (set_frames c (End_finish f (cur_task (heap m) w) w Check # fr) m))))"

definition hclib_future_wait ::
  "nat \<Rightarrow> nat \<Rightarrow> nat \<Rightarrow> frame list \<Rightarrow> ('u, 'd, 'i) machine \<Rightarrow> ('u, 'd, 'i) machine result" where
  "hclib_future_wait w c p fr m =
     res_bind (hclib_future_is_satisfied (heap m) p) (\<lambda>sat.
     Inr (if sat then m
          else set_frames c (Future_wait p (cur_finish (heap m) w) (cur_task (heap m) w) w Check # fr) m))"

definition hclib_yield ::
  "nat \<Rightarrow> nat \<Rightarrow> nat option \<Rightarrow> frame list \<Rightarrow> ('u, 'd, 'i) machine \<Rightarrow> ('u, 'd, 'i) machine result" where
  "hclib_yield w c loc fr m =
     Inr (set_frames c (Yield loc (cur_finish (heap m) w) (cur_task (heap m) w) Pop # fr) m)"

text \<open>
  The return from a task's function to \<^verbatim>\<open>execute_task\<close>; \<^verbatim>\<open>future_caller\<close> first puts the result of the
  user function.
\<close>

definition return_task ::
  "nat \<Rightarrow> nat \<Rightarrow> nat \<Rightarrow> 'd \<Rightarrow> frame list \<Rightarrow> ('u, 'd, 'i) machine \<Rightarrow> ('u, 'd, 'i) machine result" where
  "return_task w c t d rest m =
     res_bind (get_task (heap m) t) (\<lambda>tk.
     res_bind (case fp tk of Future_caller p _ \<Rightarrow> hclib_promise_put w (Some p) (Some (User_data d)) (heap m)
               | _ \<Rightarrow> Inr (heap m)) (\<lambda>st.
     res_bind (execute_end w t st) (\<lambda>st1.
     Inr (set_frames c rest (m\<lparr>heap := st1\<rparr>)))))"

definition on_heap :: "('u, 'd, 'i) machine \<Rightarrow> ('u, 'd, 'i) hrt result \<Rightarrow> ('u, 'd, 'i) machine result" where
  "on_heap m r = res_bind r (\<lambda>st. Inr (m\<lparr>heap := st\<rparr>))"

definition user_action ::
  "nat \<Rightarrow> ('u, 'd) action \<Rightarrow> nat \<Rightarrow> nat \<Rightarrow> nat list \<Rightarrow> frame list \<Rightarrow> ('u, 'd, 'i) machine \<Rightarrow> ('u, 'd, 'i) machine result" where
  "user_action w a c t fs rest m =
     (let st = heap m in
      case a of
        Async u futures loc \<Rightarrow> on_heap m (hclib_async w (User u) futures loc st)
      | Async_nb u loc \<Rightarrow> on_heap m (hclib_async_nb w (User u) loc st)
      | Async_future u futures loc \<Rightarrow> on_heap m (res_bind (hclib_async_future w u futures loc st) (\<lambda>(st', p). Inr st'))
      | Promise_create \<Rightarrow> on_heap m (Inr (fst (hclib_promise_create st)))
      | Promise_put p d \<Rightarrow> on_heap m (hclib_promise_put w (Some p) (Some (User_data d)) st)
      | Start_finish \<Rightarrow>
          res_bind (on_heap m (hclib_start_finish w st)) (\<lambda>m1. Inr (set_frames c (Body t (next_addr st # fs) # rest) m1))
      | End_finish_call \<Rightarrow> hclib_end_finish w c (Body t fs # rest) m
      | End_finish_nonblocking \<Rightarrow>
          res_bind (on_heap m (res_bind (hclib_end_finish_nonblocking w st) (\<lambda>(st', p). Inr st'))) (\<lambda>m1.
          Inr (set_frames c (Body t (tl fs) # rest) m1))
      | Future_wait_call p \<Rightarrow> hclib_future_wait w c p (Body t fs # rest) m
      | Yield_call loc \<Rightarrow> hclib_yield w c loc (Body t fs # rest) m
      | Return d \<Rightarrow> return_task w c t d rest m)"

text \<open>
  What user code is expected to respect: futures and locales that it passes exist, every scope that
  a task closes was opened by it, and all are closed when its function returns.
\<close>

definition proper :: "('u, 'd, 'i) machine \<Rightarrow> ('u, 'd) action \<Rightarrow> nat list \<Rightarrow> bool" where
  "proper m a fs =
     (let locale_ok = (\<lambda>l. case l of None \<Rightarrow> True | Some l \<Rightarrow> l < length (rt_pool (heap m))) in
      case a of
        Async u futures loc \<Rightarrow> futures_ok (heap m) futures \<and> locale_ok loc
      | Async_nb u loc \<Rightarrow> locale_ok loc
      | Async_future u futures loc \<Rightarrow> futures_ok (heap m) futures \<and> locale_ok loc
      | End_finish_call \<Rightarrow> fs \<noteq> []
      | End_finish_nonblocking \<Rightarrow> fs \<noteq> []
      | Yield_call loc \<Rightarrow> locale_ok loc
      | Return d \<Rightarrow> fs = []
      | _ \<Rightarrow> True)"

section \<open>Execution\<close>

text \<open>A worker takes a step of the runtime, or the body that it runs does an action.\<close>

inductive machine_step :: "nat \<Rightarrow> ('u, 'd, 'i) machine \<Rightarrow> ('u, 'd, 'i) machine \<Rightarrow> bool" for n where
  run: "w < n \<Longrightarrow> run_frame w m = Inr m' \<Longrightarrow> machine_step n m m'"
| act: "w < n \<Longrightarrow> frames_at m w = Inr (c, Body t fs # rest) \<Longrightarrow> proper m a fs \<Longrightarrow>
        user_action w a c t fs rest m = Inr m' \<Longrightarrow> machine_step n m m'"

inductive_cases machine_stepE: "machine_step n m m'"

text \<open>
  \<^verbatim>\<open>hclib_launch\<close>: worker 0 opens the root scope, spawns the main task at its closest locale, and ends the root
  scope in \<^verbatim>\<open>_hclib_finalize_ctx\<close>; the other workers enter the work loop.
\<close>

definition hclib_launch :: "nat \<Rightarrow> 'u \<Rightarrow> ('u, 'd, 'i) hrt \<Rightarrow> ('u, 'd, 'i) machine result" where
  "hclib_launch n u st =
     res_bind (hclib_start_finish 0 st) (\<lambda>st1.
     res_bind (hclib_get_closest_locale (rt_paths st1 ! 0)) (\<lambda>l.
     res_bind (hclib_async 0 (User u) [] (Some l) st1) (\<lambda>st2.
     Inr \<lparr>heap = st2,
          ctxs = (\<lambda>c. if c = 0 then Some [End_finish (next_addr st) (cur_task st2 0) 0 Check, Finalize [next_addr st]]
                     else if c < n then Some [Work_loop c Pop] else None),
          curr_ctx = map Some [0..<n], next_ctx = n, done_flags = replicate n True\<rparr>)))"

text \<open>
  Executions in which no more than \<open>10 ^ 9\<close> objects are allocated; the counters of scopes and deques are
  of type \<^verbatim>\<open>int\<close> and would overflow at \<open>2 ^ 31\<close>.
\<close>

definition bounded :: "('u, 'd, 'i) machine \<Rightarrow> bool" where
  "bounded m \<longleftrightarrow> next_addr (heap m) + 2 \<le> 10 ^ 9"

inductive runs :: "nat \<Rightarrow> ('u, 'd, 'i) machine \<Rightarrow> ('u, 'd, 'i) machine \<Rightarrow> bool" for n where
  start: "runs n m m"
| more: "runs n m m' \<Longrightarrow> bounded m' \<Longrightarrow> machine_step n m' m'' \<Longrightarrow> runs n m m''"

end
