(* ===== verification/Runtime_Contexts.thy ===== *)
theory Runtime_Contexts
  imports Runtime_Machine
begin

text \<open>
  The invariant of the contexts of the machine of \<^verbatim>\<open>Runtime_Machine\<close>: every stack is well formed, no task and no
  scope is in two contexts, and every context has one owner that may continue it. The
  lemmas say how it is kept when a stack changes, when a context is swapped out, left, resumed or
  started.
\<close>

section \<open>What a context holds\<close>

fun tasks_in :: "frame \<Rightarrow> nat list" where
  "tasks_in (Body t fs) = [t]"
| "tasks_in (Help_finish f t c) = [t]"
| "tasks_in (Help_wait p t c) = [t]"
| "tasks_in (Yield_helper loc t c) = [t]"
| "tasks_in _ = []"

fun scopes_in :: "frame \<Rightarrow> nat list" where
  "scopes_in (Body t fs) = fs"
| "scopes_in (Finalize fs) = fs"
| "scopes_in _ = []"

definition held :: "frame list \<Rightarrow> nat list" where
  "held fr = concat (map tasks_in fr)"

definition scopes :: "frame list \<Rightarrow> nat list" where
  "scopes fr = concat (map scopes_in fr)"

lemma held_simps [simp]: "held [] = []" "held (f # fr) = tasks_in f @ held fr"
  by (simp_all add: held_def)

lemma scopes_simps [simp]: "scopes [] = []" "scopes (f # fr) = scopes_in f @ scopes fr"
  by (simp_all add: scopes_def)

text \<open>A context that has just been created, with its starting task and the context it was swapped from.\<close>

fun helper :: "frame list \<Rightarrow> (nat \<times> nat) option" where
  "helper (Help_wait p t c # fr) = Some (t, c)"
| "helper (Yield_helper loc t c # fr) = Some (t, c)"
| "helper fr = None"

fun suspended :: "frame list \<Rightarrow> bool" where
  "suspended (Wait_swapped p fin tsk # fr) = True"
| "suspended (Yield_swapped fin tsk # fr) = True"
| "suspended fr = False"

section \<open>Well-formed stacks\<close>

definition view :: "('c, 'd, 'i) rt \<Rightarrow> nat \<Rightarrow> ('c \<times> nat option) option" where
  "view st t = map_option (\<lambda>tk. (fp tk, t_finish tk)) (tasks st t)"

text \<open>The scopes that a body has opened are open, and each is the parent of the next inner one.\<close>

fun chain_ok :: "('c, 'd, 'i) rt \<Rightarrow> nat option \<Rightarrow> nat list \<Rightarrow> bool" where
  "chain_ok st base [] = True"
| "chain_ok st base (f # fs) =
     (map_option shape (finishes st f) = Some (case fs of [] \<Rightarrow> base | g # gs \<Rightarrow> Some g, None) \<and> chain_ok st base fs)"

text \<open>The current finish of a body that has the scopes \<open>fs\<close> open.\<close>

definition scope_of :: "('c, 'd, 'i) rt \<Rightarrow> nat \<Rightarrow> nat list \<Rightarrow> nat option" where
  "scope_of st t fs = (case fs of f # gs \<Rightarrow> Some f | [] \<Rightarrow> (case view st t of None \<Rightarrow> None | Some (c, b) \<Rightarrow> b))"

definition body_ok :: "('u, 'd, 'i) hrt \<Rightarrow> nat \<Rightarrow> nat list \<Rightarrow> bool" where
  "body_ok st t fs = (case view st t of None \<Rightarrow> False | Some (x, b) \<Rightarrow> (\<forall>c. x \<noteq> Resume c) \<and> chain_ok st b fs)"

definition returns_to :: "('u, 'd, 'i) hrt \<Rightarrow> nat option \<Rightarrow> frame list \<Rightarrow> bool" where
  "returns_to st fin fr = (case fr of Body t fs # r \<Rightarrow> fin = scope_of st t fs | _ \<Rightarrow> False)"

definition inner_scope :: "frame list \<Rightarrow> nat option" where
  "inner_scope fr = (case fr of Body t (f # fs) # r \<Rightarrow> Some f | Finalize (f # fs) # r \<Rightarrow> Some f | _ \<Rightarrow> None)"

definition loc_ok :: "('c, 'd, 'i) rt \<Rightarrow> nat option \<Rightarrow> bool" where
  "loc_ok st loc = (case loc of None \<Rightarrow> True | Some l \<Rightarrow> l < length (rt_pool st))"

definition no_body :: "frame list \<Rightarrow> bool" where
  "no_body fr = (case fr of Body t fs # r \<Rightarrow> False | _ \<Rightarrow> helper fr = None)"

fun stack_ok :: "nat \<Rightarrow> ('u, 'd, 'i) hrt \<Rightarrow> frame list \<Rightarrow> bool" where
  "stack_ok n st [] = True"
| "stack_ok n st (Body t fs # r) = (body_ok st t fs \<and> no_body r \<and> stack_ok n st r)"
| "stack_ok n st (End_finish f tsk ws ph # r) = (ws < n \<and> inner_scope r = Some f \<and> stack_ok n st r)"
| "stack_ok n st (Future_wait p fin tsk ws ph # r) = (ws < n \<and> promises st p \<noteq> None \<and> returns_to st fin r \<and> stack_ok n st r)"
| "stack_ok n st (Wait_swapped p fin tsk # r) = (returns_to st fin r \<and> stack_ok n st r)"
| "stack_ok n st (Yield loc fin tsk ph # r) = (loc_ok st loc \<and> returns_to st fin r \<and> stack_ok n st r)"
| "stack_ok n st (Yield_swapped fin tsk # r) = (returns_to st fin r \<and> stack_ok n st r)"
| "stack_ok n st (Help_wait p t c # r) = (promises st p \<noteq> None \<and> r = [])"
| "stack_ok n st (Yield_helper loc t c # r) = (loc_ok st loc \<and> r = [])"
| "stack_ok n st (Work_loop ws ph # r) = (ws < n \<and> r = [])"
| "stack_ok n st (Finalize fs # r) = (chain_ok st None fs \<and> r = [])"
| "stack_ok n st (Finish_swapped f tsk p # r) = False"
| "stack_ok n st (Help_finish f t c # r) = False"

lemma no_bodyD: "no_body fr \<Longrightarrow> helper fr = None"
  by (auto simp: no_body_def split: list.splits frame.splits)

lemma chain_cong:
  assumes "\<And>f. f \<in> set fs \<Longrightarrow> map_option shape (finishes st' f) = map_option shape (finishes st f)"
  shows "chain_ok st' base fs = chain_ok st base fs"
  using assms by (induction fs) auto

lemma scope_cong_view: "view st' t = view st t \<Longrightarrow> scope_of st' t fs = scope_of st t fs"
  by (cases fs) (simp_all add: scope_of_def)

lemma loc_ok_cong: "length (rt_pool st') = length (rt_pool st) \<Longrightarrow> loc_ok st' loc = loc_ok st loc"
  by (cases loc) (simp_all add: loc_ok_def)

lemma returns_cong:
  assumes "\<And>t. t \<in> set (held fr) \<Longrightarrow> view st' t = view st t"
  shows "returns_to st' fin fr = returns_to st fin fr"
  using assms scope_cong_view [of st' _ st] by (auto simp: returns_to_def split: list.splits frame.splits)

lemma stack_cong:
  assumes "stack_ok n st fr" "\<And>t. t \<in> set (held fr) \<Longrightarrow> view st' t = view st t"
    and "\<And>f. f \<in> set (scopes fr) \<Longrightarrow> map_option shape (finishes st' f) = map_option shape (finishes st f)"
    and p: "\<And>p. promises st p \<noteq> None \<Longrightarrow> promises st' p \<noteq> None" and l: "length (rt_pool st') = length (rt_pool st)"
  shows "stack_ok n st' fr"
  using assms(1-3)
proof (induction fr)
  case (Cons x fr)
  note ret = returns_cong [of fr st' st]
  show ?case
  proof (cases x)
    case (Body t fs)
    have v: "view st' t = view st t" using Cons.prems(2) Body by simp
    have "chain_ok st' b fs = chain_ok st b fs" for b using Cons.prems(3) Body by (intro chain_cong) simp
    then have "body_ok st' t fs = body_ok st t fs" unfolding body_ok_def v by (auto split: option.splits)
    then show ?thesis using Cons Body by simp
  next
    case (Finalize fs)
    have "chain_ok st' None fs = chain_ok st None fs" using Cons.prems(3) Finalize by (intro chain_cong) simp
    then show ?thesis using Cons Finalize by simp
  qed (use Cons ret p loc_ok_cong [OF l] in simp_all)
qed simp

lemma chain_open: "chain_ok st base fs \<Longrightarrow> f \<in> set fs \<Longrightarrow> map_option finish_dep (finishes st f) = Some None"
  by (induction fs) (auto simp: shape_def)

lemma stack_scopes: "stack_ok n st fr \<Longrightarrow> f \<in> set (scopes fr) \<Longrightarrow> open_scope st f"
proof (induction fr)
  case (Cons x fr)
  then show ?case
    by (cases x) (auto simp: open_scope_def body_ok_def split: option.splits dest: chain_open)
qed simp

lemma stack_held: "stack_ok n st (Body t fs # r) \<Longrightarrow> view st t \<noteq> None"
  by (auto simp: body_ok_def split: option.splits)

section \<open>The invariant of the contexts\<close>

text \<open>
  Who may continue a context: the worker that runs it, the task that resumes it (until it has run), or
  the helper that is about to spawn that task.
\<close>

datatype owner = Worker nat | Task nat | Helper nat

definition starting :: "('u, 'd, 'i) machine \<Rightarrow> nat \<Rightarrow> bool" where
  "starting m t \<longleftrightarrow> (\<exists>c fr c'. ctxs m c = Some fr \<and> helper fr = Some (t, c'))"

fun claims :: "nat \<Rightarrow> ('u, 'd, 'i) machine \<Rightarrow> nat set \<Rightarrow> owner \<Rightarrow> nat \<Rightarrow> bool" where
  "claims n m E (Worker w) c = (w < n \<and> curr_ctx m ! w = Some c)"
| "claims n m E (Task t) c = ((\<exists>b. view (heap m) t = Some (Resume c, b)) \<and> (t \<notin> E \<or> starting m t))"
| "claims n m E (Helper c') c = (\<exists>fr t. ctxs m c' = Some fr \<and> helper fr = Some (t, c))"

definition ctx_ok :: "nat \<Rightarrow> ('u, 'd, 'i) machine \<Rightarrow> nat set \<Rightarrow> nat \<Rightarrow> frame list \<Rightarrow> bool" where
  "ctx_ok n m E c fr \<longleftrightarrow> c < next_ctx m \<and> stack_ok n (heap m) fr \<and> distinct (held fr) \<and> set (held fr) \<subseteq> E \<and> distinct (scopes fr)"

definition n_workers :: "nat \<Rightarrow> ('u, 'd, 'i) machine \<Rightarrow> bool" where
  "n_workers n m \<longleftrightarrow> length (curr_ctx m) = n"

definition apart :: "('u, 'd, 'i) machine \<Rightarrow> bool" where
  "apart m \<longleftrightarrow> (\<forall>c c' fr fr'. c \<noteq> c' \<longrightarrow> ctxs m c = Some fr \<longrightarrow> ctxs m c' = Some fr' \<longrightarrow>
     set (held fr) \<inter> set (held fr') = {} \<and> set (scopes fr) \<inter> set (scopes fr') = {})"

definition one_owner :: "nat \<Rightarrow> ('u, 'd, 'i) machine \<Rightarrow> nat set \<Rightarrow> bool" where
  "one_owner n m E \<longleftrightarrow> (\<forall>x y c. claims n m E x c \<longrightarrow> claims n m E y c \<longrightarrow> x = y)"

definition owned_ok :: "nat \<Rightarrow> ('u, 'd, 'i) machine \<Rightarrow> nat set \<Rightarrow> bool" where
  "owned_ok n m E \<longleftrightarrow> (\<forall>x c. claims n m E x c \<longrightarrow> (\<exists>fr. ctxs m c = Some fr \<and> (suspended fr \<or> (\<exists>w. x = Worker w))))"

definition current_ok :: "nat \<Rightarrow> ('u, 'd, 'i) machine \<Rightarrow> bool" where
  "current_ok n m \<longleftrightarrow> (\<forall>w c t fs r. w < n \<longrightarrow> curr_ctx m ! w = Some c \<longrightarrow> ctxs m c = Some (Body t fs # r) \<longrightarrow>
     cur_finish (heap m) w = scope_of (heap m) t fs)"

definition frames_inv :: "nat \<Rightarrow> ('u, 'd, 'i) machine \<Rightarrow> nat set \<Rightarrow> bool" where
  "frames_inv n m E \<longleftrightarrow> n_workers n m \<and> (\<forall>c fr. ctxs m c = Some fr \<longrightarrow> ctx_ok n m E c fr) \<and> apart m \<and>
     one_owner n m E \<and> owned_ok n m E \<and> current_ok n m"

lemma frames_invD:
  assumes "frames_inv n m E"
  shows "n_workers n m" "ctxs m c = Some fr \<Longrightarrow> ctx_ok n m E c fr"
    and "c \<noteq> c' \<Longrightarrow> ctxs m c = Some fr \<Longrightarrow> ctxs m c' = Some fr' \<Longrightarrow> set (held fr) \<inter> set (held fr') = {}"
    and "c \<noteq> c' \<Longrightarrow> ctxs m c = Some fr \<Longrightarrow> ctxs m c' = Some fr' \<Longrightarrow> set (scopes fr) \<inter> set (scopes fr') = {}"
    and "claims n m E x c \<Longrightarrow> claims n m E y c \<Longrightarrow> x = y"
    and "claims n m E x c \<Longrightarrow> \<exists>fr. ctxs m c = Some fr \<and> (suspended fr \<or> (\<exists>w. x = Worker w))"
    and "w < n \<Longrightarrow> curr_ctx m ! w = Some c \<Longrightarrow> ctxs m c = Some (Body t fs # r) \<Longrightarrow> cur_finish (heap m) w = scope_of (heap m) t fs"
proof -
  have i: "n_workers n m" "\<forall>c fr. ctxs m c = Some fr \<longrightarrow> ctx_ok n m E c fr" "apart m" "one_owner n m E" "owned_ok n m E" "current_ok n m"
    using assms by (simp_all add: frames_inv_def)
  show "n_workers n m" "ctxs m c = Some fr \<Longrightarrow> ctx_ok n m E c fr" using i(1,2) by simp_all
  show "c \<noteq> c' \<Longrightarrow> ctxs m c = Some fr \<Longrightarrow> ctxs m c' = Some fr' \<Longrightarrow> set (held fr) \<inter> set (held fr') = {}"
    "c \<noteq> c' \<Longrightarrow> ctxs m c = Some fr \<Longrightarrow> ctxs m c' = Some fr' \<Longrightarrow> set (scopes fr) \<inter> set (scopes fr') = {}"
    using i(3) by (simp_all add: apart_def)
  show "claims n m E x c \<Longrightarrow> claims n m E y c \<Longrightarrow> x = y" using i(4) unfolding one_owner_def by blast
  show "claims n m E x c \<Longrightarrow> \<exists>fr. ctxs m c = Some fr \<and> (suspended fr \<or> (\<exists>w. x = Worker w))" using i(5) unfolding owned_ok_def by blast
  show "w < n \<Longrightarrow> curr_ctx m ! w = Some c \<Longrightarrow> ctxs m c = Some (Body t fs # r) \<Longrightarrow> cur_finish (heap m) w = scope_of (heap m) t fs"
    using i(6) unfolding current_ok_def by blast
qed

lemma frames_invI:
  assumes "n_workers n m" "\<And>c fr. ctxs m c = Some fr \<Longrightarrow> ctx_ok n m E c fr"
    and "\<And>c c' fr fr'. c \<noteq> c' \<Longrightarrow> ctxs m c = Some fr \<Longrightarrow> ctxs m c' = Some fr' \<Longrightarrow>
      set (held fr) \<inter> set (held fr') = {} \<and> set (scopes fr) \<inter> set (scopes fr') = {}"
    and "\<And>x y c. claims n m E x c \<Longrightarrow> claims n m E y c \<Longrightarrow> x = y"
    and "\<And>x c. claims n m E x c \<Longrightarrow> \<exists>fr. ctxs m c = Some fr \<and> (suspended fr \<or> (\<exists>w. x = Worker w))"
    and "\<And>w c t fs r. w < n \<Longrightarrow> curr_ctx m ! w = Some c \<Longrightarrow> ctxs m c = Some (Body t fs # r) \<Longrightarrow>
      cur_finish (heap m) w = scope_of (heap m) t fs"
  shows "frames_inv n m E"
proof -
  have "apart m" unfolding apart_def using assms(3) by simp
  moreover have "one_owner n m E" unfolding one_owner_def using assms(4) by blast
  moreover have "owned_ok n m E" unfolding owned_ok_def using assms(5) by blast
  moreover have "current_ok n m" unfolding current_ok_def using assms(6) by blast
  ultimately show ?thesis using assms(1,2) by (simp add: frames_inv_def)
qed

text \<open>
  What an operation on the heap may do while worker \<open>w\<close> runs a context with the frames \<open>fr\<close>: it leaves alone the
  tasks and the scopes that other contexts hold, and makes no new task that resumes a context.
\<close>

definition spares :: "nat \<Rightarrow> frame list \<Rightarrow> nat set \<Rightarrow> nat set \<Rightarrow> ('u, 'd, 'i) hrt \<Rightarrow> ('u, 'd, 'i) hrt \<Rightarrow> bool" where
  "spares w fr E E' st st' \<longleftrightarrow> E - set (held fr) \<subseteq> E' \<and>
     (\<forall>t \<in> E - set (held fr). view st' t = view st t) \<and>
     (\<forall>f. f \<notin> set (scopes fr) \<and> finishes st f \<noteq> None \<longrightarrow> map_option shape (finishes st' f) = map_option shape (finishes st f)) \<and>
     (\<forall>p. promises st p \<noteq> None \<longrightarrow> promises st' p \<noteq> None) \<and> length (rt_pool st') = length (rt_pool st) \<and>
     (\<forall>v. v \<noteq> w \<longrightarrow> cur_finish st' v = cur_finish st v) \<and>
     (\<forall>t c b. view st' t = Some (Resume c, b) \<and> t \<notin> E' \<longrightarrow> t \<notin> E \<and> (\<exists>b. view st t = Some (Resume c, b)))"

lemma sparesD:
  assumes "spares w fr E E' st st'"
  shows "E - set (held fr) \<subseteq> E'" "t \<in> E \<Longrightarrow> t \<notin> set (held fr) \<Longrightarrow> view st' t = view st t"
    and "f \<notin> set (scopes fr) \<Longrightarrow> finishes st f \<noteq> None \<Longrightarrow> map_option shape (finishes st' f) = map_option shape (finishes st f)"
    and "promises st p \<noteq> None \<Longrightarrow> promises st' p \<noteq> None" "length (rt_pool st') = length (rt_pool st)"
    and "v \<noteq> w \<Longrightarrow> cur_finish st' v = cur_finish st v"
    and "view st' t = Some (Resume c, b) \<Longrightarrow> t \<notin> E' \<Longrightarrow> t \<notin> E \<and> (\<exists>b. view st t = Some (Resume c, b))"
  using assms unfolding spares_def by blast+

lemma sparesI:
  assumes "E - set (held fr) \<subseteq> E'" "\<And>t. t \<in> E \<Longrightarrow> t \<notin> set (held fr) \<Longrightarrow> view st' t = view st t"
    and "\<And>f. f \<notin> set (scopes fr) \<Longrightarrow> finishes st f \<noteq> None \<Longrightarrow> map_option shape (finishes st' f) = map_option shape (finishes st f)"
    and "\<And>p. promises st p \<noteq> None \<Longrightarrow> promises st' p \<noteq> None" "length (rt_pool st') = length (rt_pool st)"
    and "\<And>v. v \<noteq> w \<Longrightarrow> cur_finish st' v = cur_finish st v"
    and "\<And>t c b. view st' t = Some (Resume c, b) \<Longrightarrow> t \<notin> E' \<Longrightarrow> t \<notin> E \<and> (\<exists>b. view st t = Some (Resume c, b))"
  shows "spares w fr E E' st st'"
  unfolding spares_def using assms by blast

text \<open>Another context stays well formed.\<close>

lemma spares_ctx:
  assumes inv: "frames_inv n m E" and c: "ctxs m c = Some fr" "ctxs m c' = Some fr'" "c' \<noteq> c"
    and sp: "spares w fr E E' (heap m) st'"
  shows "stack_ok n st' fr'" "set (held fr') \<subseteq> E'" "\<And>t. t \<in> set (held fr') \<Longrightarrow> view st' t = view (heap m) t"
    "distinct (held fr')" "distinct (scopes fr')" "c' < next_ctx m"
proof -
  note S = sparesD [OF sp]
  have ok: "stack_ok n (heap m) fr'" "distinct (held fr')" "set (held fr') \<subseteq> E" "distinct (scopes fr')" "c' < next_ctx m"
    using frames_invD(2) [OF inv c(2)] by (auto simp: ctx_ok_def)
  have d: "set (held fr') \<inter> set (held fr) = {}" "set (scopes fr') \<inter> set (scopes fr) = {}"
    using frames_invD(3,4) [OF inv c(3) c(2) c(1)] by auto
  show v: "\<And>t. t \<in> set (held fr') \<Longrightarrow> view st' t = view (heap m) t" using ok(3) d(1) S(2) by blast
  show "set (held fr') \<subseteq> E'" using ok(3) d(1) S(1) by blast
  have "map_option shape (finishes st' f) = map_option shape (finishes (heap m) f)" if "f \<in> set (scopes fr')" for f
    using stack_scopes [OF ok(1) that] d(2) that by (intro S(3)) (auto simp: open_scope_def)
  then show "stack_ok n st' fr'" using stack_cong [OF ok(1) v _ S(4,5)] by blast
qed (use frames_invD(2) [OF inv c(2)] in \<open>auto simp: ctx_ok_def\<close>)

text \<open>The frames \<open>fr'\<close> may take the place of \<open>fr\<close> on the context that \<open>w\<close> runs.\<close>

definition replaces ::
  "nat \<Rightarrow> nat set \<Rightarrow> nat set \<Rightarrow> ('u, 'd, 'i) hrt \<Rightarrow> ('u, 'd, 'i) hrt \<Rightarrow> frame list \<Rightarrow> frame list \<Rightarrow> bool" where
  "replaces n E E' st st' fr fr' \<longleftrightarrow> stack_ok n st' fr' \<and> distinct (held fr') \<and> set (held fr') \<subseteq> E' \<and>
     set (held fr') \<inter> (E - set (held fr)) = {} \<and> distinct (scopes fr') \<and>
     (\<forall>f \<in> set (scopes fr'). f \<in> set (scopes fr) \<or> finishes st f = None)"

lemma replaces_apart:
  assumes inv: "frames_inv n m E" and c: "ctxs m c = Some fr" "ctxs m c' = Some fr2" "c' \<noteq> c"
    and r: "replaces n E E' (heap m) st' fr fr'"
  shows "set (held fr') \<inter> set (held fr2) = {}" "set (scopes fr') \<inter> set (scopes fr2) = {}"
proof -
  have ok: "stack_ok n (heap m) fr2" "set (held fr2) \<subseteq> E" using frames_invD(2) [OF inv c(2)] by (auto simp: ctx_ok_def)
  note d = frames_invD(3,4) [OF inv c(3) c(2) c(1)]
  show "set (held fr') \<inter> set (held fr2) = {}" using r d(1) ok(2) unfolding replaces_def by blast
  have "finishes (heap m) f \<noteq> None" if "f \<in> set (scopes fr2)" for f
    using stack_scopes [OF ok(1) that] by (auto simp: open_scope_def)
  then show "set (scopes fr') \<inter> set (scopes fr2) = {}" using r d(2) unfolding replaces_def by blast
qed

lemma frames_set:
  assumes inv: "frames_inv n m E" and cur: "w < n" "curr_ctx m ! w = Some c" "ctxs m c = Some fr"
    and nohelp: "helper fr = None" "helper fr' = None" and sp: "spares w fr E E' (heap m) st'"
    and new: "replaces n E E' (heap m) st' fr fr'"
    and top: "\<And>t fs r. fr' = Body t fs # r \<Longrightarrow> cur_finish st' w = scope_of st' t fs"
  shows "frames_inv n (set_frames c fr' (m\<lparr>heap := st'\<rparr>)) E'" (is "frames_inv n ?m E'")
proof (rule frames_invI)
  note D = frames_invD [OF inv] and S = sparesD [OF sp]
  have ctxs: "ctxs ?m = (ctxs m)(c \<mapsto> fr')" "heap ?m = st'" "curr_ctx ?m = curr_ctx m" "next_ctx ?m = next_ctx m"
    by (simp_all add: set_frames_def)
  have mine: "claims n m E (Worker w) c" using cur by simp
  have cok: "c < next_ctx m" using D(2) [OF cur(3)] by (simp add: ctx_ok_def)
  note other = spares_ctx [OF inv cur(3) _ _ sp]
  have start: "starting m t \<and> view st' t = view (heap m) t" if "starting ?m t" for t
  proof -
    from that obtain c' fr1 c1 where s: "ctxs ?m c' = Some fr1" "helper fr1 = Some (t, c1)" unfolding starting_def by blast
    then have ne: "c' \<noteq> c" using nohelp(2) by (auto simp: ctxs(1))
    then have s': "ctxs m c' = Some fr1" using s(1) by (simp add: ctxs(1))
    have "t \<in> set (held fr1)" using s(2) by (cases fr1 rule: helper.cases) auto
    then show ?thesis using other(3) [OF s' ne] s' s(2) unfolding starting_def by blast
  qed
  have sub: "claims n m E x a" if "claims n ?m E' x a" for x a
  proof (cases x)
    case (Worker v)
    then show ?thesis using that by (simp add: ctxs)
  next
    case (Task t)
    from that obtain b where b: "view st' t = Some (Resume a, b)" "t \<notin> E' \<or> starting ?m t" by (auto simp: Task ctxs(2))
    show ?thesis
    proof (cases "starting ?m t")
      case True
      then have "view (heap m) t = Some (Resume a, b)" "starting m t" using start b(1) by simp_all
      then show ?thesis by (auto simp: Task)
    next
      case False
      then show ?thesis using S(7) [OF b(1)] b(2) by (auto simp: Task)
    qed
  next
    case (Helper c')
    then show ?thesis using that nohelp(2) by (auto simp: ctxs(1) split: if_splits)
  qed
  show "n_workers n ?m" using D(1) by (simp add: n_workers_def ctxs(3))
  show "x = y" if "claims n ?m E' x a" "claims n ?m E' y a" for x y a using D(5) sub that by blast
  show "\<exists>f. ctxs ?m a = Some f \<and> (suspended f \<or> (\<exists>w. x = Worker w))" if "claims n ?m E' x a" for x a
  proof (cases "a = c")
    case True
    then have "x = Worker w" using D(5) [OF sub [OF that]] mine by blast
    then show ?thesis using True by (simp add: ctxs(1))
  next
    case False
    then show ?thesis using D(6) [OF sub [OF that]] by (simp add: ctxs(1))
  qed
  show "ctx_ok n ?m E' a f" if "ctxs ?m a = Some f" for a f
  proof (cases "a = c")
    case True
    then have "f = fr'" using that by (simp add: ctxs(1))
    then show ?thesis using True new cok unfolding ctx_ok_def replaces_def ctxs by blast
  next
    case False
    then have "ctxs m a = Some f" using that by (simp add: ctxs(1))
    then show ?thesis using other(1,2,4-6) [of a f] False by (simp add: ctx_ok_def ctxs)
  qed
  show "set (held f) \<inter> set (held g) = {} \<and> set (scopes f) \<inter> set (scopes g) = {}"
    if ne: "a \<noteq> b" and ab: "ctxs ?m a = Some f" "ctxs ?m b = Some g" for a b f g
  proof (cases "a = c \<or> b = c")
    case True
    note A = replaces_apart [OF inv cur(3) _ _ new]
    show ?thesis
    proof (cases "a = c")
      case True
      then have "f = fr'" "b \<noteq> c" "ctxs m b = Some g" using ab ne unfolding ctxs(1) by auto
      then show ?thesis using A [of b g] by simp
    next
      case False
      then have "g = fr'" "ctxs m a = Some f" using \<open>a = c \<or> b = c\<close> ab unfolding ctxs(1) by auto
      then show ?thesis using A [of a f] False by (simp add: Int_commute)
    qed
  next
    case False
    then have "ctxs m a = Some f" "ctxs m b = Some g" using ab unfolding ctxs(1) by auto
    then show ?thesis using D(3,4) [OF ne] by simp
  qed
  show "cur_finish (heap ?m) v = scope_of (heap ?m) t fs"
    if v: "v < n" "curr_ctx ?m ! v = Some a" "ctxs ?m a = Some (Body t fs # r)" for v a t fs r
  proof (cases "a = c")
    case True
    then have "Worker v = Worker w" using v cur D(5) [OF _ mine, of "Worker v"] by (simp add: ctxs(3))
    moreover have "fr' = Body t fs # r" using True v(3) unfolding ctxs(1) by simp
    ultimately show ?thesis using top unfolding ctxs(2) by simp
  next
    case False
    then have a: "ctxs m a = Some (Body t fs # r)" using v(3) by (simp add: ctxs(1))
    have "v \<noteq> w" using v(2) cur(2) False by (auto simp: ctxs(3))
    then have "cur_finish st' v = cur_finish (heap m) v" by (rule S(6))
    moreover have "scope_of st' t fs = scope_of (heap m) t fs" by (rule scope_cong_view) (use other(3) [OF a False] in simp)
    ultimately show ?thesis using D(7) [OF v(1) _ a] v(2) by (simp add: ctxs(2,3))
  qed
qed

text \<open>Swapping out: the context is left to a helper, which runs on a new context with the starting task \<open>t\<close>.\<close>

lemma helper_held: "helper fr = Some (t, c) \<Longrightarrow> t \<in> set (held fr)"
  by (cases fr rule: helper.cases) auto

lemma frames_swap:
  assumes inv: "frames_inv n m E" and cur: "w < n" "curr_ctx m ! w = Some c" "ctxs m c = Some fr"
    and nohelp: "helper fr = None" and t: "t \<notin> E"
    and h: "helper [h] = Some (t, c)" "held [h] = [t]" "scopes [h] = []" "stack_ok n (heap m) [h]"
    and fr1: "stack_ok n (heap m) fr1" "held fr1 = held fr" "scopes fr1 = scopes fr" "suspended fr1"
  shows "frames_inv n (swap_to_new w h (set_frames c fr1 m)) (insert t E)" (is "frames_inv n ?m ?E")
proof (rule frames_invI)
  note D = frames_invD [OF inv]
  let ?c = "next_ctx m"
  have len: "w < length (curr_ctx m)" using D(1) cur(1) by (simp add: n_workers_def)
  have cok: "c < ?c" using D(2) [OF cur(3)] by (simp add: ctx_ok_def)
  have fresh: "ctxs m ?c = None" using D(2) [of ?c] by (cases "ctxs m ?c") (auto simp: ctx_ok_def)
  have ctxs: "ctxs ?m a = (if a = ?c then Some [h] else if a = c then Some fr1 else ctxs m a)"
      "heap ?m = heap m" "curr_ctx ?m = (curr_ctx m)[w := Some ?c]" "next_ctx ?m = ?c + 1" for a
    by (simp_all add: swap_to_new_def set_frames_def)
  have mine: "claims n m E (Worker w) c" using cur by simp
  have nh: "helper fr1 = None" using fr1(4) by (cases fr1 rule: suspended.cases) auto
  have start: "starting m s \<or> s = t" if "starting ?m s" for s
  proof -
    from that obtain c' fr2 c1 where s: "ctxs ?m c' = Some fr2" "helper fr2 = Some (s, c1)" unfolding starting_def by blast
    then show ?thesis using h(1) nh unfolding starting_def by (auto simp: ctxs(1) split: if_splits)
  qed
  have sub: "claims n m E x a \<and> x \<noteq> Worker w \<or> x = Worker w \<and> a = ?c \<or> x = Helper ?c \<and> a = c" if "claims n ?m ?E x a" for x a
  proof (cases x)
    case (Worker v)
    then show ?thesis using that len by (cases "v = w") (auto simp: ctxs(3))
  next
    case (Task s)
    from that obtain b where b: "view (heap m) s = Some (Resume a, b)" "s \<notin> ?E \<or> starting ?m s" by (auto simp: Task ctxs(2))
    then have "s \<notin> E \<or> starting m s" using start [of s] t by auto
    then show ?thesis using b(1) by (auto simp: Task)
  next
    case (Helper c')
    then show ?thesis using that h(1) nh by (auto simp: ctxs(1) split: if_splits)
  qed
  have none: "\<not> claims n m E x ?c" for x using D(6) [of x ?c] fresh by auto
  show "n_workers n ?m" using D(1) by (simp add: n_workers_def ctxs(3))
  show "x = y" if "claims n ?m ?E x a" "claims n ?m ?E y a" for x y a
    using sub [OF that(1)] sub [OF that(2)] D(5) mine none cok by (metis less_irrefl)
  show "\<exists>f. ctxs ?m a = Some f \<and> (suspended f \<or> (\<exists>w. x = Worker w))" if "claims n ?m ?E x a" for x a
    using sub [OF that] D(6) [of x a] fr1(4) cok fresh by (auto simp: ctxs(1))
  show "ctx_ok n ?m ?E a f" if a: "ctxs ?m a = Some f" for a f
  proof (cases "a = ?c")
    case True
    then have "f = [h]" using a by (simp add: ctxs(1))
    then show ?thesis using True h unfolding ctx_ok_def ctxs by simp
  next
    case ne: False
    show ?thesis
    proof (cases "a = c")
      case True
      then have "f = fr1" using a ne by (simp add: ctxs(1))
      then show ?thesis using True D(2) [OF cur(3)] fr1 cok unfolding ctx_ok_def ctxs by auto
    next
      case False
      then have "ctxs m a = Some f" using a ne by (simp add: ctxs(1))
      then show ?thesis using D(2) [of a f] unfolding ctx_ok_def ctxs by auto
    qed
  qed
  show "set (held f) \<inter> set (held g) = {} \<and> set (scopes f) \<inter> set (scopes g) = {}"
    if ne: "a \<noteq> b" and ab: "ctxs ?m a = Some f" "ctxs ?m b = Some g" for a b f g
  proof -
    have cases: "a' = ?c \<and> f' = [h] \<or> a' \<noteq> ?c \<and> (\<exists>f0. ctxs m a' = Some f0 \<and> held f' = held f0 \<and> scopes f' = scopes f0)"
      if "ctxs ?m a' = Some f'" for a' f'
      using that fr1(2,3) cur(3) by (auto simp: ctxs(1) split: if_splits)
    have notin: "t \<notin> set (held f0)" if "ctxs m a' = Some f0" for a' f0 using D(2) [OF that] t by (auto simp: ctx_ok_def)
    have olds: "set (held f0) \<inter> set (held g0) = {} \<and> set (scopes f0) \<inter> set (scopes g0) = {}"
      if "ctxs m a = Some f0" "ctxs m b = Some g0" for f0 g0 using D(3,4) [OF ne that] by simp
    from cases [OF ab(1)] cases [OF ab(2)] show ?thesis
      by (elim disjE conjE exE) (use notin h(2,3) ne olds in auto)
  qed
  show "cur_finish (heap ?m) v = scope_of (heap ?m) s fs"
    if v: "v < n" "curr_ctx ?m ! v = Some a" "ctxs ?m a = Some (Body s fs # r)" for v a s fs r
  proof -
    have "a \<noteq> ?c" using v(3) h(1) by (auto simp: ctxs(1))
    then have vw: "v \<noteq> w" using v(2) len by (auto simp: ctxs(3))
    then have "a \<noteq> c" using v(1,2) D(5) [OF mine, of "Worker v"] by (auto simp: ctxs(3))
    then show ?thesis using v D(7) [OF v(1)] \<open>a \<noteq> ?c\<close> vw by (simp add: ctxs)
  qed
qed

text \<open>A worker leaves its context for good, and goes on with none or with one that the task \<open>t\<close> resumes.\<close>

lemma frames_leave:
  assumes inv: "frames_inv n m E" and cur: "w < n" "curr_ctx m ! w = Some c" "ctxs m c = Some fr"
    and nohelp: "helper fr = None" and hp: "view st' = view (heap m)" "finishes st' = finishes (heap m)" "promises st' = promises (heap m)"
      "rt_pool st' = rt_pool (heap m)" "\<And>v. v \<noteq> w \<Longrightarrow> cur_finish st' v = cur_finish (heap m) v"
    and nxt: "nxt = None \<and> E' = E \<or> (\<exists>t c' b. nxt = Some c' \<and> E' = insert t E \<and> t \<notin> E \<and> view (heap m) t = Some (Resume c', b))"
    and m': "heap m' = st'" "ctxs m' = (ctxs m)(c := None)" "curr_ctx m' = (curr_ctx m)[w := nxt]" "next_ctx m' = next_ctx m"
  shows "frames_inv n m' E'"
proof (rule frames_invI)
  note D = frames_invD [OF inv]
  have len: "w < length (curr_ctx m)" using D(1) cur(1) by (simp add: n_workers_def)
  have mine: "claims n m E (Worker w) c" using cur by simp
  have EE': "E \<subseteq> E'" using nxt by auto
  have start: "starting m s" if "starting m' s" for s
    using that unfolding starting_def m'(2) by (auto split: if_splits)
  have nxt_ok: "\<exists>t. t \<notin> E \<and> t \<in> E' \<and> claims n m E (Task t) c'" if "nxt = Some c'" for c' using nxt that by auto
  have notc: "c' \<noteq> c" if c': "nxt = Some c'" for c'
  proof
    assume "c' = c"
    then obtain t where "claims n m E (Task t) c" using nxt_ok [OF c'] by auto
    then have "Worker w = Task t" by (rule D(5) [OF mine])
    then show False by simp
  qed
  have sub: "claims n m E x a \<and> x \<noteq> Worker w \<or> x = Worker w \<and> nxt = Some a" if "claims n m' E' x a" for x a
  proof (cases x)
    case (Worker v)
    then show ?thesis using that len by (cases "v = w") (auto simp: m'(3))
  next
    case (Task s)
    then show ?thesis using that start [of s] EE' by (auto simp: m'(1) hp(1))
  next
    case (Helper c')
    then show ?thesis using that by (auto simp: m'(2) split: if_splits)
  qed
  have lost: "\<not> starting m t" if "t \<notin> E" for t
    using that D(2) helper_held unfolding starting_def ctx_ok_def by blast
  show "n_workers n m'" using D(1) by (simp add: n_workers_def m'(3))
  show "x = y" if x: "claims n m' E' x a" and y: "claims n m' E' y a" for x y a
  proof -
    have only: "x' = Worker w" if c': "claims n m' E' x' a" "nxt = Some a" for x'
    proof (rule ccontr)
      assume ne: "x' \<noteq> Worker w"
      then have old: "claims n m E x' a" using sub [OF c'(1)] by auto
      obtain t where t: "t \<notin> E" "t \<in> E'" "claims n m E (Task t) a" using nxt_ok [OF c'(2)] by blast
      then have "x' = Task t" using D(5) old by blast
      then have "t \<notin> E' \<or> starting m' t" using c'(1) by auto
      then show False using t start lost by blast
    qed
    show ?thesis
    proof (cases "nxt = Some a")
      case True
      then show ?thesis using only x y by blast
    next
      case False
      then show ?thesis using sub [OF x] sub [OF y] D(5) by blast
    qed
  qed
  show "\<exists>f. ctxs m' a = Some f \<and> (suspended f \<or> (\<exists>w. x = Worker w))" if "claims n m' E' x a" for x a
  proof -
    from sub [OF that] show ?thesis
    proof
      assume x: "claims n m E x a \<and> x \<noteq> Worker w"
      then have "a \<noteq> c" using D(5) [OF mine] by blast
      then show ?thesis using D(6) x by (simp add: m'(2))
    next
      assume x: "x = Worker w \<and> nxt = Some a"
      then obtain t where "claims n m E (Task t) a" using nxt_ok by blast
      then show ?thesis using D(6) [of "Task t" a] x notc by (auto simp: m'(2))
    qed
  qed
  show "ctx_ok n m' E' a f" if "ctxs m' a = Some f" for a f
  proof -
    have a: "ctxs m a = Some f" using that by (auto simp: m'(2) split: if_splits)
    have "stack_ok n st' f" using D(2) [OF a] hp(1-4) by (auto simp: ctx_ok_def intro: stack_cong)
    then show ?thesis using D(2) [OF a] EE' by (auto simp: ctx_ok_def m'(1,4))
  qed
  show "set (held f) \<inter> set (held g) = {} \<and> set (scopes f) \<inter> set (scopes g) = {}"
    if ne: "a \<noteq> b" and ab: "ctxs m' a = Some f" "ctxs m' b = Some g" for a b f g
  proof -
    have "ctxs m a = Some f" "ctxs m b = Some g" using ab by (auto simp: m'(2) split: if_splits)
    then show ?thesis using D(3,4) [OF ne] by simp
  qed
  show "cur_finish (heap m') v = scope_of (heap m') s fs"
    if v: "v < n" "curr_ctx m' ! v = Some a" "ctxs m' a = Some (Body s fs # r)" for v a s fs r
  proof (cases "v = w")
    case True
    then have "nxt = Some a" using v(2) len by (simp add: m'(3))
    then obtain t where "claims n m E (Task t) a" using nxt_ok by blast
    then show ?thesis using D(6) [of "Task t" a] v(3) by (auto simp: m'(2) split: if_splits)
  next
    case False
    then have "cur_finish (heap m) v = scope_of (heap m) s fs" using v D(7) [OF v(1)] by (auto simp: m'(2,3) split: if_splits)
    moreover have "scope_of st' s fs = scope_of (heap m) s fs" by (rule scope_cong_view) (simp add: hp(1))
    ultimately show ?thesis using hp(5) [OF False] by (simp add: m'(1))
  qed
qed

text \<open>A helper has spawned the task \<open>r\<close> that resumes the context it was swapped from; its starting task is not yet running.\<close>

lemma frames_help:
  assumes inv: "frames_inv n m E" and cur: "w < n" "curr_ctx m ! w = Some c" "ctxs m c = Some fr" and h: "helper fr = Some (t, c')"
    and r: "view (heap m) r = None" "view st' r = Some (Resume c', b)" "r \<notin> E" "\<And>s. s \<noteq> r \<Longrightarrow> view st' s = view (heap m) s"
    and hp: "\<And>f. map_option shape (finishes st' f) = map_option shape (finishes (heap m) f)"
      "\<And>p. promises (heap m) p \<noteq> None \<Longrightarrow> promises st' p \<noteq> None" "length (rt_pool st') = length (rt_pool (heap m))"
      "rt_workers st' = rt_workers (heap m)"
  shows "frames_inv n (set_frames c [Work_loop w Pop] (m\<lparr>heap := st'\<rparr>)) (E - {t})" (is "frames_inv n ?m ?E")
proof (rule frames_invI)
  note D = frames_invD [OF inv]
  have ctxs: "ctxs ?m = (ctxs m)(c \<mapsto> [Work_loop w Pop])" "heap ?m = st'" "curr_ctx ?m = curr_ctx m" "next_ctx ?m = next_ctx m"
    by (simp_all add: set_frames_def)
  have mine: "claims n m E (Worker w) c" "claims n m E (Helper c) c'" using cur h by auto
  have t: "t \<in> set (held fr)" by (rule helper_held [OF h])
  have tE: "t \<in> E" "c < next_ctx m" using D(2) [OF cur(3)] t by (auto simp: ctx_ok_def)
  have other: "t \<notin> set (held f)" if "ctxs m a = Some f" "a \<noteq> c" for a f using D(3) [OF that(2,1) cur(3)] t by auto
  have start: "starting m s \<and> s \<noteq> t" if "starting ?m s" for s
  proof -
    from that obtain a fr1 c1 where s: "ctxs ?m a = Some fr1" "helper fr1 = Some (s, c1)" unfolding starting_def by blast
    then have ne: "a \<noteq> c" by (auto simp: ctxs(1))
    then have s': "ctxs m a = Some fr1" using s(1) by (simp add: ctxs(1))
    then show ?thesis using other [OF s' ne] helper_held [OF s(2)] s(2) unfolding starting_def by blast
  qed
  have sub: "claims n m E x a \<and> x \<noteq> Helper c \<and> x \<noteq> Task r \<or> x = Task r \<and> a = c'" if "claims n ?m ?E x a" for x a
  proof (cases x)
    case (Worker v)
    then show ?thesis using that by (simp add: ctxs)
  next
    case (Task s)
    show ?thesis
    proof (cases "s = r")
      case True
      then show ?thesis using that r(2) by (auto simp: Task ctxs(2))
    next
      case False
      from that obtain b where b: "view st' s = Some (Resume a, b)" "s \<notin> ?E \<or> starting ?m s" by (auto simp: Task ctxs(2))
      have "s \<notin> E \<or> starting m s" using b(2) start [of s] h cur(3) unfolding starting_def by blast
      then show ?thesis using b(1) r(4) [OF False] False by (auto simp: Task)
    qed
  next
    case (Helper a')
    then show ?thesis using that by (auto simp: ctxs(1) split: if_splits)
  qed
  have notr: "x \<noteq> Task r" if "claims n m E x a" for x a using that r(1) by auto
  show "n_workers n ?m" using D(1) by (simp add: n_workers_def ctxs(3))
  show "x = y" if "claims n ?m ?E x a" "claims n ?m ?E y a" for x y a
    using sub [OF that(1)] sub [OF that(2)] D(5) mine(2) by blast
  show "\<exists>f. ctxs ?m a = Some f \<and> (suspended f \<or> (\<exists>w. x = Worker w))" if "claims n ?m ?E x a" for x a
  proof (cases "a = c")
    case True
    have "c' \<noteq> c" using D(5) [OF mine(1)] mine(2) by blast
    then have "claims n m E x c" using sub [OF that] True by blast
    then show ?thesis using D(5) [OF mine(1)] True unfolding ctxs(1) by auto
  next
    case False
    show ?thesis
    proof (cases "x = Task r")
      case True
      then have "a = c'" using sub [OF that] by blast
      then show ?thesis using D(6) [OF mine(2)] False unfolding ctxs(1) by auto
    next
      case ne: False
      then have "claims n m E x a" using sub [OF that] by blast
      then show ?thesis using D(6) False unfolding ctxs(1) by simp
    qed
  qed
  show "ctx_ok n ?m ?E a f" if a: "ctxs ?m a = Some f" for a f
  proof (cases "a = c")
    case True
    then have "f = [Work_loop w Pop]" using a unfolding ctxs(1) by simp
    then show ?thesis using True tE(2) cur(1) unfolding ctx_ok_def ctxs by simp
  next
    case False
    then have a': "ctxs m a = Some f" using a unfolding ctxs(1) by simp
    have ok: "set (held f) \<subseteq> E" "stack_ok n (heap m) f" using D(2) [OF a'] by (auto simp: ctx_ok_def)
    have "view st' s = view (heap m) s" if "s \<in> set (held f)" for s using that ok(1) r(3) by (intro r(4)) auto
    then have "stack_ok n st' f" by (rule stack_cong [OF ok(2)]) (use hp in auto)
    then show ?thesis using D(2) [OF a'] other [OF a' False] unfolding ctx_ok_def ctxs by auto
  qed
  show "set (held f) \<inter> set (held g) = {} \<and> set (scopes f) \<inter> set (scopes g) = {}"
    if ne: "a \<noteq> b" and ab: "ctxs ?m a = Some f" "ctxs ?m b = Some g" for a b f g
  proof -
    have "held f' = [] \<and> scopes f' = [] \<or> ctxs m a' = Some f'" if "ctxs ?m a' = Some f'" for a' f'
      using that unfolding ctxs(1) by (cases "a' = c") auto
    from this [OF ab(1)] this [OF ab(2)] show ?thesis using D(3,4) [OF ne] by (elim disjE) simp_all
  qed
  show "cur_finish (heap ?m) v = scope_of (heap ?m) s fs"
    if v: "v < n" "curr_ctx ?m ! v = Some a" "ctxs ?m a = Some (Body s fs # q)" for v a s fs q
  proof -
    have ne: "a \<noteq> c" using v(3) unfolding ctxs(1) by auto
    then have a: "ctxs m a = Some (Body s fs # q)" using v(3) unfolding ctxs(1) by simp
    then have "s \<noteq> r" using D(2) [OF a] r(3) by (auto simp: ctx_ok_def)
    then have "scope_of st' s fs = scope_of (heap m) s fs" by (intro scope_cong_view r(4))
    then show ?thesis using D(7) [OF v(1) _ a] v(2) hp(4) by (simp add: ctxs(2,3))
  qed
qed

section \<open>Starting a task\<close>

lemma view_cong: "tasks st' = tasks st \<Longrightarrow> view st' = view st"
  by (simp add: view_def fun_eq_iff)

lemma start_task_inv:
  assumes inv: "frames_inv n m E" and cur: "w < n" "curr_ctx m ! w = Some c" "ctxs m c = Some fr" and len: "length (rt_workers (heap m)) = n"
    and nohelp: "helper fr = None" and t: "t \<notin> E"
    and fr1: "stack_ok n (heap m) fr1" "held fr1 = held fr" "scopes fr1 = scopes fr" "no_body fr1"
    and run: "start_task w t c fr1 m = Inr m'"
  shows "frames_inv n m' (insert t E)" "\<exists>f. heap m' = set_worker w f (Some t) (heap m)"
proof -
  note D = frames_invD [OF inv]
  obtain tk where tk: "tasks (heap m) t = Some tk" using run by (auto simp: start_task_def get_task_def res_simps)
  let ?st = "set_worker w (t_finish tk) (Some t) (heap m)"
  have step: "(case fp tk of Resume c' \<Rightarrow> finish_ctx_resume w c c' (set_frames c fr1 (m\<lparr>heap := ?st\<rparr>))
      | _ \<Rightarrow> Inr (set_frames c (Body t [] # fr1) (m\<lparr>heap := ?st\<rparr>))) = Inr m'"
    using run tk by (simp add: start_task_def get_task_def execute_begin_def)
  have v: "view ?st = view (heap m)" "view (heap m) t = Some (fp tk, t_finish tk)" by (rule view_cong, simp) (simp add: view_def tk)
  have cf: "cur_finish ?st v = (if v = w then t_finish tk else cur_finish (heap m) v)" for v
    using len cur(1) by (auto simp: set_worker_nth)
  have heap: "heap m' = ?st" using step by (auto simp: finish_ctx_resume_def set_frames_def split: code.splits if_splits)
  then show "\<exists>f. heap m' = set_worker w f (Some t) (heap m)" by blast
  show "frames_inv n m' (insert t E)"
  proof (cases "\<exists>c'. fp tk = Resume c'")
    case True
    then obtain c' where c': "fp tk = Resume c'" by blast
    then have m': "m' = (set_frames c fr1 (m\<lparr>heap := ?st\<rparr>))\<lparr>curr_ctx := (curr_ctx m)[w := Some c'], ctxs := (ctxs m)(c := None)\<rparr>"
      using step by (auto simp: finish_ctx_resume_def set_frames_def split: if_splits)
    show ?thesis
      by (rule frames_leave [OF inv cur nohelp, where nxt = "Some c'" and st' = ?st])
        (use v cf t c' in \<open>auto simp: m' set_frames_def\<close>)
  next
    case False
    then have m': "m' = set_frames c (Body t [] # fr1) (m\<lparr>heap := ?st\<rparr>)" using step by (cases "fp tk") auto
    have ok: "ctx_ok n m E c fr" using D(2) [OF cur(3)] .
    have "stack_ok n ?st fr1" by (rule stack_cong [OF fr1(1)]) (simp_all add: v(1))
    then have rep: "replaces n E (insert t E) (heap m) ?st fr (Body t [] # fr1)"
      using fr1(2-4) ok t False v unfolding replaces_def ctx_ok_def by (auto simp: body_ok_def)
    show ?thesis unfolding m'
      by (rule frames_set [OF inv cur nohelp _ _ rep])
        (use v cf t in \<open>auto simp: spares_def scope_of_def\<close>)
  qed
qed

end
