(* ===== verification/Runtime_Safety.thy ===== *)
theory Runtime_Safety
  imports Runtime_Contexts
begin

text \<open>
  The invariant of the machine of \<^verbatim>\<open>Runtime_Machine\<close> and what follows from it: finish scopes end only
  when all their tasks are done, tasks run at most once and only with their futures satisfied.
\<close>

section \<open>The invariant\<close>

text \<open>All futures of a task are satisfied.\<close>

definition deps_done :: "('c, 'd, 'i) rt \<Rightarrow> nat \<Rightarrow> bool" where
  "deps_done st t = (case tasks st t of None \<Rightarrow> False | Some tk \<Rightarrow> \<forall>f \<in> set (deps tk). dep_closed st f)"

definition heap_inv :: "nat \<Rightarrow> ('u, 'd, 'i) hrt \<Rightarrow> (nat \<Rightarrow> nat list) \<Rightarrow> nat set \<Rightarrow> bool" where
  "heap_inv n st W E \<longleftrightarrow> sched_inv n st W {} E \<and> scope_inv st (\<lambda>_. 0) \<and> search_inv n st \<and>
     (\<forall>p. promises st p \<noteq> None \<longrightarrow> p < next_addr st) \<and> (\<forall>t \<in> E. deps_done st t)"

definition machine_inv :: "nat \<Rightarrow> ('u, 'd, 'i) machine \<Rightarrow> (nat \<Rightarrow> nat list) \<Rightarrow> nat set \<Rightarrow> bool" where
  "machine_inv n m W E \<longleftrightarrow> heap_inv n (heap m) W E \<and> frames_inv n m E"

lemma heap_invD:
  assumes "heap_inv n st W E"
  shows "sched_inv n st W {} E" "scope_inv st (\<lambda>_. 0)" "search_inv n st" "promises st p \<noteq> None \<Longrightarrow> p < next_addr st"
    "length (rt_workers st) = n" "t \<in> E \<Longrightarrow> deps_done st t"
  using assms by (auto simp: heap_inv_def search_inv_def)

lemma deps_done_cong:
  assumes "map_option task_core (tasks st' t) = map_option task_core (tasks st t)"
    and "\<And>f. dep_closed st f \<Longrightarrow> dep_closed st' f" "deps_done st t"
  shows "deps_done st' t"
proof -
  have d: "deps (task_core tk) = deps tk" for tk :: "'a task" by (simp add: task_core_def deps_def)
  obtain tk where tk: "tasks st t = Some tk" "\<forall>f \<in> set (deps tk). dep_closed st f"
    using assms(3) by (auto simp: deps_done_def split: option.splits)
  obtain tk' where tk': "tasks st' t = Some tk'" "task_core tk' = task_core tk" using assms(1) tk(1) by auto
  then have "deps tk' = deps tk" using d by metis
  then show ?thesis using tk tk' assms(2) by (auto simp: deps_done_def)
qed

lemma evolves_done: "evolves st st' \<Longrightarrow> deps_done st t \<Longrightarrow> deps_done st' t"
  by (rule deps_done_cong) (auto simp: evolves_def)

lemma same_done:
  assumes "tasks st' t = tasks st t" "promises st' = promises st"
  shows "deps_done st' t = deps_done st t"
  unfolding deps_done_def assms(1) dep_cong(1) [OF assms(2)] by simp

lemma ready_done: "ready_ok st t \<Longrightarrow> deps_done st t"
  by (auto simp: ready_ok_def task_ok_def deps_done_def split: option.splits)

lemma heap_inv_worker: "heap_inv n (set_worker w f t st) W E = heap_inv n st W E"
proof -
  have m: "map worker_state.truncate (rt_workers (set_worker w f t st)) = map worker_state.truncate (rt_workers st)"
    using same_sched_set_worker [of st w f t] by (simp add: same_sched_def)
  have "search_inv n (set_worker w f t st) = search_inv n st"
    using m by (auto intro: search_cong)
  moreover have "scope_inv (set_worker w f t st) (\<lambda>_. 0) = scope_inv st (\<lambda>_. 0)" by (auto intro: scope_cong)
  ultimately show ?thesis
    using same_done [of "set_worker w f t st" _ st] by (simp add: heap_inv_def same_sched_inv [OF same_sched_set_worker])
qed

text \<open>A found task.\<close>

lemma heap_inv_found:
  assumes inv: "heap_inv n st W E" and f: "found_inv n st' W E r" "searched n st st'"
  shows "case r of Got t \<Rightarrow> heap_inv n st' W (insert t E) \<and> t \<notin> E | _ \<Rightarrow> heap_inv n st' W E"
proof -
  have "scope_inv st' (\<lambda>_. 0)" "search_inv n st'" "promises st' = promises st" "next_addr st' = next_addr st"
    using f(2) inv searched_scope [OF f(2)] by (auto simp: searched_def heap_inv_def)
  moreover have "deps_done st' t = deps_done st t" for t using f(2) by (intro same_done) (simp_all add: searched_def)
  ultimately show ?thesis using f(1) inv ready_done [of st'] by (auto simp: found_inv_def heap_inv_def split: search.splits)
qed

section \<open>Changes of the heap under the frames\<close>

lemma evolves_view:
  assumes "evolves st st'"
  shows "view st' t = view st t"
proof -
  have "map_option task_core (tasks st' t) = map_option task_core (tasks st t)" using assms by (simp add: evolves_def)
  then show ?thesis by (cases "tasks st t"; cases "tasks st' t") (auto simp: view_def dest: task_core_fp)
qed

lemma evolves_spares:
  assumes "evolves st st'" "E' = E"
  shows "spares w fr E E' st st'"
proof -
  have "cur_finish st' v = cur_finish st v" for v using assms(1) by (simp add: evolves_def)
  moreover have "promises st' p \<noteq> None" if "promises st p \<noteq> None" for p using assms(1) that by (simp add: evolves_def)
  ultimately show ?thesis
    using assms evolves_view [OF assms(1)] unfolding spares_def by (auto simp: evolves_def)
qed

lemma searched_spares: "searched n st st' \<Longrightarrow> spares w fr E E st st'"
  by (auto simp: spares_def searched_def view_def)

text \<open>The frames stay as they are, or change without touching tasks and scopes.\<close>

lemma frames_retop:
  assumes inv: "frames_inv n m E" and cur: "w < n" "curr_ctx m ! w = Some c" "ctxs m c = Some fr"
    and nohelp: "helper fr = None" "helper fr' = None" and sp: "spares w fr E E (heap m) st'"
    and fr': "stack_ok n st' fr'" "held fr' = held fr" "scopes fr' = scopes fr"
    and top: "\<And>t fs r. fr' = Body t fs # r \<Longrightarrow> cur_finish st' w = scope_of st' t fs"
  shows "frames_inv n (set_frames c fr' (m\<lparr>heap := st'\<rparr>)) E"
proof (rule frames_set [OF inv cur nohelp sp _ top])
  show "replaces n E E (heap m) st' fr fr'"
    using frames_invD(2) [OF inv cur(3)] fr' by (auto simp: replaces_def ctx_ok_def)
qed

lemma frames_same: "ctxs m c = Some fr \<Longrightarrow> set_frames c fr m = m"
  by (simp add: set_frames_def fun_upd_idem)

lemma frames_heap:
  assumes inv: "frames_inv n m E" and cur: "w < n" "curr_ctx m ! w = Some c" "ctxs m c = Some fr"
    and nohelp: "helper fr = None"
    and hp: "\<And>t. t \<in> E \<Longrightarrow> view st' t = view (heap m) t" "\<And>t c b. view st' t = Some (Resume c, b) \<Longrightarrow> \<exists>b. view (heap m) t = Some (Resume c, b)"
      "\<And>f. finishes (heap m) f \<noteq> None \<Longrightarrow> map_option shape (finishes st' f) = map_option shape (finishes (heap m) f)"
      "\<And>p. promises (heap m) p \<noteq> None \<Longrightarrow> promises st' p \<noteq> None"
      "length (rt_pool st') = length (rt_pool (heap m))" "rt_workers st' = rt_workers (heap m)"
  shows "frames_inv n (m\<lparr>heap := st'\<rparr>) E"
proof -
  note D = frames_invD [OF inv] and ok = frames_invD(2) [OF inv cur(3), unfolded ctx_ok_def]
  have sp: "spares w fr E E (heap m) st'" unfolding spares_def using hp by simp
  have shp: "map_option shape (finishes st' f) = map_option shape (finishes (heap m) f)" if "f \<in> set (scopes fr)" for f
    using stack_scopes [of n "heap m" fr f] ok that by (intro hp(3)) (auto simp: open_scope_def)
  have "stack_ok n st' fr" by (rule stack_cong [of _ "heap m"]) (use ok hp shp in auto)
  moreover have "cur_finish st' w = scope_of st' t fs" if fr: "fr = Body t fs # r" for t fs r
  proof -
    have "t \<in> E" using ok fr by auto
    then have "scope_of st' t fs = scope_of (heap m) t fs" by (intro scope_cong_view hp(1))
    then show ?thesis using D(7) [OF cur(1,2)] cur(3) fr hp(6) by simp
  qed
  ultimately have "frames_inv n (set_frames c fr (m\<lparr>heap := st'\<rparr>)) E"
    by (intro frames_retop [OF inv cur nohelp nohelp sp]) auto
  then show ?thesis using frames_same [of "m\<lparr>heap := st'\<rparr>" c fr] cur(3) by simp
qed

section \<open>The steps of the runtime keep the invariant\<close>

lemma frames_atD:
  assumes "frames_at m w = Inr (c, fr)"
  shows "curr_ctx m ! w = Some c" "ctxs m c = Some fr"
  using assms by (auto simp: frames_at_def res_simps split: option.splits)

text \<open>Starting a task that has just been found, or that a helper starts with.\<close>

lemma started_inv:
  assumes inv: "heap_inv n (heap m) W (insert t E)" "frames_inv n m E" and cur: "w < n" "curr_ctx m ! w = Some c" "ctxs m c = Some fr"
    and nohelp: "helper fr = None" and t: "t \<notin> E"
    and fr1: "stack_ok n (heap m) fr1" "held fr1 = held fr" "scopes fr1 = scopes fr" "no_body fr1"
    and run: "start_task w t c fr1 m = Inr m'"
  shows "machine_inv n m' W (insert t E)" "next_addr (heap m') = next_addr (heap m)"
  using start_task_inv [OF inv(2) cur heap_invD(5) [OF inv(1)] nohelp t fr1 run] inv(1)
  by (auto simp: machine_inv_def heap_inv_worker)

lemma search_round_inv:
  assumes inv: "machine_inv n m W E" and cur: "w < n" "curr_ctx m ! w = Some c" "ctxs m c = Some fr" and ws: "ws < n"
    and fr: "helper fr = None" "held fr = held rest" "scopes fr = scopes rest"
    and frm: "\<And>ph. tasks_in (frm ph) = [] \<and> scopes_in (frm ph) = [] \<and> helper (frm ph # rest) = None \<and> no_body (frm ph # rest)"
    and ok: "\<And>ph. stack_ok n (heap m) (frm ph # rest)"
    and swp: "\<And>t st. heap_inv n st W (insert t E) \<Longrightarrow> t \<notin> E \<Longrightarrow> searched n (heap m) st \<Longrightarrow> frames_inv n (m\<lparr>heap := st\<rparr>) E \<Longrightarrow>
        swp t (m\<lparr>heap := st\<rparr>) = Inr m' \<Longrightarrow> \<not> on_fresh \<Longrightarrow> \<exists>W' E'. machine_inv n m' W' E'"
    and run: "search_round w ws ph reached on_fresh cf frm swp c rest m = Inr m'"
  shows "\<exists>W' E'. machine_inv n m' W' E'"
proof -
  have hi: "heap_inv n (heap m) W E" and fi: "frames_inv n m E" using inv by (auto simp: machine_inv_def)
  obtain st r where find: "find_step ws (ph = Steal) reached (heap m) = Inr (st, r)"
    using run by (auto simp: search_round_def res_simps)
  have f: "found_inv n st W E r" "searched n (heap m) st"
    using find_step_inv [OF heap_invD(1) [OF hi] heap_invD(3) [OF hi] ws find] by auto
  note found = heap_inv_found [OF hi f]
  have s: "tasks st = tasks (heap m)" "promises st = promises (heap m)" "finishes st = finishes (heap m)"
      "length (rt_pool st) = length (rt_pool (heap m))" "rt_workers st = rt_workers (heap m)"
    using f(2) by (auto simp: searched_def)
  have v: "view st = view (heap m)" by (rule view_cong [OF s(1)])
  have fi1: "frames_inv n (m\<lparr>heap := st\<rparr>) E"
    by (rule frames_heap [OF fi cur fr(1)]) (use s v in auto)
  have stack: "stack_ok n st (frm p # rest)" for p by (rule stack_cong [OF ok [of p]]) (use s v in auto)
  have re: "machine_inv n (set_frames c (frm p # rest) (m\<lparr>heap := st\<rparr>)) W E" if "heap_inv n st W E" for p
  proof -
    have "frames_inv n (set_frames c (frm p # rest) (m\<lparr>heap := st\<rparr>)) E"
      by (rule frames_retop [OF fi cur fr(1) _ searched_spares [OF f(2)] stack])
        (use frm [of p] fr in \<open>auto simp: no_body_def\<close>)
    then show ?thesis using that by (simp add: machine_inv_def set_frames_def)
  qed
  show ?thesis
  proof (cases r)
    case (Got t)
    then obtain tk where tk: "tasks st t = Some tk"
      and go: "(if runs_here on_fresh cf tk then start_task w t c (frm Check # rest) (m\<lparr>heap := st\<rparr>) else swp t (m\<lparr>heap := st\<rparr>)) = Inr m'"
      using run find by (auto simp: search_round_def get_task_def res_simps Let_def)
    have h: "heap_inv n st W (insert t E)" "t \<notin> E" using found Got by auto
    show ?thesis
    proof (cases "runs_here on_fresh cf tk")
      case True
      then have "machine_inv n m' W (insert t E)"
        using go h fi1 cur fr frm [of Check] stack [of Check] by (intro started_inv(1) [where fr = fr]) auto
      then show ?thesis by blast
    next
      case False
      then have "\<not> on_fresh" by (auto simp: runs_here_def)
      then show ?thesis using swp [OF h f(2) fi1] go False by auto
    qed
  qed (use found re run find in \<open>auto simp: search_round_def Let_def\<close>)
qed

text \<open>The end of a scope.\<close>

lemma inner_scopeE:
  assumes "inner_scope fr = Some f" "stack_ok n st fr" "distinct (scopes fr)"
  obtains t fs r where "fr = Body t (f # fs) # r" "drop_scope fr = Body t fs # r"
  | fs where "fr = [Finalize (f # fs)]" "drop_scope fr = [Finalize fs]"
  using assms by (auto simp: inner_scope_def drop_scope_def split: list.splits frame.splits)

lemma close_frames:
  assumes fi: "frames_inv n m E" and cur: "w < n" "curr_ctx m ! w = Some c" "ctxs m c = Some fr"
    and fr: "helper fr = None" "held fr = held rest" "scopes fr = scopes rest" "stack_ok n (heap m) rest" "inner_scope rest = Some f"
    and fin: "finishes (heap m) f = Some fin"
    and v: "\<And>s. view st s = view (heap m) s"
    and shp: "\<And>g. g \<noteq> f \<Longrightarrow> map_option shape (finishes st g) = map_option shape (finishes (heap m) g)"
    and cf: "\<And>u. cur_finish st u = (if u = w then parent fin else cur_finish (heap m) u)"
    and pl: "\<And>p. promises (heap m) p \<noteq> None \<Longrightarrow> promises st p \<noteq> None" "length (rt_pool st) = length (rt_pool (heap m))"
  shows "frames_inv n (set_frames c (drop_scope rest) (m\<lparr>heap := st\<rparr>)) E"
proof -
  have ok: "distinct (held rest)" "set (held rest) \<subseteq> E" "distinct (scopes rest)"
    using frames_invD(2) [OF fi cur(3)] fr by (auto simp: ctx_ok_def)
  have fs: "f \<in> set (scopes rest)" using fr(5) by (auto simp: inner_scope_def split: list.splits frame.splits)
  have sp: "spares w fr E E (heap m) st"
  proof (rule sparesI)
    show "map_option shape (finishes st g) = map_option shape (finishes (heap m) g)" if "g \<notin> set (scopes fr)" for g
      using that fs fr(3) by (intro shp) auto
  qed (use v cf pl in auto)
  have cong: "stack_ok n st r" if "stack_ok n (heap m) r" "f \<notin> set (scopes r)" for r
  proof (rule stack_cong [OF that(1)])
    show "map_option shape (finishes st g) = map_option shape (finishes (heap m) g)" if "g \<in> set (scopes r)" for g
      using that \<open>f \<notin> set (scopes r)\<close> by (intro shp) auto
  qed (use v pl in auto)
  have "replaces n E E (heap m) st fr (drop_scope rest) \<and> helper (drop_scope rest) = None \<and>
      (\<forall>t gs r. drop_scope rest = Body t gs # r \<longrightarrow> cur_finish st w = scope_of st t gs)"
    using fr(5,4) ok(3)
  proof (cases rule: inner_scopeE)
    case (1 t gs r)
    obtain x b where xb: "view (heap m) t = Some (x, b)" "\<forall>c. x \<noteq> Resume c" "chain_ok (heap m) b (f # gs)" "no_body r" "stack_ok n (heap m) r"
      using fr(4) 1(1) by (auto simp: body_ok_def split: option.splits)
    have nf: "f \<notin> set gs" "f \<notin> set (scopes r)" using ok(3) 1(1) by auto
    have "chain_ok st b gs = chain_ok (heap m) b gs" using nf(1) by (intro chain_cong shp) auto
    then have "body_ok st t gs" using xb v by (simp add: body_ok_def)
    then have "stack_ok n st (Body t gs # r)" using xb cong nf(2) by simp
    moreover have "parent fin = scope_of st t gs" using xb(1,3) fin v by (auto simp: scope_of_def shape_def split: list.splits)
    ultimately show ?thesis using 1 ok fr cf by (auto simp: replaces_def)
  next
    case (2 gs)
    have nf: "f \<notin> set gs" using ok(3) 2(1) by auto
    have "chain_ok st None gs = chain_ok (heap m) None gs" using nf by (intro chain_cong shp) auto
    then show ?thesis using 2 ok fr by (auto simp: replaces_def)
  qed
  then show ?thesis using frames_set [OF fi cur fr(1) _ sp] by auto
qed

text \<open>An operation that ends by setting the worker's finish and task.\<close>

lemma heap_inv_evolved:
  assumes inv: "heap_inv n st0 W0 E" and s: "sched_inv n st W {} E" "scope_inv st (\<lambda>_. 0)"
    and e: "\<And>s. map_option task_core (tasks st s) = map_option task_core (tasks st0 s)" "\<And>f. dep_closed st0 f \<Longrightarrow> dep_closed st f"
      "\<And>p. promises st p = None \<longleftrightarrow> promises st0 p = None" "next_addr st0 \<le> next_addr st" "rt_paths st = rt_paths st0"
      "length (rt_pool st) = length (rt_pool st0)" "map worker_state.truncate (rt_workers st) = map worker_state.truncate (rt_workers st0)"
  shows "heap_inv n st W E"
  unfolding heap_inv_def
proof (intro conjI allI impI ballI)
  show "search_inv n st" by (rule search_cong [OF heap_invD(3) [OF inv] e(5-7)])
  show "p < next_addr st" if "promises st p \<noteq> None" for p using heap_invD(4) [OF inv, of p] that e(3,4) by auto
  show "deps_done st t" if "t \<in> E" for t by (rule deps_done_cong [OF e(1,2) heap_invD(6) [OF inv that]])
qed (use s in auto)

lemma set_worker_truncate: "map worker_state.truncate (rt_workers (set_worker w f t st)) = map worker_state.truncate (rt_workers st)"
  using same_sched_set_worker [of st w f t] by (simp add: same_sched_def)

lemma set_worker_closed: "dep_closed (set_worker w f t st) = dep_closed st"
  by (rule dep_cong) simp

lemma end_finish_leave_inv:
  assumes inv: "machine_inv n m W E" and few: "few_objects (heap m)" and cur: "w < n" "curr_ctx m ! w = Some c"
      "ctxs m c = Some (End_finish f tsk ws ph # rest)"
    and fin: "finishes (heap m) f = Some fin" "counter fin = 1"
    and run: "leave_finish w f tsk (heap m) = Inr st"
  shows "\<exists>W'. machine_inv n (set_frames c (drop_scope rest) (m\<lparr>heap := st\<rparr>)) W' E" "finish_dep fin = None"
proof -
  have hi: "heap_inv n (heap m) W E" and fi: "frames_inv n m E" using inv by (auto simp: machine_inv_def)
  have ok: "inner_scope rest = Some f" "stack_ok n (heap m) rest" using frames_invD(2) [OF fi cur(3)] by (auto simp: ctx_ok_def)
  have fs: "f \<in> set (scopes rest)" using ok by (auto simp: inner_scope_def split: list.splits frame.splits)
  show dep: "finish_dep fin = None" using stack_scopes [OF ok(2) fs] fin(1) by (simp add: open_scope_def)
  obtain W' st1 where W': "sched_inv n st W' {} E" "scope_inv st (\<lambda>_. 0)" "evolves (heap m) st1"
      "st = set_worker w (parent fin) tsk (st1\<lparr>finishes := (finishes st1)(f := None)\<rparr>)"
    using leave_finish_inv [OF heap_invD(1,2) [OF hi] cur(1) few fin(1) dep fin(2) run] by blast
  have v: "view st s = view (heap m) s" for s using evolves_view [OF W'(3), of s] by (simp add: W'(4) view_def)
  have len: "length (rt_workers st1) = n" using heap_invD(5) [OF hi] W'(3) by (simp add: evolves_def)
  have cf: "cur_finish st u = (if u = w then parent fin else cur_finish (heap m) u)" for u
    using W'(3) len cur(1) by (auto simp: W'(4) set_worker_nth evolves_def)
  have "frames_inv n (set_frames c (drop_scope rest) (m\<lparr>heap := st\<rparr>)) E"
    by (rule close_frames [OF fi cur _ _ _ ok(2,1) fin(1) v _ cf]) (use W'(3) in \<open>auto simp: W'(4) evolves_def\<close>)
  moreover have "heap_inv n st W' E"
  proof (rule heap_inv_evolved [OF hi W'(1,2)])
    have "dep_closed st = dep_closed st1" by (rule dep_cong) (simp add: W'(4))
    then show "dep_closed (heap m) g \<Longrightarrow> dep_closed st g" for g using W'(3) by (simp add: evolves_def)
  qed (use W'(3) in \<open>auto simp: W'(4) evolves_def set_worker_truncate\<close>)
  ultimately show "\<exists>W'. machine_inv n (set_frames c (drop_scope rest) (m\<lparr>heap := st\<rparr>)) W' E"
    by (auto simp: machine_inv_def set_frames_def)
qed

text \<open>A new task in the heap.\<close>

lemma heap_inv_spawn:
  assumes inv: "heap_inv n st W E" and w: "w < n" and few: "few_objects (st\<lparr>next_addr := next_addr st + 1\<rparr>)"
    and args: "futures_ok st fs" "loc_ok st loc" "\<And>a. \<not> escaping \<Longrightarrow> cur_finish st w = Some a \<Longrightarrow> finishes st a \<noteq> None"
    and spawn: "spawn_handler w (next_addr st) loc fs escaping (fst (alloc_task c nb st)) = Inr st'"
  shows "\<exists>W' tk. heap_inv n st' W' E \<and> fp tk = c \<and> t_finish tk = (if escaping then None else cur_finish st w) \<and>
     evolves (put_task (next_addr st) tk (st\<lparr>next_addr := next_addr st + 1\<rparr>)) st'"
proof -
  let ?r = "next_addr st"
  have loc: "l < length (rt_pool st)" if "loc = Some l" for l using args(2) that by (simp add: loc_ok_def)
  obtain W' tk where W': "sched_inv n st' W' {} E" "scope_inv st' (\<lambda>_. 0)" "fp tk = c" "t_finish tk = (if escaping then None else cur_finish st w)"
      and ev: "evolves (put_task ?r tk (st\<lparr>next_addr := ?r + 1\<rparr>)) st'" (is "evolves ?mid _")
    using spawn_inv [OF heap_invD(1,2) [OF inv] w few args(1) loc args(3) spawn] by blast
  have e: "next_addr st' = ?r + 1" "\<And>p. promises st' p = None \<longleftrightarrow> promises st p = None" "rt_paths st' = rt_paths st"
      "length (rt_pool st') = length (rt_pool st)" "rt_workers st' = rt_workers st"
    using ev by (simp_all add: evolves_def)
  have "search_inv n st'" by (rule search_cong [OF heap_invD(3) [OF inv]]) (simp_all add: e)
  moreover have "deps_done st' t" if "t \<in> E" for t
  proof -
    have "t \<noteq> ?r" using that place_fresh(2) [of n st W "{}" E] heap_invD(1) [OF inv] by (auto simp: sched_inv_def)
    then have "deps_done ?mid t = deps_done st t" by (intro same_done) simp_all
    then show ?thesis using evolves_done [OF ev] heap_invD(6) [OF inv that] by blast
  qed
  moreover have "p < next_addr st'" if "promises st' p \<noteq> None" for p
    using that heap_invD(4) [OF inv, of p] e(1,2) by auto
  ultimately have "heap_inv n st' W' E" using W'(1,2) by (simp add: heap_inv_def)
  then show ?thesis using W'(3,4) ev by blast
qed

lemma spawn_views:
  assumes "evolves (put_task r tk (st\<lparr>next_addr := a\<rparr>)) st'"
  shows "view st' r = Some (fp tk, t_finish tk)" "t \<noteq> r \<Longrightarrow> view st' t = view st t"
    "map_option shape (finishes st' f) = map_option shape (finishes st f)"
    "promises st' p = None \<longleftrightarrow> promises st p = None" "length (rt_pool st') = length (rt_pool st)" "rt_workers st' = rt_workers st"
    "next_addr st' = a"
proof -
  have "view st' t = view (put_task r tk (st\<lparr>next_addr := a\<rparr>)) t" for t by (rule evolves_view [OF assms])
  then show "view st' r = Some (fp tk, t_finish tk)" "t \<noteq> r \<Longrightarrow> view st' t = view st t" by (simp_all add: view_def)
qed (use assms in \<open>simp_all add: evolves_def\<close>)

lemma set_frames_twice [simp]: "set_frames c a (set_frames c b m) = set_frames c a m"
  "(set_frames c a m)\<lparr>heap := st\<rparr> = set_frames c a (m\<lparr>heap := st\<rparr>)" "heap (set_frames c a m) = heap m"
  "curr_ctx (set_frames c a m) = curr_ctx m" "ctxs (set_frames c a m) = (ctxs m)(c \<mapsto> a)"
  by (simp_all add: set_frames_def)

lemma start_task_set: "start_task w t c fr (set_frames c x m) = start_task w t c fr m"
  by (simp add: start_task_def cong: code.case_cong)

lemma bounded_few:
  assumes "bounded m"
  shows "few_objects (heap m)" "few_objects ((heap m)\<lparr>next_addr := next_addr (heap m) + 1\<rparr>)"
  using assms by (simp_all add: bounded_def few_objects_def)

lemma start_helper_inv:
  assumes inv: "machine_inv n m W E" and few: "bounded m" and cur: "w < n" "curr_ctx m ! w = Some c" "ctxs m c = Some fr"
    and h: "helper fr = Some (t, c')" and args: "futures_ok (heap m) fs" "loc_ok (heap m) loc"
    and run: "start_helper w c t c' (\<lambda>r st. spawn_handler w r loc fs True st) m = Inr m'"
  shows "\<exists>W' E'. machine_inv n m' W' E'"
proof -
  have hi: "heap_inv n (heap m) W E" and fi: "frames_inv n m E" using inv by (auto simp: machine_inv_def)
  let ?r = "next_addr (heap m)"
  obtain st1 where spawn: "spawn_handler w ?r loc fs True (fst (alloc_task (Resume c') False (heap m))) = Inr st1"
    and start: "start_task w t c [Work_loop w Pop] (m\<lparr>heap := st1\<rparr>) = Inr m'"
    using run by (auto simp: start_helper_def alloc_task_def res_simps)
  obtain W' tk where W': "heap_inv n st1 W' E" "fp tk = Resume c'" "evolves (put_task ?r tk ((heap m)\<lparr>next_addr := ?r + 1\<rparr>)) st1"
    using heap_inv_spawn [OF hi cur(1) bounded_few(2) [OF few] args _ spawn] by auto
  note V = spawn_views [OF W'(3)]
  have fresh: "tasks (heap m) ?r = None" "?r \<notin> E" using place_fresh [of n "heap m" W "{}" E] heap_invD(1) [OF hi] by (auto simp: sched_inv_def)
  define m1 where "m1 = set_frames c [Work_loop w Pop] (m\<lparr>heap := st1\<rparr>)"
  have fi1: "frames_inv n m1 (E - {t})" unfolding m1_def
    by (rule frames_help [OF fi cur h, where r = ?r and b = "t_finish tk"]) (use V W'(2) fresh in \<open>auto simp: view_def\<close>)
  have "t \<in> E" using helper_held [OF h] frames_invD(2) [OF fi cur(3)] by (auto simp: ctx_ok_def)
  then have hi1: "heap_inv n (heap m1) W' (insert t (E - {t}))" using W'(1) by (simp add: m1_def insert_absorb)
  have start1: "start_task w t c [Work_loop w Pop] m1 = Inr m'" using start by (simp add: m1_def start_task_set)
  have "machine_inv n m' W' (insert t (E - {t}))"
    by (rule started_inv(1) [OF hi1 fi1 cur(1) _ _ _ _ _ _ _ _ start1, where fr = "[Work_loop w Pop]"])
      (use cur in \<open>auto simp: m1_def no_body_def\<close>)
  then show ?thesis by blast
qed

text \<open>A new context for a found task that must not run here.\<close>

lemma swapped_inv:
  assumes inv: "heap_inv n (heap m) W (insert t E)" "frames_inv n m E" and cur: "w < n" "curr_ctx m ! w = Some c" "ctxs m c = Some fr"
    and nohelp: "helper fr = None" and t: "t \<notin> E"
    and h: "helper [h] = Some (t, c)" "held [h] = [t]" "scopes [h] = []" "stack_ok n (heap m) [h]"
    and fr1: "stack_ok n (heap m) fr1" "held fr1 = held fr" "scopes fr1 = scopes fr" "suspended fr1"
  shows "machine_inv n (swap_to_new w h (set_frames c fr1 m)) W (insert t E)"
  using frames_swap [OF inv(2) cur nohelp t h fr1] inv(1) by (simp add: machine_inv_def swap_to_new_def)

text \<open>The return of a function that restores the finish of the body below.\<close>

lemma returned_inv:
  assumes inv: "machine_inv n m W E" and cur: "w < n" "curr_ctx m ! w = Some c" "ctxs m c = Some (x # rest)"
    and x: "tasks_in x = []" "scopes_in x = []" "helper (x # rest) = None" and ret: "returns_to (heap m) fin rest" "stack_ok n (heap m) rest"
  shows "machine_inv n (set_frames c rest (m\<lparr>heap := set_worker w fin tsk (heap m)\<rparr>)) W E"
proof -
  have hi: "heap_inv n (heap m) W E" and fi: "frames_inv n m E" using inv by (auto simp: machine_inv_def)
  let ?st = "set_worker w fin tsk (heap m)"
  obtain t fs r where rest: "rest = Body t fs # r" "fin = scope_of (heap m) t fs"
    using ret(1) by (auto simp: returns_to_def split: list.splits frame.splits)
  have v: "view ?st = view (heap m)" by (rule view_cong) simp
  have cf: "cur_finish ?st u = (if u = w then fin else cur_finish (heap m) u)" for u
    using heap_invD(5) [OF hi] cur(1) by (auto simp: set_worker_nth)
  have sp: "spares w (x # rest) E E (heap m) ?st" by (rule sparesI) (use v cf in auto)
  have stack: "stack_ok n ?st rest" by (rule stack_cong [OF ret(2)]) (use v in auto)
  have "frames_inv n (set_frames c rest (m\<lparr>heap := ?st\<rparr>)) E"
    by (rule frames_retop [OF fi cur x(3) _ sp stack]) (use x rest cf scope_cong_view [of ?st t "heap m" fs] v in auto)
  then show ?thesis using hi by (simp add: machine_inv_def heap_inv_worker)
qed

lemma end_finish_inv:
  assumes inv: "machine_inv n m W E" and few: "bounded m" and cur: "w < n" "curr_ctx m ! w = Some c"
      "ctxs m c = Some (End_finish f tsk ws ph # rest)"
    and run: "run_end_finish w c f tsk ws ph rest m = Inr m'"
  shows "\<exists>W' E'. machine_inv n m' W' E'"
proof -
  have hi: "heap_inv n (heap m) W E" and fi: "frames_inv n m E" using inv by (auto simp: machine_inv_def)
  have ok: "stack_ok n (heap m) (End_finish f tsk ws p # rest)" for p
    using frames_invD(2) [OF fi cur(3)] by (auto simp: ctx_ok_def)
  obtain fin where fin: "finishes (heap m) f = Some fin" using run by (auto simp: run_end_finish_def get_finish_def res_simps)
  show ?thesis
  proof (cases "ph = Check")
    case True
    show ?thesis
    proof (cases "counter fin > 1")
      case big: True
      then have "m' = set_frames c (End_finish f tsk ws Pop # rest) (m\<lparr>heap := heap m\<rparr>)"
        using run fin True by (simp add: run_end_finish_def get_finish_def)
      moreover have "frames_inv n (set_frames c (End_finish f tsk ws Pop # rest) (m\<lparr>heap := heap m\<rparr>)) E"
        by (rule frames_retop [OF fi cur _ _ evolves_spares [OF evolves_refl refl] ok]) auto
      ultimately show ?thesis using hi by (auto simp: machine_inv_def)
    next
      case False
      then obtain st where "counter fin = 1" "leave_finish w f tsk (heap m) = Inr st" "m' = set_frames c (drop_scope rest) (m\<lparr>heap := st\<rparr>)"
        using run fin True by (auto simp: run_end_finish_def get_finish_def res_simps)
      then show ?thesis using end_finish_leave_inv(1) [OF inv bounded_few(1) [OF few] cur fin] by auto
    qed
  next
    case False
    show ?thesis
      by (rule search_round_inv [OF inv cur, where frm = "End_finish f tsk ws" and rest = rest and on_fresh = True])
        (use run fin False ok in \<open>auto simp: run_end_finish_def get_finish_def no_body_def\<close>)
  qed
qed

lemma future_wait_inv:
  assumes inv: "machine_inv n m W E" and cur: "w < n" "curr_ctx m ! w = Some c"
      "ctxs m c = Some (Future_wait p fin tsk ws ph # rest)"
    and run: "run_future_wait w c p fin tsk ws ph rest m = Inr m'"
  shows "\<exists>W' E'. machine_inv n m' W' E'"
proof -
  have hi: "heap_inv n (heap m) W E" and fi: "frames_inv n m E" using inv by (auto simp: machine_inv_def)
  have ok: "stack_ok n (heap m) (Future_wait p fin tsk ws q # rest)" for q
    using frames_invD(2) [OF fi cur(3)] by (auto simp: ctx_ok_def)
  obtain sat where sat: "hclib_future_is_satisfied (heap m) p = Inr sat" using run by (auto simp: run_future_wait_def res_simps)
  show ?thesis
  proof (cases "ph = Check")
    case True
    show ?thesis
    proof (cases sat)
      case yes: True
      then have "m' = set_frames c rest (m\<lparr>heap := set_worker w fin tsk (heap m)\<rparr>)"
        using run sat True by (simp add: run_future_wait_def)
      then show ?thesis using returned_inv [OF inv cur] ok [of ph] by auto
    next
      case False
      then have "m' = set_frames c (Future_wait p fin tsk ws Pop # rest) (m\<lparr>heap := heap m\<rparr>)"
        using run sat True by (simp add: run_future_wait_def)
      moreover have "frames_inv n (set_frames c (Future_wait p fin tsk ws Pop # rest) (m\<lparr>heap := heap m\<rparr>)) E"
        by (rule frames_retop [OF fi cur _ _ evolves_spares [OF evolves_refl refl] ok]) auto
      ultimately show ?thesis using hi by (auto simp: machine_inv_def)
    qed
  next
    case False
    show ?thesis
    proof (rule search_round_inv [OF inv cur, where frm = "Future_wait p fin tsk ws" and rest = rest and ws = ws])
      show "search_round w ws ph sat False None (Future_wait p fin tsk ws)
         (\<lambda>t m1. Inr (swap_to_new w (Help_wait p t c) (set_frames c (Wait_swapped p fin tsk # rest) m1))) c rest m = Inr m'"
        using run sat False by (simp add: run_future_wait_def)
      fix t st
      assume a: "heap_inv n st W (insert t E)" "t \<notin> E" "searched n (heap m) st" "frames_inv n (m\<lparr>heap := st\<rparr>) E"
        "Inr (swap_to_new w (Help_wait p t c) (set_frames c (Wait_swapped p fin tsk # rest) (m\<lparr>heap := st\<rparr>))) = Inr m'"
      have "stack_ok n st (Future_wait p fin tsk ws ph # rest)"
        using frames_invD(2) [OF a(4), of c "Future_wait p fin tsk ws ph # rest"] cur(3) by (simp add: ctx_ok_def)
      then have "machine_inv n (swap_to_new w (Help_wait p t c) (set_frames c (Wait_swapped p fin tsk # rest) (m\<lparr>heap := st\<rparr>))) W (insert t E)"
        using a cur by (intro swapped_inv [where fr = "Future_wait p fin tsk ws ph # rest"]) auto
      then show "\<exists>W' E'. machine_inv n m' W' E'" using a(5) by auto
    qed (use ok in \<open>auto simp: no_body_def\<close>)
  qed
qed

lemma yield_inv:
  assumes inv: "machine_inv n m W E" and cur: "w < n" "curr_ctx m ! w = Some c"
      "ctxs m c = Some (Yield loc fin tsk ph # rest)"
    and run: "run_yield w c loc fin tsk ph rest m = Inr m'"
  shows "\<exists>W' E'. machine_inv n m' W' E'"
proof -
  have hi: "heap_inv n (heap m) W E" and fi: "frames_inv n m E" using inv by (auto simp: machine_inv_def)
  let ?fr = "\<lambda>q. Yield loc fin tsk q # rest"
  have ok: "stack_ok n (heap m) (?fr q)" for q using frames_invD(2) [OF fi cur(3)] by (auto simp: ctx_ok_def)
  obtain st r where find: "(if ph = Steal then steal_step w (heap m) else pop_step w (heap m)) = Inr (st, r)"
    using run by (auto simp: run_yield_def res_simps)
  have f: "found_inv n st W E r" "searched n (heap m) st" "r \<noteq> Give_up"
    using pop_step_inv [OF heap_invD(1,3) [OF hi] cur(1)] steal_step_inv [OF heap_invD(1,3) [OF hi] cur(1)] find
    by (auto split: if_splits)
  note found = heap_inv_found [OF hi f(1,2)]
  have s: "tasks st = tasks (heap m)" "promises st = promises (heap m)" "finishes st = finishes (heap m)"
      "length (rt_pool st) = length (rt_pool (heap m))" "rt_workers st = rt_workers (heap m)"
    using f(2) by (auto simp: searched_def)
  have v: "view st = view (heap m)" by (rule view_cong [OF s(1)])
  have fi1: "frames_inv n (m\<lparr>heap := st\<rparr>) E" by (rule frames_heap [OF fi cur]) (use s v in auto)
  have stack: "stack_ok n st (?fr q)" for q by (rule stack_cong [OF ok [of q]]) (use s v in auto)
  show ?thesis
  proof (cases r)
    case (Got t)
    have h: "heap_inv n st W (insert t E)" "t \<notin> E" using found Got by auto
    obtain tk where tk: "tasks st t = Some tk" and go: "(if non_blocking tk then start_task w t c (?fr Pop) (m\<lparr>heap := st\<rparr>)
        else Inr (swap_to_new w (Yield_helper loc t c) (set_frames c (Yield_swapped fin tsk # rest) (m\<lparr>heap := st\<rparr>)))) = Inr m'"
      using run find Got by (auto simp: run_yield_def get_task_def res_simps Let_def)
    show ?thesis
    proof (cases "non_blocking tk")
      case True
      then have "machine_inv n m' W (insert t E)"
        using go h fi1 cur stack [of Pop] by (intro started_inv(1) [where fr = "?fr ph"]) (auto simp: no_body_def)
      then show ?thesis by blast
    next
      case False
      have "machine_inv n (swap_to_new w (Yield_helper loc t c) (set_frames c (Yield_swapped fin tsk # rest) (m\<lparr>heap := st\<rparr>))) W (insert t E)"
        using h fi1 cur stack [of ph] by (intro swapped_inv [where fr = "?fr ph"]) auto
      then show ?thesis using go False by auto
    qed
  next
    case Try_steal
    have hi1: "heap_inv n st W E" using found Try_steal by simp
    show ?thesis
    proof (cases "ph = Steal")
      case True
      then have m': "m' = set_frames c rest ((m\<lparr>heap := st\<rparr>)\<lparr>heap := set_worker w fin tsk (heap (m\<lparr>heap := st\<rparr>))\<rparr>)"
        using run find Try_steal by (simp add: run_yield_def Let_def)
      have "machine_inv n (m\<lparr>heap := st\<rparr>) W E" using hi1 fi1 by (simp add: machine_inv_def)
      then have "machine_inv n m' W E" unfolding m'
        by (rule returned_inv [where x = "Yield loc fin tsk ph"]) (use cur stack [of ph] in auto)
      then show ?thesis by blast
    next
      case False
      then have m': "m' = set_frames c (?fr Steal) (m\<lparr>heap := st\<rparr>)" using run find Try_steal by (simp add: run_yield_def Let_def)
      have "frames_inv n (set_frames c (?fr Steal) (m\<lparr>heap := st\<rparr>)) E"
        by (rule frames_retop [OF fi cur _ _ searched_spares [OF f(2)] stack]) auto
      then show ?thesis using hi1 by (auto simp: machine_inv_def m')
    qed
  qed (use f(3) in simp)
qed

lemma work_loop_inv:
  assumes inv: "machine_inv n m W E" and cur: "w < n" "curr_ctx m ! w = Some c" "ctxs m c = Some (Work_loop ws ph # rest)"
    and run: "run_work_loop w c ws ph rest m = Inr m'"
  shows "\<exists>W' E'. machine_inv n m' W' E'"
proof -
  have hi: "heap_inv n (heap m) W E" and fi: "frames_inv n m E" using inv by (auto simp: machine_inv_def)
  have ok: "ws < n" "rest = []" using frames_invD(2) [OF fi cur(3)] by (auto simp: ctx_ok_def)
  show ?thesis
  proof (cases "ph = Check")
    case True
    show ?thesis
    proof (cases "done_flags m ! ws")
      case going: True
      then have "m' = set_frames c (Work_loop ws Pop # rest) (m\<lparr>heap := heap m\<rparr>)" using run True by (simp add: run_work_loop_def)
      moreover have "frames_inv n (set_frames c (Work_loop ws Pop # rest) (m\<lparr>heap := heap m\<rparr>)) E"
        by (rule frames_retop [OF fi cur _ _ evolves_spares [OF evolves_refl refl]]) (use ok in auto)
      ultimately show ?thesis using hi by (auto simp: machine_inv_def)
    next
      case False
      then have m': "m' = leave_ctx w c m" using run True by (simp add: run_work_loop_def)
      have "frames_inv n (leave_ctx w c m) E"
        by (rule frames_leave [OF fi cur, where nxt = None and st' = "heap m"]) (auto simp: leave_ctx_def)
      then show ?thesis using hi by (auto simp: machine_inv_def m' leave_ctx_def)
    qed
  next
    case False
    define ws' where "ws' = (if ph = Pop then w else ws)"
    have ws': "ws' < n" using ok(1) cur(1) by (simp add: ws'_def)
    show ?thesis
      by (rule search_round_inv [OF inv cur ws', where frm = "Work_loop ws'" and rest = rest and on_fresh = True])
        (use run False ok ws' in \<open>auto simp: run_work_loop_def Let_def ws'_def no_body_def\<close>)
  qed
qed

lemma run_frame_inv:
  assumes inv: "machine_inv n m W E" and few: "bounded m" and w: "w < n" and run: "run_frame w m = Inr m'"
  shows "\<exists>W' E'. machine_inv n m' W' E'"
proof -
  have hi: "heap_inv n (heap m) W E" and fi: "frames_inv n m E" using inv by (auto simp: machine_inv_def)
  obtain c fr where at: "frames_at m w = Inr (c, fr)" using run by (auto simp: run_frame_def res_simps)
  note cur = w frames_atD [OF at]
  obtain x rest where fr: "fr = x # rest" using run at by (cases fr) (auto simp: run_frame_def)
  have ok: "stack_ok n (heap m) (x # rest)" using frames_invD(2) [OF fi cur(3)] fr by (auto simp: ctx_ok_def)
  note go = run [unfolded run_frame_def at res_bind_Inr prod.case fr list.case]
  note cur' = cur(1,2) cur(3) [unfolded fr]
  show ?thesis
  proof (cases x)
    case (End_finish f tsk ws ph)
    then show ?thesis using end_finish_inv [OF inv few cur(1,2)] cur'(3) go by auto
  next
    case (Future_wait p fin tsk ws ph)
    then show ?thesis using future_wait_inv [OF inv cur(1,2)] cur'(3) go by auto
  next
    case (Wait_swapped p fin tsk)
    then have "m' = set_frames c rest (m\<lparr>heap := set_worker w fin tsk (heap m)\<rparr>)"
      using go by (auto simp: run_wait_swapped_def res_simps)
    then show ?thesis using returned_inv [OF inv cur'] Wait_swapped ok by auto
  next
    case (Yield loc fin tsk ph)
    then show ?thesis using yield_inv [OF inv cur(1,2)] cur'(3) go by auto
  next
    case (Yield_swapped fin tsk)
    then have "m' = set_frames c rest (m\<lparr>heap := set_worker w fin tsk (heap m)\<rparr>)" using go by (simp add: run_yield_swapped_def)
    then show ?thesis using returned_inv [OF inv cur'] Yield_swapped ok by auto
  next
    case (Help_wait p t c')
    then have "start_helper w c t c' (\<lambda>r st. spawn_handler w r None [Some p] True st) m = Inr m'"
      using go by (simp add: run_help_wait_def spawn_escaping_def)
    then show ?thesis by (rule start_helper_inv [OF inv few cur', rotated -1])
      (use Help_wait ok in \<open>auto simp: futures_ok_def loc_ok_def\<close>)
  next
    case (Yield_helper loc t c')
    then have "start_helper w c t c' (\<lambda>r st. spawn_handler w r loc [None] True st) m = Inr m'"
      using go by (simp add: run_yield_helper_def spawn_escaping_at_def)
    then show ?thesis by (rule start_helper_inv [OF inv few cur', rotated -1])
      (use Yield_helper ok in \<open>auto simp: futures_ok_def\<close>)
  next
    case (Work_loop ws ph)
    then show ?thesis using work_loop_inv [OF inv cur(1,2)] cur'(3) go by auto
  next
    case (Finalize fs)
    then have m': "m' = leave_ctx w c (hclib_signal_join m)" using go by (simp add: run_finalize_def)
    have "frames_inv n m' E"
      by (rule frames_leave [OF fi cur', where nxt = None and st' = "heap m"])
        (auto simp: Finalize m' leave_ctx_def hclib_signal_join_def)
    then show ?thesis using hi by (auto simp: machine_inv_def m' leave_ctx_def hclib_signal_join_def)
  qed (use go ok in auto)
qed

section \<open>The actions of user code keep the invariant\<close>

lemma body_finish:
  assumes inv: "machine_inv n m W E" and cur: "w < n" "curr_ctx m ! w = Some c" "ctxs m c = Some (Body t fs # rest)"
  shows "cur_finish (heap m) w = scope_of (heap m) t fs" "cur_finish (heap m) w = Some a \<Longrightarrow> finishes (heap m) a \<noteq> None"
    "body_ok (heap m) t fs" "t \<in> E" "t \<notin> set (held rest)"
proof -
  have hi: "heap_inv n (heap m) W E" and fi: "frames_inv n m E" using inv by (auto simp: machine_inv_def)
  have ok: "stack_ok n (heap m) (Body t fs # rest)" "t \<in> E" "t \<notin> set (held rest)"
    using frames_invD(2) [OF fi cur(3)] by (auto simp: ctx_ok_def)
  then show "body_ok (heap m) t fs" "t \<in> E" "t \<notin> set (held rest)" by simp_all
  show cf: "cur_finish (heap m) w = scope_of (heap m) t fs" by (rule frames_invD(7) [OF fi cur])
  show "finishes (heap m) a \<noteq> None" if "cur_finish (heap m) w = Some a"
  proof (cases fs)
    case (Cons f gs)
    then show ?thesis using that cf stack_scopes [OF ok(1), of a] by (auto simp: scope_of_def open_scope_def)
  next
    case Nil
    then have "t \<in> members (heap m) a"
      using that cf by (auto simp: scope_of_def view_def members_def split: option.splits)
    then show ?thesis using scope_invD(4) [OF heap_invD(2) [OF hi]] by blast
  qed
qed

text \<open>Actions that change the heap only.\<close>

lemma body_heap_inv:
  assumes inv: "machine_inv n m W E" and cur: "w < n" "curr_ctx m ! w = Some c" "ctxs m c = Some (Body t fs # rest)"
    and hp: "heap_inv n st' W' E" "\<And>s. s \<in> E \<Longrightarrow> view st' s = view (heap m) s"
      "\<And>s c b. view st' s = Some (Resume c, b) \<Longrightarrow> \<exists>b. view (heap m) s = Some (Resume c, b)"
      "\<And>f. map_option shape (finishes st' f) = map_option shape (finishes (heap m) f)"
      "\<And>p. promises (heap m) p \<noteq> None \<Longrightarrow> promises st' p \<noteq> None"
      "length (rt_pool st') = length (rt_pool (heap m))" "rt_workers st' = rt_workers (heap m)"
  shows "machine_inv n (m\<lparr>heap := st'\<rparr>) W' E"
proof -
  have "frames_inv n (m\<lparr>heap := st'\<rparr>) E"
    by (rule frames_heap [OF _ cur]) (use inv hp in \<open>auto simp: machine_inv_def\<close>)
  then show ?thesis using hp(1) by (simp add: machine_inv_def)
qed

lemma async_inv:
  assumes inv: "machine_inv n m W E" and cur: "w < n" "curr_ctx m ! w = Some c" "ctxs m c = Some (Body t fs # rest)"
    and few: "few_objects ((heap m)\<lparr>next_addr := next_addr (heap m) + 1\<rparr>)"
    and args: "futures_ok (heap m) futures" "loc_ok (heap m) loc" and x: "\<And>c. x \<noteq> Resume c"
    and run: "spawn_handler w (next_addr (heap m)) loc futures False (fst (alloc_task x nb (heap m))) = Inr st'"
  shows "\<exists>W'. machine_inv n (m\<lparr>heap := st'\<rparr>) W' E"
proof -
  have hi: "heap_inv n (heap m) W E" using inv by (simp add: machine_inv_def)
  obtain W' tk where W': "heap_inv n st' W' E" "fp tk = x"
      "evolves (put_task (next_addr (heap m)) tk ((heap m)\<lparr>next_addr := next_addr (heap m) + 1\<rparr>)) st'"
    using heap_inv_spawn [OF hi cur(1) few args _ run] body_finish(2) [OF inv cur] by blast
  note V = spawn_views [OF W'(3)]
  have "next_addr (heap m) \<notin> E" using place_fresh(2) [of n "heap m" W "{}" E] heap_invD(1) [OF hi] by (auto simp: sched_inv_def)
  then have v: "view st' s = view (heap m) s" if "s \<in> E" for s using that by (intro V(2)) auto
  have "machine_inv n (m\<lparr>heap := st'\<rparr>) W' E"
  proof (rule body_heap_inv [OF inv cur W'(1) v])
    fix s c b assume r: "view st' s = Some (Resume c, b)"
    then have "s \<noteq> next_addr (heap m)" using V(1) W'(2) x by auto
    then show "\<exists>b. view (heap m) s = Some (Resume c, b)" using r V(2) by auto
  qed (use V in auto)
  then show ?thesis by blast
qed

lemma async_spawn:
  "hclib_async w x futures loc st = spawn_handler w (next_addr st) loc futures False (fst (alloc_task x False st))"
  "hclib_async_nb w x loc st = spawn_handler w (next_addr st) loc [] False (fst (alloc_task x True st))"
  by (auto simp: hclib_async_def hclib_async_nb_def spawn_await_at_def spawn_at_def alloc_task_def)

lemma heap_inv_create:
  assumes inv: "heap_inv n st W E"
  shows "heap_inv n (fst (hclib_promise_create st)) W E"
proof -
  let ?st = "fst (hclib_promise_create st)"
  have st: "?st = put_promise (next_addr st) hclib_promise_init (st\<lparr>next_addr := next_addr st + 1\<rparr>)"
    by (simp add: hclib_promise_create_def)
  have fresh: "promises st (next_addr st) = None" using heap_invD(4) [OF inv, of "next_addr st"] by blast
  have scope: "scope_inv ?st (\<lambda>_. 0)"
  proof -
    have "scope_inv (st\<lparr>next_addr := next_addr st + 1\<rparr>) (\<lambda>_. 0)"
      using heap_invD(2) [OF inv] by (auto simp: scope_inv_def members_def children_def less_SucI)
    then show ?thesis by (rule scope_cong) (simp_all add: st)
  qed
  have dd: "deps_done ?st s" if "s \<in> E" for s
  proof (rule deps_done_cong [OF _ _ heap_invD(6) [OF inv that]])
    show "dep_closed ?st f" if "dep_closed st f" for f
      using that fresh by (auto simp: dep_closed_def st split: option.splits)
  qed (simp add: st)
  show ?thesis
    unfolding heap_inv_def
  proof (intro conjI ballI allI impI)
    show "sched_inv n ?st W {} E" by (rule promise_create_inv [OF heap_invD(1) [OF inv] fresh])
    show "search_inv n ?st" by (rule search_cong [OF heap_invD(3) [OF inv]]) (simp_all add: st)
    fix p assume "promises ?st p \<noteq> None"
    then show "p < next_addr ?st" using heap_invD(4) [OF inv, of p] by (cases "p = next_addr st") (auto simp: st)
  qed (use scope dd in auto)
qed

lemma create_inv:
  assumes inv: "machine_inv n m W E" and cur: "w < n" "curr_ctx m ! w = Some c" "ctxs m c = Some (Body t fs # rest)"
  shows "machine_inv n (m\<lparr>heap := fst (hclib_promise_create (heap m))\<rparr>) W E"
proof -
  let ?st = "fst (hclib_promise_create (heap m))"
  have st: "?st = put_promise (next_addr (heap m)) hclib_promise_init ((heap m)\<lparr>next_addr := next_addr (heap m) + 1\<rparr>)"
    by (simp add: hclib_promise_create_def)
  have "view ?st = view (heap m)" by (rule view_cong) (simp add: st)
  moreover have "heap_inv n ?st W E" using inv by (intro heap_inv_create) (simp add: machine_inv_def)
  ultimately show ?thesis by (intro body_heap_inv [OF inv cur]) (auto simp: st)
qed

lemma heap_inv_put:
  assumes inv: "heap_inv n st W E" and "w < n" "few_objects st" and run: "hclib_promise_put w (Some p) d st = Inr st'"
  shows "\<exists>W'. heap_inv n st' W' E \<and> evolves st st'"
proof -
  obtain W' where W': "sched_inv n st' W' {} E" "scope_inv st' (\<lambda>_. 0)" and ev: "evolves st st'"
    using put_returns [OF heap_invD(1,2) [OF inv] assms(2,3) run] by blast
  have "search_inv n st'" by (rule search_cong [OF heap_invD(3) [OF inv]]) (use ev in \<open>simp_all add: evolves_def\<close>)
  moreover have "p < next_addr st'" if "promises st' p \<noteq> None" for p
    using heap_invD(4) [OF inv, of p] ev that by (simp add: evolves_def)
  ultimately have "heap_inv n st' W' E" using W' evolves_done [OF ev] heap_invD(6) [OF inv] by (auto simp: heap_inv_def)
  then show ?thesis using ev by blast
qed

lemma body_evolves_inv:
  assumes inv: "machine_inv n m W E" and cur: "w < n" "curr_ctx m ! w = Some c" "ctxs m c = Some (Body t fs # rest)"
    and hp: "heap_inv n st' W' E" "evolves (heap m) st'"
  shows "machine_inv n (m\<lparr>heap := st'\<rparr>) W' E"
  by (rule body_heap_inv [OF inv cur hp(1)]) (use hp(2) evolves_view [OF hp(2)] in \<open>auto simp: evolves_def\<close>)

text \<open>Pushing a frame of the runtime on a body.\<close>

lemma push_inv:
  assumes inv: "machine_inv n m W E" and cur: "w < n" "curr_ctx m ! w = Some c" "ctxs m c = Some (Body t fs # rest)"
    and x: "stack_ok n (heap m) (x # Body t fs # rest)" "tasks_in x = []" "scopes_in x = []" "helper (x # Body t fs # rest) = None" "no_body [x]"
  shows "machine_inv n (set_frames c (x # Body t fs # rest) m) W E"
proof -
  have hi: "heap_inv n (heap m) W E" and fi: "frames_inv n m E" using inv by (auto simp: machine_inv_def)
  have "frames_inv n (set_frames c (x # Body t fs # rest) (m\<lparr>heap := heap m\<rparr>)) E"
    by (rule frames_retop [OF fi cur _ _ evolves_spares [OF evolves_refl refl] x(1)]) (use x in \<open>auto simp: no_body_def\<close>)
  then show ?thesis using hi by (simp add: machine_inv_def)
qed

lemma start_finish_action:
  assumes inv: "machine_inv n m W E" and few: "bounded m" and cur: "w < n" "curr_ctx m ! w = Some c" "ctxs m c = Some (Body t fs # rest)"
    and run: "hclib_start_finish w (heap m) = Inr st"
  shows "machine_inv n (set_frames c (Body t (next_addr (heap m) # fs) # rest) (m\<lparr>heap := st\<rparr>)) W E"
proof -
  have hi: "heap_inv n (heap m) W E" and fi: "frames_inv n m E" using inv by (auto simp: machine_inv_def)
  let ?f = "next_addr (heap m)" and ?fr = "Body t fs # rest"
  note B = body_finish [OF inv cur]
  obtain fin st1 where S: "sched_inv n st W {} E" "scope_inv st (\<lambda>_. 0)" "parent fin = cur_finish (heap m) w" "finish_dep fin = None"
      "evolves (put_finish ?f fin ((heap m)\<lparr>next_addr := ?f + 1\<rparr>)) st1" (is "evolves ?mid _")
      "promises st1 = promises (heap m)" "st = set_worker w (Some ?f) (cur_task (heap m) w) st1"
    using start_finish_inv [OF heap_invD(1,2) [OF hi] bounded_few(2) [OF few] B(2) run] by blast
  have fresh: "finishes (heap m) ?f = None"
    using scope_invD(1) [OF heap_invD(2) [OF hi], of ?f] by (cases "finishes (heap m) ?f") auto
  have v: "view st s = view (heap m) s" for s
  proof -
    have "view st s = view st1 s" by (simp add: S(7) view_def)
    also have "\<dots> = view ?mid s" by (rule evolves_view [OF S(5)])
    finally show ?thesis by (simp add: view_def)
  qed
  have shp: "map_option shape (finishes st g) = (if g = ?f then Some (cur_finish (heap m) w, None) else map_option shape (finishes (heap m) g))" for g
    using S(3-5) by (auto simp: S(7) evolves_def shape_def)
  have e: "rt_workers st1 = rt_workers (heap m)" "length (rt_pool st) = length (rt_pool (heap m))" "rt_paths st = rt_paths (heap m)"
      "next_addr st = ?f + 1" "promises st = promises (heap m)"
    using S(5,6) by (simp_all add: S(7) evolves_def)
  have cf: "cur_finish st u = (if u = w then Some ?f else cur_finish (heap m) u)" for u
    using heap_invD(5) [OF hi] cur(1) e(1) by (auto simp: S(7) set_worker_nth)
  have shp': "map_option shape (finishes st g) = map_option shape (finishes (heap m) g)" if "finishes (heap m) g \<noteq> None" for g
    using that fresh shp [of g] by auto
  have sp: "spares w ?fr E E (heap m) st" by (rule sparesI) (use v shp' cf e in auto)
  have ok: "stack_ok n (heap m) ?fr" "distinct (held ?fr)" "set (held ?fr) \<subseteq> E" "distinct (scopes ?fr)"
    using frames_invD(2) [OF fi cur(3)] by (auto simp: ctx_ok_def)
  have op: "finishes (heap m) g \<noteq> None" if "g \<in> set (scopes ?fr)" for g
    using stack_scopes [OF ok(1) that] by (auto simp: open_scope_def)
  have nf: "?f \<notin> set (scopes ?fr)" using op fresh by blast
  have "stack_ok n st ?fr" by (rule stack_cong [OF ok(1)]) (use v shp' op e in auto)
  moreover have "body_ok st t (?f # fs)"
  proof -
    obtain x b where xb: "view st t = Some (x, b)" "\<forall>c. x \<noteq> Resume c" "chain_ok st b fs"
      using calculation by (auto simp: body_ok_def split: option.splits)
    have "cur_finish (heap m) w = (case fs of [] \<Rightarrow> b | g # gs \<Rightarrow> Some g)"
      using B(1) xb(1) v by (simp add: scope_of_def split: list.split)
    then show ?thesis using xb shp [of ?f] by (simp add: body_ok_def)
  qed
  ultimately have rep: "replaces n E E (heap m) st ?fr (Body t (?f # fs) # rest)"
    using ok nf fresh by (auto simp: replaces_def)
  have "frames_inv n (set_frames c (Body t (?f # fs) # rest) (m\<lparr>heap := st\<rparr>)) E"
    by (rule frames_set [OF fi cur _ _ sp rep]) (use cf in \<open>auto simp: scope_of_def\<close>)
  moreover have "heap_inv n st W E"
  proof -
    have "map worker_state.truncate (rt_workers st) = map worker_state.truncate (rt_workers (heap m))"
      using same_sched_set_worker [of st1 w "Some ?f" "cur_task (heap m) w"] e(1) by (simp add: S(7) same_sched_def)
    then have "search_inv n st" by (rule search_cong [OF heap_invD(3) [OF hi] e(3,2)])
    moreover have "deps_done st s" if "s \<in> E" for s
    proof -
      have "deps_done ?mid s = deps_done (heap m) s" by (rule same_done) simp_all
      then have "deps_done st1 s" using evolves_done [OF S(5)] heap_invD(6) [OF hi that] by blast
      then show ?thesis using same_done [of st s st1] by (simp add: S(7))
    qed
    ultimately show ?thesis using S(1,2) e(4,5) heap_invD(4) [OF hi] unfolding heap_inv_def by (auto intro: less_SucI)
  qed
  ultimately show ?thesis by (simp add: machine_inv_def)
qed

lemma end_nonblocking_action:
  assumes inv: "machine_inv n m W E" and few: "few_objects (heap m)"
    and cur: "w < n" "curr_ctx m ! w = Some c" "ctxs m c = Some (Body t fs # rest)" and fs: "fs \<noteq> []"
    and run: "hclib_end_finish_nonblocking_helper w e (heap m) = Inr st"
  shows "\<exists>W'. machine_inv n (set_frames c (Body t (tl fs) # rest) (m\<lparr>heap := st\<rparr>)) W' E"
proof -
  have hi: "heap_inv n (heap m) W E" and fi: "frames_inv n m E" using inv by (auto simp: machine_inv_def)
  obtain f gs where f: "fs = f # gs" using fs by (cases fs) auto
  have ok: "stack_ok n (heap m) (Body t fs # rest)" using frames_invD(2) [OF fi cur(3)] by (auto simp: ctx_ok_def)
  have cur_f: "cur_finish (heap m) w = Some f" using body_finish(1) [OF inv cur] f by (simp add: scope_of_def)
  have "open_scope (heap m) f" by (rule stack_scopes [OF ok]) (simp add: f)
  then obtain fin where fin: "finishes (heap m) f = Some fin" "finish_dep fin = None" by (auto simp: open_scope_def)
  obtain W' st2 where W': "sched_inv n st W' {} E" "scope_inv st (\<lambda>_. 0)"
      "evolves (put_finish f (fin\<lparr>finish_dep := Some e\<rparr>) (heap m)) st2" (is "evolves ?mid _")
      "st = set_worker w (parent fin) (cur_task (heap m) w) st2"
    using end_nonblocking_inv [OF heap_invD(1,2) [OF hi] cur(1) few cur_f fin run] by blast
  have v: "view st s = view (heap m) s" for s
    using evolves_view [OF W'(3), of s] by (simp add: W'(4) view_def)
  have len: "length (rt_workers st2) = n" using heap_invD(5) [OF hi] W'(3) by (simp add: evolves_def)
  have cf: "cur_finish st u = (if u = w then parent fin else cur_finish (heap m) u)" for u
    using W'(3) len cur(1) by (auto simp: W'(4) set_worker_nth evolves_def)
  have "frames_inv n (set_frames c (drop_scope (Body t fs # rest)) (m\<lparr>heap := st\<rparr>)) E"
    by (rule close_frames [OF fi cur _ refl refl ok _ fin(1) v _ cf]) (use W'(3) in \<open>auto simp: f inner_scope_def W'(4) evolves_def\<close>)
  moreover have "heap_inv n st W' E"
  proof (rule heap_inv_evolved [OF hi W'(1,2)])
    have "dep_closed st = dep_closed st2" "dep_closed ?mid = dep_closed (heap m)" by (rule dep_cong, simp add: W'(4))+
    then show "dep_closed (heap m) g \<Longrightarrow> dep_closed st g" for g using W'(3) by (simp add: evolves_def)
  qed (use W'(3) in \<open>auto simp: W'(4) evolves_def set_worker_truncate\<close>)
  ultimately show ?thesis by (auto simp: machine_inv_def drop_scope_def)
qed

lemma return_inv:
  assumes inv: "machine_inv n m W E" and few: "few_objects (heap m)"
    and cur: "w < n" "curr_ctx m ! w = Some c" "ctxs m c = Some (Body t [] # rest)"
    and run: "return_task w c t d rest m = Inr m'"
  shows "\<exists>W'. machine_inv n m' W' (E - {t})"
proof -
  have hi: "heap_inv n (heap m) W E" and fi: "frames_inv n m E" using inv by (auto simp: machine_inv_def)
  note B = body_finish [OF inv cur]
  obtain tk st0 st where tk: "tasks (heap m) t = Some tk"
    and put: "(case fp tk of Future_caller p _ \<Rightarrow> hclib_promise_put w (Some p) (Some (User_data d)) (heap m) | _ \<Rightarrow> Inr (heap m)) = Inr st0"
    and fin: "execute_end w t st0 = Inr st" and m': "m' = set_frames c rest (m\<lparr>heap := st\<rparr>)"
    using run by (auto simp: return_task_def get_task_def res_simps)
  obtain W0 where W0: "heap_inv n st0 W0 E" "evolves (heap m) st0"
    using put heap_inv_put [OF hi cur(1) few] hi by (auto split: code.splits)
  have few0: "few_objects st0" using few W0(2) by (simp add: few_objects_def evolves_def)
  obtain W' st1 where W': "sched_inv n st W' {} (E - {t})" "scope_inv st (\<lambda>_. 0)" "evolves st0 st1" "st = st1\<lparr>tasks := (tasks st1)(t := None)\<rparr>"
    using execute_end_inv [OF heap_invD(1,2) [OF W0(1)] cur(1) few0 B(4) fin] by blast
  have ev: "evolves (heap m) st1" by (rule evolves_trans [OF W0(2) W'(3)])
  have v: "view st s = (if s = t then None else view (heap m) s)" for s
    using evolves_view [OF ev, of s] by (simp add: W'(4) view_def)
  have ok: "stack_ok n (heap m) (Body t [] # rest)" "distinct (held (Body t [] # rest))" "set (held (Body t [] # rest)) \<subseteq> E" "distinct (scopes (Body t [] # rest))"
    using frames_invD(2) [OF fi cur(3)] by (auto simp: ctx_ok_def)
  have shp: "map_option shape (finishes st g) = map_option shape (finishes (heap m) g)" for g using ev by (simp add: W'(4) evolves_def)
  have sp: "spares w (Body t [] # rest) E (E - {t}) (heap m) st"
    by (rule sparesI) (use v shp ev in \<open>auto simp: W'(4) evolves_def split: if_splits\<close>)
  have "stack_ok n st rest" by (rule stack_cong [of _ "heap m"]) (use ok v shp ev in \<open>auto simp: W'(4) evolves_def\<close>)
  then have rep: "replaces n E (E - {t}) (heap m) st (Body t [] # rest) rest" using ok by (auto simp: replaces_def)
  have nb: "no_body rest" using ok(1) by simp
  have nh: "helper rest = None" by (rule no_bodyD [OF nb])
  have "frames_inv n (set_frames c rest (m\<lparr>heap := st\<rparr>)) (E - {t})"
    by (rule frames_set [OF fi cur _ nh sp rep]) (use nb in \<open>auto simp: no_body_def\<close>)
  moreover have "heap_inv n st W' (E - {t})"
  proof -
    have "deps_done st s" if "s \<in> E - {t}" for s
    proof -
      have "deps_done st1 s" using evolves_done [OF ev] heap_invD(6) [OF hi] that by blast
      then show ?thesis using same_done [of st s st1] that by (simp add: W'(4))
    qed
    moreover have "search_inv n st"
      by (rule search_cong [OF heap_invD(3) [OF hi]]) (use ev in \<open>simp_all add: W'(4) evolves_def\<close>)
    moreover have "p < next_addr st" if "promises st p \<noteq> None" for p
      using heap_invD(4) [OF hi, of p] ev that by (simp add: W'(4) evolves_def)
    ultimately show ?thesis using W'(1,2) by (auto simp: heap_inv_def)
  qed
  ultimately show ?thesis by (auto simp: machine_inv_def m')
qed

text \<open>The actions.\<close>

lemma proper_loc: "(case l of None \<Rightarrow> True | Some l \<Rightarrow> l < length (rt_pool st)) = loc_ok st l"
  by (simp add: loc_ok_def)

lemma async_action:
  assumes inv: "machine_inv n m W E" and cur: "w < n" "curr_ctx m ! w = Some c" "ctxs m c = Some (Body t fs # rest)"
    and few: "few_objects ((heap m)\<lparr>next_addr := next_addr (heap m) + 1\<rparr>)"
    and args: "futures_ok (heap m) futures" "loc_ok (heap m) loc" and x: "\<And>c. x \<noteq> Resume c"
    and run: "on_heap m (hclib_async w x futures loc (heap m)) = Inr m'"
  shows "\<exists>W'. machine_inv n m' W' E"
proof -
  obtain st where st: "hclib_async w x futures loc (heap m) = Inr st" "m' = m\<lparr>heap := st\<rparr>"
    using run by (auto simp: on_heap_def res_simps)
  show ?thesis using async_inv [OF inv cur few args x] st by (auto simp: async_spawn)
qed

lemma async_future_action:
  assumes inv: "machine_inv n m W E" and few: "bounded m" and cur: "w < n" "curr_ctx m ! w = Some c" "ctxs m c = Some (Body t fs # rest)"
    and args: "futures_ok (heap m) futures" "loc_ok (heap m) loc"
    and run: "hclib_async_future w u futures loc (heap m) = Inr (st, p)"
  shows "\<exists>W'. machine_inv n (m\<lparr>heap := st\<rparr>) W' E"
proof -
  let ?m = "m\<lparr>heap := fst (hclib_promise_create (heap m))\<rparr>"
  have mi: "machine_inv n ?m W E" by (rule create_inv [OF inv cur])
  have r: "on_heap ?m (hclib_async w (Future_caller (next_addr (heap m)) u) futures loc (heap ?m)) = Inr (m\<lparr>heap := st\<rparr>)"
    using run by (auto simp: hclib_async_future_def hclib_promise_create_def on_heap_def res_simps)
  show ?thesis
    by (rule async_action [OF mi _ _ _ _ _ _ _ r])
      (use cur few args in \<open>auto simp: hclib_promise_create_def bounded_def few_objects_def futures_ok_def loc_ok_def cong: option.case_cong\<close>)
qed

lemma end_nonblocking_call:
  assumes inv: "machine_inv n m W E" and few: "bounded m" and cur: "w < n" "curr_ctx m ! w = Some c" "ctxs m c = Some (Body t fs # rest)"
    and fs: "fs \<noteq> []" and run: "hclib_end_finish_nonblocking w (heap m) = Inr (st, p)"
  shows "\<exists>W'. machine_inv n (set_frames c (Body t (tl fs) # rest) (m\<lparr>heap := st\<rparr>)) W' E"
proof -
  let ?m = "m\<lparr>heap := fst (hclib_promise_create (heap m))\<rparr>"
  have mi: "machine_inv n ?m W E" by (rule create_inv [OF inv cur])
  have r: "hclib_end_finish_nonblocking_helper w (next_addr (heap m)) (heap ?m) = Inr st"
    using run by (auto simp: hclib_end_finish_nonblocking_def hclib_promise_create_def res_simps)
  have "few_objects (heap ?m)" using few by (simp add: hclib_promise_create_def bounded_def few_objects_def)
  then show ?thesis using end_nonblocking_action [OF mi _ cur(1) _ _ fs r] cur by simp
qed

lemma end_finish_call:
  assumes inv: "machine_inv n m W E" and cur: "w < n" "curr_ctx m ! w = Some c" "ctxs m c = Some (Body t fs # rest)"
    and fs: "fs \<noteq> []" and run: "hclib_end_finish w c (Body t fs # rest) m = Inr m'"
  shows "machine_inv n m' W E"
proof -
  obtain f gs where f: "fs = f # gs" using fs by (cases fs) auto
  have "cur_finish (heap m) w = Some f" using body_finish(1) [OF inv cur] f by (simp add: scope_of_def)
  then have m': "m' = set_frames c (End_finish f (cur_task (heap m) w) w Check # Body t fs # rest) m"
    using run by (auto simp: hclib_end_finish_def res_simps)
  have ok: "stack_ok n (heap m) (Body t fs # rest)"
    using inv frames_invD(2) [of n m E c] cur(3) by (auto simp: machine_inv_def ctx_ok_def)
  show ?thesis unfolding m' by (rule push_inv [OF inv cur]) (use ok cur(1) f in \<open>auto simp: inner_scope_def no_body_def\<close>)
qed

lemma wait_calls:
  assumes inv: "machine_inv n m W E" and cur: "w < n" "curr_ctx m ! w = Some c" "ctxs m c = Some (Body t fs # rest)"
  shows "hclib_future_wait w c p (Body t fs # rest) m = Inr m' \<Longrightarrow> machine_inv n m' W E"
    and "hclib_yield w c loc (Body t fs # rest) m = Inr m' \<Longrightarrow> loc_ok (heap m) loc \<Longrightarrow> machine_inv n m' W E"
proof -
  have ok: "stack_ok n (heap m) (Body t fs # rest)"
    using inv frames_invD(2) [of n m E c] cur(3) by (auto simp: machine_inv_def ctx_ok_def)
  have ret: "returns_to (heap m) (cur_finish (heap m) w) (Body t fs # rest)"
    using body_finish(1) [OF inv cur] by (simp add: returns_to_def)
  let ?wait = "Future_wait p (cur_finish (heap m) w) (cur_task (heap m) w) w Check"
  have wait: "machine_inv n (set_frames c (?wait # Body t fs # rest) m) W E" if "promises (heap m) p \<noteq> None"
    by (rule push_inv [OF inv cur]) (use ok cur(1) ret that in \<open>auto simp: no_body_def\<close>)
  show "machine_inv n m' W E" if r: "hclib_future_wait w c p (Body t fs # rest) m = Inr m'"
    using r inv wait
    by (auto simp: hclib_future_wait_def hclib_future_is_satisfied_def get_promise_def res_simps split: if_splits)
  show "machine_inv n m' W E" if r: "hclib_yield w c loc (Body t fs # rest) m = Inr m'" and l: "loc_ok (heap m) loc"
  proof -
    have m': "m' = set_frames c (Yield loc (cur_finish (heap m) w) (cur_task (heap m) w) Pop # Body t fs # rest) m"
      using r by (simp add: hclib_yield_def)
    show ?thesis unfolding m' by (rule push_inv [OF inv cur]) (use ok ret l in \<open>auto simp: no_body_def\<close>)
  qed
qed

lemma user_action_inv:
  assumes inv: "machine_inv n m W E" and few: "bounded m" and cur: "w < n" "curr_ctx m ! w = Some c" "ctxs m c = Some (Body t fs # rest)"
    and ok: "proper m a fs" and run: "user_action w a c t fs rest m = Inr m'"
  shows "\<exists>W' E'. machine_inv n m' W' E'"
proof (cases a)
  case (Async u futures loc)
  then show ?thesis using async_action [OF inv cur bounded_few(2) [OF few], of futures loc "User u" m'] ok run
    by (auto simp: proper_def proper_loc user_action_def)
next
  case (Async_nb u loc)
  then obtain st where st: "hclib_async_nb w (User u) loc (heap m) = Inr st" "m' = m\<lparr>heap := st\<rparr>"
    using run by (auto simp: user_action_def on_heap_def res_simps)
  then show ?thesis using async_inv [OF inv cur bounded_few(2) [OF few], of "[]" loc "User u" True st] ok Async_nb
    by (auto simp: proper_def proper_loc async_spawn futures_ok_def)
next
  case (Async_future u futures loc)
  then obtain st p where "hclib_async_future w u futures loc (heap m) = Inr (st, p)" "m' = m\<lparr>heap := st\<rparr>"
    using run by (auto simp: user_action_def on_heap_def res_simps)
  then show ?thesis using async_future_action [OF inv few cur, of futures loc u st p] ok Async_future by (auto simp: proper_def proper_loc)
next
  case Promise_create
  then show ?thesis using create_inv [OF inv cur] run by (auto simp: user_action_def on_heap_def)
next
  case (Promise_put p d)
  then obtain st where st: "hclib_promise_put w (Some p) (Some (User_data d)) (heap m) = Inr st" "m' = m\<lparr>heap := st\<rparr>"
    using run by (auto simp: user_action_def on_heap_def res_simps)
  have "heap_inv n (heap m) W E" using inv by (simp add: machine_inv_def)
  then obtain W' where "heap_inv n st W' E" "evolves (heap m) st" using heap_inv_put [OF _ cur(1) bounded_few(1) [OF few] st(1)] by blast
  then show ?thesis using body_evolves_inv [OF inv cur] st(2) by blast
next
  case Start_finish
  then obtain st where "hclib_start_finish w (heap m) = Inr st" "m' = set_frames c (Body t (next_addr (heap m) # fs) # rest) (m\<lparr>heap := st\<rparr>)"
    using run by (auto simp: user_action_def on_heap_def res_simps Let_def)
  then show ?thesis using start_finish_action [OF inv few cur] by blast
next
  case End_finish_call
  then show ?thesis using end_finish_call [OF inv cur] ok run by (auto simp: proper_def user_action_def)
next
  case End_finish_nonblocking
  then obtain st p where "hclib_end_finish_nonblocking w (heap m) = Inr (st, p)" "m' = set_frames c (Body t (tl fs) # rest) (m\<lparr>heap := st\<rparr>)"
    using run by (auto simp: user_action_def on_heap_def res_simps Let_def)
  then show ?thesis using end_nonblocking_call [OF inv few cur, of st p] ok End_finish_nonblocking by (auto simp: proper_def)
next
  case (Return d)
  then show ?thesis using return_inv [OF inv bounded_few(1) [OF few] cur(1,2), of t rest d m'] cur(3) ok run by (auto simp: proper_def user_action_def)
next
  case (Future_wait_call p)
  then show ?thesis using wait_calls(1) [OF inv cur, of p m'] run by (auto simp: user_action_def)
next
  case (Yield_call loc)
  then show ?thesis using wait_calls(2) [OF inv cur, of loc m'] ok run by (auto simp: proper_def proper_loc user_action_def)
qed

section \<open>Every execution keeps the invariant\<close>

lemma step_inv:
  assumes "machine_step n m m'" "machine_inv n m W E" "bounded m"
  shows "\<exists>W' E'. machine_inv n m' W' E'"
  using assms(1)
proof (rule machine_stepE)
  show ?thesis if "w < n" "run_frame w m = Inr m'" for w by (rule run_frame_inv [OF assms(2,3) that])
  show ?thesis if "w < n" "frames_at m w = Inr (c, Body t fs # rest)" "proper m a fs" "user_action w a c t fs rest m = Inr m'"
    for w c t fs rest a
    using user_action_inv [OF assms(2,3) that(1) frames_atD [OF that(2)] that(3,4)] .
qed

lemma runs_inv: "runs n m m' \<Longrightarrow> machine_inv n m W E \<Longrightarrow> \<exists>W' E'. machine_inv n m' W' E'"
proof (induction rule: runs.induct)
  case (more m m' m'')
  then show ?case using step_inv by blast
qed blast

end
