(* ===== verification/Runtime_Properties.thy ===== *)
theory Runtime_Properties
  imports Runtime_Safety
begin

text \<open>
  What holds in every execution of the machine of \<^verbatim>\<open>Runtime_Machine\<close> from the launch on: the promises that the
  runtime makes to its users.
\<close>

section \<open>The launch\<close>

text \<open>The state that the initialisation leaves: no objects, empty deques, workers with their paths.\<close>

definition fresh_heap :: "nat \<Rightarrow> ('u, 'd, 'i) hrt \<Rightarrow> bool" where
  "fresh_heap n st \<longleftrightarrow> 0 < n \<and> (\<forall>a. tasks st a = None \<and> promises st a = None \<and> finishes st a = None) \<and>
     site_inv n st \<and> search_inv n st \<and> next_addr st + 3 \<le> 10 ^ 9 \<and>
     (\<forall>l < length (rt_pool st). \<forall>w < n. tasks_at (rt_pool st) l w = [] \<and> tail (deques (rt_pool st ! l) ! w) \<le> int (next_addr st)) \<and>
     cur_finish st 0 = None"

lemma fresh_heap_inv:
  assumes "fresh_heap n st"
  shows "heap_inv n st (\<lambda>_. []) {}"
proof -
  have none: "tasks st a = None" "promises st a = None" "finishes st a = None" for a using assms by (simp_all add: fresh_heap_def)
  have pool: "pool_tasks n (rt_pool st) = {#}" using assms by (simp add: pool_tasks_def fresh_heap_def)
  have "place_inv n st (\<lambda>_. []) {} {}"
    by (rule place_invI) (use assms none in \<open>auto simp: pool waiting_def fresh_heap_def\<close>)
  moreover have "prom_inv st (\<lambda>_. [])" by (rule prom_invI) (use none in auto)
  moreover have "scope_inv st (\<lambda>_. 0)" by (rule scope_invI) (use none in \<open>auto simp: members_def children_def\<close>)
  ultimately show ?thesis using assms none by (simp add: heap_inv_def sched_inv_def fresh_heap_def)
qed

text \<open>The root scope of worker 0, and the main task in it.\<close>

lemma launch_heap:
  assumes fresh: "fresh_heap n st" and s: "hclib_start_finish 0 st = Inr st1" and l: "hclib_get_closest_locale (rt_paths st1 ! 0) = Inr l"
    and a: "hclib_async 0 (User u) [] (Some l) st1 = Inr st2"
  shows "\<exists>W. heap_inv n st2 W {}" "map_option shape (finishes st2 (next_addr st)) = Some (None, None)"
    "view st2 t = Some (x, b) \<Longrightarrow> x = User u"
proof -
  note hi = fresh_heap_inv [OF fresh]
  have n: "0 < n" and cf: "cur_finish st 0 = None" using fresh by (auto simp: fresh_heap_def)
  let ?f = "next_addr st"
  obtain fin st1' where S: "sched_inv n st1 (\<lambda>_. []) {} {}" "scope_inv st1 (\<lambda>_. 0)" "parent fin = None" "finish_dep fin = None"
      "evolves (put_finish ?f fin (st\<lparr>next_addr := ?f + 1\<rparr>)) st1'" "promises st1' = promises st"
      "st1 = set_worker 0 (Some ?f) (cur_task st 0) st1'"
    using start_finish_inv [OF heap_invD(1,2) [OF hi] _ _ s] fresh cf by (auto simp: fresh_heap_def few_objects_def)
  have e: "rt_paths st1 = rt_paths st" "length (rt_pool st1) = length (rt_pool st)" "next_addr st1 = ?f + 1" "promises st1 = promises st"
      "rt_workers st1' = rt_workers st"
    using S(5,6) by (simp_all add: S(7) evolves_def)
  have tr: "map worker_state.truncate (rt_workers st1) = map worker_state.truncate (rt_workers st)"
    by (simp add: S(7) set_worker_truncate e(5))
  have hi1: "heap_inv n st1 (\<lambda>_. []) {}"
    using S(1,2) search_cong [OF heap_invD(3) [OF hi] e(1,2) tr] fresh by (simp add: heap_inv_def e(4) fresh_heap_def)
  have shp: "map_option shape (finishes st1 ?f) = Some (None, None)" using S(3-5) by (simp add: S(7) evolves_def shape_def)
  have cf1: "cur_finish st1 0 = Some ?f" using heap_invD(5) [OF hi] n e(5) by (simp add: S(7) set_worker_nth)
  have lok: "loc_ok st1 (Some l)"
  proof -
    have "pop_path (rt_paths st1 ! 0) \<noteq> []" "l = pop_path (rt_paths st1 ! 0) ! 0"
      using l by (auto simp: hclib_get_closest_locale_def arr_get_def split: if_splits)
    then have "l \<in> set (pop_path (rt_paths st1 ! 0))" by simp
    moreover have "set (pop_path (rt_paths st1 ! 0)) \<subseteq> {..<length (rt_pool st1)}"
      using heap_invD(3) [OF hi1] n by (simp add: search_inv_def path_ok_def)
    ultimately show ?thesis by (auto simp: loc_ok_def)
  qed
  have few: "few_objects (st1\<lparr>next_addr := next_addr st1 + 1\<rparr>)" using fresh by (simp add: few_objects_def e(3) fresh_heap_def)
  have fin: "finishes st1 f \<noteq> None" if "cur_finish st1 0 = Some f" for f using that cf1 shp by auto
  obtain W tk where W: "heap_inv n st2 W {}" "fp tk = User u"
      "evolves (put_task (next_addr st1) tk (st1\<lparr>next_addr := next_addr st1 + 1\<rparr>)) st2"
    using heap_inv_spawn [OF hi1 n few _ lok fin, of "[]" False "User u" False st2] a by (auto simp: async_spawn futures_ok_def)
  then show "\<exists>W. heap_inv n st2 W {}" by blast
  show "map_option shape (finishes st2 ?f) = Some (None, None)" using W(3) shp by (simp add: evolves_def)
  show "x = User u" if "view st2 t = Some (x, b)"
  proof -
    have "view st1 t = None" using evolves_view [OF S(5), of t] fresh by (simp add: S(7) view_def fresh_heap_def)
    then show ?thesis using that spawn_views [OF W(3)] W(2) by (cases "t = next_addr st1") auto
  qed
qed

lemma launch_inv:
  assumes fresh: "fresh_heap n st" and run: "hclib_launch n u st = Inr m"
  shows "\<exists>W. machine_inv n m W {}"
proof -
  obtain st1 l st2 where s: "hclib_start_finish 0 st = Inr st1" "hclib_get_closest_locale (rt_paths st1 ! 0) = Inr l"
      "hclib_async 0 (User u) [] (Some l) st1 = Inr st2"
    and meq: "m = \<lparr>heap = st2,
        ctxs = (\<lambda>c. if c = 0 then Some [End_finish (next_addr st) (cur_task st2 0) 0 Check, Finalize [next_addr st]]
          else if c < n then Some [Work_loop c Pop] else None),
        curr_ctx = map Some [0..<n], next_ctx = n, done_flags = replicate n True\<rparr>"
    using run by (auto simp: hclib_launch_def res_simps)
  have m: "heap m = st2" "ctxs m = (\<lambda>c. if c = 0 then Some [End_finish (next_addr st) (cur_task st2 0) 0 Check, Finalize [next_addr st]]
        else if c < n then Some [Work_loop c Pop] else None)" "curr_ctx m = map Some [0..<n]" "next_ctx m = n"
    by (simp_all add: meq)
  note L = launch_heap [OF fresh s]
  have n: "0 < n" using fresh by (simp add: fresh_heap_def)
  have fr: "fr = [End_finish (next_addr st) (cur_task st2 0) 0 Check, Finalize [next_addr st]] \<and> c = 0 \<or> fr = [Work_loop c Pop] \<and> c < n \<and> c \<noteq> 0"
    if "ctxs m c = Some fr" for c fr using that by (auto simp: m(2) split: if_splits)
  have own: "x = Worker c \<and> c < n" if "claims n m {} x c" for x c
  proof (cases x)
    case (Helper c')
    then show ?thesis using that fr by fastforce
  qed (use that L(3) in \<open>auto simp: m(1,3)\<close>)
  have "frames_inv n m {}"
  proof (rule frames_invI)
    show "ctx_ok n m {} c fr" if "ctxs m c = Some fr" for c fr
      using fr [OF that] n L(2) by (auto simp: ctx_ok_def m(1,4) inner_scope_def)
    show "\<exists>fr. ctxs m c = Some fr \<and> (suspended fr \<or> (\<exists>w. x = Worker w))" if "claims n m {} x c" for x c
      using own [OF that] by (auto simp: m(2))
    show "set (held fr) \<inter> set (held fr') = {} \<and> set (scopes fr) \<inter> set (scopes fr') = {}"
      if "c \<noteq> c'" "ctxs m c = Some fr" "ctxs m c' = Some fr'" for c c' fr fr'
      using that(1) fr [OF that(2)] fr [OF that(3)] by auto
    show "x = y" if "claims n m {} x c" "claims n m {} y c" for x y c using own that by blast
  qed (use fr in \<open>fastforce simp: n_workers_def m(3)\<close>)+
  then show ?thesis using L(1) by (auto simp: machine_inv_def m(1))
qed

definition reached :: "nat \<Rightarrow> ('u, 'd, 'i) machine \<Rightarrow> bool" where
  "reached n m \<longleftrightarrow> (\<exists>st u m0. fresh_heap n st \<and> hclib_launch n u st = Inr m0 \<and> runs n m0 m)"

lemma reached_inv:
  assumes "reached n m"
  obtains W E where "machine_inv n m W E"
proof -
  obtain st u m0 where st: "fresh_heap n st" "hclib_launch n u st = Inr m0" "runs n m0 m" using assms unfolding reached_def by blast
  obtain W where "machine_inv n m0 W {}" using launch_inv [OF st(1,2)] by blast
  then show thesis using runs_inv [OF st(3)] that by blast
qed

section \<open>Concrete executions\<close>

text \<open>A scheduler that is told which worker takes the next step, and what its body does.\<close>

datatype ('u, 'd) choice = Run nat | Act nat "('u, 'd) action"

definition take_step :: "nat \<Rightarrow> ('u, 'd) choice \<Rightarrow> ('u, 'd, 'i) machine \<Rightarrow> ('u, 'd, 'i) machine result" where
  "take_step n ch m =
     (case ch of
        Run w \<Rightarrow> if w < n then run_frame w m else Inl Out_of_bounds
      | Act w a \<Rightarrow>
          if w < n then
            (case frames_at m w of
               Inr (c, Body t fs # rest) \<Rightarrow> if proper m a fs then user_action w a c t fs rest m else Inl Assert_failed
             | _ \<Rightarrow> Inl Assert_failed)
          else Inl Out_of_bounds)"

fun trace :: "nat \<Rightarrow> ('u, 'd) choice list \<Rightarrow> ('u, 'd, 'i) machine \<Rightarrow> ('u, 'd, 'i) machine result" where
  "trace n [] m = Inr m"
| "trace n (ch # chs) m = (if bounded m then res_bind (take_step n ch m) (trace n chs) else Inl Assert_failed)"

lemma take_step_sound: "take_step n ch m = Inr m' \<Longrightarrow> machine_step n m m'"
  by (cases ch) (auto simp: take_step_def intro: machine_step.intros split: if_splits sum.splits list.splits frame.splits)

lemma runs_trans: "runs n m' m'' \<Longrightarrow> runs n m m' \<Longrightarrow> runs n m m''"
  by (induction rule: runs.induct) (auto intro: runs.more)

lemma trace_sound: "trace n chs m = Inr m' \<Longrightarrow> runs n m m'"
proof (induction chs arbitrary: m)
  case (Cons ch chs)
  then obtain m1 where m1: "bounded m" "take_step n ch m = Inr m1" "trace n chs m1 = Inr m'" by (auto simp: res_simps split: if_splits)
  then have "runs n m m1" using runs.more [OF runs.start] take_step_sound by blast
  then show ?case using runs_trans Cons.IH [OF m1(3)] by blast
qed (simp add: runs.start)

lemma traced_reached: "fresh_heap n st \<Longrightarrow> hclib_launch n u st = Inr m0 \<Longrightarrow> trace n chs m0 = Inr m \<Longrightarrow> reached n m"
  using trace_sound unfolding reached_def by blast

lemma futures_ok_code [code]:
  "futures_ok st fs \<longleftrightarrow> (\<forall>f \<in> set fs. case f of None \<Rightarrow> True | Some p \<Rightarrow> promises st p \<noteq> None) \<and>
     (fs \<noteq> [] \<and> hd fs = None \<longrightarrow> set fs \<subseteq> {None})"
  by (force simp: futures_ok_def split: option.splits)

lemma bounded_code [code]: "bounded m \<longleftrightarrow> int (next_addr (heap m)) + 2 \<le> 1000000000"
  by (simp add: bounded_def)

text \<open>One worker with one locale.\<close>

definition idle_heap :: "('u, 'd, nat) hrt" where
  "idle_heap = \<lparr>tasks = (\<lambda>_. None), promises = (\<lambda>_. None), finishes = (\<lambda>_. None), next_addr = 0,
     rt_pool = [\<lparr>loc_id = 0, loc_type = 0, lbl = ''sysmem'', special_type = None, metadata = None, idle_funcs = [],
       reachable = Some True, deques = [new_deque]\<rparr>],
     rt_paths = [\<lparr>pop_path = [0], steal_path = [0], last_successful_steal_locale = 0\<rparr>],
     rt_workers = [\<lparr>ws_id = 0, ws_nworkers = 1, base_intra_socket_workers = 0, limit_intra_socket_workers = 0,
       current_finish = None, curr_task = None\<rparr>]\<rparr>"

lemma idle_heap_fresh: "fresh_heap 1 idle_heap"
  by (auto simp: fresh_heap_def site_inv_def search_inv_def path_ok_def socket_ok_def idle_heap_def pool_wf_def tasks_at_def
      deque_wf_new worker_state.truncate_def) (simp add: new_deque_def)

definition launched :: "(nat, nat) choice list \<Rightarrow> (nat, nat, nat) machine result" where
  "launched chs = res_bind (hclib_launch 1 0 idle_heap) (trace 1 chs)"

lemma launched_reached: "launched chs = Inr m \<Longrightarrow> reached 1 m"
  using traced_reached [OF idle_heap_fresh] by (auto simp: launched_def res_simps)

section \<open>Finish scopes\<close>

text \<open>The scopes that were opened inside \<open>f\<close>, directly or not, and have not ended; what keeps \<open>f\<close> from ending.\<close>

inductive nested :: "('c, 'd, 'i) rt \<Rightarrow> nat \<Rightarrow> nat \<Rightarrow> bool" for st f where
  self: "nested st f f"
| inner: "nested st f g \<Longrightarrow> h \<in> children st g \<Longrightarrow> nested st f h"

definition busy :: "('c, 'd, 'i) rt \<Rightarrow> nat \<Rightarrow> bool" where
  "busy st f \<longleftrightarrow> (\<exists>g. nested st f g \<and> (g \<noteq> f \<or> (\<exists>t tk. tasks st t = Some tk \<and> t_finish tk = Some g)))"

lemma children_later: "scope_inv st \<delta> \<Longrightarrow> g \<in> children st f \<Longrightarrow> f < g"
  using scope_invD(2) [of st \<delta> g] by (auto simp: children_def)

lemma busy_iff:
  assumes "scope_inv st \<delta>"
  shows "busy st f \<longleftrightarrow> members st f \<union> children st f \<noteq> {}"
proof
  assume "busy st f"
  then obtain g where g: "nested st f g" "g \<noteq> f \<or> members st g \<noteq> {}" by (auto simp: busy_def members_def)
  have "g = f" if "children st f = {}" using g(1) that by (induction rule: nested.induct) auto
  then show "members st f \<union> children st f \<noteq> {}" using g(2) by blast
next
  assume "members st f \<union> children st f \<noteq> {}"
  then consider t where "t \<in> members st f" | g where "g \<in> children st f" by blast
  then show "busy st f"
  proof cases
    case 1
    then show ?thesis using nested.self [of st f] by (auto simp: busy_def members_def)
  next
    case 2
    then have "nested st f g" "g \<noteq> f" using nested.inner [OF nested.self 2] children_later [OF assms 2] by auto
    then show ?thesis by (auto simp: busy_def)
  qed
qed

text \<open>The scope outside the innermost one of a stack is kept from ending by a task or by its own body.\<close>

lemma outer_scope_held:
  assumes sc: "scope_inv st (\<lambda>_. 0)" and ok: "stack_ok n st rest" "inner_scope rest = Some f" "distinct (scopes rest)"
    and f: "finishes st f = Some fin" "parent fin = Some g"
  shows "\<exists>out. finishes st g = Some out \<and> counter out > 1 \<and> f \<in> children st g"
proof -
  have fdep: "finish_dep fin = None" using stack_scopes [OF ok(1), of f] ok(2) f(1)
    by (auto simp: inner_scope_def open_scope_def split: list.splits frame.splits)
  then have ch: "f \<in> children st g" using f by (simp add: children_def)
  then obtain out where out: "finishes st g = Some out" using scope_invD(5) [OF sc] by blast
  have c: "0 < card (children st g)" using ch members_bound(3) [OF sc, of g] by (auto simp: card_gt_0_iff)
  have "finish_dep out = None \<or> members st g \<noteq> {}"
    using ok(2,1,3)
  proof (cases rule: inner_scopeE)
    case (1 t fs r)
    then obtain x b where b: "view st t = Some (x, b)" "chain_ok st b (f # fs)" using ok(1) by (auto simp: body_ok_def split: option.splits)
    then have p: "parent fin = (case fs of [] \<Rightarrow> b | h # hs \<Rightarrow> Some h)" using f(1) by (simp add: shape_def)
    show ?thesis
    proof (cases fs)
      case Nil
      then have "t \<in> members st g" using b(1) p f(2) by (auto simp: view_def members_def)
      then show ?thesis by blast
    next
      case (Cons h hs)
      then have "map_option finish_dep (finishes st h) = Some None" using chain_open b(2) by fastforce
      then show ?thesis using p f(2) Cons out by simp
    qed
  next
    case (2 fs)
    then have ch2: "chain_ok st None (f # fs)" using ok(1) by simp
    then have "parent fin = (case fs of [] \<Rightarrow> None | h # hs \<Rightarrow> Some h)" using f(1) by (simp add: shape_def)
    then obtain hs where "fs = g # hs" using f(2) by (cases fs) auto
    then show ?thesis using chain_open [OF ch2, of g] out by simp
  qed
  then have "finish_dep out = None \<or> 0 < card (members st g)" using members_bound(1) [OF sc, of g] by (auto simp: card_gt_0_iff)
  then have "counter out > 1" using scope_invD(3) [OF sc out] c by auto
  then show ?thesis using out ch by blast
qed

text \<open>
  C1: whenever \<^verbatim>\<open>hclib_end_finish\<close> checks its scope, on any worker of any execution, it goes on waiting if and
  only if a task of the scope or of a scope opened inside it is alive, or such an inner scope has
  not ended. Otherwise it returns: it checks the scope out of its parent, makes the parent the
  current finish again and frees the scope. It does not abort in either case.
\<close>

theorem end_finish_waits_for_all:
  assumes "reached n m" "w < n" "frames_at m w = Inr (c, End_finish f tsk ws Check # rest)"
  shows "\<exists>fin m'. finishes (heap m) f = Some fin \<and> run_frame w m = Inr m' \<and>
     (if busy (heap m) f then m' = set_frames c (End_finish f tsk ws Pop # rest) m
      else ctxs m' c = Some (drop_scope rest) \<and> finishes (heap m') f = None \<and> cur_finish (heap m') w = parent fin)"
proof -
  obtain W E where inv: "machine_inv n m W E" using reached_inv [OF assms(1)] .
  then have hi: "heap_inv n (heap m) W E" and fi: "frames_inv n m E" by (auto simp: machine_inv_def)
  note cur = frames_atD [OF assms(3)] and sc = heap_invD(2) [OF hi]
  have ok: "inner_scope rest = Some f" "stack_ok n (heap m) rest" "distinct (scopes rest)"
    using frames_invD(2) [OF fi cur(2)] by (auto simp: ctx_ok_def)
  have "open_scope (heap m) f" using stack_scopes [OF ok(2), of f] ok(1) by (auto simp: inner_scope_def split: list.splits frame.splits)
  then obtain fin where fin: "finishes (heap m) f = Some fin" "finish_dep fin = None" by (auto simp: open_scope_def)
  have cnt: "counter fin = 1 + int (card (members (heap m) f)) + int (card (children (heap m) f))"
    using scope_invD(3) [OF sc fin(1)] fin(2) by simp
  have run: "run_frame w m = run_end_finish w c f tsk ws Check rest m" using assms(3) by (simp add: run_frame_def)
  have "counter fin > 1 \<longleftrightarrow> busy (heap m) f"
    unfolding busy_iff [OF sc] cnt using card_gt_0_iff [of "members (heap m) f"] card_gt_0_iff [of "children (heap m) f"]
      members_bound(1,3) [OF sc, of f] by auto
  then show ?thesis
  proof (cases "busy (heap m) f")
    case True
    then show ?thesis using \<open>_ \<longleftrightarrow> _\<close> fin run by (simp add: run_end_finish_def get_finish_def)
  next
    case False
    then have one: "counter fin = 1" using \<open>_ \<longleftrightarrow> _\<close> cnt by simp
    have w: "w < length (rt_workers (heap m))" using heap_invD(5) [OF hi] assms(2) by simp
    show ?thesis
    proof (cases "parent fin")
      case None
      then show ?thesis using False fin one run w
        by (simp add: run_end_finish_def get_finish_def leave_finish_def check_out_finish_def set_frames_def set_worker_nth Let_def)
    next
      case (Some g)
      obtain out where out: "finishes (heap m) g = Some out" "counter out > 1" "f \<in> children (heap m) g"
        using outer_scope_held [OF sc ok(2,1,3) fin(1) Some] by blast
      have "g \<noteq> f" using children_later [OF sc out(3)] by simp
      then show ?thesis using False fin one run w Some out(1,2)
        by (simp add: run_end_finish_def get_finish_def leave_finish_def check_out_finish_def set_frames_def set_worker_nth Let_def)
    qed
  qed
qed

lemma launched_obtain:
  assumes "case launched chs of Inr m \<Rightarrow> P m | Inl e \<Rightarrow> False"
  obtains m where "launched chs = Inr m" "reached 1 m" "P m"
  using assms launched_reached by (auto split: sum.splits)

text \<open>The main task returns at once, and the root scope ends.\<close>

theorem end_finish_waits_for_all_witness:
  "\<exists>(m :: (nat, nat, nat) machine) m'. reached 1 m \<and> frames_at m 0 = Inr (0, End_finish 0 None 0 Check # [Finalize [0]]) \<and> run_frame 0 m = Inr m' \<and>
     (busy (heap m) 0 \<and> ctxs m' 0 = Some (End_finish 0 None 0 Pop # [Finalize [0]]) \<or>
      \<not> busy (heap m) 0 \<and> ctxs m' 0 = Some [Finalize []] \<and> finishes (heap m') 0 = None)"
proof -
  have "case launched [Run 0, Run 0, Act 0 (Return 0)] of
      Inr m \<Rightarrow> frames_at m 0 = Inr (0, End_finish 0 None 0 Check # [Finalize [0]]) | Inl e \<Rightarrow> False" by code_simp
  then obtain m :: "(nat, nat, nat) machine" where m: "reached 1 m" "frames_at m 0 = Inr (0, End_finish 0 None 0 Check # [Finalize [0]])" by (rule launched_obtain) blast
  then show ?thesis using end_finish_waits_for_all [OF m(1) _ m(2)] by (cases "busy (heap m) 0") (auto simp: drop_scope_def set_frames_def)
qed

section \<open>Tasks and contexts\<close>

text \<open>
  C2: a task runs only when all the futures it waits for are satisfied, and it runs once: in every
  state of every execution, the body of a task is active in one context only, at one place of its
  stack, while the task is in no deque and on no wait list of a promise.
\<close>

theorem task_runs_once:
  assumes "reached n m" "ctxs m c = Some fr" "Body t fs \<in> set fr"
  shows "deps_done (heap m) t \<and> t \<notin># pool_tasks n (rt_pool (heap m)) \<and> distinct (held fr) \<and>
     (\<forall>c' fr' fs'. ctxs m c' = Some fr' \<and> Body t fs' \<in> set fr' \<longrightarrow> c' = c)"
proof -
  obtain W E where inv: "machine_inv n m W E" using reached_inv [OF assms(1)] .
  then have hi: "heap_inv n (heap m) W E" and fi: "frames_inv n m E" by (auto simp: machine_inv_def)
  have held: "t \<in> set (held fr')" if "Body t fs' \<in> set fr'" for fr' fs' using that by (force simp: held_def)
  have ok: "distinct (held fr)" "t \<in> E" using frames_invD(2) [OF fi assms(2)] held [OF assms(3)] by (auto simp: ctx_ok_def)
  have "t \<notin># pool_tasks n (rt_pool (heap m))"
    using heap_invD(1) [OF hi] ok(2) by (auto simp: sched_inv_def place_inv_def)
  moreover have "c' = c" if "ctxs m c' = Some fr'" "Body t fs' \<in> set fr'" for c' fr' fs'
    using frames_invD(3) [OF fi _ that(1) assms(2)] held [OF that(2)] held [OF assms(3)] by blast
  ultimately show ?thesis using heap_invD(6) [OF hi ok(2)] ok(1) by blast
qed

theorem task_runs_once_witness:
  "\<exists>(m :: (nat, nat, nat) machine) fr. reached 1 m \<and> ctxs m 0 = Some fr \<and> Body 1 [] \<in> set fr \<and> deps_done (heap m) 1"
proof -
  have "case launched [Run 0, Run 0] of
      Inr m \<Rightarrow> ctxs m 0 = Some [Body 1 [], End_finish 0 None 0 Check, Finalize [0]] | Inl e \<Rightarrow> False" by code_simp
  then obtain m :: "(nat, nat, nat) machine" where m: "reached 1 m" "ctxs m 0 = Some [Body 1 [], End_finish 0 None 0 Check, Finalize [0]]" by (rule launched_obtain) blast
  then show ?thesis using task_runs_once [OF m, of 1 "[]"] by auto
qed

text \<open>
  C5: contexts are not shared and not used after they are destroyed. The context that a worker runs
  exists, no other worker runs it, and no task that waits in a deque resumes it; a task in a deque that
  resumes a context resumes one that exists and is suspended, and is the only one to resume it.
\<close>

theorem contexts_not_shared:
  assumes "reached n m"
  shows "(w < n \<and> curr_ctx m ! w = Some c \<longrightarrow>
      ctxs m c \<noteq> None \<and> (\<forall>v < n. curr_ctx m ! v = Some c \<longrightarrow> v = w) \<and>
      (\<forall>t b. t \<in># pool_tasks n (rt_pool (heap m)) \<longrightarrow> view (heap m) t \<noteq> Some (Resume c, b))) \<and>
    (t \<in># pool_tasks n (rt_pool (heap m)) \<and> view (heap m) t = Some (Resume c, b) \<longrightarrow>
      (\<exists>fr. ctxs m c = Some fr \<and> suspended fr) \<and>
      (\<forall>t' b'. t' \<in># pool_tasks n (rt_pool (heap m)) \<and> view (heap m) t' = Some (Resume c, b') \<longrightarrow> t' = t))"
proof -
  obtain W E where inv: "machine_inv n m W E" using reached_inv [OF assms(1)] .
  then have hi: "heap_inv n (heap m) W E" and fi: "frames_inv n m E" by (auto simp: machine_inv_def)
  note D = frames_invD [OF fi]
  have claim: "claims n m E (Task t) c" if "t \<in># pool_tasks n (rt_pool (heap m))" "view (heap m) t = Some (Resume c, b)" for t b
    using that heap_invD(1) [OF hi] by (auto simp: sched_inv_def place_inv_def)
  have "t' = t" if "t \<in># pool_tasks n (rt_pool (heap m))" "view (heap m) t = Some (Resume c, b)"
    "t' \<in># pool_tasks n (rt_pool (heap m))" "view (heap m) t' = Some (Resume c, b')" for t t' b b'
    using D(5) [OF claim [OF that(1,2)] claim [OF that(3,4)]] by simp
  moreover have "\<exists>fr. ctxs m c = Some fr \<and> suspended fr"
    if "t \<in># pool_tasks n (rt_pool (heap m))" "view (heap m) t = Some (Resume c, b)" for t b
    using D(6) [OF claim [OF that]] by simp
  moreover have "ctxs m c \<noteq> None \<and> (\<forall>v < n. curr_ctx m ! v = Some c \<longrightarrow> v = w) \<and>
      (\<forall>t b. t \<in># pool_tasks n (rt_pool (heap m)) \<longrightarrow> view (heap m) t \<noteq> Some (Resume c, b))" if "w < n" "curr_ctx m ! w = Some c"
  proof -
    have mine: "claims n m E (Worker w) c" using that by simp
    have "v = w" if "v < n" "curr_ctx m ! v = Some c" for v using D(5) [OF mine, of "Worker v"] that by simp
    moreover have "view (heap m) t \<noteq> Some (Resume c, b)" if "t \<in># pool_tasks n (rt_pool (heap m))" for t b
      using D(5) [OF mine claim [OF that]] by blast
    ultimately show ?thesis using D(6) [OF mine] by auto
  qed
  ultimately show ?thesis by blast
qed

text \<open>
  An execution with one worker. The main task 1 opens a scope with task 5, which waits for the future 2.
  The wait leaves context 0 behind and starts task 3 on a new context; task 3 opens a scope with task 8,
  puts the promise, and ends its scope: the task that resumes context 0 is on top of the deque.
\<close>

definition blocked_in_scope :: "(nat, nat) choice list" where
  "blocked_in_scope =
     [Run 0, Run 0, Act 0 Promise_create, Act 0 (Async 1 [] None), Act 0 Start_finish, Act 0 (Async 2 [] None), Act 0 End_finish_call,
      Run 0, Run 0, Act 0 (Future_wait_call 2), Run 0, Run 0, Run 0,
      Act 0 Start_finish, Act 0 (Async 3 [] None), Act 0 (Promise_put 2 9), Act 0 End_finish_call, Run 0]"

theorem contexts_not_shared_witness:
  "\<exists>m :: (nat, nat, nat) machine. reached 1 m \<and> curr_ctx m ! 0 = Some 1 \<and> ctxs m 1 \<noteq> None \<and> view (heap m) 6 = Some (Resume 0, None) \<and>
     6 \<in># pool_tasks 1 (rt_pool (heap m)) \<and> (\<exists>fr. ctxs m 0 = Some fr \<and> suspended fr)"
proof -
  have "case launched blocked_in_scope of Inr m \<Rightarrow>
      (curr_ctx m ! 0 = Some 1 \<and> view (heap m) 6 = Some (Resume 0, None)) \<and>
      tasks_at (rt_pool (heap m)) 0 0 = [8, 6] \<and> length (rt_pool (heap m)) = 1 | Inl e \<Rightarrow> False" by code_simp
  then obtain m :: "(nat, nat, nat) machine" where m: "reached 1 m" "curr_ctx m ! 0 = Some 1" "view (heap m) 6 = Some (Resume 0, None)"
      "tasks_at (rt_pool (heap m)) 0 0 = [8, 6]" "length (rt_pool (heap m)) = 1" by (rule launched_obtain) blast
  then have "6 \<in># pool_tasks 1 (rt_pool (heap m))" by (simp add: pool_tasks_def)
  then show ?thesis
    using contexts_not_shared [OF m(1), of 0 1 6 None] contexts_not_shared [OF m(1), of 0 0 6 None] m by auto
qed

section \<open>A lost finish scope\<close>

text \<open>With no task in any deque, an attempt to steal changes nothing.\<close>

lemma steal_idle:
  assumes "search_inv n st" "pool_wf n (rt_pool st)" "w < n" and none: "\<And>l v. l < length (rt_pool st) \<Longrightarrow> v < n \<Longrightarrow> tasks_at (rt_pool st) l v = []"
  shows "steal_step w st = Inr (st, Try_steal)"
proof -
  let ?ws = "worker_state.truncate (rt_workers st ! w)" and ?paths = "rt_paths st ! w"
  let ?is = "[0..int (length (steal_path ?paths)) - 1]"
  have p: "set (steal_path ?paths) \<subseteq> {..<length (rt_pool st)}" "steal_path ?paths \<noteq> []"
      "0 \<le> last_successful_steal_locale ?paths" "socket_ok n ?ws" "w < length (rt_paths st)"
    using assms(1,3) by (auto simp: search_inv_def path_ok_def)
  have "find (nonempty_at ?paths (rt_pool st)) (scan ?ws ?paths ?is) = None"
    unfolding find_None_iff
  proof
    assume "\<exists>x. x \<in> set (scan ?ws ?paths ?is) \<and> nonempty_at ?paths (rt_pool st) x"
    then obtain k v where kv: "(k, v) \<in> set (scan ?ws ?paths ?is)" "nonempty_at ?paths (rt_pool st) (k, v)" by auto
    then have k: "0 \<le> k" "k < int (length (steal_path ?paths))" "0 \<le> v" "v < int n" using scan_covers [OF p(4,2,3)] by auto
    then have "steal_path ?paths ! nat k \<in> set (steal_path ?paths)" by (intro nth_mem) linarith
    then have "steal_path ?paths ! nat k < length (rt_pool st)" using p(1) by auto
    then have "tasks_at (rt_pool st) (steal_path ?paths ! nat k) (nat v) = []" using k by (intro none) auto
    then show False using kv(2) by (simp add: nonempty_at_def)
  qed
  then have "locale_steal_task ?ws ?paths (rt_pool st) = Inr (rt_pool st, ?paths, None)"
    using steal_along_first [OF assms(2) p(1,4,3) _ p(2), of ?is] by (simp add: locale_steal_task_def)
  then show ?thesis using p(5) by (simp add: steal_step_def)
qed

lemma end_finish_spins:
  assumes inv: "machine_inv 1 m W E" and at: "frames_at m 0 = Inr (c, End_finish f tsk 0 Steal # rest)"
    and fin: "finishes (heap m) f = Some fin" "counter fin \<noteq> 1"
    and none: "\<And>l. l < length (rt_pool (heap m)) \<Longrightarrow> tasks_at (rt_pool (heap m)) l 0 = []"
  shows "{m'. runs 1 m m'} = {m}"
proof -
  have hi: "heap_inv 1 (heap m) W E" using inv by (simp add: machine_inv_def)
  have "pool_wf 1 (rt_pool (heap m))" using heap_invD(1) [OF hi] by (simp add: sched_inv_def site_inv_def)
  then have "steal_step 0 (heap m) = Inr (heap m, Try_steal)" using heap_invD(3) [OF hi] none by (intro steal_idle) auto
  then have "run_frame 0 m = Inr (set_frames c (End_finish f tsk 0 Steal # rest) m)"
    using at fin by (simp add: run_frame_def run_end_finish_def get_finish_def search_round_def find_step_def)
  then have stay: "run_frame 0 m = Inr m" using frames_same [OF frames_atD(2) [OF at]] by simp
  have "m' = m" if "runs 1 m m'" for m'
    using that stay at
  proof (induction rule: runs.induct)
    case (more m1 m2 m3)
    then show ?case by (auto elim!: machine_stepE)
  qed simp
  then show ?thesis using runs.start by auto
qed

text \<open>
  C18: \<^verbatim>\<open>help_finish\<close> can lose a finish scope. In this execution the worker that ends the scope of task 3 takes,
  from its own deque, the task that resumes context 0, and so leaves its context, which is then
  destroyed although it holds the unfinished \<^verbatim>\<open>hclib_end_finish\<close>. All other tasks return, but task 3
  never can: the worker ends in the loop of the root scope, and from there the only execution is to
  stay there.
\<close>

theorem help_finish_loses_scope:
  "\<exists>m :: (nat, nat, nat) machine. reached 1 m \<and> ctxs m 0 = Some [End_finish 0 None 0 Steal, Finalize [0]] \<and> ctxs m 1 = None \<and> next_ctx m = 2 \<and>
     tasks (heap m) 3 \<noteq> None \<and> done_flags m = [True] \<and> {m'. runs 1 m m'} = {m}"
proof -
  have "case launched (blocked_in_scope @ [Run 0, Run 0, Act 0 (Return 0), Run 0, Act 0 (Return 0), Run 0, Run 0, Act 0 (Return 0),
        Run 0, Run 0, Run 0]) of Inr m \<Rightarrow>
      ((ctxs m 0 = Some [End_finish 0 None 0 Steal, Finalize [0]] \<and> ctxs m 1 = None) \<and> next_ctx m = 2 \<and> curr_ctx m = [Some 0]) \<and>
      (\<not> Option.is_none (tasks (heap m) 3) \<and> done_flags m = [True] \<and> map_option counter (finishes (heap m) 0) = Some 3) \<and>
      tasks_at (rt_pool (heap m)) 0 0 = [] \<and> length (rt_pool (heap m)) = 1 | Inl e \<Rightarrow> False" by code_simp
  then obtain m :: "(nat, nat, nat) machine" where m: "reached 1 m"
      "ctxs m 0 = Some [End_finish 0 None 0 Steal, Finalize [0]]" "ctxs m 1 = None" "next_ctx m = 2" "curr_ctx m = [Some 0]"
      "\<not> Option.is_none (tasks (heap m) 3)" "done_flags m = [True]" "map_option counter (finishes (heap m) 0) = Some 3"
      "tasks_at (rt_pool (heap m)) 0 0 = []" "length (rt_pool (heap m)) = 1"
    by (rule launched_obtain) blast
  obtain W E where inv: "machine_inv 1 m W E" using reached_inv [OF m(1)] .
  have at: "frames_at m 0 = Inr (0, [End_finish 0 None 0 Steal, Finalize [0]])" using m(2,5) by (simp add: frames_at_def)
  obtain fin where fin: "finishes (heap m) 0 = Some fin" "counter fin \<noteq> 1" using m(8) by auto
  have "{m'. runs 1 m m'} = {m}" by (rule end_finish_spins [OF inv at fin]) (use m(9,10) in auto)
  then show ?thesis using m(1-4,6,7) by (auto simp: Option.is_none_def)
qed

text \<open>
  The branch of \<^verbatim>\<open>help_finish\<close> that swaps the context and waits for a promise of the scope is
  dead: it calls \<^verbatim>\<open>find_and_run_task\<close> as if its context were fresh, so that every task it finds runs at once,
  and no context is ever in \<^verbatim>\<open>_help_finish_ctx\<close> or waits in \<^verbatim>\<open>help_finish\<close> for such a promise.
\<close>

lemma help_finish_never_swaps:
  assumes "reached n m" "ctxs m c = Some fr"
  shows "Finish_swapped f tsk p \<notin> set fr \<and> Help_finish f t c' \<notin> set fr"
proof -
  obtain W E where inv: "machine_inv n m W E" using reached_inv [OF assms(1)] .
  then have "stack_ok n (heap m) fr" using frames_invD(2) [of n m E c fr] assms(2) by (auto simp: machine_inv_def ctx_ok_def)
  then show ?thesis by (induction n "heap m" fr rule: stack_ok.induct) auto
qed

end
