(* ===== verification/Worker_Setup.thy ===== *)
theory Worker_Setup
  imports Runtime_Properties Locality_Queries
begin

text \<open>
  The start of the runtime in \<^verbatim>\<open>src/src/hclib-runtime.c\<close>: \<^verbatim>\<open>hclib_global_init\<close>, which builds the state of the
  workers from the locality graph, and \<^verbatim>\<open>create_hwloc_cpusets\<close>, which distributes the processing
  units over the workers and finds the workers that share a NUMA node. The bitmaps of the library
  hwloc are lists of indices here; which NUMA nodes a set of processing units has is an
  argument.
\<close>

section \<open>The state of the workers\<close>

definition new_worker :: "nat \<Rightarrow> nat \<Rightarrow> rt_worker" where
  "new_worker nworkers i =
     \<lparr>ws_id = int i, ws_nworkers = int nworkers, base_intra_socket_workers = 0, limit_intra_socket_workers = 0,
      current_finish = None, curr_task = None\<rparr>"

text \<open>
  \<open>path\<close> is the content of the file that \<^verbatim>\<open>HCLIB_LOCALITY_FILE\<close> names, if that variable is set, and
  \<open>env\<close> the variable \<^verbatim>\<open>HCLIB_WORKERS\<close>.
\<close>

definition hclib_global_init ::
  "'f locality_state \<Rightarrow> ('f \<Rightarrow> nat) \<Rightarrow> ('f \<Rightarrow> (nat, 'i) hclib_locale \<Rightarrow> (nat, 'i) hclib_locale) \<Rightarrow>
   string option option \<Rightarrow> string option \<Rightarrow> int \<Rightarrow> ('c, 'd, 'i) rt result" where
  "hclib_global_init st sizef popf path env ncores =
     res_bind (case path of Some file \<Rightarrow> load_locality_info st sizef popf file env
               | None \<Rightarrow> generate_locality_info st sizef popf env ncores) (\<lambda>(nworkers, graph, paths).
     res_bind (check_locality_graph graph paths) (\<lambda>g.
     Inr \<lparr>tasks = (\<lambda>_. None), promises = (\<lambda>_. None), finishes = (\<lambda>_. None), next_addr = 0,
          rt_pool = g_locales g, rt_paths = paths, rt_workers = map (new_worker (nat nworkers)) [0..<nat nworkers]\<rparr>))"

section \<open>Processing units\<close>

datatype hclib_affinity = HCLIB_AFFINITY_STRIDED | HCLIB_AFFINITY_CHUNKED

definition selected_affinity :: "string option \<Rightarrow> hclib_affinity result" where
  "selected_affinity env =
     (case env of
        None \<Rightarrow> Inr HCLIB_AFFINITY_STRIDED
      | Some s \<Rightarrow>
          if s = ''strided'' then Inr HCLIB_AFFINITY_STRIDED
          else if s = ''chunked'' then Inr HCLIB_AFFINITY_CHUNKED
          else Inl (Exit_code 1))"

text \<open>The loop over the indices of the set of the process; \<open>f\<close> is the worker of the \<open>n\<close>-th unit.\<close>

fun assign_pus :: "(nat \<Rightarrow> nat) \<Rightarrow> (nat \<Rightarrow> bool) \<Rightarrow> nat \<Rightarrow> nat list \<Rightarrow> nat list list \<Rightarrow> nat list list result" where
  "assign_pus f isset n [] sets = Inr sets"
| "assign_pus f isset n (index # is) sets =
     (if isset index then
        res_bind (arr_get sets (int (f n))) (\<lambda>s. assign_pus f isset (n + 1) is (sets[f n := s @ [index]]))
      else assign_pus f isset n is sets)"

definition thread_cpusets ::
  "hclib_affinity \<Rightarrow> (nat \<Rightarrow> bool) \<Rightarrow> nat \<Rightarrow> nat \<Rightarrow> nat \<Rightarrow> nat list list result" where
  "thread_cpusets aff isset available last_index nworkers =
     (case aff of
        HCLIB_AFFINITY_STRIDED \<Rightarrow>
          if available < nworkers then Inl (Exit_code 1)
          else assign_pus (\<lambda>n. n mod nworkers) isset 0 [0..<Suc last_index] (replicate nworkers [])
      | HCLIB_AFFINITY_CHUNKED \<Rightarrow>
          let chunk_size = (available + nworkers - 1) div nworkers in
          assign_pus (\<lambda>n. n div chunk_size) isset 0 [0..<Suc last_index] (replicate nworkers []))"

section \<open>Workers that share a NUMA node\<close>

text \<open>
  The inner loop over the workers \<open>j\<close>: \<open>share j\<close> says that \<open>j\<close> has a node in common with the worker of
  the outer loop. The last component is \<^verbatim>\<open>revert_to_naive_stealing\<close>.
\<close>

fun find_range :: "(nat \<Rightarrow> bool) \<Rightarrow> nat list \<Rightarrow> int \<Rightarrow> int \<Rightarrow> int \<times> int \<times> bool" where
  "find_range share [] base limit = (base, limit, False)"
| "find_range share (j # js) base limit =
     (if base < 0 then find_range share js (if share j then int j else base) limit
      else if limit < 0 then find_range share js base (if \<not> share j then int j else limit)
      else if share j then (base, limit, True)
      else find_range share js base limit)"

definition shares :: "(nat list \<Rightarrow> nat list) \<Rightarrow> nat list list \<Rightarrow> nat \<Rightarrow> nat \<Rightarrow> bool" where
  "shares nodes sets i j = list_ex (\<lambda>x. x \<in> set (nodes (sets ! i))) (nodes (sets ! j))"

fun socket_ranges :: "(nat list \<Rightarrow> nat list) \<Rightarrow> nat list list \<Rightarrow> nat \<Rightarrow> nat list \<Rightarrow> bool \<Rightarrow> (int \<times> int) list result" where
  "socket_ranges nodes sets n [] naive = Inr []"
| "socket_ranges nodes sets n (i # is) naive =
     (case find_range (shares nodes sets i) [0..<n] (- 1) (- 1) of (base, limit, r) \<Rightarrow>
      if naive \<or> r then res_bind (socket_ranges nodes sets n is True) (\<lambda>rs. Inr ((0, int n) # rs))
      else res_bind (c_assert (base \<ge> 0)) (\<lambda>_.
           res_bind (socket_ranges nodes sets n is False) (\<lambda>rs.
           Inr ((base, if limit < 0 then int n else limit) # rs))))"

definition set_socket :: "rt_worker \<Rightarrow> int \<times> int \<Rightarrow> rt_worker" where
  "set_socket ws r = ws\<lparr>base_intra_socket_workers := fst r, limit_intra_socket_workers := snd r\<rparr>"

definition create_hwloc_cpusets ::
  "(nat list \<Rightarrow> nat list) \<Rightarrow> (nat \<Rightarrow> bool) \<Rightarrow> nat \<Rightarrow> nat \<Rightarrow> string option \<Rightarrow> ('c, 'd, 'i) rt \<Rightarrow> ('c, 'd, 'i) rt result" where
  "create_hwloc_cpusets nodes isset available last_index env st =
     (let n = length (rt_workers st) in
      res_bind (selected_affinity env) (\<lambda>aff.
      res_bind (thread_cpusets aff isset available last_index n) (\<lambda>sets.
      res_bind (socket_ranges nodes sets n [0..<n] False) (\<lambda>rs.
      Inr (st\<lparr>rt_workers := map2 set_socket (rt_workers st) rs\<rparr>)))))"

section \<open>The initial state is fresh\<close>

lemma load_locales_deques:
  "load_locales st sizef popf k toks i json nw acc = Inr ls \<Longrightarrow> populates popf \<Longrightarrow>
   \<forall>l \<in> set acc. deques l = replicate (nat nw) new_deque \<Longrightarrow> \<forall>l \<in> set ls. deques l = replicate (nat nw) new_deque"
proof (induction k arbitrary: i acc)
  case (Suc k)
  from Suc.prems(1) obtain l loc where init: "initialize_locale st sizef popf (int (length acc)) l nw = Inr loc"
    and rest: "load_locales st sizef popf k toks (i + 1) json nw (acc @ [loc]) = Inr ls"
    by (auto simp: res_simps)
  show ?case using Suc.IH [OF rest Suc.prems(2)] initialize_locale_fields [OF init Suc.prems(2)] Suc.prems(3) by auto
qed simp

lemma generate_locales_deques:
  "generate_locales st sizef popf k i nw (g, wps) = Inr (g', wps') \<Longrightarrow> populates popf \<Longrightarrow>
   \<forall>l \<in> set (g_locales g). deques l = replicate nw new_deque \<Longrightarrow>
   (\<forall>l \<in> set (g_locales g'). deques l = replicate nw new_deque) \<and> length (g_locales g') = length (g_locales g) + k \<and>
   length wps' = length wps + k"
proof (induction k arbitrary: i g wps)
  case (Suc k)
  let ?g = "\<lambda>loc. \<lparr>g_locales = g_locales g @ [loc], g_edges = (g_edges g)[i * (nw + 1) + 0 := Some 1, 0 * (nw + 1) + i := Some 1]\<rparr>"
  from Suc.prems(1) obtain loc where init: "initialize_locale st sizef popf (int i) (''L1'' @ decimal (i - 1)) (int nw) = Inr loc"
    and rest: "generate_locales st sizef popf k (i + 1) nw
        (?g loc, wps @ [\<lparr>pop_path = [i, 0], steal_path = [i, 0], last_successful_steal_locale = 0\<rparr>]) = Inr (g', wps')"
    by (auto simp: res_simps Let_def)
  show ?case using Suc.IH [OF rest Suc.prems(2)] initialize_locale_fields [OF init Suc.prems(2)] Suc.prems(3) by auto
qed simp

lemma init_paths:
  assumes "(case path of Some file \<Rightarrow> load_locality_info st sizef popf file env
      | None \<Rightarrow> generate_locality_info st sizef popf env ncores) = Inr (nworkers, g, wps)" "populates popf"
  shows "worker_paths_wf (length (g_locales g)) wps \<and> int (length wps) = nworkers \<and>
     (\<forall>l \<in> set (g_locales g). deques l = replicate (length wps) new_deque)"
proof (cases path)
  case (Some json_file)
  then obtain json toks where load: "load_from_tokens st sizef popf json toks env = Inr (nworkers, g, wps)"
    using assms(1) by (auto simp: load_locality_info_def res_simps split: option.splits prod.splits)
  obtain k where "load_locales st sizef popf k toks 5 json nworkers [] = Inr (g_locales g)"
    using load by (auto simp: load_from_tokens_def res_simps Let_def)
  then have "\<forall>l \<in> set (g_locales g). deques l = replicate (nat nworkers) new_deque" by (rule load_locales_deques [OF _ assms(2)]) simp
  then show ?thesis using load_from_tokens_wf [OF load assms(2)] by auto
next
  case None
  define nw where "nw = nat nworkers"
  from None obtain sysmem where nw: "nworkers = int nw"
    and sys: "initialize_locale st sizef popf 0 ''sysmem'' nworkers = Inr sysmem"
    and gen: "generate_locales st sizef popf nw 1 nw (\<lparr>g_locales = [sysmem], g_edges = replicate ((nw + 1) * (nw + 1)) None\<rparr>, []) = Inr (g, wps)"
    using assms(1) by (auto simp: generate_locality_info_def res_simps Let_def nw_def)
  have d: "deques sysmem = replicate nw new_deque" "loc_id sysmem = 0" using initialize_locale_fields [OF sys assms(2)] nw by auto
  have D: "(\<forall>l \<in> set (g_locales g). deques l = replicate nw new_deque) \<and> length (g_locales g) = 1 + nw \<and> length wps = nw"
    using generate_locales_deques [OF gen assms(2)] d(1) by simp
  have "wps = map (\<lambda>j. \<lparr>pop_path = [j, 0], steal_path = [j, 0], last_successful_steal_locale = 0\<rparr>) [1..<nw + 1]"
    using generate_locales_wf [OF gen assms(2)] d(2) by simp
  then have "worker_paths_wf (1 + nw) wps" by (auto simp: worker_paths_wf_def)
  then show ?thesis using D nw by simp
qed

lemma global_init_fresh:
  assumes run: "hclib_global_init st sizef popf path env ncores = Inr rt" and pop: "populates popf" and n: "rt_workers rt \<noteq> []"
  shows "fresh_heap (length (rt_workers rt)) rt"
    "l \<in> set (pop_path (rt_paths rt ! 0)) \<Longrightarrow> l < length (rt_pool rt) \<and> reachable (rt_pool rt ! l) = Some True"
    "pop_path (rt_paths rt ! 0) \<noteq> []"
proof -
  obtain nworkers g wps g' where src: "(case path of Some file \<Rightarrow> load_locality_info st sizef popf file env
      | None \<Rightarrow> generate_locality_info st sizef popf env ncores) = Inr (nworkers, g, wps)"
    and chk: "check_locality_graph g wps = Inr g'"
    and rt: "rt = \<lparr>tasks = (\<lambda>_. None), promises = (\<lambda>_. None), finishes = (\<lambda>_. None), next_addr = 0,
          rt_pool = g_locales g', rt_paths = wps, rt_workers = map (new_worker (nat nworkers)) [0..<nat nworkers]\<rparr>"
    using run by (auto simp: hclib_global_init_def res_simps)
  have P: "worker_paths_wf (length (g_locales g)) wps" "nworkers = int (length wps)" "\<forall>l \<in> set (g_locales g). deques l = replicate (length wps) new_deque"
    using init_paths [OF src pop] by auto
  have G: "length (g_locales g') = length (g_locales g)"
      "i < length (g_locales g) \<Longrightarrow> g_locales g' ! i = (g_locales g ! i)\<lparr>reachable := Some (on_path wps i)\<rparr>" for i
    using check_locality_graph_marks [OF P(1), of g] chk by auto
  let ?n = "length wps"
  have n0: "0 < ?n" and nw: "nat nworkers = ?n" using n P(2) rt by auto
  have path: "pop_path w \<noteq> []" "steal_path w \<noteq> []" "set (pop_path w) \<union> set (steal_path w) \<subseteq> {..<length (g_locales g)}"
      "last_successful_steal_locale w = 0" if "w \<in> set wps" for w
    using that P(1) by (auto simp: worker_paths_wf_def)
  have w0: "wps ! 0 \<in> set wps" using n0 by simp
  have ne: "g_locales g' \<noteq> []" using path(1,3) [OF w0] G(1) by (cases "pop_path (wps ! 0)") auto
  have dq: "deques (g_locales g' ! l) = replicate ?n new_deque" if "l < length (g_locales g)" for l
    using that G(2) [OF that] P(3) nth_mem [OF that] by simp
  have "site_inv ?n rt"
    using ne dq G nw by (auto simp: site_inv_def rt pool_wf_def new_worker_def deque_wf_new)
  moreover have "search_inv ?n rt"
    using path G(1) nw by (auto simp: search_inv_def rt path_ok_def socket_ok_def new_worker_def worker_state.truncate_def)
  ultimately show "fresh_heap (length (rt_workers rt)) rt"
    using n0 dq G(1) nw unfolding fresh_heap_def
    by (auto simp: rt new_worker_def tasks_at_def deque_wf_new) (simp add: new_deque_def)
  show "pop_path (rt_paths rt ! 0) \<noteq> []" using path(1) [OF w0] by (simp add: rt)
  show "l < length (rt_pool rt) \<and> reachable (rt_pool rt ! l) = Some True" if "l \<in> set (pop_path (rt_paths rt ! 0))"
  proof -
    have "l < length (g_locales g)" "on_path wps l" using that path(3) [OF w0] w0 by (auto simp: rt on_path_def)
    then show ?thesis using G by (simp add: rt)
  qed
qed

lemma launch_succeeds:
  assumes fresh: "fresh_heap n st" and l: "hclib_get_closest_locale (rt_paths st ! 0) = Inr l" "l < length (rt_pool st)" "reachable (rt_pool st ! l) = Some True"
  shows "\<exists>m. hclib_launch n u st = Inr m"
proof -
  let ?f = "next_addr st"
  let ?ws = "worker_state.truncate ((rt_workers st)[0 := (rt_workers st ! 0)\<lparr>current_finish := Some ?f, curr_task := cur_task st 0\<rparr>] ! 0)"
  have n: "0 < n" "0 < length (rt_workers st)" "pool_wf n (rt_pool st)" "ws_id ?ws = 0" "cur_finish st 0 = None"
    using fresh by (auto simp: fresh_heap_def site_inv_def worker_state.truncate_def)
  have "tail (deques (rt_pool st ! l) ! 0) \<le> int (next_addr st)" "next_addr st \<le> 999999997" "tasks_at (rt_pool st) l 0 = []"
    using fresh l(2) n(1) by (simp_all add: fresh_heap_def)
  then have q: "tasks_at (rt_pool st) l 0 = []" "tail (deques (rt_pool st ! l) ! 0) < MAX_INT" by (simp_all add: MAX_INT_def)
  obtain ls where push: "deque_push_locale ?ws (rt_pool st) l (Suc ?f) = Inr (ls, True)"
    using push_locale_cases [OF n(3) l(2) _ n(1) q(2), of ?ws "Suc ?f"] n(4) l(3) q(1) by (auto simp: INIT_DEQUE_CAPACITY_def)
  show ?thesis
    using l(1) n(2,5) push
    by (simp add: hclib_launch_def hclib_start_finish_def check_in_finish_def async_spawn spawn_handler_def alloc_task_def new_task_def
        set_worker_def put_finish_def put_task_def get_finish_def get_task_def set_futures_def try_schedule_async_def
        is_eligible_to_schedule_def rt_schedule_async_def Let_def arr_get_def)
qed

section \<open>The distribution of the processing units\<close>

fun picked :: "(nat \<Rightarrow> nat) \<Rightarrow> nat \<Rightarrow> nat \<Rightarrow> nat list \<Rightarrow> nat list" where
  "picked f w n [] = []"
| "picked f w n (u # us) = (if f n = w then [u] else []) @ picked f w (n + 1) us"

lemma picked_set: "u \<in> set (picked f w n us) \<longleftrightarrow> (\<exists>k < length us. us ! k = u \<and> f (n + k) = w)"
proof (induction us arbitrary: n)
  case (Cons a us)
  show ?case by (auto simp: Cons.IH Ex_less_Suc2 nth_Cons')
qed simp

lemma assign_pus_eq:
  "(\<And>k. n \<le> k \<Longrightarrow> k < n + length (filter isset is) \<Longrightarrow> f k < length sets) \<Longrightarrow>
   assign_pus f isset n is sets = Inr (map (\<lambda>w. sets ! w @ picked f w n (filter isset is)) [0..<length sets])"
proof (induction "is" arbitrary: n sets)
  case Nil
  then show ?case by (simp add: map_nth)
next
  case (Cons i "is")
  show ?case
  proof (cases "isset i")
    case True
    have "f n < length sets" using Cons.prems [of n] True by simp
    moreover have "f k < length sets" if "n + 1 \<le> k" "k < n + 1 + length (filter isset is)" for k
      using Cons.prems [of k] that True by simp
    ultimately show ?thesis using True Cons.IH [of "n + 1" "sets[f n := sets ! f n @ [i]]"] by (auto simp: nth_upd_if)
  next
    case False
    then show ?thesis using Cons by simp
  qed
qed

lemma find_range_inv:
  assumes "k \<le> n"
    and "base < 0 \<and> limit < 0 \<and> (\<forall>j < k. \<not> share j) \<or>
      0 \<le> base \<and> base < int k \<and> limit < 0 \<and> (\<forall>j < k. share j \<longleftrightarrow> base \<le> int j) \<or>
      0 \<le> base \<and> base < limit \<and> limit < int k \<and> (\<forall>j < k. share j \<longleftrightarrow> base \<le> int j \<and> int j < limit)"
    and "find_range share [k..<n] base limit = (b, l, r)"
  shows "r \<or> b < 0 \<and> (\<forall>j < n. \<not> share j) \<or>
    0 \<le> b \<and> b < int n \<and> (l < 0 \<or> b < l \<and> l < int n) \<and> (\<forall>j < n. share j \<longleftrightarrow> b \<le> int j \<and> (l < 0 \<or> int j < l))"
  using assms
proof (induction "n - k" arbitrary: k base limit)
  case 0
  then have "k = n" by simp
  then show ?case using 0 by auto
next
  case (Suc d)
  then have up: "[k..<n] = k # [Suc k..<n]" "d = n - Suc k" "Suc k \<le> n" by (auto simp: upt_rec)
  note IH = Suc.hyps(1) [OF up(2,3)]
  from Suc.prems(2) show ?case
  proof (elim disjE)
    assume a: "base < 0 \<and> limit < 0 \<and> (\<forall>j < k. \<not> share j)"
    then show ?thesis using Suc.prems(3) up(1) by (intro IH [of "if share k then int k else base" limit]) (auto simp: less_Suc_eq)
  next
    assume a: "0 \<le> base \<and> base < int k \<and> limit < 0 \<and> (\<forall>j < k. share j \<longleftrightarrow> base \<le> int j)"
    then show ?thesis using Suc.prems(3) up(1) by (intro IH [of base "if \<not> share k then int k else limit"]) (auto simp: less_Suc_eq)
  next
    assume a: "0 \<le> base \<and> base < limit \<and> limit < int k \<and> (\<forall>j < k. share j \<longleftrightarrow> base \<le> int j \<and> int j < limit)"
    show ?thesis
    proof (cases "share k")
      case True
      then show ?thesis using Suc.prems(3) up(1) a by auto
    next
      case False
      then show ?thesis using Suc.prems(3) up(1) a by (intro IH [of base limit]) (auto simp: less_Suc_eq)
    qed
  qed
qed

lemma socket_ranges_ok:
  assumes self: "\<And>i. i \<in> set is \<Longrightarrow> i < n \<and> shares nodes sets i i"
  shows "\<exists>rs. socket_ranges nodes sets n is naive = Inr rs \<and> length rs = length is \<and>
     (\<forall>k < length is. 0 \<le> fst (rs ! k) \<and> fst (rs ! k) \<le> int (is ! k) \<and> int (is ! k) < snd (rs ! k) \<and> snd (rs ! k) \<le> int n)"
  using self
proof (induction "is" arbitrary: naive)
  case (Cons i "is")
  obtain b l r where fr: "find_range (shares nodes sets i) [0..<n] (- 1) (- 1) = (b, l, r)" by (cases "find_range (shares nodes sets i) [0..<n] (- 1) (- 1)")
  have i: "i < n" "shares nodes sets i i" using Cons.prems by auto
  have R: "r \<or> 0 \<le> b \<and> b < int n \<and> (l < 0 \<or> b < l \<and> l < int n) \<and> b \<le> int i \<and> (l < 0 \<or> int i < l)"
    using find_range_inv [OF _ _ fr] i by auto
  obtain rs where rs: "socket_ranges nodes sets n is (naive \<or> r) = Inr rs" "length rs = length is"
      "\<forall>k < length is. 0 \<le> fst (rs ! k) \<and> fst (rs ! k) \<le> int (is ! k) \<and> int (is ! k) < snd (rs ! k) \<and> snd (rs ! k) \<le> int n"
    using Cons.IH [of "naive \<or> r"] Cons.prems by auto
  show ?case
  proof (cases "naive \<or> r")
    case True
    then have "socket_ranges nodes sets n (i # is) naive = Inr ((0, int n) # rs)" using fr rs(1) by simp
    then show ?thesis using rs(2,3) i(1) by (auto simp: nth_Cons')
  next
    case False
    then have "socket_ranges nodes sets n (i # is) naive = Inr ((b, if l < 0 then int n else l) # rs)" using fr rs(1) R by simp
    then show ?thesis using rs(2,3) i(1) R False by (auto simp: nth_Cons')
  qed
qed simp

lemma cpusets_eq:
  fixes isset :: "nat \<Rightarrow> bool" and last_index :: nat
  defines "us \<equiv> filter isset [0..<Suc last_index]"
  assumes n: "0 < n" and av: "available = length us" and st: "aff = HCLIB_AFFINITY_STRIDED \<Longrightarrow> n \<le> available"
  shows "\<exists>f. thread_cpusets aff isset available last_index n = Inr (map (\<lambda>w. picked f w 0 us) [0..<n]) \<and> (\<forall>k < available. f k < n) \<and>
     (aff = HCLIB_AFFINITY_STRIDED \<longrightarrow> f = (\<lambda>k. k mod n))"
proof (cases aff)
  case HCLIB_AFFINITY_STRIDED
  then show ?thesis using n st av assign_pus_eq [of 0 isset "[0..<Suc last_index]" "\<lambda>k. k mod n" "replicate n []"]
    by (intro exI [of _ "\<lambda>k. k mod n"]) (simp add: thread_cpusets_def us_def)
next
  case HCLIB_AFFINITY_CHUNKED
  let ?c = "(available + n - 1) div n"
  have "available \<le> n * ?c"
  proof -
    have "n * ?c + (available + n - 1) mod n = available + n - 1" by simp
    moreover have "(available + n - 1) mod n < n" using n by simp
    ultimately show ?thesis using n by linarith
  qed
  then have f: "k div ?c < n" if "k < available" for k using that by (simp add: less_mult_imp_div_less)
  then show ?thesis using HCLIB_AFFINITY_CHUNKED av assign_pus_eq [of 0 isset "[0..<Suc last_index]" "\<lambda>k. k div ?c" "replicate n []"]
    by (intro exI [of _ "\<lambda>k. k div ?c"]) (simp add: thread_cpusets_def us_def Let_def)
qed

section \<open>Properties\<close>



text \<open>
  The distribution of processing units. If the process has at least as many units as workers
  then, with the strided affinity, every unit goes to exactly one worker and every worker gets
  one; and, as every unit belongs to a NUMA node, every worker is inside its own range of workers of
  a socket, all ranges lie within the workers, and the state of the scheduler stays well formed.
\<close>

theorem strided_affinity_correct:
  assumes "fresh_heap n st" "available = length (filter isset [0..<Suc last_index])" "n \<le> available"
    and "env = None \<or> env = Some ''strided''" "\<And>cs. cs \<noteq> [] \<Longrightarrow> nodes cs \<noteq> []"
  shows "\<exists>sets st'. thread_cpusets HCLIB_AFFINITY_STRIDED isset available last_index n = Inr sets \<and> length sets = n \<and>
     (\<forall>i \<le> last_index. isset i \<longrightarrow> (\<exists>!w. w < n \<and> i \<in> set (sets ! w))) \<and> (\<forall>w < n. sets ! w \<noteq> []) \<and>
     create_hwloc_cpusets nodes isset available last_index env st = Inr st' \<and> fresh_heap n st' \<and>
     (\<forall>w < n. base_intra_socket_workers (rt_workers st' ! w) \<le> int w \<and> int w < limit_intra_socket_workers (rt_workers st' ! w))"
proof -
  let ?us = "filter isset [0..<Suc last_index]"
  have n: "0 < n" "length (rt_workers st) = n" using assms(1) by (auto simp: fresh_heap_def site_inv_def)
  define sets where "sets = map (\<lambda>w. picked (\<lambda>k. k mod n) w 0 ?us) [0..<n]"
  have cs: "thread_cpusets HCLIB_AFFINITY_STRIDED isset available last_index n = Inr sets"
    using cpusets_eq [OF n(1) assms(2), of HCLIB_AFFINITY_STRIDED] assms(3) by (auto simp: sets_def)
  have mem: "i \<in> set (sets ! w) \<longleftrightarrow> (\<exists>k < length ?us. ?us ! k = i \<and> k mod n = w)" if "w < n" for i w
    using that by (simp add: sets_def picked_set)
  have d: "distinct ?us" by simp
  have one: "\<exists>!w. w < n \<and> i \<in> set (sets ! w)" if i: "i \<le> last_index" "isset i" for i
  proof -
    have "i \<in> set ?us" unfolding set_filter set_upt using i by auto
    then obtain k where k: "k < length ?us" "?us ! k = i" by (metis in_set_conv_nth)
    show ?thesis
    proof (rule ex1I [of _ "k mod n"])
      show "k mod n < n \<and> i \<in> set (sets ! (k mod n))" using mem k n(1) by auto
      fix w assume w: "w < n \<and> i \<in> set (sets ! w)"
      then obtain k' where k': "k' < length ?us" "?us ! k' = i" "k' mod n = w" using mem by blast
      then have "k' = k" using nth_eq_iff_index_eq [OF d k'(1) k(1)] k(2) by simp
      then show "w = k mod n" using k'(3) by simp
    qed
  qed
  have ne: "sets ! w \<noteq> []" if "w < n" for w
    using mem [OF that, of "?us ! w"] that assms(2,3) by force
  have self: "w < n \<and> shares nodes sets w w" if "w \<in> set [0..<n]" for w
    using that assms(5) [OF ne [of w]] by (cases "nodes (sets ! w)") (auto simp: shares_def)
  obtain rs where rs: "socket_ranges nodes sets n [0..<n] False = Inr rs" "length rs = n"
      "\<forall>w < n. 0 \<le> fst (rs ! w) \<and> fst (rs ! w) \<le> int w \<and> int w < snd (rs ! w) \<and> snd (rs ! w) \<le> int n"
    using socket_ranges_ok [of "[0..<n]" n nodes sets False, OF self] by auto
  let ?st = "st\<lparr>rt_workers := map2 set_socket (rt_workers st) rs\<rparr>"
  have "create_hwloc_cpusets nodes isset available last_index env st = Inr ?st"
    using assms(4) n(2) cs rs(1) by (auto simp: create_hwloc_cpusets_def selected_affinity_def)
  moreover have "fresh_heap n ?st"
    using assms(1) n rs(2,3) unfolding fresh_heap_def
    by (auto simp: site_inv_def search_inv_def path_ok_def socket_ok_def set_socket_def worker_state.truncate_def)
  moreover have "base_intra_socket_workers (rt_workers ?st ! w) \<le> int w \<and> int w < limit_intra_socket_workers (rt_workers ?st ! w)" if "w < n" for w
    using that n(2) rs(2,3) by (auto simp: set_socket_def)
  ultimately show ?thesis using cs one ne by (intro exI [of _ sets] exI [of _ ?st]) (auto simp: sets_def)
qed

theorem strided_affinity_correct_witness:
  "\<exists>st'. create_hwloc_cpusets (\<lambda>cs. map (\<lambda>i. i div 2) cs) (\<lambda>i. i \<noteq> 1) 3 3 (Some ''strided'') idle_heap = Inr st' \<and> fresh_heap 1 st'"
proof -
  have a: "3 = length (filter (\<lambda>i. i \<noteq> 1) [0..<Suc 3])" by code_simp
  show ?thesis
    using strided_affinity_correct [OF idle_heap_fresh a, of "Some ''strided''" "\<lambda>cs. map (\<lambda>i. i div 2) cs"] by auto
qed

text \<open>
  With the chunked affinity the start-up aborts although there are enough units: four units in
  chunks of two leave nothing for the third of three workers, whose set has no NUMA node.
\<close>

lemma chunked_affinity_aborts:
  "thread_cpusets HCLIB_AFFINITY_CHUNKED (\<lambda>i. True) 4 3 3 = Inr [[0, 1], [2, 3], []] \<and>
   create_hwloc_cpusets (\<lambda>cs. if cs = [] then [] else [0]) (\<lambda>i. True) 4 3 (Some ''chunked'')
     (idle_heap\<lparr>rt_workers := map (new_worker 3) [0, 1, 2]\<rparr>) = Inl Assert_failed"
proof -
  let ?nodes = "\<lambda>cs :: nat list. if cs = [] then [] else [0 :: nat]"
  let ?st = "idle_heap\<lparr>rt_workers := map (new_worker 3) [0, 1, 2]\<rparr>"
  have sets: "thread_cpusets HCLIB_AFFINITY_CHUNKED (\<lambda>i. True) 4 3 3 = Inr [[0, 1], [2, 3], []]" by code_simp
  have ranges: "socket_ranges ?nodes [[0, 1], [2, 3], []] 3 [0..<3] False = Inl Assert_failed" by code_simp
  have aff: "selected_affinity (Some ''chunked'') = Inr HCLIB_AFFINITY_CHUNKED" by code_simp
  have n: "length (rt_workers ?st) = 3" by simp
  have "create_hwloc_cpusets ?nodes (\<lambda>i. True) 4 3 (Some ''chunked'') ?st = Inl Assert_failed"
    unfolding create_hwloc_cpusets_def Let_def n aff res_bind_Inr sets ranges by simp
  then show ?thesis using sets by blast
qed

end
