(* ===== verification/Mem_Ops.thy ===== *)
theory Mem_Ops
  imports Runtime_Properties Locality_Queries Fptr_List
begin

text \<open>
  \<^verbatim>\<open>src/src/hclib-mem.c\<close>: allocation, reallocation, memset and copy at a locale. Each is a task at
  the locale that calls a function which a module has registered for the type of the locale, and
  then puts a promise. \<^verbatim>\<open>src/modules/system\<close> registers such functions for the memory of the host.
  A pointer is a number, 0 is \<^verbatim>\<open>NULL\<close>; what the callbacks do to the memory \<open>'s\<close> is an argument,
  and they may fail.
\<close>

section \<open>The tables of callbacks\<close>

record 'f mem_state =
  alloc_registrations :: "'f fptr_list option"
  realloc_registrations :: "'f fptr_list option"
  free_registrations :: "'f fptr_list option"
  memset_registrations :: "'f fptr_list option"
  copy_registrations :: "'f fptr_list option"

definition hclib_register_alloc_func :: "int \<Rightarrow> 'f option \<Rightarrow> 'f mem_state \<Rightarrow> 'f mem_state result" where
  "hclib_register_alloc_func i f mt =
     res_bind (hclib_register_func (alloc_registrations mt) i f MAY_USE) (\<lambda>l. Inr (mt\<lparr>alloc_registrations := Some l\<rparr>))"

definition hclib_register_realloc_func :: "int \<Rightarrow> 'f option \<Rightarrow> 'f mem_state \<Rightarrow> 'f mem_state result" where
  "hclib_register_realloc_func i f mt =
     res_bind (hclib_register_func (realloc_registrations mt) i f MAY_USE) (\<lambda>l. Inr (mt\<lparr>realloc_registrations := Some l\<rparr>))"

definition hclib_register_free_func :: "int \<Rightarrow> 'f option \<Rightarrow> 'f mem_state \<Rightarrow> 'f mem_state result" where
  "hclib_register_free_func i f mt =
     res_bind (hclib_register_func (free_registrations mt) i f MAY_USE) (\<lambda>l. Inr (mt\<lparr>free_registrations := Some l\<rparr>))"

definition hclib_register_memset_func :: "int \<Rightarrow> 'f option \<Rightarrow> 'f mem_state \<Rightarrow> 'f mem_state result" where
  "hclib_register_memset_func i f mt =
     res_bind (hclib_register_func (memset_registrations mt) i f MAY_USE) (\<lambda>l. Inr (mt\<lparr>memset_registrations := Some l\<rparr>))"

definition hclib_register_copy_func :: "int \<Rightarrow> 'f option \<Rightarrow> int \<Rightarrow> 'f mem_state \<Rightarrow> 'f mem_state result" where
  "hclib_register_copy_func i f priority mt =
     res_bind (hclib_register_func (copy_registrations mt) i f priority) (\<lambda>l. Inr (mt\<lparr>copy_registrations := Some l\<rparr>))"

section \<open>The tasks\<close>

text \<open>The argument structures: \<^verbatim>\<open>malloc_struct\<close>, \<^verbatim>\<open>realloc_struct\<close>, \<^verbatim>\<open>memset_struct\<close> and \<^verbatim>\<open>copy_struct\<close>.\<close>

datatype 'f mem_job =
    Malloc_struct nat nat (m_promise: nat) "'f option"
  | Realloc_struct nat nat nat (m_promise: nat) "'f option"
  | Memset_struct nat nat int nat (m_promise: nat) "'f option"
  | Copy_struct nat nat nat nat "nat option" nat (m_promise: nat) "'f option"

record ('f, 's) mem_callbacks =
  alloc_cb :: "'f \<Rightarrow> nat \<Rightarrow> nat \<Rightarrow> 's \<Rightarrow> ('s \<times> nat) result"
  realloc_cb :: "'f \<Rightarrow> nat \<Rightarrow> nat \<Rightarrow> nat \<Rightarrow> 's \<Rightarrow> ('s \<times> nat) result"
  free_cb :: "'f \<Rightarrow> nat \<Rightarrow> nat \<Rightarrow> 's \<Rightarrow> 's result"
  memset_cb :: "'f \<Rightarrow> nat \<Rightarrow> int \<Rightarrow> nat \<Rightarrow> nat \<Rightarrow> 's \<Rightarrow> 's result"
  copy_cb :: "'f \<Rightarrow> nat \<Rightarrow> nat \<Rightarrow> nat \<Rightarrow> nat \<Rightarrow> nat \<Rightarrow> 's \<Rightarrow> 's result"

type_synonym ('f, 'i) mem_rt = "('f mem_job, nat, 'i) hrt"

text \<open>A pointer as the datum of a promise, and back.\<close>

definition ptr_data :: "nat \<Rightarrow> nat data option" where
  "ptr_data p = (if p = 0 then None else Some (User_data p))"

definition data_ptr :: "nat data option \<Rightarrow> nat" where
  "data_ptr d = (case d of Some (User_data p) \<Rightarrow> p | _ \<Rightarrow> 0)"

lemma data_ptr_data [simp]: "data_ptr (ptr_data p) = p"
  by (simp add: data_ptr_def ptr_data_def)

definition allocate_kernel ::
  "('f, 's) mem_callbacks \<Rightarrow> nat \<Rightarrow> nat \<Rightarrow> nat \<Rightarrow> nat \<Rightarrow> 'f option \<Rightarrow> 's \<times> ('f, 'i) mem_rt \<Rightarrow> ('s \<times> ('f, 'i) mem_rt) result" where
  "allocate_kernel cbs wid nbytes l p cb = (\<lambda>(s, st).
     res_bind (from_ptr cb) (\<lambda>f.
     res_bind (alloc_cb cbs f nbytes l s) (\<lambda>(s', allocated).
     res_bind (hclib_promise_put wid (Some p) (ptr_data allocated) st) (\<lambda>st'. Inr (s', st')))))"

definition reallocate_kernel ::
  "('f, 's) mem_callbacks \<Rightarrow> nat \<Rightarrow> nat \<Rightarrow> nat \<Rightarrow> nat \<Rightarrow> nat \<Rightarrow> 'f option \<Rightarrow> 's \<times> ('f, 'i) mem_rt \<Rightarrow> ('s \<times> ('f, 'i) mem_rt) result" where
  "reallocate_kernel cbs wid ptr nbytes l p cb = (\<lambda>(s, st).
     res_bind (from_ptr cb) (\<lambda>f.
     res_bind (realloc_cb cbs f ptr nbytes l s) (\<lambda>(s', reallocated).
     res_bind (hclib_promise_put wid (Some p) (ptr_data reallocated) st) (\<lambda>st'. Inr (s', st')))))"

definition memset_kernel ::
  "('f, 's) mem_callbacks \<Rightarrow> nat \<Rightarrow> nat \<Rightarrow> nat \<Rightarrow> int \<Rightarrow> nat \<Rightarrow> nat \<Rightarrow> 'f option \<Rightarrow> 's \<times> ('f, 'i) mem_rt \<Rightarrow> ('s \<times> ('f, 'i) mem_rt) result" where
  "memset_kernel cbs wid ptr nbytes pattern l p cb = (\<lambda>(s, st).
     res_bind (from_ptr cb) (\<lambda>f.
     res_bind (memset_cb cbs f ptr pattern nbytes l s) (\<lambda>s'.
     res_bind (hclib_promise_put wid (Some p) None st) (\<lambda>st'. Inr (s', st')))))"

definition copy_kernel ::
  "('f, 's) mem_callbacks \<Rightarrow> nat \<Rightarrow> nat \<Rightarrow> nat \<Rightarrow> nat \<Rightarrow> nat \<Rightarrow> nat option \<Rightarrow> nat \<Rightarrow> nat \<Rightarrow> 'f option \<Rightarrow>
   's \<times> ('f, 'i) mem_rt \<Rightarrow> ('s \<times> ('f, 'i) mem_rt) result" where
  "copy_kernel cbs wid dst_locale dst src_locale src src_fut nbytes p cb = (\<lambda>(s, st).
     res_bind (c_assert (src \<noteq> 0 \<or> src_fut \<noteq> None)) (\<lambda>_.
     res_bind (c_assert (\<not> (src \<noteq> 0 \<and> src_fut \<noteq> None))) (\<lambda>_.
     res_bind (if src \<noteq> 0 then Inr src
               else res_bind (from_ptr src_fut) (\<lambda>q. res_bind (hclib_future_get st q) (\<lambda>d. Inr (data_ptr d)))) (\<lambda>from.
     res_bind (from_ptr cb) (\<lambda>f.
     res_bind (copy_cb cbs f dst_locale dst src_locale from nbytes s) (\<lambda>s'.
     res_bind (hclib_promise_put wid (Some p) None st) (\<lambda>st'. Inr (s', st'))))))))"

fun mem_kernel :: "('f, 's) mem_callbacks \<Rightarrow> nat \<Rightarrow> 'f mem_job \<Rightarrow> 's \<times> ('f, 'i) mem_rt \<Rightarrow> ('s \<times> ('f, 'i) mem_rt) result" where
  "mem_kernel cbs wid (Malloc_struct nbytes l p cb) = allocate_kernel cbs wid nbytes l p cb"
| "mem_kernel cbs wid (Realloc_struct ptr nbytes l p cb) = reallocate_kernel cbs wid ptr nbytes l p cb"
| "mem_kernel cbs wid (Memset_struct ptr nbytes pattern l p cb) = memset_kernel cbs wid ptr nbytes pattern l p cb"
| "mem_kernel cbs wid (Copy_struct dl dst sl src src_fut nbytes p cb) = copy_kernel cbs wid dl dst sl src src_fut nbytes p cb"

section \<open>The operations\<close>

definition locale_type :: "('c, 'd, 'i) rt \<Rightarrow> nat \<Rightarrow> int result" where
  "locale_type st l = res_bind (arr_get (rt_pool st) (int l)) (\<lambda>x. Inr (int (loc_type x)))"

text \<open>The common part: a promise, a task at the locale, and the future as the result.\<close>

definition mem_async ::
  "nat \<Rightarrow> (nat \<Rightarrow> 'f mem_job) \<Rightarrow> nat option list \<Rightarrow> nat \<Rightarrow> ('f, 'i) mem_rt \<Rightarrow> (('f, 'i) mem_rt \<times> nat) result" where
  "mem_async wid job futures l st =
     (let (st1, p) = hclib_promise_create st in
      res_bind (hclib_async wid (User (job p)) futures (Some l) st1) (\<lambda>st2. Inr (st2, hclib_get_future_for_promise p)))"

definition hclib_allocate_at :: "'f mem_state \<Rightarrow> nat \<Rightarrow> nat \<Rightarrow> nat \<Rightarrow> ('f, 'i) mem_rt \<Rightarrow> (('f, 'i) mem_rt \<times> nat) result" where
  "hclib_allocate_at mt wid nbytes l st =
     res_bind (locale_type st l) (\<lambda>ty.
     res_bind (hclib_has_func_for (alloc_registrations mt) ty) (\<lambda>has.
     res_bind (c_assert has) (\<lambda>_.
     res_bind (hclib_get_func_for (alloc_registrations mt) ty) (\<lambda>cb.
     mem_async wid (\<lambda>p. Malloc_struct nbytes l p cb) [] l st))))"

definition hclib_reallocate_at :: "'f mem_state \<Rightarrow> nat \<Rightarrow> nat \<Rightarrow> nat \<Rightarrow> nat \<Rightarrow> ('f, 'i) mem_rt \<Rightarrow> (('f, 'i) mem_rt \<times> nat) result" where
  "hclib_reallocate_at mt wid ptr nbytes l st =
     res_bind (locale_type st l) (\<lambda>ty.
     res_bind (hclib_has_func_for (realloc_registrations mt) ty) (\<lambda>has.
     res_bind (c_assert has) (\<lambda>_.
     res_bind (hclib_get_func_for (realloc_registrations mt) ty) (\<lambda>cb.
     mem_async wid (\<lambda>p. Realloc_struct ptr nbytes l p cb) [] l st))))"

definition hclib_memset_at :: "'f mem_state \<Rightarrow> nat \<Rightarrow> nat \<Rightarrow> int \<Rightarrow> nat \<Rightarrow> nat \<Rightarrow> ('f, 'i) mem_rt \<Rightarrow> (('f, 'i) mem_rt \<times> nat) result" where
  "hclib_memset_at mt wid ptr pattern nbytes l st =
     res_bind (locale_type st l) (\<lambda>ty.
     res_bind (hclib_has_func_for (memset_registrations mt) ty) (\<lambda>has.
     res_bind (c_assert has) (\<lambda>_.
     res_bind (hclib_get_func_for (memset_registrations mt) ty) (\<lambda>cb.
     mem_async wid (\<lambda>p. Memset_struct ptr nbytes pattern l p cb) [] l st))))"

definition hclib_free_at :: "'f mem_state \<Rightarrow> ('f, 's) mem_callbacks \<Rightarrow> nat \<Rightarrow> nat \<Rightarrow> ('f, 'i) mem_rt \<Rightarrow> 's \<Rightarrow> 's result" where
  "hclib_free_at mt cbs ptr l st s =
     res_bind (locale_type st l) (\<lambda>ty.
     res_bind (hclib_has_func_for (free_registrations mt) ty) (\<lambda>has.
     res_bind (c_assert has) (\<lambda>_.
     res_bind (hclib_get_func_for (free_registrations mt) ty) (\<lambda>cb.
     res_bind (from_ptr cb) (\<lambda>f. free_cb cbs f ptr l s)))))"

definition HCLIB_ASYNC_COPY_USE_FUTURE_AS_SRC :: nat where "HCLIB_ASYNC_COPY_USE_FUTURE_AS_SRC = 1"

text \<open>Which of the callbacks for the two locales does a copy; both priorities are read before.\<close>

definition choose_copy :: "'f fptr_list option \<Rightarrow> int \<Rightarrow> int \<Rightarrow> 'f option result" where
  "choose_copy tab dst_type src_type =
     res_bind (hclib_get_func_for tab dst_type) (\<lambda>dst_cb.
     res_bind (hclib_get_func_for tab src_type) (\<lambda>src_cb.
     res_bind (hclib_get_priority_for tab dst_type) (\<lambda>dst_priority.
     res_bind (hclib_get_priority_for tab src_type) (\<lambda>src_priority.
     res_bind (c_assert (dst_cb \<noteq> None \<or> src_cb \<noteq> None)) (\<lambda>_.
     if dst_cb = None then Inr src_cb
     else if src_cb = None then Inr dst_cb
     else if dst_cb = src_cb then Inr dst_cb
     else res_bind (c_assert (\<not> (dst_priority = MUST_USE \<and> src_priority = MUST_USE))) (\<lambda>_.
          Inr (if src_priority = MUST_USE then src_cb else dst_cb)))))))"

definition hclib_async_copy ::
  "'f mem_state \<Rightarrow> nat \<Rightarrow> nat \<Rightarrow> nat \<Rightarrow> nat \<Rightarrow> nat \<Rightarrow> nat \<Rightarrow> nat option list \<Rightarrow> ('f, 'i) mem_rt \<Rightarrow> (('f, 'i) mem_rt \<times> nat) result" where
  "hclib_async_copy mt wid dst_locale dst src_locale src nbytes futures st =
     res_bind (locale_type st dst_locale) (\<lambda>dt.
     res_bind (locale_type st src_locale) (\<lambda>sty.
     res_bind (choose_copy (copy_registrations mt) dt sty) (\<lambda>cb.
     res_bind (if src = HCLIB_ASYNC_COPY_USE_FUTURE_AS_SRC
               then res_bind (c_assert (length futures = 1)) (\<lambda>_. Inr (0, futures ! 0)) else Inr (src, None)) (\<lambda>(s, f).
     mem_async wid (\<lambda>p. Copy_struct dst_locale dst src_locale s f nbytes p cb) futures dst_locale st))))"

text \<open>The overloads of \<^verbatim>\<open>src/inc/hclib_cpp.h\<close>.\<close>

definition async_copy ::
  "'f mem_state \<Rightarrow> nat \<Rightarrow> nat \<Rightarrow> nat \<Rightarrow> nat \<Rightarrow> nat \<Rightarrow> nat \<Rightarrow> ('f, 'i) mem_rt \<Rightarrow> (('f, 'i) mem_rt \<times> nat) result" where
  "async_copy mt wid dl dst sl src nbytes st = hclib_async_copy mt wid dl dst sl src nbytes [] st"

definition async_copy_await ::
  "'f mem_state \<Rightarrow> nat \<Rightarrow> nat \<Rightarrow> nat \<Rightarrow> nat \<Rightarrow> nat \<Rightarrow> nat \<Rightarrow> nat option \<Rightarrow> ('f, 'i) mem_rt \<Rightarrow> (('f, 'i) mem_rt \<times> nat) result" where
  "async_copy_await mt wid dl dst sl src nbytes future st =
     hclib_async_copy mt wid dl dst sl src nbytes (if future \<noteq> None then [future] else []) st"

definition async_copy_await_fut_src ::
  "'f mem_state \<Rightarrow> nat \<Rightarrow> nat \<Rightarrow> nat \<Rightarrow> nat \<Rightarrow> nat option \<Rightarrow> nat \<Rightarrow> ('f, 'i) mem_rt \<Rightarrow> (('f, 'i) mem_rt \<times> nat) result" where
  "async_copy_await_fut_src mt wid dl dst sl src nbytes st =
     res_bind (c_assert (src \<noteq> None)) (\<lambda>_.
     hclib_async_copy mt wid dl dst sl HCLIB_ASYNC_COPY_USE_FUTURE_AS_SRC nbytes [src] st)"

section \<open>What scheduling leaves alone\<close>

text \<open>The functions and locales of the tasks, and whether and with what a promise is satisfied.\<close>

definition job_of :: "'c task \<Rightarrow> 'c \<times> nat option" where
  "job_of tk = (fp tk, t_locale tk)"

definition same_code :: "('c, 'd, 'i) rt \<Rightarrow> ('c, 'd, 'i) rt \<Rightarrow> bool" where
  "same_code st st' \<longleftrightarrow> (\<forall>t. map_option job_of (tasks st' t) = map_option job_of (tasks st t)) \<and>
     (\<forall>p. map_option (\<lambda>pr. (satisfied pr, datum pr)) (promises st' p) = map_option (\<lambda>pr. (satisfied pr, datum pr)) (promises st p))"

lemma same_code_refl [simp]: "same_code st st"
  by (simp add: same_code_def)

lemma same_code_trans [trans]: "same_code a b \<Longrightarrow> same_code b c \<Longrightarrow> same_code a c"
  by (simp add: same_code_def)

lemma same_code_put_task: "tasks st t = Some tk \<Longrightarrow> job_of tk' = job_of tk \<Longrightarrow> same_code st (put_task t tk' st)"
  by (simp add: same_code_def put_task_def)

lemma register_if_code: "register_if_promise_not_ready t p st = Inr (st', w) \<Longrightarrow> same_code st st'"
  by (auto simp: register_if_promise_not_ready_def res_simps get_promise_def get_task_def put_promise_def put_task_def same_code_def job_of_def
      split: if_splits)

lemma register_inline_code: "register_inline t is st = Inr (st', w) \<Longrightarrow> same_code st st'"
proof (induction t "is" st arbitrary: st' w rule: register_inline.induct)
  case (2 t i "is" st)
  from 2(3) obtain tk f where tk: "tasks st t = Some tk" and f: "arr_get (waiting_on tk) i = Inr f"
    by (auto simp: res_simps get_task_def Let_def)
  let ?st = "put_task t (tk\<lparr>waiting_on_index := i\<rparr>) st"
  have s: "same_code st ?st" by (rule same_code_put_task [OF tk]) (simp add: job_of_def)
  show ?case
  proof (cases f)
    case None
    then have "same_code ?st st'" using 2 tk f by (simp add: get_task_def)
    then show ?thesis by (rule same_code_trans [OF s])
  next
    case (Some p)
    then obtain st2 w2 where r: "register_if_promise_not_ready t p ?st = Inr (st2, w2)"
      and rest: "(if w2 then Inr (st2, True) else register_inline t is st2) = Inr (st', w)"
      using 2(3) tk f by (auto simp: res_simps get_task_def Let_def)
    have "same_code st st2" by (rule same_code_trans [OF s register_if_code [OF r]])
    moreover have "same_code st2 st'" using rest 2(2) [OF _ _ f Some r] tk by (auto simp: get_task_def split: if_splits)
    ultimately show ?thesis by (rule same_code_trans)
  qed
qed simp

lemma register_extra_code: "register_extra t es i st = Inr (st', w) \<Longrightarrow> same_code st st'"
proof (induction t es i st arbitrary: st' w rule: register_extra.induct)
  case (3 t p es i st)
  from 3(2) obtain tk st1 w1 where tk: "tasks st t = Some tk"
    and r: "register_if_promise_not_ready t p (put_task t (tk\<lparr>waiting_on_index := i + 1\<rparr>) st) = Inr (st1, w1)"
    and rest: "(if w1 then Inr (st1, True) else register_extra t es (i + 1) st1) = Inr (st', w)"
    by (auto simp: res_simps get_task_def)
  have s: "same_code st (put_task t (tk\<lparr>waiting_on_index := i + 1\<rparr>) st)" by (rule same_code_put_task [OF tk]) (simp add: job_of_def)
  have "same_code st1 st'" using rest 3(1) [OF _ r] tk by (auto simp: get_task_def split: if_splits)
  then show ?case using same_code_trans [OF same_code_trans [OF s register_if_code [OF r]]] by blast
qed simp_all

definition register_rest :: "nat \<Rightarrow> ('c, 'd, 'i) rt \<Rightarrow> (('c, 'd, 'i) rt \<times> bool) result" where
  "register_rest t st = res_bind (get_task st t) (\<lambda>tk. case waiting_on_extra tk of None \<Rightarrow> Inr (st, True)
     | Some ex \<Rightarrow> res_bind (register_extra t (drop (nat (waiting_on_index tk - MAX_NUM_WAITS + 1)) ex) (waiting_on_index tk) st)
         (\<lambda>(st2, w). Inr (st2, \<not> w)))"

lemma register_rest_code: "register_rest t st = Inr (st', ok) \<Longrightarrow> same_code st st'"
  by (auto simp: register_rest_def res_simps split: option.splits dest: register_extra_code)

lemma register_all_code:
  fixes st :: "('c, 'd, 'i) rt"
  assumes "register_on_all_promise_dependencies t st = Inr (st', ok)"
  shows "same_code st st'"
proof -
  obtain tk :: "'c task" and st1 w where inl: "register_inline t [waiting_on_index tk + 1..MAX_NUM_WAITS - 1] st = Inr (st1, w)"
    and rest: "(if w then Inr (st1, False) else register_rest t st1) = Inr (st', ok)"
    using assms unfolding register_on_all_promise_dependencies_def register_rest_def [symmetric] by (auto simp: res_bind_eq_Inr)
  have "same_code st1 st'" using rest register_rest_code by (cases w) auto
  then show ?thesis by (rule same_code_trans [OF register_inline_code [OF inl]])
qed

lemma schedule_code:
  "rt_schedule_async t wid st = Inr st' \<Longrightarrow> same_code st st'" "try_schedule_async t wid st = Inr st' \<Longrightarrow> same_code st st'"
proof -
  show s: "same_code a b" if "rt_schedule_async t wid a = Inr b" for a b
    using that by (auto simp: rt_schedule_async_def res_simps same_code_def Let_def)
  assume "try_schedule_async t wid st = Inr st'"
  then obtain st1 ok where "is_eligible_to_schedule t st = Inr (st1, ok)" "if ok then rt_schedule_async t wid st1 = Inr st' else st1 = st'"
    by (auto simp: try_schedule_async_def res_simps split: if_splits)
  moreover have "same_code st st1" if "is_eligible_to_schedule t st = Inr (st1, ok)"
    using that by (auto simp: is_eligible_to_schedule_def res_simps dest: register_all_code split: if_splits)
  ultimately show "same_code st st'" using s same_code_trans [of st st1 st'] by (cases ok) auto
qed

lemma put_loop_code: "put_loop n wid w st = Inr st' \<Longrightarrow> same_code st st'"
proof (induction n wid w st arbitrary: st' rule: put_loop.induct)
  case (4 n wid t st)
  from 4(2) obtain tk st1 ok st2 where "get_task st t = Inr tk" and r: "register_on_all_promise_dependencies t st = Inr (st1, ok)"
    and t: "(if ok then try_schedule_async t wid st1 else Inr st1) = Inr st2" and rest: "put_loop n wid (next_waiter tk) st2 = Inr st'"
    by (auto simp: res_simps)
  have "same_code st st1" by (rule register_all_code [OF r])
  moreover have "same_code st1 st2" using t schedule_code(2) by (auto split: if_splits)
  moreover have "same_code st2 st'" by (rule 4(1) [OF \<open>get_task st t = Inr tk\<close> r _ t rest]) simp
  ultimately show ?case using same_code_trans by blast
qed simp_all

lemma put_gives_datum:
  assumes "hclib_promise_put wid (Some p) d st = Inr st'"
  shows "hclib_future_get st' p = Inr d"
proof -
  obtain n w where "put_loop n wid w (put_promise p \<lparr>satisfied = True, datum = d, wait_list_head = Satisfied_ptr\<rparr> st) = Inr st'"
    using assms by (auto simp: hclib_promise_put_def res_simps)
  from put_loop_code [OF this] have "map_option (\<lambda>pr. (satisfied pr, datum pr)) (promises st' p) = Some (True, d)"
    by (simp add: same_code_def put_promise_def)
  then show ?thesis by (auto simp: hclib_future_get_def get_promise_def)
qed

section \<open>What the operations do\<close>

text \<open>When a worker can spawn: objects and deques have room, and every locale is served by a worker.\<close>

definition can_spawn :: "nat \<Rightarrow> ('u, 'd, 'i) hrt \<Rightarrow> nat \<Rightarrow> bool" where
  "can_spawn n st w \<longleftrightarrow> w < n \<and> next_addr st + 2 \<le> 10 ^ 9 \<and> (\<forall>a. cur_finish st w = Some a \<longrightarrow> finishes st a \<noteq> None) \<and>
     (\<forall>l < length (rt_pool st). reachable (rt_pool st ! l) = Some True) \<and> card {t. tasks st t \<noteq> None} < nat INIT_DEQUE_CAPACITY"

text \<open>A new open promise \<open>p\<close>, and a new task at \<open>l\<close> that runs the job.\<close>

definition spawned :: "nat \<Rightarrow> nat set \<Rightarrow> nat \<Rightarrow> 'f mem_job \<Rightarrow> ('f, 'i) mem_rt \<Rightarrow> bool" where
  "spawned n E l job st' \<longleftrightarrow> (\<exists>W'. heap_inv n st' W' E) \<and>
     map_option job_of (tasks st' (m_promise job + 1)) = Some (User job, Some l) \<and>
     hclib_future_is_satisfied st' (m_promise job) = Inr False"

lemma mem_async_total:
  fixes st :: "('f, 'i) mem_rt"
  assumes inv: "heap_inv n st W E" and can: "can_spawn n st w" and l: "l < length (rt_pool st)" and fs: "futures_ok st fs"
    and job: "\<And>p. m_promise (job p) = p"
  shows "\<exists>st'. mem_async w job fs l st = Inr (st', next_addr st) \<and> spawned n E l (job (next_addr st)) st'"
proof -
  let ?p = "next_addr st" and ?st1 = "fst (hclib_promise_create st)"
  have w: "w < n" using can by (simp add: can_spawn_def)
  have st1: "next_addr ?st1 = ?p + 1" "tasks ?st1 = tasks st" "finishes ?st1 = finishes st" "rt_pool ?st1 = rt_pool st"
      "rt_workers ?st1 = rt_workers st" "promises ?st1 = (promises st)(?p \<mapsto> hclib_promise_init)"
    by (simp_all add: hclib_promise_create_def fun_upd_def)
  have cur: "cur_finish ?st1 w = cur_finish st w" using st1(5) by simp
  have inv1: "heap_inv n ?st1 W E" by (rule heap_inv_create [OF inv])
  have few: "few_objects (?st1\<lparr>next_addr := next_addr ?st1 + 1\<rparr>)" using can st1(1) by (simp add: few_objects_def can_spawn_def)
  have fs1: "futures_ok ?st1 fs" using fs st1(6) by (auto simp: futures_ok_def)
  have fin: "finishes ?st1 a \<noteq> None" if "cur_finish ?st1 w = Some a" for a using that can st1(3) cur by (simp add: can_spawn_def)
  have "\<exists>st'. spawn_handler w (next_addr ?st1) (Some l) fs False (fst (alloc_task (User (job ?p)) False ?st1)) = Inr st'"
    by (rule spawn_returns [OF heap_invD(1,2) [OF inv1] w few fs1]) (use fin l can st1 in \<open>auto simp: can_spawn_def\<close>)
  then obtain st' where st': "spawn_handler w (?p + 1) (Some l) fs False (fst (alloc_task (User (job ?p)) False ?st1)) = Inr st'"
    using st1(1) by auto
  have "\<exists>W' tk. heap_inv n st' W' E \<and> fp tk = User (job ?p) \<and> t_finish tk = (if False then None else cur_finish ?st1 w) \<and>
     evolves (put_task (next_addr ?st1) tk (?st1\<lparr>next_addr := next_addr ?st1 + 1\<rparr>)) st'"
    by (rule heap_inv_spawn [OF inv1 w few fs1]) (use fin l st' st1 in \<open>auto simp: loc_ok_def\<close>)
  then obtain W' where W': "heap_inv n st' W' E" by blast
  obtain st2 tk where chk: "check_in_finish (cur_finish ?st1 w) (fst (alloc_task (User (job ?p)) False ?st1)) = Inr st2"
    and tk: "tasks st2 (?p + 1) = Some tk"
    and go: "try_schedule_async (?p + 1) w (put_task (?p + 1) (set_futures fs (tk\<lparr>t_finish := cur_finish ?st1 w, t_locale := Some l\<rparr>)) st2) = Inr st'"
    using st' by (auto simp: spawn_handler_def res_simps get_task_def Let_def alloc_task_def)
  have same: "tasks st2 = tasks (fst (alloc_task (User (job ?p)) False ?st1))" "promises st2 = promises ?st1"
    using chk by (auto simp: check_in_finish_def res_simps alloc_task_def split: option.splits)
  have "fp tk = User (job ?p)" using tk same(1) st1(1) by (auto simp: alloc_task_def new_task_def)
  then have j: "map_option job_of (tasks st' (?p + 1)) = Some (User (job ?p), Some l)"
    using schedule_code(2) [OF go] by (simp add: same_code_def job_of_def)
  have "map_option (\<lambda>pr. (satisfied pr, datum pr)) (promises st' ?p) = Some (False, None)"
    using schedule_code(2) [OF go] same(2) st1(6) by (simp add: same_code_def hclib_promise_init_def)
  then have "hclib_future_is_satisfied st' ?p = Inr False" by (auto simp: hclib_future_is_satisfied_def get_promise_def)
  moreover have "mem_async w job fs l st = Inr (st', ?p)"
    using st' st1(1) by (simp add: mem_async_def async_spawn hclib_promise_create_def hclib_get_future_for_promise_def Let_def)
  ultimately show ?thesis using W' j job by (auto simp: spawned_def)
qed

text \<open>What a job does: the callback it runs, and what the promise then holds.\<close>

fun job_effect :: "('f, 's) mem_callbacks \<Rightarrow> ('f, 'i) mem_rt \<Rightarrow> 'f mem_job \<Rightarrow> 's \<Rightarrow> ('s \<times> nat data option) result" where
  "job_effect cbs st (Malloc_struct nbytes l p cb) s =
     res_bind (from_ptr cb) (\<lambda>f. res_bind (alloc_cb cbs f nbytes l s) (\<lambda>(s', ptr). Inr (s', ptr_data ptr)))"
| "job_effect cbs st (Realloc_struct ptr nbytes l p cb) s =
     res_bind (from_ptr cb) (\<lambda>f. res_bind (realloc_cb cbs f ptr nbytes l s) (\<lambda>(s', ptr). Inr (s', ptr_data ptr)))"
| "job_effect cbs st (Memset_struct ptr nbytes pattern l p cb) s =
     res_bind (from_ptr cb) (\<lambda>f. res_bind (memset_cb cbs f ptr pattern nbytes l s) (\<lambda>s'. Inr (s', None)))"
| "job_effect cbs st (Copy_struct dl dst sl src src_fut nbytes p cb) s =
     res_bind (case src_fut of None \<Rightarrow> res_bind (c_assert (src \<noteq> 0)) (\<lambda>_. Inr src)
               | Some q \<Rightarrow> res_bind (c_assert (src = 0)) (\<lambda>_. res_bind (hclib_future_get st q) (\<lambda>d. Inr (data_ptr d)))) (\<lambda>from.
     res_bind (from_ptr cb) (\<lambda>f. res_bind (copy_cb cbs f dl dst sl from nbytes s) (\<lambda>s'. Inr (s', None))))"

lemma mem_kernel_effect:
  "mem_kernel cbs w job (s, st) = res_bind (job_effect cbs st job s) (\<lambda>(s', d).
     res_bind (hclib_promise_put w (Some (m_promise job)) d st) (\<lambda>st'. Inr (s', st')))"
proof (cases job)
  case (Copy_struct dl dst sl src src_fut nbytes p cb)
  then show ?thesis
    by (cases src_fut; cases "src = 0"; simp add: copy_kernel_def c_assert_def res_bind_assoc)
qed (simp_all add: allocate_kernel_def reallocate_kernel_def memset_kernel_def res_bind_assoc case_prod_unfold)

text \<open>The callback that a copy uses, from what is registered for the types of the two locales.\<close>

fun copy_choice :: "('f \<times> int) option \<Rightarrow> ('f \<times> int) option \<Rightarrow> 'f option" where
  "copy_choice None None = None"
| "copy_choice (Some (f, _)) None = Some f"
| "copy_choice None (Some (g, _)) = Some g"
| "copy_choice (Some (f, p)) (Some (g, q)) =
     (if f = g then Some f else if q = MUST_USE then (if p = MUST_USE then None else Some g) else Some f)"

lemma choose_copy_choice:
  assumes "fptr_wf tab" "tab = Some x" "d < capacity x" "s < capacity x"
  shows "choose_copy tab (int d) (int s) = (case copy_choice (fptr_abs tab d) (fptr_abs tab s) of None \<Rightarrow> Inl Assert_failed | Some f \<Rightarrow> Inr (Some f))"
proof -
  have "choose_copy tab (int d) (int s) = (case copy_choice (map_option (\<lambda>f. (f, priorities x ! d)) (fptrs x ! d))
      (map_option (\<lambda>f. (f, priorities x ! s)) (fptrs x ! s)) of None \<Rightarrow> Inl Assert_failed | Some f \<Rightarrow> Inr (Some f))"
    using assms by (cases "fptrs x ! d"; cases "fptrs x ! s";
        simp add: choose_copy_def hclib_get_func_for_def hclib_get_priority_for_def fptr_wf_def c_assert_def)
  then show ?thesis using assms by (simp add: fptr_abs_def)
qed

text \<open>Looking up the callback for the type of a locale.\<close>

lemma callback_lookup:
  assumes "fptr_wf tab"
  shows "res_bind (hclib_has_func_for tab (int ty)) (\<lambda>has. res_bind (c_assert has) (\<lambda>_. res_bind (hclib_get_func_for tab (int ty)) g)) =
    (case fptr_abs tab ty of None \<Rightarrow> Inl Assert_failed | Some (f, _) \<Rightarrow> g (Some f))"
  using fl.has_func_tab [OF assms, of ty] fl.get_func_tab [OF assms, of ty]
  by (auto simp: c_assert_def split: option.splits)

lemma locale_type_at: "l < length (rt_pool st) \<Longrightarrow> locale_type st l = Inr (int (loc_type (rt_pool st ! l)))"
  by (simp add: locale_type_def)

lemma kernel_completes:
  fixes st :: "('f, 'i) mem_rt"
  assumes "heap_inv n st W E" "w < n" "few_objects st" "promises st (m_promise job) = Some pr" "\<not> satisfied pr"
  shows "case job_effect cbs st job s of Inl e \<Rightarrow> mem_kernel cbs w job (s, st) = Inl e
    | Inr (s', d) \<Rightarrow> (\<exists>st' W'. mem_kernel cbs w job (s, st) = Inr (s', st') \<and> heap_inv n st' W' E \<and>
         hclib_future_get st' (m_promise job) = Inr d \<and>
         pool_tasks n (rt_pool st') = pool_tasks n (rt_pool st) +
           mset (filter (ready_ok (close_promise (m_promise job) d st)) (W (m_promise job)))) \<or>
       mem_kernel cbs w job (s, st) = Inl Assert_failed \<and> \<not> roomy st"
proof (cases "job_effect cbs st job s")
  case (Inr r)
  obtain s' d where r: "r = (s', d)" by fastforce
  have max: "int (next_addr st) \<le> MAX_INT" using assms(3) by (simp add: few_objects_def MAX_INT_def)
  have k: "mem_kernel cbs w job (s, st) = res_bind (hclib_promise_put w (Some (m_promise job)) d st) (\<lambda>st'. Inr (s', st'))"
    by (simp add: mem_kernel_effect Inr r)
  have i: "\<exists>W'. heap_inv n st' W' E" if "hclib_promise_put w (Some (m_promise job)) d st = Inr st'" for st'
    using heap_inv_put [OF assms(1-3) that] by blast
  from promise_put_inv [OF heap_invD(1) [OF assms(1)] assms(4,5,2) max, of d] show ?thesis
  proof (elim disjE exE conjE)
    fix st' W'
    assume a: "hclib_promise_put w (Some (m_promise job)) d st = Inr st'"
      "pool_tasks n (rt_pool st') = pool_tasks n (rt_pool st) + mset (filter (ready_ok (close_promise (m_promise job) d st)) (W (m_promise job)))"
    show ?thesis using i [OF a(1)] put_gives_datum [OF a(1)] a k Inr r by auto
  qed (use k Inr r in simp)
qed (simp add: mem_kernel_effect)

section \<open>Properties\<close>

text \<open>
  The functions \<^verbatim>\<open>hclib_allocate_at\<close>, \<^verbatim>\<open>hclib_reallocate_at\<close> and \<^verbatim>\<open>hclib_memset_at\<close> on a locale for whose type no callback is
  registered abort. Otherwise, in every state of the runtime in which a worker can spawn, they
  return the future of a new promise, which is not satisfied, and a new task at the locale will
  run the operation with exactly the registered callback; the invariant of the runtime holds again.
\<close>

theorem memory_operation_spawned:
  fixes st :: "('f, 'i) mem_rt"
  assumes "heap_inv n st W E" "can_spawn n st w" "l < length (rt_pool st)"
    and "fptr_wf (alloc_registrations mt)" "fptr_wf (realloc_registrations mt)" "fptr_wf (memset_registrations mt)"
    and "ty = loc_type (rt_pool st ! l)" "p = next_addr st"
  shows "(case fptr_abs (alloc_registrations mt) ty of None \<Rightarrow> hclib_allocate_at mt w nbytes l st = Inl Assert_failed
      | Some (f, _) \<Rightarrow> \<exists>st'. hclib_allocate_at mt w nbytes l st = Inr (st', p) \<and> spawned n E l (Malloc_struct nbytes l p (Some f)) st') \<and>
    (case fptr_abs (realloc_registrations mt) ty of None \<Rightarrow> hclib_reallocate_at mt w ptr nbytes l st = Inl Assert_failed
      | Some (f, _) \<Rightarrow> \<exists>st'. hclib_reallocate_at mt w ptr nbytes l st = Inr (st', p) \<and> spawned n E l (Realloc_struct ptr nbytes l p (Some f)) st') \<and>
    (case fptr_abs (memset_registrations mt) ty of None \<Rightarrow> hclib_memset_at mt w ptr pattern nbytes l st = Inl Assert_failed
      | Some (f, _) \<Rightarrow> \<exists>st'. hclib_memset_at mt w ptr pattern nbytes l st = Inr (st', p) \<and>
          spawned n E l (Memset_struct ptr nbytes pattern l p (Some f)) st')"
proof -
  have "futures_ok st []" by (simp add: futures_ok_def)
  note run = mem_async_total [OF assms(1-3) this, folded assms(8)]
  show ?thesis
    using run [of "\<lambda>p. Malloc_struct nbytes l p _"] run [of "\<lambda>p. Realloc_struct ptr nbytes l p _"]
      run [of "\<lambda>p. Memset_struct ptr nbytes pattern l p _"]
    unfolding hclib_allocate_at_def hclib_reallocate_at_def hclib_memset_at_def locale_type_at [OF assms(3)] assms(7) [symmetric]
      res_bind_Inr callback_lookup [OF assms(4)] callback_lookup [OF assms(5)] callback_lookup [OF assms(6)]
    by (auto split: option.splits)
qed

text \<open>
  The task of an allocation, reallocation, memset or copy runs the callback once, on the
  arguments it was created with (a copy from a future reads the pointer that the future holds).
  If the callback fails, so does the task; otherwise the promise is satisfied with the pointer that
  the callback returns (\<^verbatim>\<open>NULL\<close> for memset and copy), the tasks that waited for nothing else are
  scheduled, and the invariant of the runtime holds again. Only a full deque makes the put abort.
\<close>

theorem memory_operation_completes:
  fixes st :: "('f, 'i) mem_rt"
  assumes "heap_inv n st W E" "w < n" "few_objects st" "promises st (m_promise job) = Some pr" "\<not> satisfied pr"
  shows "case job_effect cbs st job s of Inl e \<Rightarrow> mem_kernel cbs w job (s, st) = Inl e
    | Inr (s', d) \<Rightarrow> (\<exists>st' W'. mem_kernel cbs w job (s, st) = Inr (s', st') \<and> heap_inv n st' W' E \<and>
         hclib_future_get st' (m_promise job) = Inr d \<and>
         pool_tasks n (rt_pool st') = pool_tasks n (rt_pool st) +
           mset (filter (ready_ok (close_promise (m_promise job) d st)) (W (m_promise job)))) \<or>
       mem_kernel cbs w job (s, st) = Inl Assert_failed \<and> \<not> roomy st"
  by (rule kernel_completes [OF assms])

text \<open>
  C32: an asynchronous copy aborts if no copy callback was ever registered, and reads a priority outside
  the table if the type of one of the locales is above all types with a callback, even when the
  other locale has one. Otherwise it uses the only callback that is registered for the two types, or the
  one of the source if that must be used, or the one of the destination; it aborts if both must be
  used and differ, or if neither exists. It then returns the future of a new open promise, and a
  new task at the destination will do the copy, from the pointer or from the one future given.
\<close>

theorem async_copy_correct:
  fixes st :: "('f, 'i) mem_rt"
  assumes "heap_inv n st W E" "can_spawn n st w" "dl < length (rt_pool st)" "sl < length (rt_pool st)" "futures_ok st fs"
    and "fptr_wf (copy_registrations mt)" "dt = loc_type (rt_pool st ! dl)" "sty = loc_type (rt_pool st ! sl)"
    and "src = HCLIB_ASYNC_COPY_USE_FUTURE_AS_SRC \<longrightarrow> length fs = 1" "p = next_addr st"
  shows "case copy_registrations mt of None \<Rightarrow> hclib_async_copy mt w dl dst sl src nbytes fs st = Inl Assert_failed
    | Some tab \<Rightarrow>
        if capacity tab \<le> max dt sty then hclib_async_copy mt w dl dst sl src nbytes fs st = Inl Out_of_bounds
        else (case copy_choice (fptr_abs (Some tab) dt) (fptr_abs (Some tab) sty) of
            None \<Rightarrow> hclib_async_copy mt w dl dst sl src nbytes fs st = Inl Assert_failed
          | Some f \<Rightarrow> \<exists>st'. hclib_async_copy mt w dl dst sl src nbytes fs st = Inr (st', p) \<and>
              spawned n E dl (if src = HCLIB_ASYNC_COPY_USE_FUTURE_AS_SRC then Copy_struct dl dst sl 0 (fs ! 0) nbytes p (Some f)
                else Copy_struct dl dst sl src None nbytes p (Some f)) st')"
proof (cases "copy_registrations mt")
  case None
  then show ?thesis using assms(3,4)
    by (simp add: hclib_async_copy_def locale_type_at choose_copy_def hclib_get_func_for_def)
next
  case (Some tab)
  have "choose_copy (Some tab) (int dt) (int sty) = Inl Out_of_bounds" if "capacity tab \<le> max dt sty"
    using assms(6) that Some by (auto simp: choose_copy_def hclib_get_func_for_def hclib_get_priority_for_def fptr_wf_def arr_get_def)
  moreover note choose_copy_choice [of "Some tab" tab dt sty]
  moreover have "\<exists>st'. mem_async w (\<lambda>p. Copy_struct dl dst sl x y nbytes p cb) fs dl st = Inr (st', p) \<and>
      spawned n E dl (Copy_struct dl dst sl x y nbytes p cb) st'" for x y cb
    using mem_async_total [OF assms(1-3,5), of "\<lambda>p. Copy_struct dl dst sl x y nbytes p cb"] assms(10) by simp
  ultimately show ?thesis using Some assms(3,4,6-9)
    by (auto simp: hclib_async_copy_def locale_type_at split: option.splits)
qed

text \<open>One locale, with a callback for each operation.\<close>

definition sample_tables :: "nat mem_state" where
  "sample_tables = (let t = \<lparr>fptrs = [Some 7], priorities = [MAY_USE], capacity = 1\<rparr> in
     \<lparr>alloc_registrations = Some t, realloc_registrations = None, free_registrations = None,
      memset_registrations = Some t, copy_registrations = Some t\<rparr>)"

lemma idle_heap_can: "heap_inv 1 idle_heap (\<lambda>_. []) {}" "can_spawn 1 idle_heap 0"
  using fresh_heap_inv [OF idle_heap_fresh] by (simp_all add: can_spawn_def idle_heap_def deque_consts)

lemma sample_facts:
  "fptr_wf (alloc_registrations sample_tables)" "fptr_wf (realloc_registrations sample_tables)"
  "fptr_wf (memset_registrations sample_tables)" "fptr_wf (copy_registrations sample_tables)"
  "fptr_abs (alloc_registrations sample_tables) 0 = Some (7, MAY_USE)" "fptr_abs (copy_registrations sample_tables) 0 = Some (7, MAY_USE)"
  "copy_registrations sample_tables = Some \<lparr>fptrs = [Some 7], priorities = [MAY_USE], capacity = 1\<rparr>"
  "0 < length (rt_pool idle_heap)" "0 = loc_type (rt_pool idle_heap ! 0)" "0 = next_addr idle_heap" "futures_ok idle_heap []"
  by (simp_all add: sample_tables_def fptr_wf_def fptr_abs_def idle_heap_def futures_ok_def Let_def)

theorem memory_operation_spawned_witness:
  "\<exists>st'. hclib_allocate_at sample_tables 0 16 0 idle_heap = Inr (st', 0) \<and> spawned 1 {} 0 (Malloc_struct 16 0 0 (Some 7)) st'"
  using memory_operation_spawned [OF idle_heap_can sample_facts(8,1-3,9,10)] unfolding sample_facts by simp

definition sample_callbacks :: "(nat, nat) mem_callbacks" where
  "sample_callbacks = \<lparr>alloc_cb = (\<lambda>f n l s. Inr (s + n, s)), realloc_cb = (\<lambda>f p n l s. Inr (s + n, s)), free_cb = (\<lambda>f p l s. Inr s),
     memset_cb = (\<lambda>f p v n l s. Inr s), copy_cb = (\<lambda>f dl d sl p n s. Inr s)\<rparr>"

theorem memory_operation_completes_witness:
  "\<exists>st'. mem_kernel sample_callbacks 0 (Malloc_struct 16 0 0 (Some (7 :: nat))) (64, fst (hclib_promise_create idle_heap)) = Inr (80, st') \<and>
     hclib_future_get st' 0 = Inr (Some (User_data 64))"
proof -
  let ?st = "fst (hclib_promise_create (idle_heap :: (nat, nat) mem_rt))"
  have st: "promises ?st 0 = Some hclib_promise_init" "\<not> satisfied (hclib_promise_init :: nat data promise)" "few_objects ?st" "roomy ?st"
    by (simp_all add: hclib_promise_create_def idle_heap_def hclib_promise_init_def few_objects_def roomy_def)
  show ?thesis
    using memory_operation_completes [OF heap_inv_create [OF idle_heap_can(1)] _ st(3) _ st(2), of 0 "Malloc_struct 16 0 0 (Some 7)" sample_callbacks 64]
      st(1,4) by (auto simp: sample_callbacks_def ptr_data_def)
qed

theorem async_copy_correct_witness:
  "\<exists>st'. hclib_async_copy sample_tables 0 0 64 0 32 16 [] idle_heap = Inr (st', 0) \<and>
     spawned 1 {} 0 (Copy_struct 0 64 0 32 None 16 0 (Some 7)) st'"
proof -
  have "32 = HCLIB_ASYNC_COPY_USE_FUTURE_AS_SRC \<longrightarrow> length ([] :: nat option list) = 1" by (simp add: HCLIB_ASYNC_COPY_USE_FUTURE_AS_SRC_def)
  from async_copy_correct [OF idle_heap_can sample_facts(8,8,11,4,9,9) this sample_facts(10), of 64 16]
  show ?thesis unfolding sample_facts(7)
    by (simp add: fptr_abs_def HCLIB_ASYNC_COPY_USE_FUTURE_AS_SRC_def cong: option.case_cong)
qed

end
