(* ===== verification/System_Module.thy ===== *)
theory System_Module
  imports Mem_Ops "HOL-Library.Word"
begin

text \<open>
  \<^verbatim>\<open>src/modules/system/src/hclib_system.cpp\<close>: the module for the memory of the host. It makes the locale types of the
  caches and of the main memory known and registers for each of them the callbacks of the memory
  operations, which call the C library. The allocator of the C library is modelled as one that
  never uses an address twice.
\<close>

section \<open>The memory of the C library\<close>

text \<open>
  \<open>blocks\<close> are the live allocations with their sizes; a byte that was never written is \<open>None\<close>. No allocation
  goes beyond \<open>heap_limit\<close>. A pointer that the C library must not be given is \<open>Out_of_bounds\<close>.
\<close>

type_synonym byte = "8 word"

record host_memory =
  blocks :: "(nat \<times> nat) list"
  bytes :: "nat \<Rightarrow> byte option"
  heap_break :: nat
  heap_limit :: nat

definition owned :: "host_memory \<Rightarrow> nat \<Rightarrow> bool" where
  "owned h a = list_ex (\<lambda>(b, n). b \<le> a \<and> a < b + n) (blocks h)"

definition range_owned :: "host_memory \<Rightarrow> nat \<Rightarrow> nat \<Rightarrow> bool" where
  "range_owned h p n = list_all (owned h) [p..<p + n]"

definition libc_malloc :: "nat \<Rightarrow> host_memory \<Rightarrow> host_memory \<times> nat" where
  "libc_malloc n h =
     (let p = heap_break h in
      if heap_limit h < p + max n 1 then (h, 0)
      else (h\<lparr>blocks := (p, n) # blocks h, bytes := (\<lambda>a. if p \<le> a \<and> a < p + n then None else bytes h a),
              heap_break := p + max n 1\<rparr>, p))"

definition libc_free :: "nat \<Rightarrow> host_memory \<Rightarrow> host_memory result" where
  "libc_free p h =
     (if p = 0 then Inr h
      else if map_of (blocks h) p = None then Inl Out_of_bounds
      else Inr (h\<lparr>blocks := filter (\<lambda>(b, n). b \<noteq> p) (blocks h)\<rparr>))"

definition libc_memset :: "nat \<Rightarrow> int \<Rightarrow> nat \<Rightarrow> host_memory \<Rightarrow> host_memory result" where
  "libc_memset p v n h =
     (if range_owned h p n
      then Inr (h\<lparr>bytes := (\<lambda>a. if p \<le> a \<and> a < p + n then Some (of_int v) else bytes h a)\<rparr>)
      else Inl Out_of_bounds)"

definition libc_memcpy :: "nat \<Rightarrow> nat \<Rightarrow> nat \<Rightarrow> host_memory \<Rightarrow> host_memory result" where
  "libc_memcpy d s n h =
     (if range_owned h d n \<and> range_owned h s n \<and> (n = 0 \<or> d + n \<le> s \<or> s + n \<le> d)
      then Inr (h\<lparr>bytes := (\<lambda>a. if d \<le> a \<and> a < d + n then bytes h (s + (a - d)) else bytes h a)\<rparr>)
      else Inl Out_of_bounds)"

definition libc_realloc :: "nat \<Rightarrow> nat \<Rightarrow> host_memory \<Rightarrow> (host_memory \<times> nat) result" where
  "libc_realloc p n h =
     (if p = 0 then Inr (libc_malloc n h)
      else case map_of (blocks h) p of
        None \<Rightarrow> Inl Out_of_bounds
      | Some k \<Rightarrow>
          if n = 0 then res_bind (libc_free p h) (\<lambda>h1. Inr (h1, 0))
          else let (h1, q) = libc_malloc n h in
            if q = 0 then Inr (h, 0)
            else res_bind (libc_memcpy q p (min k n) h1) (\<lambda>h2. res_bind (libc_free p h2) (\<lambda>h3. Inr (h3, q))))"

section \<open>The callbacks\<close>

datatype system_func = Allocation_func | Reallocation_func | Free_func | Memset_func | Copy_func

definition allocation_func :: "nat \<Rightarrow> nat \<Rightarrow> host_memory \<Rightarrow> (host_memory \<times> nat) result" where
  "allocation_func nbytes l h =
     (let (h1, ptr) = libc_malloc nbytes h in
      if ptr \<noteq> 0 then res_bind (libc_memset ptr 42 1 h1) (\<lambda>h2. Inr (h2, ptr)) else Inr (h1, ptr))"

definition reallocation_func :: "nat \<Rightarrow> nat \<Rightarrow> nat \<Rightarrow> host_memory \<Rightarrow> (host_memory \<times> nat) result" where
  "reallocation_func old nbytes l = libc_realloc old nbytes"

definition free_func :: "nat \<Rightarrow> nat \<Rightarrow> host_memory \<Rightarrow> host_memory result" where
  "free_func ptr l = libc_free ptr"

definition memset_func :: "nat \<Rightarrow> int \<Rightarrow> nat \<Rightarrow> nat \<Rightarrow> host_memory \<Rightarrow> host_memory result" where
  "memset_func ptr val nbytes l = libc_memset ptr val nbytes"

definition copy_func :: "nat \<Rightarrow> nat \<Rightarrow> nat \<Rightarrow> nat \<Rightarrow> nat \<Rightarrow> host_memory \<Rightarrow> host_memory result" where
  "copy_func dst_locale dst src_locale src nbytes = libc_memcpy dst src nbytes"

text \<open>Calling a function pointer; a pointer to a function of another type is never registered.\<close>

definition system_callbacks :: "(system_func, host_memory) mem_callbacks" where
  "system_callbacks =
     \<lparr>alloc_cb = (\<lambda>f n l h. if f = Allocation_func then allocation_func n l h else Inl Null_deref),
      realloc_cb = (\<lambda>f p n l h. if f = Reallocation_func then reallocation_func p n l h else Inl Null_deref),
      free_cb = (\<lambda>f p l h. if f = Free_func then free_func p l h else Inl Null_deref),
      memset_cb = (\<lambda>f p v n l h. if f = Memset_func then memset_func p v n l h else Inl Null_deref),
      copy_cb = (\<lambda>f dl d sl s n h. if f = Copy_func then copy_func dl d sl s n h else Inl Null_deref)\<rparr>"

section \<open>Initialisation\<close>

record system_ids =
  l1_locale_id :: nat
  l2_locale_id :: nat
  l3_locale_id :: nat
  sysmem_locale_id :: nat

definition system_pre_initialize :: "'g locality_state \<Rightarrow> 'g locality_state \<times> system_ids" where
  "system_pre_initialize st =
     (let (st1, i1) = hclib_add_known_locale_type st ''L1'';
          (st2, i2) = hclib_add_known_locale_type st1 ''L2'';
          (st3, i3) = hclib_add_known_locale_type st2 ''L3'';
          (st4, i4) = hclib_add_known_locale_type st3 ''sysmem''
      in (st4, \<lparr>l1_locale_id = i1, l2_locale_id = i2, l3_locale_id = i3, sysmem_locale_id = i4\<rparr>))"

text \<open>The four calls that register a callback for all types of the module.\<close>

definition for_all_ids :: "(int \<Rightarrow> 'm \<Rightarrow> 'm result) \<Rightarrow> system_ids \<Rightarrow> 'm \<Rightarrow> 'm result" where
  "for_all_ids reg ids mt =
     res_bind (reg (int (l1_locale_id ids)) mt) (\<lambda>mt1.
     res_bind (reg (int (l2_locale_id ids)) mt1) (\<lambda>mt2.
     res_bind (reg (int (l3_locale_id ids)) mt2) (\<lambda>mt3.
     reg (int (sysmem_locale_id ids)) mt3)))"

definition system_post_initialize :: "system_ids \<Rightarrow> system_func mem_state \<Rightarrow> system_func mem_state result" where
  "system_post_initialize ids mt =
     res_bind (for_all_ids (\<lambda>i. hclib_register_alloc_func i (Some Allocation_func)) ids mt) (\<lambda>mt1.
     res_bind (for_all_ids (\<lambda>i. hclib_register_realloc_func i (Some Reallocation_func)) ids mt1) (\<lambda>mt2.
     res_bind (for_all_ids (\<lambda>i. hclib_register_free_func i (Some Free_func)) ids mt2) (\<lambda>mt3.
     res_bind (for_all_ids (\<lambda>i. hclib_register_memset_func i (Some Memset_func)) ids mt3) (\<lambda>mt4.
     for_all_ids (\<lambda>i. hclib_register_copy_func i (Some Copy_func) MAY_USE) ids mt4))))"

definition get_closest_cpu_locale :: "system_ids \<Rightarrow> ('a, 'i) locality_graph \<Rightarrow> worker_paths \<Rightarrow> nat option result" where
  "get_closest_cpu_locale ids g w =
     res_bind (hclib_get_closest_locale w) (\<lambda>l.
     hclib_get_closest_locale_of_types g l
       (map int [l1_locale_id ids, l2_locale_id ids, l3_locale_id ids, sysmem_locale_id ids]))"

section \<open>Blocks\<close>

definition mem_ok :: "host_memory \<Rightarrow> bool" where
  "mem_ok h \<longleftrightarrow> 0 < heap_break h \<and> sorted_wrt (\<lambda>(b, n) (c, k). c + max k 1 \<le> b) (blocks h) \<and>
     (\<forall>(b, n) \<in> set (blocks h). 0 < b \<and> b + max n 1 \<le> heap_break h)"

text \<open>What a state stands for: the contents of every live block.\<close>

definition contents :: "host_memory \<Rightarrow> nat \<rightharpoonup> byte option list" where
  "contents h p = map_option (\<lambda>n. map (bytes h) [p..<p + n]) (map_of (blocks h) p)"

lemma mem_ok_block: "mem_ok h \<Longrightarrow> map_of (blocks h) b = Some n \<Longrightarrow> 0 < b \<and> b + max n 1 \<le> heap_break h"
  by (fastforce simp: mem_ok_def dest: map_of_SomeD)

lemma apart_in_list:
  "sorted_wrt (\<lambda>(b, n) (c, k). c + max k 1 \<le> b) xs \<Longrightarrow> (b, n) \<in> set xs \<Longrightarrow> (c, k) \<in> set xs \<Longrightarrow> b \<noteq> c \<Longrightarrow>
   b + n \<le> (c :: nat) \<or> c + k \<le> b"
  by (induction xs) fastforce+

lemma blocks_apart:
  assumes "mem_ok h" "map_of (blocks h) b = Some n" "map_of (blocks h) c = Some k" "b \<noteq> c"
  shows "b + n \<le> c \<or> c + k \<le> b"
  by (rule apart_in_list [of "blocks h"]) (use assms in \<open>auto simp: mem_ok_def dest: map_of_SomeD\<close>)

lemma range_owned_block: "map_of (blocks h) b = Some n \<Longrightarrow> b \<le> p \<Longrightarrow> p + k \<le> b + n \<Longrightarrow> range_owned h p k"
  by (auto simp: range_owned_def owned_def list_all_iff list_ex_iff dest!: map_of_SomeD intro!: bexI [of _ "(b, n)"])

lemma map_eq_upt: "map f [p..<p + n] = map g [p..<p + n] \<longleftrightarrow> (\<forall>a. p \<le> a \<and> a < p + n \<longrightarrow> f a = g a)"
  by (auto simp: map_eq_conv)

text \<open>Writing \<open>n\<close> bytes at the start of a block changes the contents of this block only.\<close>

lemma contents_write:
  assumes ok: "mem_ok h" and p: "map_of (blocks h) p = Some k" and n: "n \<le> k"
    and w: "\<And>a. p \<le> a \<Longrightarrow> a < p + n \<Longrightarrow> g a = xs ! (a - p)" "\<And>a. \<not> (p \<le> a \<and> a < p + n) \<Longrightarrow> g a = bytes h a" "length xs = n"
  shows "contents (h\<lparr>bytes := g\<rparr>) = (contents h)(p \<mapsto> xs @ drop n (the (contents h p)))"
proof -
  have other: "map g [b..<b + m] = map (bytes h) [b..<b + m]" if "map_of (blocks h) b = Some m" "b \<noteq> p" for b m
    using blocks_apart [OF ok that(1) p that(2)] n w(2) unfolding map_eq_upt by (metis add_leD1 le_trans nat_add_left_cancel_le not_less)
  have "map g [p..<p + k] = xs @ drop n (map (bytes h) [p..<p + k])"
    by (rule nth_equalityI) (use n w in \<open>auto simp: nth_append\<close>)
  then show ?thesis
    using p other by (intro ext) (auto simp: contents_def intro!: map_option_cong)
qed

lemma malloc_contents:
  assumes ok: "mem_ok h" and run: "libc_malloc n h = (h', p)" "p \<noteq> 0"
  shows "mem_ok h'" "map_of (blocks h) p = None" "map_of (blocks h') p = Some n" "contents h' = (contents h)(p \<mapsto> replicate n None)"
proof -
  have p: "p = heap_break h" and h': "h' = h\<lparr>blocks := (p, n) # blocks h, bytes := (\<lambda>a. if p \<le> a \<and> a < p + n then None else bytes h a),
      heap_break := p + max n 1\<rparr>" using run by (auto simp: libc_malloc_def Let_def split: if_splits)
  have below: "b + max m 1 \<le> p" if "(b, m) \<in> set (blocks h)" for b m using ok that p by (auto simp: mem_ok_def)
  show "mem_ok h'" using ok below p by (fastforce simp: mem_ok_def h' split: prod.splits)
  show none: "map_of (blocks h) p = None" using below by (fastforce simp: map_of_eq_None_iff)
  show "map_of (blocks h') p = Some n" by (simp add: h')
  have "map (bytes h') [b..<b + m] = map (bytes h) [b..<b + m]" if "map_of (blocks h) b = Some m" for b m
    using below [of b m] that unfolding map_eq_upt by (auto simp: h' dest: map_of_SomeD)
  moreover have "map (bytes h') [p..<p + n] = replicate n None" by (rule nth_equalityI) (auto simp: h')
  ultimately show "contents h' = (contents h)(p \<mapsto> replicate n None)" using none by (intro ext) (auto simp: contents_def h' intro!: map_option_cong)
qed

lemma free_contents:
  assumes "mem_ok h" "p \<noteq> 0" "map_of (blocks h) p \<noteq> None"
  shows "\<exists>h'. libc_free p h = Inr h' \<and> mem_ok h' \<and> contents h' = (contents h)(p := None)"
proof -
  have m: "map_of (filter (\<lambda>(b, n). b \<noteq> p) xs) b = (if b = p then None else map_of xs b)" for xs :: "(nat \<times> nat) list" and b
    by (induction xs) auto
  show ?thesis using assms
    by (auto simp: libc_free_def mem_ok_def sorted_wrt_filter contents_def m fun_eq_iff)
qed

lemma contents_Some: "contents h p = Some xs \<Longrightarrow> map_of (blocks h) p = Some (length xs)"
  by (auto simp: contents_def)

lemma memset_contents:
  assumes "mem_ok h" "contents h p = Some xs" "n \<le> length xs"
  shows "\<exists>h'. libc_memset p v n h = Inr h' \<and> mem_ok h' \<and> contents h' = (contents h)(p \<mapsto> replicate n (Some (of_int v)) @ drop n xs)"
proof -
  note p = contents_Some [OF assms(2)]
  have "range_owned h p n" using range_owned_block [OF p, of p n] assms(3) by simp
  moreover let ?g = "\<lambda>a. if p \<le> a \<and> a < p + n then Some (of_int v) else bytes h a"
  have "contents (h\<lparr>bytes := ?g\<rparr>) = (contents h)(p \<mapsto> replicate n (Some (of_int v)) @ drop n (the (contents h p)))"
    by (rule contents_write [OF assms(1) p assms(3)]) auto
  ultimately show ?thesis using assms(1,2) by (simp add: libc_memset_def mem_ok_def)
qed

lemma memcpy_contents:
  assumes "mem_ok h" "contents h d = Some ys" "contents h s = Some xs" "d \<noteq> s" "n \<le> length xs" "n \<le> length ys"
  shows "\<exists>h'. libc_memcpy d s n h = Inr h' \<and> mem_ok h' \<and> contents h' = (contents h)(d \<mapsto> take n xs @ drop n ys) \<and> blocks h' = blocks h"
proof -
  note d = contents_Some [OF assms(2)] and s = contents_Some [OF assms(3)]
  have ok: "range_owned h d n" "range_owned h s n" using range_owned_block [OF d, of d n] range_owned_block [OF s, of s n] assms(5,6) by auto
  have "d + n \<le> s \<or> s + n \<le> d" using blocks_apart [OF assms(1) d s assms(4)] assms(5,6) by auto
  then have run: "libc_memcpy d s n h = Inr (h\<lparr>bytes := (\<lambda>a. if d \<le> a \<and> a < d + n then bytes h (s + (a - d)) else bytes h a)\<rparr>)"
    using ok by (auto simp: libc_memcpy_def)
  have xs: "xs = map (bytes h) [s..<s + length xs]" using assms(3) s by (simp add: contents_def)
  have byte: "bytes h (s + (a - d)) = xs ! (a - d)" if "d \<le> a" "a < d + n" for a
    using arg_cong [OF xs, of "\<lambda>ys. ys ! (a - d)"] that assms(5) by simp
  let ?g = "\<lambda>a. if d \<le> a \<and> a < d + n then bytes h (s + (a - d)) else bytes h a"
  have "contents (h\<lparr>bytes := ?g\<rparr>) = (contents h)(d \<mapsto> take n xs @ drop n (the (contents h d)))"
    by (rule contents_write [OF assms(1) d assms(6)]) (use byte assms(5) in \<open>auto simp del: add_diff_assoc\<close>)
  then show ?thesis using assms(1,2) run by (simp add: mem_ok_def)
qed

lemma malloc_fails: "libc_malloc n h = (h', 0) \<Longrightarrow> mem_ok h \<Longrightarrow> h' = h \<and> heap_limit h < heap_break h + max n 1"
  by (auto simp: libc_malloc_def mem_ok_def Let_def split: if_splits)

lemma allocation_contents:
  assumes "mem_ok h" "0 < n"
  shows "\<exists>h' p. allocation_func n l h = Inr (h', p) \<and>
    (if p = 0 then h' = h \<and> heap_limit h < heap_break h + n
     else mem_ok h' \<and> contents h p = None \<and> contents h' = (contents h)(p \<mapsto> Some 42 # replicate (n - 1) None))"
proof -
  obtain h1 p where m: "libc_malloc n h = (h1, p)" by fastforce
  show ?thesis
  proof (cases "p = 0")
    case True
    then show ?thesis using m malloc_fails [of n h h1] assms by (auto simp: allocation_func_def)
  next
    case False
    note M = malloc_contents [OF assms(1) m False]
    have "contents h1 p = Some (replicate n None)" using M(4) by simp
    from memset_contents [OF M(1) this, of 1 42] assms(2) obtain h2 where
      "libc_memset p 42 1 h1 = Inr h2" "mem_ok h2" "contents h2 = (contents h1)(p \<mapsto> Some 42 # replicate (n - 1) None)"
      by (auto simp: drop_replicate)
    then show ?thesis using m M(2,4) False by (auto simp: allocation_func_def contents_def)
  qed
qed

lemma allocation_zero:
  assumes "mem_ok h"
  shows "allocation_func 0 l h = (if heap_limit h < heap_break h + 1 then Inr (h, 0) else Inl Out_of_bounds)"
proof -
  have "\<not> (b \<le> heap_break h \<and> heap_break h < b + k)" if "(b, k) \<in> set (blocks h)" for b k
    using assms that by (fastforce simp: mem_ok_def)
  then show ?thesis using assms
    by (auto simp: allocation_func_def libc_malloc_def libc_memset_def Let_def range_owned_def owned_def list_ex_iff mem_ok_def)
qed

lemma reallocation_contents:
  assumes "mem_ok h" "contents h p = Some xs" "0 < n"
  shows "\<exists>h' q. reallocation_func p n l h = Inr (h', q) \<and>
    (if q = 0 then h' = h \<and> heap_limit h < heap_break h + n
     else mem_ok h' \<and> contents h q = None \<and> contents h' = (contents h)(p := None, q \<mapsto> take n xs @ replicate (n - length xs) None))"
proof -
  note p = contents_Some [OF assms(2)]
  have p0: "p \<noteq> 0" using mem_ok_block [OF assms(1) p] by simp
  obtain h1 q where m: "libc_malloc n h = (h1, q)" by fastforce
  show ?thesis
  proof (cases "q = 0")
    case True
    then show ?thesis using m malloc_fails [of n h h1] assms p p0 by (auto simp: reallocation_func_def libc_realloc_def)
  next
    case False
    note M = malloc_contents [OF assms(1) m False]
    have qp: "q \<noteq> p" using M(2) p by auto
    have take_min: "take (min (length xs) n) xs = take n xs" "n - min (length xs) n = n - length xs" by (auto simp: min_def)
    have c: "contents h1 q = Some (replicate n None)" "contents h1 p = Some xs" using M(4) assms(2) qp by simp_all
    obtain h2 where h2: "libc_memcpy q p (min (length xs) n) h1 = Inr h2" "mem_ok h2"
        "contents h2 = (contents h1)(q \<mapsto> take n xs @ replicate (n - length xs) None)" "blocks h2 = blocks h1"
      using memcpy_contents [OF M(1) c qp, of "min (length xs) n"]
      by (auto simp: drop_replicate take_min)
    have "contents h2 p = Some xs" using h2(3) c(2) qp by simp
    then obtain h3 where h3: "libc_free p h2 = Inr h3" "mem_ok h3" "contents h3 = (contents h2)(p := None)"
      using free_contents [OF h2(2) p0] by (auto simp: contents_def)
    have "contents h3 = (contents h)(p := None, q \<mapsto> take n xs @ replicate (n - length xs) None)"
      using h3(3) h2(3) M(4) qp by (auto simp: fun_eq_iff)
    then show ?thesis using m p p0 False h2(1) h3 assms(3) M(2) by (auto simp: reallocation_func_def libc_realloc_def contents_def)
  qed
qed

section \<open>Registration\<close>

text \<open>A type that is made known has one identifier, and the identifiers of other types stay.\<close>

lemma add_known_type:
  assumes "hclib_add_known_locale_type st l = (st', i)" "distinct (known_locale_types st)"
  shows "i < length (known_locale_types st')" "known_locale_types st' ! i = l" "distinct (known_locale_types st')"
    "\<And>j. j < length (known_locale_types st) \<Longrightarrow> j < length (known_locale_types st') \<and> known_locale_types st' ! j = known_locale_types st ! j"
  using assms by (auto simp: hclib_add_known_locale_type_def index_of_label_None nth_append split: option.splits dest: index_of_label_nth)

definition id_list :: "system_ids \<Rightarrow> nat list" where
  "id_list ids = [l1_locale_id ids, l2_locale_id ids, l3_locale_id ids, sysmem_locale_id ids]"

definition cpu_labels :: "string list" where
  "cpu_labels = [''L1'', ''L2'', ''L3'', ''sysmem'']"

lemma pre_initialize_ids:
  assumes "system_pre_initialize st = (st', ids)" "distinct (known_locale_types st)"
  shows "distinct (known_locale_types st')" "map (nth (known_locale_types st')) (id_list ids) = cpu_labels"
    "list_all (\<lambda>i. i < length (known_locale_types st')) (id_list ids)"
proof -
  obtain st1 i1 st2 i2 st3 i3 i4 where s: "hclib_add_known_locale_type st ''L1'' = (st1, i1)"
      "hclib_add_known_locale_type st1 ''L2'' = (st2, i2)" "hclib_add_known_locale_type st2 ''L3'' = (st3, i3)"
      "hclib_add_known_locale_type st3 ''sysmem'' = (st', i4)"
    and ids: "ids = \<lparr>l1_locale_id = i1, l2_locale_id = i2, l3_locale_id = i3, sysmem_locale_id = i4\<rparr>"
    using assms(1) by (auto simp: system_pre_initialize_def split: prod.splits)
  note a = add_known_type [OF s(1) assms(2)]
  note b = add_known_type [OF s(2) a(3)]
  note c = add_known_type [OF s(3) b(3)]
  note d = add_known_type [OF s(4) c(3)]
  show "distinct (known_locale_types st')" by (rule d(3))
  show "map (nth (known_locale_types st')) (id_list ids) = cpu_labels" "list_all (\<lambda>i. i < length (known_locale_types st')) (id_list ids)"
    using a(1,2,4) b(1,2,4) c(1,2,4) d(1,2,4) by (simp_all add: id_list_def cpu_labels_def ids)
qed

text \<open>Four registrations in one table, through a function that updates it.\<close>

definition entry :: "system_ids \<Rightarrow> 'f \<Rightarrow> nat \<rightharpoonup> 'f \<times> int" where
  "entry ids f i = (if i \<in> set (id_list ids) then Some (f, MAY_USE) else None)"

lemma register_at_ids:
  fixes mt :: "'f mem_state"
  assumes reg: "\<And>i mt. reg i mt = res_bind (hclib_register_func (get mt) i (Some f) MAY_USE) (\<lambda>l. Inr (set' l mt))"
    and get: "\<And>l mt. get (set' l mt) = Some l" and other: "\<And>l mt. rest (set' l mt) = rest mt"
    and ids: "distinct (id_list ids)" and empty: "get mt = None"
  shows "\<exists>mt'. for_all_ids reg ids mt = Inr mt' \<and> fptr_wf (get mt') \<and> fptr_abs (get mt') = entry ids f \<and> rest mt' = rest mt"
proof -
  have step: "\<exists>mt'. reg (int i) mt = Inr mt' \<and> fptr_wf (get mt') \<and> fptr_abs (get mt') = (fptr_abs (get mt))(i \<mapsto> (f, MAY_USE)) \<and> rest mt' = rest mt"
    if "fptr_wf (get mt)" "fptr_abs (get mt) i = None" for mt i
    using register_fresh_aux [OF that(1) _ that(2), of MAY_USE f] get other by (auto simp: reg)
  have wf: "fptr_wf (get mt)" and none: "fptr_abs (get mt) = Map.empty" using empty by (simp_all add: fptr_wf_def fptr_abs_def fun_eq_iff)
  obtain m1 where m1: "reg (int (l1_locale_id ids)) mt = Inr m1" "fptr_wf (get m1)" "fptr_abs (get m1) = [l1_locale_id ids \<mapsto> (f, MAY_USE)]" "rest m1 = rest mt"
    using step [OF wf, of "l1_locale_id ids"] none by auto
  obtain m2 where m2: "reg (int (l2_locale_id ids)) m1 = Inr m2" "fptr_wf (get m2)" "fptr_abs (get m2) = (fptr_abs (get m1))(l2_locale_id ids \<mapsto> (f, MAY_USE))" "rest m2 = rest mt"
    using step [OF m1(2), of "l2_locale_id ids"] m1(3,4) ids by (auto simp: id_list_def)
  obtain m3 where m3: "reg (int (l3_locale_id ids)) m2 = Inr m3" "fptr_wf (get m3)" "fptr_abs (get m3) = (fptr_abs (get m2))(l3_locale_id ids \<mapsto> (f, MAY_USE))" "rest m3 = rest mt"
    using step [OF m2(2), of "l3_locale_id ids"] m1(3) m2(3,4) ids by (auto simp: id_list_def)
  obtain m4 where m4: "reg (int (sysmem_locale_id ids)) m3 = Inr m4" "fptr_wf (get m4)" "fptr_abs (get m4) = (fptr_abs (get m3))(sysmem_locale_id ids \<mapsto> (f, MAY_USE))" "rest m4 = rest mt"
    using step [OF m3(2), of "sysmem_locale_id ids"] m1(3) m2(3) m3(3,4) ids by (auto simp: id_list_def)
  have "fptr_abs (get m4) = entry ids f" unfolding m4(3) m3(3) m2(3) m1(3) by (auto simp: entry_def id_list_def fun_eq_iff)
  then show ?thesis using m1(1) m2(1) m3(1) m4 by (auto simp: for_all_ids_def)
qed

definition no_tables :: "'f mem_state" where
  "no_tables = \<lparr>alloc_registrations = None, realloc_registrations = None, free_registrations = None,
     memset_registrations = None, copy_registrations = None\<rparr>"

lemma post_initialize_tables:
  assumes "distinct (id_list ids)"
  shows "\<exists>mt. system_post_initialize ids no_tables = Inr mt \<and> fptr_wf (alloc_registrations mt) \<and> fptr_wf (realloc_registrations mt) \<and>
    fptr_wf (free_registrations mt) \<and> fptr_wf (memset_registrations mt) \<and> fptr_wf (copy_registrations mt) \<and>
    fptr_abs (alloc_registrations mt) = entry ids Allocation_func \<and> fptr_abs (realloc_registrations mt) = entry ids Reallocation_func \<and>
    fptr_abs (free_registrations mt) = entry ids Free_func \<and> fptr_abs (memset_registrations mt) = entry ids Memset_func \<and>
    fptr_abs (copy_registrations mt) = entry ids Copy_func"
proof -
  obtain m1 where m1: "for_all_ids (\<lambda>i. hclib_register_alloc_func i (Some Allocation_func)) ids no_tables = Inr m1" "fptr_wf (alloc_registrations m1)" "fptr_abs (alloc_registrations m1) = entry ids Allocation_func"
      "realloc_registrations m1 = realloc_registrations no_tables" "free_registrations m1 = free_registrations no_tables" "memset_registrations m1 = memset_registrations no_tables" "copy_registrations m1 = copy_registrations no_tables"
    using register_at_ids [of "(\<lambda>i. hclib_register_alloc_func i (Some Allocation_func))" "alloc_registrations" Allocation_func "\<lambda>l m. m\<lparr>alloc_registrations := Some l\<rparr>" "(\<lambda>m. (realloc_registrations m, free_registrations m, memset_registrations m, copy_registrations m))" ids no_tables] assms
    by (auto simp: hclib_register_alloc_func_def no_tables_def)
  obtain m2 where m2: "for_all_ids (\<lambda>i. hclib_register_realloc_func i (Some Reallocation_func)) ids m1 = Inr m2" "fptr_wf (realloc_registrations m2)" "fptr_abs (realloc_registrations m2) = entry ids Reallocation_func"
      "alloc_registrations m2 = alloc_registrations m1" "free_registrations m2 = free_registrations m1" "memset_registrations m2 = memset_registrations m1" "copy_registrations m2 = copy_registrations m1"
    using register_at_ids [of "(\<lambda>i. hclib_register_realloc_func i (Some Reallocation_func))" "realloc_registrations" Reallocation_func "\<lambda>l m. m\<lparr>realloc_registrations := Some l\<rparr>" "(\<lambda>m. (alloc_registrations m, free_registrations m, memset_registrations m, copy_registrations m))" ids m1] assms m1(4-7)
    by (auto simp: hclib_register_realloc_func_def no_tables_def)
  obtain m3 where m3: "for_all_ids (\<lambda>i. hclib_register_free_func i (Some Free_func)) ids m2 = Inr m3" "fptr_wf (free_registrations m3)" "fptr_abs (free_registrations m3) = entry ids Free_func"
      "alloc_registrations m3 = alloc_registrations m2" "realloc_registrations m3 = realloc_registrations m2" "memset_registrations m3 = memset_registrations m2" "copy_registrations m3 = copy_registrations m2"
    using register_at_ids [of "(\<lambda>i. hclib_register_free_func i (Some Free_func))" "free_registrations" Free_func "\<lambda>l m. m\<lparr>free_registrations := Some l\<rparr>" "(\<lambda>m. (alloc_registrations m, realloc_registrations m, memset_registrations m, copy_registrations m))" ids m2] assms m1(4-7) m2(4-7)
    by (auto simp: hclib_register_free_func_def no_tables_def)
  obtain m4 where m4: "for_all_ids (\<lambda>i. hclib_register_memset_func i (Some Memset_func)) ids m3 = Inr m4" "fptr_wf (memset_registrations m4)" "fptr_abs (memset_registrations m4) = entry ids Memset_func"
      "alloc_registrations m4 = alloc_registrations m3" "realloc_registrations m4 = realloc_registrations m3" "free_registrations m4 = free_registrations m3" "copy_registrations m4 = copy_registrations m3"
    using register_at_ids [of "(\<lambda>i. hclib_register_memset_func i (Some Memset_func))" "memset_registrations" Memset_func "\<lambda>l m. m\<lparr>memset_registrations := Some l\<rparr>" "(\<lambda>m. (alloc_registrations m, realloc_registrations m, free_registrations m, copy_registrations m))" ids m3] assms m1(4-7) m2(4-7) m3(4-7)
    by (auto simp: hclib_register_memset_func_def no_tables_def)
  obtain m5 where m5: "for_all_ids (\<lambda>i. hclib_register_copy_func i (Some Copy_func) MAY_USE) ids m4 = Inr m5" "fptr_wf (copy_registrations m5)" "fptr_abs (copy_registrations m5) = entry ids Copy_func"
      "alloc_registrations m5 = alloc_registrations m4" "realloc_registrations m5 = realloc_registrations m4" "free_registrations m5 = free_registrations m4" "memset_registrations m5 = memset_registrations m4"
    using register_at_ids [of "(\<lambda>i. hclib_register_copy_func i (Some Copy_func) MAY_USE)" "copy_registrations" Copy_func "\<lambda>l m. m\<lparr>copy_registrations := Some l\<rparr>" "(\<lambda>m. (alloc_registrations m, realloc_registrations m, free_registrations m, memset_registrations m))" ids m4] assms m1(4-7) m2(4-7) m3(4-7) m4(4-7)
    by (auto simp: hclib_register_copy_func_def no_tables_def)
  show ?thesis using m1 m2 m3 m4 m5 by (auto simp: system_post_initialize_def)
qed

section \<open>Properties\<close>

text \<open>
  The module makes the four types of host memory known, whatever types are known before, and its
  second function then registers without abort its callback of each of the five operations for
  exactly the types with these four labels.
\<close>

lemma system_module_registers:
  assumes pre: "system_pre_initialize st = (st', ids)" and d: "distinct (known_locale_types st)"
  shows "\<exists>mt. system_post_initialize ids no_tables = Inr mt \<and>
    (\<forall>(tab, f) \<in> set [(alloc_registrations mt, Allocation_func), (realloc_registrations mt, Reallocation_func),
        (free_registrations mt, Free_func), (memset_registrations mt, Memset_func), (copy_registrations mt, Copy_func)].
      fptr_wf tab \<and> (\<forall>i. fptr_abs tab i = (if i < length (known_locale_types st') \<and> known_locale_types st' ! i \<in> {''L1'', ''L2'', ''L3'', ''sysmem''}
         then Some (f, MAY_USE) else None)))"
proof -
  note P = pre_initialize_ids [OF pre d]
  have "distinct (map (nth (known_locale_types st')) (id_list ids))" unfolding P(2) by (simp add: cpu_labels_def)
  then have ids: "distinct (id_list ids)" by (simp add: distinct_map)
  have "i \<in> set (id_list ids) \<longleftrightarrow> i < length (known_locale_types st') \<and> known_locale_types st' ! i \<in> set cpu_labels" for i
  proof
    assume a: "i < length (known_locale_types st') \<and> known_locale_types st' ! i \<in> set cpu_labels"
    then obtain j where "j \<in> set (id_list ids)" "known_locale_types st' ! i = known_locale_types st' ! j" unfolding P(2) [symmetric] by auto
    then show "i \<in> set (id_list ids)" using a P(1,3) by (auto simp: list_all_iff nth_eq_iff_index_eq)
  qed (use P(2,3) in \<open>auto simp: list_all_iff simp flip: P(2)\<close>)
  then have "entry ids f i = (if i < length (known_locale_types st') \<and> known_locale_types st' ! i \<in> {''L1'', ''L2'', ''L3'', ''sysmem''}
      then Some (f, MAY_USE) else None)" for f :: system_func and i by (simp add: entry_def cpu_labels_def)
  then show ?thesis using post_initialize_tables [OF ids] by auto
qed


text \<open>Two blocks of two bytes, the first written.\<close>

definition sample_memory :: host_memory where
  "sample_memory = \<lparr>blocks = [(10, 2), (8, 2)], bytes = [8 \<mapsto> 1, 9 \<mapsto> 2], heap_break = 12, heap_limit = 100\<rparr>"


end
