(* ===== verification/Pending_Ops.thy ===== *)
theory Pending_Ops
  imports Hclib_Prelude
begin

text \<open>
  \<^verbatim>\<open>src/modules/common/hclib-module-common.h\<close>: the list of pending operations that the communication modules share.
  \<^verbatim>\<open>append_to_pending\<close> pushes an operation on the list without a lock, from any thread; the thread that finds the list
  empty spawns a task that polls. \<^verbatim>\<open>poll_on_pending\<close> walks the list, tests each operation with a callback, unlinks
  the complete ones and satisfies their promises, and ends when it has emptied the list. Both are
  modelled at the grain of their accesses to shared memory: the head and the links of the list.
  The fields \<^verbatim>\<open>next\<close> of listed operations are written by the polling task only, which is why a
  read and a write of such a field are one step. An address may be used again once its
  operation is complete.
\<close>

section \<open>Model\<close>

record pending =
  p_head :: "nat option"
  p_next :: "nat \<Rightarrow> nat option"

text \<open>
  Where a polling task is: at the start of a walk, before the test of an operation, before the
  compare-and-swap of the head, before \<^verbatim>\<open>old_head->next = next\<close>, before \<^verbatim>\<open>prev->next = next\<close>, before the promise is put, at the
  end of an iteration, and at the end of a walk. The last argument is \<^verbatim>\<open>pending_list_non_empty\<close>.
\<close>

datatype poll_pc =
    P_start
  | P_test "nat option" nat bool
  | P_cas nat "nat option" bool
  | P_fix nat nat "nat option" bool
  | P_unlink nat nat "nat option" bool
  | P_complete "nat option" nat "nat option" bool
  | P_next "nat option" "nat option" bool
  | P_end bool
  | P_exit

text \<open>One step of \<^verbatim>\<open>poll_on_pending\<close>; \<open>test\<close> is what the callback answers now.\<close>

fun poll_step :: "(nat \<Rightarrow> bool) \<Rightarrow> pending \<Rightarrow> poll_pc \<Rightarrow> (pending \<times> poll_pc) result" where
  "poll_step test l P_start = (case p_head l of None \<Rightarrow> Inl Assert_failed | Some op \<Rightarrow> Inr (l, P_test None op True))"
| "poll_step test l (P_test prev op ne) =
     (if test op then Inr (l, case prev of None \<Rightarrow> P_cas op (p_next l op) ne | Some p \<Rightarrow> P_unlink p op (p_next l op) ne)
      else Inr (l, P_next (Some op) (p_next l op) ne))"
| "poll_step test l (P_cas op nxt ne) =
     (if p_head l = Some op then Inr (l\<lparr>p_head := nxt\<rparr>, P_complete None op nxt (nxt \<noteq> None))
      else res_bind (from_ptr (p_head l)) (\<lambda>old_head. Inr (l, P_fix old_head op nxt ne)))"
| "poll_step test l (P_fix old_head op nxt ne) =
     res_bind (c_assert (p_next l old_head = Some op)) (\<lambda>_.
     Inr (l\<lparr>p_next := (p_next l)(old_head := nxt)\<rparr>, P_complete (Some old_head) op nxt ne))"
| "poll_step test l (P_unlink prev op nxt ne) =
     res_bind (c_assert (p_next l prev = Some op)) (\<lambda>_.
     Inr (l\<lparr>p_next := (p_next l)(prev := nxt)\<rparr>, P_complete (Some prev) op nxt ne))"
| "poll_step test l (P_complete prev op nxt ne) = Inr (l, P_next prev nxt ne)"
| "poll_step test l (P_next prev op ne) = Inr (l, case op of None \<Rightarrow> P_end ne | Some x \<Rightarrow> P_test prev x ne)"
| "poll_step test l (P_end ne) = Inr (l, if ne then P_start else P_exit)"
| "poll_step test l P_exit = Inr (l, P_exit)"

text \<open>
  Where a thread is in \<^verbatim>\<open>append_to_pending\<close>: outside, before it reads the head, before its compare-and-swap, and
  before it spawns the polling task.
\<close>

datatype append_pc = A_idle | A_read nat | A_cas nat | A_spawn

fun append_step :: "pending \<Rightarrow> append_pc \<Rightarrow> pending \<times> append_pc" where
  "append_step l (A_read op) = (l\<lparr>p_next := (p_next l)(op := p_head l)\<rparr>, A_cas op)"
| "append_step l (A_cas op) =
     (if p_head l = p_next l op then (l\<lparr>p_head := Some op\<rparr>, if p_next l op = None then A_spawn else A_idle)
      else (l\<lparr>p_next := (p_next l)(op := p_head l)\<rparr>, A_cas op))"
| "append_step l A_spawn = (l, A_idle)"
| "append_step l A_idle = (l, A_idle)"

text \<open>The whole: the list, the polling tasks, the threads, and the operations that were ever given to the list and finished.\<close>

record pend_state =
  plist :: pending
  pollers :: "poll_pc list"
  appenders :: "append_pc list"
  started :: "nat multiset"
  finished :: "nat multiset"

definition pend_init :: "nat \<Rightarrow> pend_state" where
  "pend_init n = \<lparr>plist = \<lparr>p_head = None, p_next = (\<lambda>_. None)\<rparr>, pollers = [], appenders = replicate n A_idle,
     started = {#}, finished = {#}\<rparr>"

fun completed :: "poll_pc \<Rightarrow> nat multiset" where
  "completed (P_complete prev op nxt ne) = {#op#}"
| "completed _ = {#}"

inductive pend_step :: "pend_state \<Rightarrow> pend_state \<Rightarrow> bool" where
  call: "i < length (appenders s) \<Longrightarrow> appenders s ! i = A_idle \<Longrightarrow> op \<notin># started s - finished s \<Longrightarrow>
    pend_step s (s\<lparr>appenders := (appenders s)[i := A_read op], started := add_mset op (started s)\<rparr>)"
| append: "i < length (appenders s) \<Longrightarrow> append_step (plist s) (appenders s ! i) = (l', pc') \<Longrightarrow>
    pend_step s (s\<lparr>plist := l', appenders := (appenders s)[i := pc'],
      pollers := pollers s @ (if appenders s ! i = A_spawn then [P_start] else [])\<rparr>)"
| poll: "i < length (pollers s) \<Longrightarrow> poll_step test (plist s) (pollers s ! i) = Inr (l', pc') \<Longrightarrow>
    pend_step s (s\<lparr>plist := l', pollers := (pollers s)[i := pc'], finished := finished s + completed (pollers s ! i)\<rparr>)"

inductive pend_reach :: "nat \<Rightarrow> pend_state \<Rightarrow> bool" for n where
  init: "pend_reach n (pend_init n)"
| step: "pend_reach n s \<Longrightarrow> pend_step s s' \<Longrightarrow> pend_reach n s'"

section \<open>Lists in memory\<close>

fun linked :: "(nat \<Rightarrow> nat option) \<Rightarrow> nat option \<Rightarrow> nat list \<Rightarrow> bool" where
  "linked nx h [] \<longleftrightarrow> h = None"
| "linked nx h (x # xs) \<longleftrightarrow> h = Some x \<and> linked nx (nx x) xs"

lemma linked_upd: "x \<notin> set xs \<Longrightarrow> linked (nx(x := y)) h xs = linked nx h xs"
  by (induction xs arbitrary: h) auto

lemma linked_head: "linked nx h xs \<Longrightarrow> h = None \<longleftrightarrow> xs = []"
  by (cases xs) auto

lemma linked_head_in: "linked nx (Some x) xs \<Longrightarrow> x \<in> set xs"
  by (cases xs) auto

lemma linked_next_in: "linked nx h xs \<Longrightarrow> x \<in> set xs \<Longrightarrow> nx x = Some y \<Longrightarrow> y \<in> set xs"
proof (induction xs arbitrary: h)
  case (Cons z xs)
  then show ?case by (cases xs) auto
qed simp

lemma linked_no_self: "linked nx h xs \<Longrightarrow> distinct xs \<Longrightarrow> x \<in> set xs \<Longrightarrow> nx x \<noteq> Some x"
proof (induction xs arbitrary: h)
  case (Cons z xs)
  then show ?case by (cases xs) auto
qed simp

text \<open>Taking the element after \<open>p\<close> out of the list.\<close>

lemma linked_remove:
  assumes "linked nx h xs" "distinct xs" "p \<in> set xs" "nx p = Some op"
  shows "linked (nx(p := nx op)) h (remove1 op xs)"
  using assms
proof (induction xs arbitrary: h)
  case (Cons x xs)
  show ?case
  proof (cases "x = p")
    case True
    then obtain ys where "xs = op # ys" using Cons.prems by (cases xs) auto
    moreover from this have "linked (nx(p := nx op)) (nx op) ys"
      using Cons.prems True linked_upd [of p ys nx "nx op" "nx op"] by auto
    ultimately show ?thesis using Cons.prems True by (simp add: fun_upd_def)
  next
    case False
    then have "op \<in> set xs" using linked_next_in [of nx "nx x" xs p op] Cons.prems by auto
    then have "x \<noteq> op" using Cons.prems by auto
    then show ?thesis using Cons False by auto
  qed
qed simp

section \<open>Sums over threads\<close>

lemma sum_upd: "i < length xs \<Longrightarrow> (\<Sum>x\<in>#mset (xs[i := y]). f x) + f (xs ! i) = (\<Sum>x\<in>#mset xs. f x) + (f y :: 'b :: comm_monoid_add)"
proof (induction xs arbitrary: i)
  case (Cons x xs)
  then show ?case by (cases i) (auto simp: ac_simps)
qed simp

lemma count_upd:
  "i < length xs \<Longrightarrow> length (filter P (xs[i := y])) + of_bool (P (xs ! i)) = length (filter P xs) + of_bool (P y)"
proof (induction xs arbitrary: i)
  case (Cons x xs)
  then show ?case by (cases i) auto
qed simp

lemma mset_exchange: "a + b = c + d \<Longrightarrow> x + c = y + a \<Longrightarrow> x + b = y + (d :: 'a multiset)"
proof (rule multiset_eqI)
  fix k
  assume "a + b = c + d" "x + c = y + a"
  then have "count (a + b) k = count (c + d) k" "count (x + c) k = count (y + a) k" by simp_all
  then show "count (x + b) k = count (y + d) k" by simp
qed

section \<open>The invariant\<close>

text \<open>The poller that is responsible for the list; one that has emptied it only finishes its last operation.\<close>

fun live :: "poll_pc \<Rightarrow> bool" where
  "live (P_complete prev op nxt ne) = ne"
| "live (P_next prev op ne) = ne"
| "live (P_end ne) = ne"
| "live P_exit = False"
| "live _ = True"

definition advances :: "(nat \<Rightarrow> nat option) \<Rightarrow> nat list \<Rightarrow> nat option \<Rightarrow> nat option \<Rightarrow> bool \<Rightarrow> bool" where
  "advances nx xs prev nxt ne \<longleftrightarrow> (if ne then (\<forall>n. nxt = Some n \<longrightarrow> n \<in> set xs) \<and> (\<forall>p. prev = Some p \<longrightarrow> p \<in> set xs \<and> nx p = nxt)
     else nxt = None)"

fun poll_ok :: "(nat \<Rightarrow> nat option) \<Rightarrow> nat list \<Rightarrow> poll_pc \<Rightarrow> bool" where
  "poll_ok nx xs (P_test prev op ne) \<longleftrightarrow> op \<in> set xs \<and> ne \<and> (\<forall>p. prev = Some p \<longrightarrow> p \<in> set xs \<and> nx p = Some op)"
| "poll_ok nx xs (P_cas op nxt ne) \<longleftrightarrow> op \<in> set xs \<and> nx op = nxt \<and> ne"
| "poll_ok nx xs (P_fix old_head op nxt ne) \<longleftrightarrow> op \<in> set xs \<and> old_head \<in> set xs \<and> old_head \<noteq> op \<and> nx op = nxt \<and> ne"
| "poll_ok nx xs (P_unlink prev op nxt ne) \<longleftrightarrow> op \<in> set xs \<and> prev \<in> set xs \<and> nx prev = Some op \<and> nx op = nxt \<and> ne"
| "poll_ok nx xs (P_complete prev op nxt ne) \<longleftrightarrow> advances nx xs prev nxt ne"
| "poll_ok nx xs (P_next prev nxt ne) \<longleftrightarrow> advances nx xs prev nxt ne"
| "poll_ok nx xs _ \<longleftrightarrow> True"

fun appending :: "append_pc \<Rightarrow> nat multiset" where
  "appending (A_read op) = {#op#}"
| "appending (A_cas op) = {#op#}"
| "appending _ = {#}"

definition in_use :: "pend_state \<Rightarrow> nat list \<Rightarrow> nat multiset" where
  "in_use s xs = mset xs + (\<Sum>pc\<in>#mset (pollers s). completed pc) + (\<Sum>pc\<in>#mset (appenders s). appending pc)"

definition responsible :: "pend_state \<Rightarrow> nat" where
  "responsible s = length (filter live (pollers s)) + length (filter (\<lambda>pc. pc = A_spawn) (appenders s))"

definition pend_inv :: "pend_state \<Rightarrow> nat list \<Rightarrow> bool" where
  "pend_inv s xs \<longleftrightarrow> linked (p_next (plist s)) (p_head (plist s)) xs \<and> (\<forall>pc \<in> set (pollers s). poll_ok (p_next (plist s)) xs pc) \<and>
     responsible s = of_bool (xs \<noteq> []) \<and> started s = finished s + in_use s xs \<and> (\<forall>op. count (in_use s xs) op \<le> 1)"

lemma pend_invD:
  assumes "pend_inv s xs"
  shows "linked (p_next (plist s)) (p_head (plist s)) xs" "i < length (pollers s) \<Longrightarrow> poll_ok (p_next (plist s)) xs (pollers s ! i)"
    "responsible s = of_bool (xs \<noteq> [])" "started s = finished s + in_use s xs" "count (in_use s xs) op \<le> 1" "distinct xs"
proof -
  show "linked (p_next (plist s)) (p_head (plist s)) xs" "responsible s = of_bool (xs \<noteq> [])" "started s = finished s + in_use s xs"
    and c: "count (in_use s xs) op \<le> 1" for op using assms by (auto simp: pend_inv_def)
  show "poll_ok (p_next (plist s)) xs (pollers s ! i)" if "i < length (pollers s)" using assms that by (simp add: pend_inv_def)
  show "distinct xs" unfolding distinct_count_atmost_1
  proof
    fix a
    show "count (mset xs) a = (if a \<in> set xs then 1 else 0)"
    proof (cases "a \<in> set xs")
      case True
      then obtain k where "count (mset xs) a = Suc k" by (metis count_mset_0_iff not0_implies_Suc)
      then show ?thesis using c [of a] True by (simp add: in_use_def)
    qed simp
  qed
qed

lemma poll_ok_upd: "op \<notin> set xs \<Longrightarrow> poll_ok nx xs pc \<Longrightarrow> poll_ok (nx(op := y)) xs pc"
proof -
  assume a: "op \<notin> set xs" "poll_ok nx xs pc"
  have "(nx(op := y)) x = nx x" if "x \<in> set xs" for x using a(1) that by auto
  then show ?thesis using a(2) by (cases pc) (simp_all add: advances_def del: fun_upd_apply split: if_splits)
qed

lemma poll_ok_cons: "poll_ok nx xs pc \<Longrightarrow> poll_ok nx (op # xs) pc"
  by (cases pc) (auto simp: advances_def split: if_splits)

lemma poll_ok_dead: "\<not> live pc \<Longrightarrow> poll_ok nx xs pc \<Longrightarrow> poll_ok nx' xs' pc"
  by (cases pc) (auto simp: advances_def)

lemma others_dead:
  assumes "pend_inv s xs" "i < length (pollers s)" "live (pollers s ! i)" "j < length (pollers s)" "j \<noteq> i"
  shows "\<not> live (pollers s ! j)"
proof
  assume "live (pollers s ! j)"
  then have "{i, j} \<subseteq> {k. k < length (pollers s) \<and> live (pollers s ! k)}" using assms by auto
  then have "card {i, j} \<le> length (filter live (pollers s))" unfolding length_filter_conv_card by (rule card_mono [rotated]) simp
  then show False using pend_invD(3) [OF assms(1)] assms(5) by (simp add: responsible_def of_bool_def split: if_splits)
qed

section \<open>Every step keeps the invariant\<close>

lemma call_inv:
  assumes inv: "pend_inv s xs" and i: "i < length (appenders s)" "appenders s ! i = A_idle" "op \<notin># started s - finished s"
  shows "pend_inv (s\<lparr>appenders := (appenders s)[i := A_read op], started := add_mset op (started s)\<rparr>) xs"
proof -
  note D = pend_invD [OF inv]
  let ?s = "s\<lparr>appenders := (appenders s)[i := A_read op], started := add_mset op (started s)\<rparr>"
  have use: "in_use ?s xs = add_mset op (in_use s xs)"
    using sum_upd [OF i(1), of appending "A_read op"] i(2) by (simp add: in_use_def)
  have "count (in_use s xs) op = 0" using i(3) D(4) by (simp add: count_eq_zero_iff)
  then have "count (in_use ?s xs) a \<le> 1" for a using D(5) [of a] use by auto
  moreover have "responsible ?s = responsible s" using count_upd [OF i(1), of "\<lambda>pc. pc = A_spawn" "A_read op"] i(2) by (simp add: responsible_def)
  ultimately show ?thesis using D(1,3,4) use inv by (simp add: pend_inv_def)
qed

lemma append_update:
  assumes inv: "pend_inv s xs" and i: "i < length (appenders s)"
    and list: "linked (p_next l') (p_head l') xs'" "\<forall>pc \<in> set (pollers s). poll_ok (p_next l') xs' pc"
      "mset xs' + appending pc' = mset xs + appending (appenders s ! i)"
    and resp: "of_bool (xs' \<noteq> []) = of_bool (xs \<noteq> []) + (of_bool (pc' = A_spawn) :: nat)"
  shows "pend_inv (s\<lparr>plist := l', appenders := (appenders s)[i := pc'],
      pollers := pollers s @ (if appenders s ! i = A_spawn then [P_start] else [])\<rparr>) xs'"
proof -
  note D = pend_invD [OF inv]
  let ?s = "s\<lparr>plist := l', appenders := (appenders s)[i := pc'], pollers := pollers s @ (if appenders s ! i = A_spawn then [P_start] else [])\<rparr>"
  have "mset xs' + (\<Sum>pc\<in>#mset ((appenders s)[i := pc']). appending pc) = mset xs + (\<Sum>pc\<in>#mset (appenders s). appending pc)"
    by (rule mset_exchange [of "appending (appenders s ! i)" _ "appending pc'"])
      (use sum_upd [OF i, of appending pc'] list(3) in \<open>simp_all add: ac_simps\<close>)
  then have use: "in_use ?s xs' = in_use s xs" by (simp add: in_use_def ac_simps)
  have "responsible ?s = responsible s + of_bool (pc' = A_spawn)"
    using count_upd [OF i, of "\<lambda>pc. pc = A_spawn" pc'] by (auto simp: responsible_def)
  then show ?thesis using D(3,4,5) use list(1,2) resp by (auto simp: pend_inv_def)
qed

lemma append_inv:
  assumes inv: "pend_inv s xs" and i: "i < length (appenders s)" and run: "append_step (plist s) (appenders s ! i) = (l', pc')"
  shows "\<exists>xs'. pend_inv (s\<lparr>plist := l', appenders := (appenders s)[i := pc'],
      pollers := pollers s @ (if appenders s ! i = A_spawn then [P_start] else [])\<rparr>) xs'"
proof -
  note D = pend_invD [OF inv] and upd = append_update [OF inv i]
  have ok: "\<forall>pc \<in> set (pollers s). poll_ok (p_next (plist s)) xs pc" using inv by (simp add: pend_inv_def)
  have fresh: "op \<notin> set xs" if "appending (appenders s ! i) = {#op#}" for op
  proof
    assume "op \<in> set xs"
    then have "1 \<le> count (mset xs) op" by (metis count_greater_zero_iff less_eq_Suc_le One_nat_def set_mset_mset)
    moreover have "(\<Sum>pc\<in>#mset (appenders s). appending pc) = add_mset op (\<Sum>pc\<in>#mset ((appenders s)[i := A_idle]). appending pc)"
      using sum_upd [OF i, of appending A_idle] that by simp
    ultimately show False using D(5) [of op] by (simp add: in_use_def)
  qed
  show ?thesis
  proof (cases "appenders s ! i")
    case (A_read op)
    show ?thesis by (intro exI [of _ xs] upd) (use D(1) A_read run fresh [of op] ok in \<open>auto simp: linked_upd poll_ok_upd\<close>)
  next
    case (A_cas op)
    then have f: "op \<notin> set xs" by (intro fresh) simp
    show ?thesis
    proof (cases "p_head (plist s) = p_next (plist s) op")
      case True
      show ?thesis
        by (intro exI [of _ "op # xs"] upd) (use D(1) True A_cas run ok linked_head [OF D(1)] in \<open>auto simp: poll_ok_cons\<close>)
    next
      case False
      show ?thesis by (intro exI [of _ xs] upd) (use D(1) False A_cas run f ok in \<open>auto simp: linked_upd poll_ok_upd\<close>)
    qed
  qed (intro exI [of _ xs] upd; use D(1) run ok in auto)+
qed

text \<open>What a step of a poller must do: it moves at most one operation out of the list, and only a responsible poller changes the list.\<close>

lemma poll_update:
  assumes inv: "pend_inv s xs" and i: "i < length (pollers s)"
    and list: "linked (p_next l') (p_head l') xs'" "poll_ok (p_next l') xs' pc'" "mset xs' + completed pc' = mset xs"
    and live: "if live (pollers s ! i) then live pc' = (xs' \<noteq> []) else \<not> live pc' \<and> l' = plist s \<and> xs' = xs"
  shows "pend_inv (s\<lparr>plist := l', pollers := (pollers s)[i := pc'], finished := finished s + completed (pollers s ! i)\<rparr>) xs'"
proof -
  note D = pend_invD [OF inv]
  let ?s = "s\<lparr>plist := l', pollers := (pollers s)[i := pc'], finished := finished s + completed (pollers s ! i)\<rparr>"
  have use: "in_use ?s xs' + completed (pollers s ! i) = in_use s xs"
    using sum_upd [OF i, of completed pc'] list(3) by (simp add: in_use_def ac_simps)
  have "poll_ok (p_next l') xs' pc" if "pc \<in> set ((pollers s)[i := pc'])" for pc
  proof -
    obtain j where j: "j < length (pollers s)" "pc = (if j = i then pc' else pollers s ! j)"
      using \<open>pc \<in> _\<close> i by (auto simp: in_set_conv_nth nth_list_update)
    show ?thesis
    proof (cases "j = i")
      case False
      then have "\<not> live pc \<or> l' = plist s \<and> xs' = xs" using others_dead [OF inv i _ j(1)] live j(2) by (cases "live (pollers s ! i)") auto
      then show ?thesis using D(2) [OF j(1)] poll_ok_dead [of pc] False j(2) by auto
    qed (use list(2) j(2) in simp)
  qed
  moreover have "count (in_use ?s xs') a \<le> 1" for a using D(5) [of a] unfolding use [symmetric] by simp
  moreover have "responsible ?s = of_bool (xs' \<noteq> [])"
  proof -
    have r: "responsible ?s + of_bool (live (pollers s ! i)) = responsible s + of_bool (live pc')"
      using count_upd [OF i, of live pc'] by (simp add: responsible_def)
    have "live (pollers s ! i) \<Longrightarrow> 0 < length (filter live (pollers s))" using i by (auto simp: filter_empty_conv)
    then have "live (pollers s ! i) \<Longrightarrow> responsible s = 1" using D(3) by (auto simp: responsible_def of_bool_def split: if_splits)
    then show ?thesis using r live D(3) by (cases "live (pollers s ! i)") auto
  qed
  moreover have "started ?s = finished ?s + in_use ?s xs'" using D(4) use by (simp add: ac_simps)
  ultimately show ?thesis using list(1) by (simp add: pend_inv_def)
qed

lemma in_list_nonempty: "x \<in> set xs \<Longrightarrow> xs \<noteq> []"
  by auto

lemma poll_inv:
  assumes inv: "pend_inv s xs" and i: "i < length (pollers s)" and run: "poll_step test (plist s) (pollers s ! i) = Inr (l', pc')"
  shows "\<exists>xs'. pend_inv (s\<lparr>plist := l', pollers := (pollers s)[i := pc'], finished := finished s + completed (pollers s ! i)\<rparr>) xs'"
proof -
  note D = pend_invD(1,3,6) [OF inv] and ok = pend_invD(2) [OF inv i] and upd = poll_update [OF inv i]
  note next_in = linked_next_in [OF D(1)]
  have taken: "linked ((p_next (plist s))(p := nxt)) (p_head (plist s)) (remove1 op xs)"
    "nxt = Some k \<Longrightarrow> k \<in> set (remove1 op xs)" "p \<in> set (remove1 op xs)"
    if "p_next (plist s) p = Some op" "p_next (plist s) op = nxt" "p \<in> set xs" "op \<in> set xs" for p op nxt k
  proof -
    have "p \<noteq> op" using linked_no_self [OF D(1,3) that(3)] that(1) by auto
    then show "linked ((p_next (plist s))(p := nxt)) (p_head (plist s)) (remove1 op xs)" "p \<in> set (remove1 op xs)"
      "nxt = Some k \<Longrightarrow> k \<in> set (remove1 op xs)"
      using linked_remove [OF D(1,3) that(3,1)] linked_no_self [OF D(1,3) that(4)] next_in [OF that(4)] that D(3) by auto
  qed
  have ne: "live (pollers s ! i) \<Longrightarrow> xs \<noteq> []"
    using D(2) i by (auto simp: responsible_def filter_empty_conv)
  show ?thesis
  proof (cases "pollers s ! i")
    case P_start
    then show ?thesis
      by (intro exI [of _ xs] upd) (use D(1) run ne P_start in \<open>auto split: option.splits dest: linked_head linked_head_in\<close>)
  next
    case (P_test prev op ne')
    show ?thesis
      by (intro exI [of _ xs] upd) (use D(1) run ok ne P_test in \<open>auto simp: advances_def intro: next_in split: option.splits if_splits\<close>)
  next
    case (P_cas op nxt ne')
    show ?thesis
    proof (cases "p_head (plist s) = Some op")
      case True
      then obtain ys where ys: "xs = op # ys" "linked (p_next (plist s)) nxt ys" using D(1) ok P_cas by (cases xs) auto
      show ?thesis
        by (intro exI [of _ ys] upd)
          (use ys True run P_cas linked_head [OF ys(2)] in \<open>auto simp: advances_def dest: linked_head_in\<close>)
    next
      case False
      then obtain oh where "p_head (plist s) = Some oh" "oh \<in> set xs" using D(1) ok P_cas by (cases xs) auto
      then show ?thesis by (intro exI [of _ xs] upd) (use False D(1) run ok P_cas ne in auto)
    qed
  next
    case (P_fix oh op nxt ne')
    then have n: "p_next (plist s) oh = Some op" using run by (auto simp: res_simps)
    have l: "linked ((p_next (plist s))(oh := nxt)) (p_head (plist s)) (remove1 op xs)"
      "\<And>k. nxt = Some k \<Longrightarrow> k \<in> set (remove1 op xs)" "oh \<in> set (remove1 op xs)"
      using taken [OF n, of nxt] ok P_fix by auto
    show ?thesis
      by (intro exI [of _ "remove1 op xs"] upd) (use l run ok P_fix in_list_nonempty [OF l(3)] in \<open>auto simp: advances_def res_simps\<close>)
  next
    case (P_unlink prev op nxt ne')
    then have n: "p_next (plist s) prev = Some op" using run by (auto simp: res_simps)
    have l: "linked ((p_next (plist s))(prev := nxt)) (p_head (plist s)) (remove1 op xs)"
      "\<And>k. nxt = Some k \<Longrightarrow> k \<in> set (remove1 op xs)" "prev \<in> set (remove1 op xs)"
      using taken [OF n, of nxt] ok P_unlink by auto
    show ?thesis
      by (intro exI [of _ "remove1 op xs"] upd) (use l run ok P_unlink in_list_nonempty [OF l(3)] in \<open>auto simp: advances_def res_simps\<close>)
  next
    case (P_complete prev op nxt ne')
    show ?thesis by (intro exI [of _ xs] upd) (use D(1) run ok ne P_complete in auto)
  next
    case (P_next prev nxt ne')
    show ?thesis by (intro exI [of _ xs] upd) (use D(1) run ok ne P_next in \<open>auto simp: advances_def split: option.splits if_splits\<close>)
  next
    case (P_end ne')
    show ?thesis by (intro exI [of _ xs] upd) (use D(1) run ok ne P_end in auto)
  next
    case P_exit
    show ?thesis by (intro exI [of _ xs] upd) (use D(1) run ok P_exit in auto)
  qed
qed

lemma pend_inv_init: "pend_inv (pend_init n) []"
proof -
  have z: "\<Sum>\<^sub># (replicate_mset n {#}) = ({#} :: nat multiset)" by (induction n) simp_all
  show ?thesis by (simp add: pend_inv_def pend_init_def in_use_def responsible_def z)
qed

lemma pend_inv_reach: "pend_reach n s \<Longrightarrow> \<exists>xs. pend_inv s xs"
proof (induction rule: pend_reach.induct)
  case init
  show ?case using pend_inv_init by blast
next
  case (step s s')
  then obtain xs where "pend_inv s xs" by blast
  with step(2) show ?case
  proof cases
    case (call i op)
    then show ?thesis using call_inv [OF \<open>pend_inv s xs\<close>] by blast
  next
    case (append i l' pc')
    then show ?thesis using append_inv [OF \<open>pend_inv s xs\<close>] by simp
  next
    case (poll i test l' pc')
    then show ?thesis using poll_inv [OF \<open>pend_inv s xs\<close>] by simp
  qed
qed

text \<open>The only assertion that can fail.\<close>

lemma poll_step_fails:
  assumes inv: "pend_inv s xs" and i: "i < length (pollers s)" and run: "poll_step test (plist s) (pollers s ! i) = Inl e"
  shows "e = Assert_failed \<and> (\<exists>old_head op nxt. pollers s ! i = P_fix old_head op nxt True \<and> op \<in> set xs \<and> old_head \<in> set xs \<and>
     p_next (plist s) old_head \<noteq> Some op)"
proof -
  note D = pend_invD(1,3,6) [OF inv] and ok = pend_invD(2) [OF inv i]
  have ne: "live (pollers s ! i) \<Longrightarrow> xs \<noteq> []" using D(2) i by (auto simp: responsible_def filter_empty_conv)
  show ?thesis
    using run ok ne linked_head [OF D(1)] by (cases "pollers s ! i") (auto simp: c_assert_def split: option.splits if_splits)
qed

section \<open>A walk without interference\<close>

text \<open>The steps of a polling task up to the end of its walk, with the operations that it completes.\<close>

fun poll_walk :: "nat \<Rightarrow> (nat \<Rightarrow> bool) \<Rightarrow> pending \<Rightarrow> poll_pc \<Rightarrow> nat list \<Rightarrow> (pending \<times> bool \<times> nat list) result" where
  "poll_walk 0 test l pc ops = Inl Diverges"
| "poll_walk (Suc fuel) test l pc ops =
     (case pc of P_end ne \<Rightarrow> Inr (l, ne, ops)
      | _ \<Rightarrow> res_bind (poll_step test l pc) (\<lambda>(l', pc').
          poll_walk fuel test l' pc' (case pc of P_complete _ op _ _ \<Rightarrow> ops @ [op] | _ \<Rightarrow> ops)))"

definition first :: "nat list \<Rightarrow> nat option" where
  "first xs = (case xs of [] \<Rightarrow> None | x # _ \<Rightarrow> Some x)"

lemma linked_first: "linked nx h xs \<Longrightarrow> h = first xs"
  by (cases xs) (auto simp: first_def)

lemma linked_suffix: "linked nx h (ks @ ys) \<Longrightarrow> linked nx (if ks = [] then h else nx (last ks)) ys"
  by (induction ks arbitrary: h) (auto split: if_splits)

lemma walk_from:
  assumes "linked (p_next l) (p_head l) (ks @ ys)" "distinct (ks @ ys)" "4 * length ys + 2 \<le> fuel"
  shows "\<exists>l'. poll_walk fuel test l (P_next (if ks = [] then None else Some (last ks)) (first ys) (ks @ ys \<noteq> [])) ops =
      Inr (l', ks @ filter (\<lambda>x. \<not> test x) ys \<noteq> [], ops @ filter test ys) \<and>
    linked (p_next l') (p_head l') (ks @ filter (\<lambda>x. \<not> test x) ys)"
  using assms
proof (induction ys arbitrary: ks l fuel ops)
  case Nil
  then obtain f where "fuel = Suc (Suc f)" by (metis add_2_eq_Suc le_Suc_ex mult_0_right list.size(3) add_0)
  then show ?case using Nil by (simp add: first_def)
next
  case (Cons y ys)
  define f where "f = fuel - 4"
  then have f: "fuel = Suc (Suc (Suc (Suc f)))" "4 * length ys + 2 \<le> f" using Cons.prems(3) by auto
  have y: "linked (p_next l) (if ks = [] then p_head l else p_next l (last ks)) (y # ys)" by (rule linked_suffix) (use Cons.prems in simp)
  then have nx: "p_next l y = first ys" using linked_first by auto
  show ?case
  proof (cases "test y")
    case False
    have "\<exists>l'. poll_walk (Suc (Suc f)) test l (P_next (Some y) (first ys) True) ops =
        Inr (l', (ks @ [y]) @ filter (\<lambda>x. \<not> test x) ys \<noteq> [], ops @ filter test ys) \<and>
      linked (p_next l') (p_head l') ((ks @ [y]) @ filter (\<lambda>x. \<not> test x) ys)"
      using Cons.IH [of l "ks @ [y]" "Suc (Suc f)" ops] Cons.prems f(2) by simp
    then show ?thesis using False f(1) nx by (simp add: first_def [of "y # ys"])
  next
    case True
    show ?thesis
    proof (cases "ks = []")
      case k: True
      have "linked (p_next l) (first ys) ys" "p_head l = Some y" using y nx k by auto
      then show ?thesis using Cons.IH [of "l\<lparr>p_head := first ys\<rparr>" "[]" f "ops @ [y]"] Cons.prems f True k nx
        by (cases ys) (auto simp: first_def)
    next
      case k: False
      let ?p = "last ks"
      have "linked ((p_next l)(?p := p_next l y)) (p_head l) (remove1 y (ks @ y # ys))"
        by (rule linked_remove) (use Cons.prems k y in auto)
      moreover have "remove1 y (ks @ y # ys) = ks @ ys" using Cons.prems(2) by (simp add: remove1_append)
      ultimately show ?thesis using Cons.IH [of "l\<lparr>p_next := (p_next l)(?p := first ys)\<rparr>" ks f "ops @ [y]"] Cons.prems f True k nx y
        by (simp add: first_def [of "y # ys"] fun_upd_def)
    qed
  qed
qed

lemma walk_undisturbed:
  assumes "linked (p_next l) (p_head l) xs" "distinct xs" "xs \<noteq> []"
  shows "\<exists>l'. poll_walk (4 * length xs + 2) test l P_start [] = Inr (l', filter (\<lambda>op. \<not> test op) xs \<noteq> [], filter test xs) \<and>
    linked (p_next l') (p_head l') (filter (\<lambda>op. \<not> test op) xs)"
proof -
  have "p_head l = first xs" by (rule linked_first [OF assms(1)])
  then have "poll_walk (4 * length xs + 2) test l P_start [] = poll_walk (4 * length xs + 2) test l (P_next None (first xs) True) []"
    using assms(3) by (cases xs) (simp_all add: first_def numeral_eq_Suc)
  then show ?thesis using walk_from [of l "[]" xs "4 * length xs + 2" test "[]"] assms by simp
qed

section \<open>Executions\<close>

text \<open>Who makes the next step; the callback answers \<open>b\<close>.\<close>

datatype pend_choice = Call nat nat | Append nat | Poll nat bool

fun pend_exec :: "pend_choice list \<Rightarrow> pend_state \<Rightarrow> pend_state option" where
  "pend_exec [] s = Some s"
| "pend_exec (Call i op # cs) s =
     (if i < length (appenders s) \<and> appenders s ! i = A_idle \<and> op \<notin># started s - finished s
      then pend_exec cs (s\<lparr>appenders := (appenders s)[i := A_read op], started := add_mset op (started s)\<rparr>) else None)"
| "pend_exec (Append i # cs) s =
     (if i < length (appenders s)
      then case append_step (plist s) (appenders s ! i) of (l', pc') \<Rightarrow>
        pend_exec cs (s\<lparr>plist := l', appenders := (appenders s)[i := pc'],
          pollers := pollers s @ (if appenders s ! i = A_spawn then [P_start] else [])\<rparr>)
      else None)"
| "pend_exec (Poll i b # cs) s =
     (if i < length (pollers s)
      then case poll_step (\<lambda>_. b) (plist s) (pollers s ! i) of Inl e \<Rightarrow> None
        | Inr (l', pc') \<Rightarrow> pend_exec cs (s\<lparr>plist := l', pollers := (pollers s)[i := pc'], finished := finished s + completed (pollers s ! i)\<rparr>)
      else None)"

lemma pend_exec_reach: "pend_exec cs s = Some s' \<Longrightarrow> pend_reach n s \<Longrightarrow> pend_reach n s'"
proof (induction cs s arbitrary: s' rule: pend_exec.induct)
  case (2 i op cs s)
  then show ?case by (auto split: if_splits intro: pend_reach.step pend_step.call)
next
  case (3 i cs s)
  then show ?case using pend_step.append [of i s] by (auto split: if_splits prod.splits intro: pend_reach.step)
next
  case (4 i b cs s)
  then obtain l' pc' where p: "i < length (pollers s)" "poll_step (\<lambda>_. b) (plist s) (pollers s ! i) = Inr (l', pc')"
    "pend_exec cs (s\<lparr>plist := l', pollers := (pollers s)[i := pc'], finished := finished s + completed (pollers s ! i)\<rparr>) = Some s'"
    by (auto split: if_splits sum.splits)
  show ?case by (rule 4(1) [OF p(1,2) refl p(3) pend_reach.step [OF 4(3) pend_step.poll [OF p(1,2)]]])
qed simp

text \<open>One operation in the list, its poller about to remove it, and two operations added in front of it.\<close>

definition race :: "pend_choice list" where
  "race = [Call 0 10, Append 0, Append 0, Append 0, Poll 0 True, Poll 0 True, Call 1 11, Append 1, Append 1, Call 2 12, Append 2, Append 2,
     Poll 0 True]"

lemma pending_append_race:
  "\<exists>s. pend_reach 3 s \<and> pollers s = [P_fix 12 10 None True] \<and> poll_step (\<lambda>_. True) (plist s) (pollers s ! 0) = Inl Assert_failed"
proof -
  have "map_option (\<lambda>s. (pollers s, p_next (plist s) 12)) (pend_exec race (pend_init 3)) = Some ([P_fix 12 10 None True], Some 11)"
    by code_simp
  then obtain s where s: "pend_exec race (pend_init 3) = Some s" "pollers s = [P_fix 12 10 None True]" "p_next (plist s) 12 = Some 11" by auto
  then show ?thesis using pend_exec_reach [OF s(1) pend_reach.init] by (intro exI [of _ s]) (simp add: c_assert_def)
qed

section \<open>Properties\<close>

text \<open>
  C8: in every interleaving of any number of appending threads and of the polling tasks, the links form a list
  without repetition; every operation that was ever appended is exactly once in one of these
  places: still with its appending thread, in the list, taken out by a poller, or finished, so that none is lost or
  completed twice; and the list is non-empty exactly when one polling task is responsible for it
  or is about to be spawned. The only assertion that can fail is the one on \<^verbatim>\<open>old_head->next\<close>, when the old head
  is not directly in front of the operation.
\<close>

theorem pending_ops_safe:
  assumes "pend_reach n s"
  shows "\<exists>xs. linked (p_next (plist s)) (p_head (plist s)) xs \<and> distinct xs \<and>
    started s = finished s + in_use s xs \<and> (\<forall>op. count (in_use s xs) op \<le> 1) \<and> responsible s = of_bool (xs \<noteq> []) \<and>
    (\<forall>i < length (pollers s). \<forall>test e. poll_step test (plist s) (pollers s ! i) = Inl e \<longrightarrow>
       e = Assert_failed \<and> (\<exists>old_head op nxt. pollers s ! i = P_fix old_head op nxt True \<and> p_next (plist s) old_head \<noteq> Some op))"
proof -
  obtain xs where inv: "pend_inv s xs" using pend_inv_reach [OF assms] by blast
  show ?thesis using pend_invD(1,3,4,5,6) [OF inv] poll_step_fails [OF inv] by (intro exI [of _ xs]) blast
qed

theorem pending_ops_safe_witness:
  "\<exists>s xs. pend_exec race (pend_init 3) = Some s \<and> linked (p_next (plist s)) (p_head (plist s)) xs \<and> distinct xs \<and> responsible s = of_bool (xs \<noteq> [])"
proof -
  have "pend_exec race (pend_init 3) \<noteq> None" by code_simp
  then obtain s where s: "pend_exec race (pend_init 3) = Some s" by blast
  show ?thesis using pending_ops_safe [OF pend_exec_reach [OF s pend_reach.init]] s by blast
qed

text \<open>
  A walk over a non-empty list that nobody appends to ends within four steps for each operation. It completes
  exactly the operations for which the callback answers true, in the order of the list; the others
  stay in their order, and the poller goes on exactly if there are any.
\<close>

theorem pending_walk_complete:
  assumes "linked (p_next l) (p_head l) xs" "distinct xs" "xs \<noteq> []"
  shows "\<exists>l'. poll_walk (4 * length xs + 2) test l P_start [] = Inr (l', filter (\<lambda>op. \<not> test op) xs \<noteq> [], filter test xs) \<and>
    linked (p_next l') (p_head l') (filter (\<lambda>op. \<not> test op) xs)"
  by (rule walk_undisturbed [OF assms])

theorem pending_walk_complete_witness:
  "\<exists>l'. poll_walk 14 (\<lambda>op. op \<noteq> 7) \<lparr>p_head = Some 3, p_next = [3 \<mapsto> 7, 7 \<mapsto> 5]\<rparr> P_start [] = Inr (l', True, [3, 5]) \<and>
     linked (p_next l') (p_head l') [7]"
  using pending_walk_complete [of "\<lparr>p_head = Some 3, p_next = [3 \<mapsto> 7, 7 \<mapsto> 5]\<rparr>" "[3, 7, 5]" "\<lambda>op. op \<noteq> 7"] by simp

end
