(* ===== verification/Async_Cpp.thy ===== *)
theory Async_Cpp
  imports Runtime_Properties
begin

text \<open>
  \<^verbatim>\<open>src/inc/hclib-async.h\<close>: the C++ templates that spawn a lambda as a task. A lambda is a value \<open>'u\<close>; the function
  of its task is \<open>User\<close>, and \<open>Future_caller\<close> when a wrapper puts the result of the lambda into a promise.
  Overloads for an lvalue and an rvalue vector do the same and are one definition; a vector that is
  passed as a pointer may be null.
\<close>

section \<open>Tasks for lambdas\<close>

definition initialize_task :: "'u code \<Rightarrow> ('u, 'd, 'i) hrt \<Rightarrow> ('u, 'd, 'i) hrt \<times> nat" where
  "initialize_task c st = alloc_task c False st"

definition set_non_blocking :: "nat \<Rightarrow> bool \<Rightarrow> ('u, 'd, 'i) hrt \<Rightarrow> ('u, 'd, 'i) hrt result" where
  "set_non_blocking t nb st = res_bind (get_task st t) (\<lambda>tk. Inr (put_task t (tk\<lparr>non_blocking := nb\<rparr>) st))"

text \<open>The argument \<^verbatim>\<open>future ? &future : NULL\<close> with its length.\<close>

definition future_arg :: "nat option \<Rightarrow> nat option list" where
  "future_arg f = (if f \<noteq> None then [f] else [])"

definition async_await_at_helper ::
  "nat \<Rightarrow> 'u \<Rightarrow> nat option list \<Rightarrow> nat option \<Rightarrow> bool \<Rightarrow> ('u, 'd, 'i) hrt \<Rightarrow> ('u, 'd, 'i) hrt result" where
  "async_await_at_helper wid lam futures loc nb st =
     (let (st1, t) = initialize_task (User lam) st in
      res_bind (set_non_blocking t nb st1) (\<lambda>st2. spawn_await_at wid t futures loc st2))"

definition cpp_async :: "nat \<Rightarrow> 'u \<Rightarrow> ('u, 'd, 'i) hrt \<Rightarrow> ('u, 'd, 'i) hrt result" where
  "cpp_async wid lam st = (let (st1, t) = initialize_task (User lam) st in spawn wid t st1)"

definition cpp_async_at :: "nat \<Rightarrow> 'u \<Rightarrow> nat option \<Rightarrow> ('u, 'd, 'i) hrt \<Rightarrow> ('u, 'd, 'i) hrt result" where
  "cpp_async_at wid lam loc st = (let (st1, t) = initialize_task (User lam) st in spawn_at wid t loc st1)"

definition cpp_async_nb :: "nat \<Rightarrow> 'u \<Rightarrow> ('u, 'd, 'i) hrt \<Rightarrow> ('u, 'd, 'i) hrt result" where
  "cpp_async_nb wid lam st =
     (let (st1, t) = initialize_task (User lam) st in
      res_bind (set_non_blocking t True st1) (\<lambda>st2. spawn wid t st2))"

definition cpp_async_nb_at :: "nat \<Rightarrow> 'u \<Rightarrow> nat option \<Rightarrow> ('u, 'd, 'i) hrt \<Rightarrow> ('u, 'd, 'i) hrt result" where
  "cpp_async_nb_at wid lam loc st =
     (let (st1, t) = initialize_task (User lam) st in
      res_bind (set_non_blocking t True st1) (\<lambda>st2. spawn_at wid t loc st2))"

definition cpp_async_nb_await :: "nat \<Rightarrow> 'u \<Rightarrow> nat option \<Rightarrow> ('u, 'd, 'i) hrt \<Rightarrow> ('u, 'd, 'i) hrt result" where
  "cpp_async_nb_await wid lam future st =
     (let (st1, t) = initialize_task (User lam) st in
      res_bind (set_non_blocking t True st1) (\<lambda>st2. spawn_await wid t (future_arg future) st2))"

definition cpp_async_nb_await_vec :: "nat \<Rightarrow> 'u \<Rightarrow> nat option list \<Rightarrow> ('u, 'd, 'i) hrt \<Rightarrow> ('u, 'd, 'i) hrt result" where
  "cpp_async_nb_await_vec wid lam futures = async_await_at_helper wid lam futures None True"

definition cpp_async_nb_await_at :: "nat \<Rightarrow> 'u \<Rightarrow> nat option \<Rightarrow> nat option \<Rightarrow> ('u, 'd, 'i) hrt \<Rightarrow> ('u, 'd, 'i) hrt result" where
  "cpp_async_nb_await_at wid lam fut loc st =
     (let (st1, t) = initialize_task (User lam) st in
      res_bind (set_non_blocking t True st1) (\<lambda>st2. spawn_await_at wid t (future_arg fut) loc st2))"

definition cpp_async_nb_await_at_vec :: "nat \<Rightarrow> 'u \<Rightarrow> nat option list \<Rightarrow> nat option \<Rightarrow> ('u, 'd, 'i) hrt \<Rightarrow> ('u, 'd, 'i) hrt result" where
  "cpp_async_nb_await_at_vec wid lam futures loc = async_await_at_helper wid lam futures loc True"

definition cpp_async_nb_await_at_ptr :: "nat \<Rightarrow> 'u \<Rightarrow> nat option list option \<Rightarrow> nat option \<Rightarrow> ('u, 'd, 'i) hrt \<Rightarrow> ('u, 'd, 'i) hrt result" where
  "cpp_async_nb_await_at_ptr wid lam futures loc =
     async_await_at_helper wid lam (case futures of None \<Rightarrow> [] | Some fs \<Rightarrow> fs) loc True"

definition cpp_async_nb_await_ptr :: "nat \<Rightarrow> 'u \<Rightarrow> nat option list option \<Rightarrow> ('u, 'd, 'i) hrt \<Rightarrow> ('u, 'd, 'i) hrt result" where
  "cpp_async_nb_await_ptr wid lam futures =
     async_await_at_helper wid lam (case futures of None \<Rightarrow> [] | Some fs \<Rightarrow> fs) None True"

definition cpp_async_await :: "nat \<Rightarrow> 'u \<Rightarrow> nat option \<Rightarrow> ('u, 'd, 'i) hrt \<Rightarrow> ('u, 'd, 'i) hrt result" where
  "cpp_async_await wid lam future st =
     (let (st1, t) = initialize_task (User lam) st in spawn_await wid t (future_arg future) st1)"

text \<open>The statements \<^verbatim>\<open>if (future) futures[nfutures++] = future\<close>.\<close>

definition add_future :: "nat option \<Rightarrow> nat option list \<Rightarrow> nat option list" where
  "add_future f futures = (if f \<noteq> None then futures @ [f] else futures)"

definition cpp_async_await2 :: "nat \<Rightarrow> 'u \<Rightarrow> nat option \<Rightarrow> nat option \<Rightarrow> ('u, 'd, 'i) hrt \<Rightarrow> ('u, 'd, 'i) hrt result" where
  "cpp_async_await2 wid lam future1 future2 st =
     (let (st1, t) = initialize_task (User lam) st;
          futures = add_future future2 (add_future future1 [])
      in spawn_await wid t futures st1)"

definition cpp_async_await4 ::
  "nat \<Rightarrow> 'u \<Rightarrow> nat option \<Rightarrow> nat option \<Rightarrow> nat option \<Rightarrow> nat option \<Rightarrow> ('u, 'd, 'i) hrt \<Rightarrow> ('u, 'd, 'i) hrt result" where
  "cpp_async_await4 wid lam future1 future2 future3 future4 st =
     (let (st1, t) = initialize_task (User lam) st;
          futures = add_future future4 (add_future future3 (add_future future2 (add_future future1 [])))
      in spawn_await wid t futures st1)"

definition cpp_async_await_vec :: "nat \<Rightarrow> 'u \<Rightarrow> nat option list \<Rightarrow> ('u, 'd, 'i) hrt \<Rightarrow> ('u, 'd, 'i) hrt result" where
  "cpp_async_await_vec wid lam futures = async_await_at_helper wid lam futures None False"

definition cpp_async_await_ptr :: "nat \<Rightarrow> 'u \<Rightarrow> nat option list option \<Rightarrow> ('u, 'd, 'i) hrt \<Rightarrow> ('u, 'd, 'i) hrt result" where
  "cpp_async_await_ptr wid lam futures =
     async_await_at_helper wid lam (case futures of None \<Rightarrow> [] | Some fs \<Rightarrow> fs) None False"

definition cpp_async_await_at :: "nat \<Rightarrow> 'u \<Rightarrow> nat option \<Rightarrow> nat option \<Rightarrow> ('u, 'd, 'i) hrt \<Rightarrow> ('u, 'd, 'i) hrt result" where
  "cpp_async_await_at wid lam future loc st =
     (let (st1, t) = initialize_task (User lam) st in spawn_await_at wid t (future_arg future) loc st1)"

definition cpp_async_await_at2 ::
  "nat \<Rightarrow> 'u \<Rightarrow> nat option \<Rightarrow> nat option \<Rightarrow> nat option \<Rightarrow> ('u, 'd, 'i) hrt \<Rightarrow> ('u, 'd, 'i) hrt result" where
  "cpp_async_await_at2 wid lam future1 future2 loc st =
     (let (st1, t) = initialize_task (User lam) st;
          futures = add_future future2 (add_future future1 [])
      in spawn_await_at wid t futures loc st1)"

definition cpp_async_await_at_vec :: "nat \<Rightarrow> 'u \<Rightarrow> nat option list \<Rightarrow> nat option \<Rightarrow> ('u, 'd, 'i) hrt \<Rightarrow> ('u, 'd, 'i) hrt result" where
  "cpp_async_await_at_vec wid lam futures loc = async_await_at_helper wid lam futures loc False"

section \<open>Tasks with a result\<close>

definition async_future_await_at_helper ::
  "nat \<Rightarrow> 'u \<Rightarrow> nat option list \<Rightarrow> nat option \<Rightarrow> bool \<Rightarrow> ('u, 'd, 'i) hrt \<Rightarrow> (('u, 'd, 'i) hrt \<times> nat) result" where
  "async_future_await_at_helper wid lam futures loc nb st =
     (let (st1, event) = hclib_promise_create st;
          (st2, t) = initialize_task (Future_caller event lam) st1 in
      res_bind (set_non_blocking t nb st2) (\<lambda>st3.
      res_bind (spawn_await_at wid t futures loc st3) (\<lambda>st4.
      Inr (st4, hclib_get_future_for_promise event))))"

definition cpp_async_future :: "nat \<Rightarrow> 'u \<Rightarrow> ('u, 'd, 'i) hrt \<Rightarrow> (('u, 'd, 'i) hrt \<times> nat) result" where
  "cpp_async_future wid lam st =
     (let (st1, event) = hclib_promise_create st;
          (st2, t) = initialize_task (Future_caller event lam) st1 in
      res_bind (spawn wid t st2) (\<lambda>st3. Inr (st3, hclib_get_future_for_promise event)))"

definition cpp_async_nb_future :: "nat \<Rightarrow> 'u \<Rightarrow> ('u, 'd, 'i) hrt \<Rightarrow> (('u, 'd, 'i) hrt \<times> nat) result" where
  "cpp_async_nb_future wid lam st =
     (let (st1, event) = hclib_promise_create st;
          (st2, t) = initialize_task (Future_caller event lam) st1 in
      res_bind (set_non_blocking t True st2) (\<lambda>st3.
      res_bind (spawn wid t st3) (\<lambda>st4. Inr (st4, hclib_get_future_for_promise event))))"

definition cpp_async_future_await :: "nat \<Rightarrow> 'u \<Rightarrow> nat option \<Rightarrow> ('u, 'd, 'i) hrt \<Rightarrow> (('u, 'd, 'i) hrt \<times> nat) result" where
  "cpp_async_future_await wid lam future st =
     (let (st1, event) = hclib_promise_create st;
          (st2, t) = initialize_task (Future_caller event lam) st1 in
      res_bind (spawn_await wid t (future_arg future) st2) (\<lambda>st3. Inr (st3, hclib_get_future_for_promise event)))"

definition cpp_async_future_await_vec :: "nat \<Rightarrow> 'u \<Rightarrow> nat option list \<Rightarrow> ('u, 'd, 'i) hrt \<Rightarrow> (('u, 'd, 'i) hrt \<times> nat) result" where
  "cpp_async_future_await_vec wid lam futures = async_future_await_at_helper wid lam futures None False"

definition cpp_async_nb_future_await :: "nat \<Rightarrow> 'u \<Rightarrow> nat option \<Rightarrow> ('u, 'd, 'i) hrt \<Rightarrow> (('u, 'd, 'i) hrt \<times> nat) result" where
  "cpp_async_nb_future_await wid lam future = async_future_await_at_helper wid lam [future] None True"

definition cpp_async_nb_future_await_vec :: "nat \<Rightarrow> 'u \<Rightarrow> nat option list \<Rightarrow> ('u, 'd, 'i) hrt \<Rightarrow> (('u, 'd, 'i) hrt \<times> nat) result" where
  "cpp_async_nb_future_await_vec wid lam futures = async_future_await_at_helper wid lam futures None True"

definition async_future_at_helper :: "nat \<Rightarrow> 'u \<Rightarrow> nat option \<Rightarrow> bool \<Rightarrow> ('u, 'd, 'i) hrt \<Rightarrow> (('u, 'd, 'i) hrt \<times> nat) result" where
  "async_future_at_helper wid lam loc nb st =
     (let (st1, event) = hclib_promise_create st;
          (st2, t) = initialize_task (Future_caller event lam) st1 in
      res_bind (if nb then set_non_blocking t True st2 else Inr st2) (\<lambda>st3.
      res_bind (spawn_await_at wid t [] loc st3) (\<lambda>st4.
      Inr (st4, hclib_get_future_for_promise event))))"

definition cpp_async_future_at :: "nat \<Rightarrow> 'u \<Rightarrow> nat option \<Rightarrow> ('u, 'd, 'i) hrt \<Rightarrow> (('u, 'd, 'i) hrt \<times> nat) result" where
  "cpp_async_future_at wid lam loc = async_future_at_helper wid lam loc False"

definition cpp_async_nb_future_at :: "nat \<Rightarrow> 'u \<Rightarrow> nat option \<Rightarrow> ('u, 'd, 'i) hrt \<Rightarrow> (('u, 'd, 'i) hrt \<times> nat) result" where
  "cpp_async_nb_future_at wid lam loc = async_future_at_helper wid lam loc True"

definition cpp_async_future_await_at ::
  "nat \<Rightarrow> 'u \<Rightarrow> nat option \<Rightarrow> nat option \<Rightarrow> ('u, 'd, 'i) hrt \<Rightarrow> (('u, 'd, 'i) hrt \<times> nat) result" where
  "cpp_async_future_await_at wid lam future loc st =
     (let (st1, event) = hclib_promise_create st;
          (st2, t) = initialize_task (Future_caller event lam) st1 in
      res_bind (spawn_await_at wid t (future_arg future) loc st2) (\<lambda>st3. Inr (st3, hclib_get_future_for_promise event)))"

definition cpp_async_future_await_at_vec ::
  "nat \<Rightarrow> 'u \<Rightarrow> nat option list \<Rightarrow> nat option \<Rightarrow> ('u, 'd, 'i) hrt \<Rightarrow> (('u, 'd, 'i) hrt \<times> nat) result" where
  "cpp_async_future_await_at_vec wid lam futures loc = async_future_await_at_helper wid lam futures loc False"

section \<open>A finish scope around a lambda\<close>

text \<open>\<open>body\<close> is what the lambda does to the state, when it does not block.\<close>

definition nonblocking_finish ::
  "nat \<Rightarrow> (('u, 'd, 'i) hrt \<Rightarrow> ('u, 'd, 'i) hrt result) \<Rightarrow> ('u, 'd, 'i) hrt \<Rightarrow> (('u, 'd, 'i) hrt \<times> nat) result" where
  "nonblocking_finish wid body st =
     res_bind (hclib_start_finish wid st) (\<lambda>st1.
     res_bind (body st1) (\<lambda>st2.
     let (st3, event) = hclib_promise_create st2 in
     res_bind (hclib_end_finish_nonblocking_helper wid event st3) (\<lambda>st4.
     Inr (st4, hclib_get_future_for_promise event))))"

section \<open>The templates and the C interface\<close>

text \<open>A task with the given function, blocking mode, futures and locale; and the same with a promise for its result.\<close>

definition async_ref ::
  "nat \<Rightarrow> 'u code \<Rightarrow> bool \<Rightarrow> nat option list \<Rightarrow> nat option \<Rightarrow> ('u, 'd, 'i) hrt \<Rightarrow> ('u, 'd, 'i) hrt result" where
  "async_ref wid c nb futures loc st = spawn_handler wid (next_addr st) loc futures False (fst (alloc_task c nb st))"

definition future_ref ::
  "nat \<Rightarrow> 'u \<Rightarrow> bool \<Rightarrow> nat option list \<Rightarrow> nat option \<Rightarrow> ('u, 'd, 'i) hrt \<Rightarrow> (('u, 'd, 'i) hrt \<times> nat) result" where
  "future_ref wid lam nb futures loc st =
     res_bind (async_ref wid (Future_caller (next_addr st) lam) nb futures loc (fst (hclib_promise_create st))) (\<lambda>st'. Inr (st', next_addr st))"

lemma c_interface_ref:
  "hclib_async wid c futures loc = async_ref wid c False futures loc" "hclib_async_nb wid c loc = async_ref wid c True [] loc"
  "hclib_async_future wid lam futures loc = future_ref wid lam False futures loc"
  by (auto simp: fun_eq_iff async_spawn async_ref_def hclib_async_future_def future_ref_def hclib_promise_create_def
      hclib_get_future_for_promise_def)

text \<open>The non-null futures in their order.\<close>

definition given :: "nat option list \<Rightarrow> nat option list" where
  "given fs = filter (\<lambda>f. f \<noteq> None) fs"

lemmas task_steps = initialize_task_def set_non_blocking_def alloc_task_def get_task_def new_task_def put_task_def
  spawn_def spawn_at_def spawn_await_def spawn_await_at_def hclib_promise_create_def hclib_get_future_for_promise_def async_ref_def future_ref_def

lemma given_futures: "future_arg f = given [f]" "add_future f fs = fs @ given [f]" "given (xs @ ys) = given xs @ given ys"
  by (auto simp: future_arg_def add_future_def given_def)

lemma helpers_ref:
  "async_await_at_helper w u fs l nb = async_ref w (User u) nb fs l" "async_future_await_at_helper w u fs l nb = future_ref w u nb fs l"
  "async_future_at_helper w u l nb = future_ref w u nb [] l"
  by (simp_all add: fun_eq_iff async_await_at_helper_def async_future_await_at_helper_def async_future_at_helper_def task_steps)

lemma blocking_ref:
  "cpp_async w u = async_ref w (User u) False [] None" "cpp_async_at w u l = async_ref w (User u) False [] l"
  "cpp_async_await w u f = async_ref w (User u) False (given [f]) None" "cpp_async_await_at w u f l = async_ref w (User u) False (given [f]) l"
  by (simp_all add: fun_eq_iff cpp_async_def cpp_async_at_def cpp_async_await_def cpp_async_await_at_def task_steps given_futures)

lemma several_ref:
  "cpp_async_await2 w u f g = async_ref w (User u) False (given [f, g]) None"
  "cpp_async_await_at2 w u f g l = async_ref w (User u) False (given [f, g]) l"
  "cpp_async_await4 w u f g h k = async_ref w (User u) False (given [f, g, h, k]) None"
  using given_futures(3) [of "[f]" "[g]"] given_futures(3) [of "[f, g]" "[h, k]"] given_futures(3) [of "[h]" "[k]"]
  by (simp_all add: fun_eq_iff cpp_async_await2_def cpp_async_await_at2_def cpp_async_await4_def task_steps given_futures(2))

lemma non_blocking_ref:
  "cpp_async_nb w u = async_ref w (User u) True [] None" "cpp_async_nb_at w u l = async_ref w (User u) True [] l"
  "cpp_async_nb_await w u f = async_ref w (User u) True (given [f]) None" "cpp_async_nb_await_at w u f l = async_ref w (User u) True (given [f]) l"
  by (simp_all add: fun_eq_iff cpp_async_nb_def cpp_async_nb_at_def cpp_async_nb_await_def cpp_async_nb_await_at_def task_steps given_futures)

lemma futures_ref:
  "cpp_async_future w u = future_ref w u False [] None" "cpp_async_nb_future w u = future_ref w u True [] None"
  "cpp_async_future_await w u f = future_ref w u False (given [f]) None" "cpp_async_future_await_at w u f l = future_ref w u False (given [f]) l"
  by (simp_all add: fun_eq_iff cpp_async_future_def cpp_async_nb_future_def cpp_async_future_await_def cpp_async_future_await_at_def
      task_steps given_futures)

text \<open>A null future in the first place hides all the others.\<close>

lemma set_futures_null: "length (waiting_on tk) = 4 \<Longrightarrow> waiting_on tk ! 0 = None \<Longrightarrow> waiting_on (set_futures (None # fs) tk) ! 0 = None"
  by (simp add: set_futures_def Let_def MAX_NUM_WAITS_def nth_append)

lemma schedule_unregistered:
  assumes "length (waiting_on tk) = 4" "waiting_on tk ! 0 = None"
  shows "map_sum id (\<lambda>s. (rt_pool s, promises s)) (try_schedule_async t wid (put_task t tk st)) =
    map_sum id (\<lambda>pool. (pool, promises st)) (res_bind (deque_push_locale (worker_state.truncate (rt_workers st ! wid)) (rt_pool st)
      (case t_locale tk of Some l \<Rightarrow> l | None \<Rightarrow> 0) t) (\<lambda>(pool', ok). res_bind (c_assert ok) (\<lambda>_. Inr pool')))"
proof -
  have "arr_get (waiting_on tk) 0 = Inr None" using assms by (simp add: arr_get_def)
  then show ?thesis
    by (simp add: try_schedule_async_def is_eligible_to_schedule_def get_task_def rt_schedule_async_def put_task_def res_bind_def c_assert_def
        split: sum.split)
qed

lemma null_first_ref:
  "map_sum id (\<lambda>s. (rt_pool s, promises s)) (async_ref w c nb (None # fs) l st) = map_sum id (\<lambda>s. (rt_pool s, promises s)) (async_ref w c nb [] l st)"
proof -
  let ?t = "next_addr st" and ?st = "fst (alloc_task c nb st)" and ?g = "\<lambda>s. (rt_pool s, promises s)"
  show ?thesis
  proof (cases "check_in_finish (cur_finish ?st w) ?st")
    case (Inr st1)
    then have "tasks st1 = tasks ?st" by (auto simp: check_in_finish_def res_simps split: option.splits)
    then have t: "get_task st1 ?t = Inr (new_task c nb)" by (simp add: get_task_def alloc_task_def)
    let ?tk = "case l of None \<Rightarrow> (new_task c nb)\<lparr>t_finish := cur_finish ?st w\<rparr> | Some x \<Rightarrow> (new_task c nb)\<lparr>t_finish := cur_finish ?st w, t_locale := Some x\<rparr>"
    have tk: "length (waiting_on ?tk) = 4" "waiting_on ?tk ! 0 = None" by (auto simp: new_task_def split: option.splits)
    have run: "async_ref w c nb gs l st = try_schedule_async ?t w (put_task ?t (set_futures gs ?tk) st1)" for gs
      unfolding async_ref_def spawn_handler_def Let_def using Inr t by (cases l) simp_all
    have len: "length (waiting_on (set_futures (None # fs) ?tk)) = 4" using tk(1) by (simp add: set_futures_def Let_def MAX_NUM_WAITS_def)
    have e: "set_futures [] ?tk = ?tk" by (simp add: set_futures_def)
    show ?thesis unfolding run e schedule_unregistered [OF tk] schedule_unregistered [OF len set_futures_null [OF tk]] by simp
  qed (simp add: async_ref_def spawn_handler_def Let_def)
qed

section \<open>Properties\<close>


text \<open>
  A vector of futures whose first entry is null is ignored altogether: the task is put into a deque at once and
  registered on no promise, exactly as if it had been spawned without futures, whether or not the
  other futures are satisfied.
\<close>

lemma null_first_future_ignored:
  "map_sum id (\<lambda>s. (rt_pool s, promises s)) (cpp_async_await_vec w u (None # fs) st) =
   map_sum id (\<lambda>s. (rt_pool s, promises s)) (cpp_async w u st) \<and>
   map_sum id (\<lambda>s. (rt_pool s, promises s)) (cpp_async_await_at_vec w u (None # fs) l st) =
   map_sum id (\<lambda>s. (rt_pool s, promises s)) (cpp_async_at w u l st)"
  by (simp add: cpp_async_await_vec_def cpp_async_await_at_vec_def helpers_ref blocking_ref null_first_ref)

end
