(* ===== verification/Loop_Futures.thy ===== *)
theory Loop_Futures
  imports Async_Cpp Forasync_Cpp Mem_Ops
begin

text \<open>
  Loops that return a future: \<^verbatim>\<open>forasync1D_future\<close> and \<^verbatim>\<open>forasync1D_nb_future\<close> of \<^verbatim>\<open>src/inc/hclib-forasync.h\<close> and
  \<^verbatim>\<open>hclib_forasync_future\<close> of \<^verbatim>\<open>src/src/hclib.c\<close>. They open a finish scope, spawn the tasks of the loop in it and end the
  scope without waiting. The lemmas say when the future of such a scope is satisfied.
\<close>

section \<open>The tasks and calls of a loop\<close>

text \<open>A request is a call of one of the task templates; \<open>body\<close> is what a call of the loop body does to the state.\<close>

definition run_request :: "nat \<Rightarrow> 'u request \<Rightarrow> ('u, 'd, 'i) hrt \<Rightarrow> ('u, 'd, 'i) hrt result" where
  "run_request wid q = async_await_at_helper wid (req_job q) (map Some (req_futures q)) (req_locale q) (req_nb q)"

fun run_requests :: "nat \<Rightarrow> 'u request list \<Rightarrow> ('u, 'd, 'i) hrt \<Rightarrow> ('u, 'd, 'i) hrt result" where
  "run_requests wid [] st = Inr st"
| "run_requests wid (q # qs) st = res_bind (run_request wid q st) (\<lambda>st1. run_requests wid qs st1)"

fun run_calls :: "('x \<Rightarrow> 's \<Rightarrow> 's result) \<Rightarrow> 'x list \<Rightarrow> 's \<Rightarrow> 's result" where
  "run_calls body [] st = Inr st"
| "run_calls body (x # xs) st = res_bind (body x st) (\<lambda>st1. run_calls body xs st1)"

type_synonym ('d, 'i) loop_body = "int list \<Rightarrow> (job, 'd, 'i) hrt \<Rightarrow> (job, 'd, 'i) hrt result"

definition run_activation ::
  "nat \<Rightarrow> ('d, 'i) loop_body \<Rightarrow> job request list \<times> int list list \<Rightarrow> (job, 'd, 'i) hrt \<Rightarrow> (job, 'd, 'i) hrt result" where
  "run_activation wid body act st = (case act of (qs, xs) \<Rightarrow> res_bind (run_requests wid qs st) (\<lambda>st1. run_calls body xs st1))"

section \<open>Loops with a future\<close>

definition loop_future_scope ::
  "nat \<Rightarrow> ('d, 'i) loop_body \<Rightarrow> nat \<Rightarrow> cpp_activation \<Rightarrow> (job, 'd, 'i) hrt \<Rightarrow> ((job, 'd, 'i) hrt \<times> nat) result" where
  "loop_future_scope wid body event act st =
     res_bind (hclib_start_finish wid st) (\<lambda>st1.
     res_bind act (\<lambda>a.
     res_bind (run_activation wid body a st1) (\<lambda>st2.
     res_bind (hclib_end_finish_nonblocking_helper wid event st2) (\<lambda>st3.
     Inr (st3, hclib_get_future_for_promise event)))))"

definition loop_future_seq ::
  "nat \<Rightarrow> ('d, 'i) loop_body \<Rightarrow> nat \<Rightarrow> loop_domain \<Rightarrow> (job, 'd, 'i) hrt \<Rightarrow> ((job, 'd, 'i) hrt \<times> nat) result" where
  "loop_future_seq wid body event d0 st =
     res_bind (from_loop (forasync1D_seq d0)) (\<lambda>xs.
     res_bind (run_calls body xs st) (\<lambda>st1.
     res_bind (hclib_promise_put wid (Some event) None st1) (\<lambda>st2.
     Inr (st2, hclib_get_future_for_promise event))))"

definition forasync1D_future ::
  "nat \<Rightarrow> ('d, 'i) loop_body \<Rightarrow> loop_dist_func list \<Rightarrow> loop_domain \<Rightarrow> bool \<Rightarrow> int \<Rightarrow> nat option \<Rightarrow> nat \<Rightarrow>
   (job, 'd, 'i) hrt \<Rightarrow> ((job, 'd, 'i) hrt \<times> nat) result" where
  "forasync1D_future wid body funcs d0 force_seq mode future dist_func_id st =
     (let (st1, event) = hclib_promise_create st in
      if force_seq then loop_future_seq wid body event d0 st1
      else loop_future_scope wid body event (forasync1D_internal funcs d0 mode future dist_func_id False) st1)"

definition forasync1D_nb_future ::
  "nat \<Rightarrow> ('d, 'i) loop_body \<Rightarrow> loop_dist_func list \<Rightarrow> loop_domain \<Rightarrow> bool \<Rightarrow> int \<Rightarrow> nat option \<Rightarrow> nat \<Rightarrow>
   (job, 'd, 'i) hrt \<Rightarrow> ((job, 'd, 'i) hrt \<times> nat) result" where
  "forasync1D_nb_future wid body funcs d0 force_seq mode future dist_func_id st =
     (let (st1, event) = hclib_promise_create st in
      if force_seq then loop_future_seq wid body event d0 st1
      else loop_future_scope wid body event (forasync1D_internal funcs d0 mode future dist_func_id True) st1)"

text \<open>The tasks of the C functions are spawned without future and locale.\<close>

definition hclib_forasync_future ::
  "nat \<Rightarrow> ('d, 'i) loop_body \<Rightarrow> int \<Rightarrow> loop_domain list \<Rightarrow> int \<Rightarrow> int \<Rightarrow>
   (job, 'd, 'i) hrt \<Rightarrow> ((job, 'd, 'i) hrt \<times> nat) result" where
  "hclib_forasync_future wid body nworkers ds dim mode st =
     res_bind (hclib_start_finish wid st) (\<lambda>st1.
     res_bind (hclib_forasync nworkers ds dim mode) (\<lambda>(ts, xs).
     res_bind (run_activation wid body (map (\<lambda>j. async_await j None) ts, xs) st1) (\<lambda>st2.
     hclib_end_finish_nonblocking wid st2)))"

text \<open>The requests of the loops are the calls that the templates make.\<close>

lemma run_request_calls:
  "run_request w (async_await_at j f l) = cpp_async_await_at w j f l" "run_request w (async_nb_await_at j f l) = cpp_async_nb_await_at w j f l"
  "run_request w (async_await j f) = cpp_async_await w j f" "run_request w (async_nb_await j f) = cpp_async_nb_await w j f"
  "run_request w (async_await j None) = cpp_async w j"
  by (cases f; simp add: run_request_def async_await_at_def async_nb_await_at_def async_await_def async_nb_await_def opt_future_def
      helpers_ref blocking_ref non_blocking_ref given_def)+

section \<open>Counting down\<close>

lemma put_satisfies: "hclib_promise_put w (Some p) d st = Inr st' \<Longrightarrow> hclib_future_is_satisfied st' p = Inr True"
  using put_gives_datum [of w p d st st'] by (auto simp: hclib_future_get_def hclib_future_is_satisfied_def res_simps)

lemma satisfied_cong: "map_option satisfied (promises st' p) = map_option satisfied (promises st p) \<Longrightarrow>
  hclib_future_is_satisfied st' p = hclib_future_is_satisfied st p"
  by (cases "promises st p"; cases "promises st' p") (auto simp: hclib_future_is_satisfied_def get_promise_def)

lemma open_promise: "hclib_future_is_satisfied st p = Inr False \<longleftrightarrow> (\<exists>pr. promises st p = Some pr \<and> \<not> satisfied pr)"
  by (auto simp: hclib_future_is_satisfied_def get_promise_def res_simps)

text \<open>A scope whose future is given is counted down, and its future is satisfied when the counter reaches 0.\<close>

lemma check_out_future:
  assumes inv: "sched_inv n st W {} E" "scope_inv st \<delta>" and w: "w < n" and few: "few_objects st" "\<bar>\<delta> f\<bar> \<le> 2" "roomy st"
    and f: "finishes st f = Some fin" "finish_dep fin = Some e" and e: "hclib_future_is_satisfied st e = Inr False"
  shows "\<exists>st'. check_out_finish w (Some f) st = Inr st' \<and> hclib_future_is_satisfied st' e = Inr (counter fin = 1)"
proof -
  let ?st = "put_finish f (fin\<lparr>counter := counter fin - 1\<rparr>) st"
  have "wrap32 (counter fin - 1) = counter fin - 1" using counter_range [OF inv(2) few(1) f(1) few(2)] by simp
  then have step: "check_out_finish w (Some f) st =
      (if counter fin = 1 then hclib_promise_put w (Some e) (Some (Finish_ptr f)) ?st else Inr ?st)"
    using f by (simp add: check_out_finish_def get_finish_def)
  obtain pr where pr: "promises st e = Some pr" "\<not> satisfied pr" using e by (auto simp: open_promise)
  have s: "sched_inv n ?st W {} E" using same_sched_inv [of st ?st] inv(1) by simp
  have max: "int (next_addr ?st) \<le> MAX_INT" using few(1) by (simp add: few_objects_def MAX_INT_def)
  have "roomy ?st" using few(3) by (simp add: roomy_def)
  then obtain st' where "hclib_promise_put w (Some e) (Some (Finish_ptr f)) ?st = Inr st'"
    using promise_put_inv [OF s _ pr(2) w max] pr(1) by fastforce
  moreover have "hclib_future_is_satisfied ?st e = Inr False" using e satisfied_cong [of ?st e st] by simp
  ultimately show ?thesis using step put_satisfies by auto
qed

text \<open>A scope that still counts something else.\<close>

lemma check_out_more:
  assumes "scope_inv st \<delta>" "few_objects st" "\<bar>\<delta> f\<bar> \<le> 2" "finishes st f = Some fin" "counter fin > 1"
  shows "check_out_finish w (Some f) st = Inr (put_finish f (fin\<lparr>counter := counter fin - 1\<rparr>) st)"
proof -
  have "wrap32 (counter fin - 1) = counter fin - 1" using counter_range [OF assms(1,2,4,3)] by simp
  then show ?thesis using assms(4,5) by (simp add: check_out_finish_def get_finish_def)
qed

section \<open>The end of a scope and of its tasks\<close>

lemma nothing_counted: "finite A \<Longrightarrow> finite B \<Longrightarrow> int (card A) + int (card B) = 0 \<longleftrightarrow> A = {} \<and> B = {}"
  by (simp add: add_nonneg_eq_0_iff)

lemma scope_counter:
  assumes "scope_inv st (\<lambda>_. 0)" "finishes st f = Some fin"
  shows "counter fin = of_bool (finish_dep fin = None) \<longleftrightarrow> members st f = {} \<and> children st f = {}"
  using scope_invD(3) [OF assms] nothing_counted [OF members_bound(1) [OF assms(1), of f] members_bound(3) [OF assms(1), of f]] by auto

text \<open>The scope around the ended one counts its body or a task, beside the ended scope.\<close>

lemma parent_counts:
  assumes "scope_inv st (bump (Some g) 1 (\<lambda>_. 0))" "finishes st g = Some fing" "finish_dep fing = None \<or> members st g \<noteq> {}"
  shows "counter fing > 1"
proof -
  have "of_bool (finish_dep fing = None) + int (card (members st g)) \<ge> 1"
    using assms(3) members_bound(1) [OF assms(1), of g] card_gt_0_iff [of "members st g"] by (auto simp del: card_gt_0_iff)
  then show ?thesis using scope_invD(3) [OF assms(1,2)] by simp
qed

lemma end_nonblocking_returns:
  assumes inv: "heap_inv n st W E" and w: "w < n" and few: "few_objects st" "roomy st"
    and f: "cur_finish st w = Some f" "finishes st f = Some fin" "finish_dep fin = None"
    and par: "\<And>g. parent fin = Some g \<Longrightarrow> open_scope st g \<or> members st g \<noteq> {}"
    and e: "hclib_future_is_satisfied st e = Inr False"
  shows "\<exists>st'. hclib_end_finish_nonblocking_helper w e st = Inr st' \<and>
     hclib_future_is_satisfied st' e = Inr (members st f = {} \<and> children st f = {})"
proof -
  note I = heap_invD(1,2) [OF inv]
  define fin0 where "fin0 = fin\<lparr>finish_dep := Some e\<rparr>"
  define st0 where "st0 = put_finish f fin0 st"
  let ?\<delta> = "bump (Some f) 1 (bump (parent fin) 1 (\<lambda>_. 0))"
  have s0: "sched_inv n st0 W {} E" unfolding st0_def using I(1) same_sched_inv [OF same_sched_put_finish] by blast
  have sc0: "scope_inv st0 ?\<delta>" unfolding st0_def fin0_def by (rule scope_set_dep [OF I(2) f(2,3)])
  have \<delta>: "\<bar>?\<delta> a\<bar> \<le> 2" for a by (simp add: bump_def split: option.split)
  have few0: "few_objects st0" "roomy st0" using few by (simp_all add: st0_def few_objects_def roomy_def)
  have e0: "hclib_future_is_satisfied st0 e = Inr False" using e satisfied_cong [of st0 e st] by (simp add: st0_def)
  have f0: "finishes st0 f = Some fin0" "finish_dep fin0 = Some e" by (simp_all add: st0_def fin0_def)
  from check_out_future [OF s0 sc0 w few0(1) \<delta> few0(2) f0 e0] obtain st1 where
    st1: "check_out_finish w (Some f) st0 = Inr st1" "hclib_future_is_satisfied st1 e = Inr (counter fin0 = 1)" by blast
  from check_out_inv [OF s0 sc0 w few0(1) \<delta> st1(1)] obtain W1 where
    W1: "sched_inv n st1 W1 {} E" "scope_inv st1 (bump (Some f) (-1) ?\<delta>)" "evolves st0 st1" by blast
  have sc1: "scope_inv st1 (bump (parent fin) 1 (\<lambda>_. 0))" using W1(2) bump_cancel1(2) [of "Some f"] by simp
  have sat: "counter fin0 = 1 \<longleftrightarrow> members st f = {} \<and> children st f = {}"
    using scope_counter [OF I(2) f(2)] f(3) by (simp add: fin0_def)
  have pos: "counter fin > 0" using scope_invD(3) [OF I(2) f(2)] f(3) by simp
  have few1: "few_objects st1" using few0(1) W1(3) by (simp add: few_objects_def evolves_def)
  have "\<exists>st2. check_out_finish w (parent fin) st1 = Inr st2 \<and> promises st2 = promises st1"
  proof (cases "parent fin")
    case None
    then show ?thesis by (simp add: check_out_finish_def)
  next
    case (Some g)
    have gf: "g \<noteq> f" using scope_invD(2) [OF I(2) f(2) Some] by simp
    obtain fing where "finishes st g = Some fing" "finish_dep fing = None \<or> members st g \<noteq> {}"
      using par [OF Some] scope_invD(4) [OF I(2)] by (fastforce simp: open_scope_def)
    moreover from this obtain fing1 where g1: "finishes st1 g = Some fing1" "finish_dep fing1 = finish_dep fing"
      using evolves_shape [OF W1(3), of g fing] gf by (auto simp: st0_def)
    moreover have "members st1 = members st" using evolves_sets(1) [OF W1(3)] by (simp add: st0_def members_def fun_eq_iff)
    ultimately have "counter fing1 > 1" using sc1 Some by (intro parent_counts [of st1 g]) simp_all
    then show ?thesis using check_out_more [OF sc1 few1 _ g1(1)] Some by simp
  qed
  then obtain st2 where st2: "check_out_finish w (parent fin) st1 = Inr st2" "promises st2 = promises st1" by blast
  have "hclib_end_finish_nonblocking_helper w e st = Inr (set_worker w (parent fin) (cur_task st w) st2)"
    using f st1(1) st2(1) pos
    by (simp add: hclib_end_finish_nonblocking_helper_def get_finish_def c_assert_def st0_def fin0_def)
  moreover have "hclib_future_is_satisfied (set_worker w (parent fin) (cur_task st w) st2) e = hclib_future_is_satisfied st1 e"
    by (rule satisfied_cong) (simp add: st2(2))
  ultimately show ?thesis using st1(2) sat by simp
qed

lemma heap_inv_end_nonblocking:
  assumes inv: "heap_inv n st W E" and w: "w < n" and few: "few_objects st"
    and f: "cur_finish st w = Some f" "finishes st f = Some fin" "finish_dep fin = None"
    and run: "hclib_end_finish_nonblocking_helper w e st = Inr st'"
  shows "\<exists>W'. heap_inv n st' W' E" "members st' = members st" "cur_finish st' w = parent fin"
    "map_option shape (finishes st' f) = Some (parent fin, Some e)"
    "\<And>s. map_option task_core (tasks st' s) = map_option task_core (tasks st s)"
proof -
  obtain W' st2 where W': "sched_inv n st' W' {} E" "scope_inv st' (\<lambda>_. 0)"
      "evolves (put_finish f (fin\<lparr>finish_dep := Some e\<rparr>) st) st2" (is "evolves ?mid _")
      "st' = set_worker w (parent fin) (cur_task st w) st2"
    using end_nonblocking_inv [OF heap_invD(1,2) [OF inv] w few f run] by blast
  show core: "map_option task_core (tasks st' s) = map_option task_core (tasks st s)" for s
    using W'(3) by (simp add: W'(4) evolves_def)
  have "heap_inv n st' W' E"
  proof (rule heap_inv_evolved [OF inv W'(1,2) core])
    have "dep_closed st' = dep_closed st2" "dep_closed ?mid = dep_closed st" by (rule dep_cong, simp add: W'(4))+
    then show "dep_closed st g \<Longrightarrow> dep_closed st' g" for g using W'(3) by (simp add: evolves_def)
  qed (use W'(3) in \<open>auto simp: W'(4) evolves_def set_worker_truncate\<close>)
  then show "\<exists>W'. heap_inv n st' W' E" by blast
  have "map_option t_finish (tasks st' s) = map_option t_finish (tasks st s)" for s by (rule task_core_t_finish [OF core])
  then show "members st' = members st" by (simp add: members_def fun_eq_iff)
  show "map_option shape (finishes st' f) = Some (parent fin, Some e)" using W'(3) by (simp add: W'(4) evolves_def shape_def)
  have "w < length (rt_workers st2)" using heap_invD(5) [OF inv] W'(3) w by (simp add: evolves_def)
  then show "cur_finish st' w = parent fin" by (simp add: W'(4) set_worker_nth)
qed

text \<open>The end of a task keeps the invariant and takes the task out of its scope.\<close>

lemma execute_end_heap:
  assumes inv: "heap_inv n st W E" and w: "w < n" and few: "few_objects st" and t: "t \<in> E" and run: "execute_end w t st = Inr st'"
  shows "\<exists>W'. heap_inv n st' W' (E - {t})" "members st' f = members st f - {t}" "children st' f = children st f"
    "map_option shape (finishes st' f) = map_option shape (finishes st f)"
proof -
  from execute_end_inv [OF heap_invD(1,2) [OF inv] w few t run] obtain W' st2 where
    W': "sched_inv n st' W' {} (E - {t})" "scope_inv st' (\<lambda>_. 0)" "evolves st st2" "st' = st2\<lparr>tasks := (tasks st2)(t := None)\<rparr>" by blast
  have "members st' f = members st2 f - {t}" by (auto simp: W'(4) members_def)
  then show "members st' f = members st f - {t}" using evolves_sets(1) [OF W'(3)] by simp
  have "children st' f = children st2 f" by (simp add: W'(4) children_def)
  then show "children st' f = children st f" using evolves_sets(2) [OF W'(3)] by simp
  show "map_option shape (finishes st' f) = map_option shape (finishes st f)" using W'(3) by (simp add: W'(4) evolves_def)
  have "heap_inv n st' W' (E - {t})"
    unfolding heap_inv_def
  proof (intro conjI allI impI ballI)
    show "search_inv n st'" by (rule search_cong [OF heap_invD(3) [OF inv]]) (use W'(3) in \<open>simp_all add: W'(4) evolves_def\<close>)
    show "p < next_addr st'" if "promises st' p \<noteq> None" for p
      using heap_invD(4) [OF inv, of p] that W'(3) by (simp add: W'(4) evolves_def del: not_None_eq)
    show "deps_done st' s" if "s \<in> E - {t}" for s
      using evolves_done [OF W'(3)] heap_invD(6) [OF inv, of s] that same_done [of st' s st2] by (simp add: W'(4))
  qed (use W' in auto)
  then show "\<exists>W'. heap_inv n st' W' (E - {t})" by blast
qed

lemma execute_end_returns:
  assumes inv: "heap_inv n st W E" and w: "w < n" and few: "few_objects st" "roomy st" and t: "t \<in> E" "t \<in> members st f"
    and f: "finishes st f = Some fin" "finish_dep fin = Some e" and e: "hclib_future_is_satisfied st e = Inr False"
  shows "\<exists>st' W'. execute_end w t st = Inr st' \<and> heap_inv n st' W' (E - {t}) \<and> members st' f = members st f - {t} \<and>
     hclib_future_is_satisfied st' e = Inr (members st f = {t} \<and> children st f = {})"
proof -
  note I = heap_invD(1,2) [OF inv]
  obtain tk where tk: "tasks st t = Some tk" "t_finish tk = Some f" using t(2) by (auto simp: members_def)
  have "\<bar>(\<lambda>_. 0 :: int) f\<bar> \<le> 2" by simp
  from check_out_future [OF I w few(1) this few(2) f e] obtain st1 where
    st1: "check_out_finish w (Some f) st = Inr st1" "hclib_future_is_satisfied st1 e = Inr (counter fin = 1)" by blast
  define st' where "st' = st1\<lparr>tasks := (tasks st1)(t := None)\<rparr>"
  have run: "execute_end w t st = Inr st'" using tk st1(1) by (simp add: execute_end_def get_task_def st'_def)
  have "counter fin = int (card (members st f)) + int (card (children st f))" using scope_invD(3) [OF I(2) f(1)] f(2) by simp
  moreover have "card (members st f) = Suc (card (members st f - {t}))"
    using members_bound(1) [OF I(2), of f] t(2) by (metis card.remove)
  ultimately have "counter fin = 1 \<longleftrightarrow> members st f - {t} = {} \<and> children st f = {}"
    using nothing_counted [of "members st f - {t}" "children st f"] members_bound(1,3) [OF I(2), of f] by (auto simp del: Diff_eq_empty_iff)
  then have c: "counter fin = 1 \<longleftrightarrow> members st f = {t} \<and> children st f = {}" using t(2) by auto
  moreover have "hclib_future_is_satisfied st' e = hclib_future_is_satisfied st1 e" by (rule satisfied_cong) (simp add: st'_def)
  ultimately show ?thesis using run execute_end_heap [OF inv w few(1) t(1) run] st1(2) by auto
qed

text \<open>A scope whose body has not ended: after its last task the counter says so to the worker that waits.\<close>

lemma execute_end_open:
  assumes inv: "heap_inv n st W E" and w: "w < n" and few: "few_objects st" and t: "t \<in> E" "t \<in> members st f"
    and f: "finishes st f = Some fin" "finish_dep fin = None"
  shows "\<exists>st' W' fin'. execute_end w t st = Inr st' \<and> heap_inv n st' W' (E - {t}) \<and> members st' f = members st f - {t} \<and>
     finishes st' f = Some fin' \<and> (counter fin' = 1 \<longleftrightarrow> members st f = {t} \<and> children st f = {})"
proof -
  note I = heap_invD(1,2) [OF inv]
  obtain tk where tk: "tasks st t = Some tk" "t_finish tk = Some f" using t(2) by (auto simp: members_def)
  have "card (members st f) > 0" using t(2) members_bound(1) [OF I(2), of f] by (auto simp: card_gt_0_iff)
  then have "counter fin > 1" using scope_invD(3) [OF I(2) f(1)] f(2) by simp
  then have "\<exists>st'. execute_end w t st = Inr st'" using check_out_more [OF I(2) few _ f(1)] tk by (simp add: execute_end_def get_task_def)
  then obtain st' where run: "execute_end w t st = Inr st'" by blast
  note E = execute_end_heap [OF inv w few t(1) run]
  obtain W' where W': "heap_inv n st' W' (E - {t})" using E(1) by blast
  obtain fin' where fin': "finishes st' f = Some fin'" "finish_dep fin' = None" using E(4) [of f] f by (auto simp: shape_def)
  have "counter fin' = 1 \<longleftrightarrow> members st f - {t} = {} \<and> children st f = {}"
    using scope_counter [OF heap_invD(2) [OF W'] fin'(1)] fin'(2) E(2,3) [of f] by simp
  then show ?thesis using run W' E(2) fin'(1) t(2) by auto
qed

section \<open>Opening the scope and spawning the tasks\<close>

lemma start_finish_returns:
  assumes inv: "heap_inv n st W E" and w: "w < n" and few: "few_objects (st\<lparr>next_addr := next_addr st + 1\<rparr>)"
    and par: "\<And>a. cur_finish st w = Some a \<Longrightarrow> finishes st a \<noteq> None"
  shows "\<exists>st'. hclib_start_finish w st = Inr st' \<and> heap_inv n st' W E \<and> promises st' = promises st \<and> tasks st' = tasks st \<and>
     rt_pool st' = rt_pool st \<and> next_addr st' = next_addr st + 1 \<and> cur_finish st' w = Some (next_addr st) \<and>
     (\<forall>g. map_option shape (finishes st' g) = (if g = next_addr st then Some (cur_finish st w, None) else map_option shape (finishes st g)))"
proof -
  let ?f = "next_addr st" and ?par = "cur_finish st w"
  let ?fin = "\<lparr>parent = ?par, counter = 1, finish_dep = None\<rparr>"
  define st0 where "st0 = put_finish ?f ?fin (st\<lparr>next_addr := ?f + 1\<rparr>)"
  have s0: "scope_inv st0 (bump ?par (-1) (\<lambda>_. 0))" unfolding st0_def by (rule scope_start [OF heap_invD(2) [OF inv] par]) auto
  have few0: "few_objects st0" using few by (simp add: st0_def few_objects_def)
  have "\<bar>bump ?par (-1) (\<lambda>_. 0) a\<bar> \<le> 1" for a by (simp add: bump_def split: option.split)
  moreover have "finishes st0 a \<noteq> None" if "?par = Some a" for a using par [OF that] by (simp add: st0_def)
  ultimately obtain st1 where st1: "check_in_finish ?par st0 = Inr st1" "same_sched st0 st1" "rt_workers st1 = rt_workers st0" "evolves st0 st1"
    using check_in_inv [OF s0 few0, of ?par] by auto
  define st' where "st' = set_worker w (Some ?f) (cur_task st1 w) st1"
  have run: "hclib_start_finish w st = Inr st'" using st1(1) unfolding hclib_start_finish_def Let_def st0_def by (simp add: st'_def)
  have same: "promises st' = promises st" "tasks st' = tasks st" "rt_pool st' = rt_pool st" "next_addr st' = ?f + 1" "rt_paths st' = rt_paths st"
    using st1(2) by (simp_all add: st'_def st0_def same_sched_def)
  have len: "w < length (rt_workers st1)" using heap_invD(5) [OF inv] w st1(3) by (simp add: st0_def)
  then have cur: "cur_finish st' w = Some ?f" by (simp add: st'_def set_worker_nth)
  have shp: "map_option shape (finishes st' g) = (if g = ?f then Some (?par, None) else map_option shape (finishes st g))" for g
    using st1(4) by (simp add: st'_def st0_def evolves_def shape_def)
  have inv': "sched_inv n st' W {} E" "scope_inv st' (\<lambda>_. 0)"
    using start_finish_inv [OF heap_invD(1,2) [OF inv] few par run] by blast+
  have "heap_inv n st' W E"
  proof (rule heap_inv_evolved [OF inv inv'])
    show "map worker_state.truncate (rt_workers st') = map worker_state.truncate (rt_workers st)"
      using set_worker_truncate [of w "Some ?f" "cur_task st1 w" st1] st1(3) by (simp add: st'_def st0_def)
  qed (use dep_cong(1) [OF same(1)] in \<open>auto simp: same\<close>)
  then show ?thesis using run same cur shp by (intro exI [of _ st']) simp
qed

text \<open>What a loop can spawn its tasks in: room for them, and existing locales and futures.\<close>

definition loop_room :: "nat \<Rightarrow> nat \<Rightarrow> ('u, 'd, 'i) hrt \<Rightarrow> 'u request list \<Rightarrow> bool" where
  "loop_room n w st qs \<longleftrightarrow> w < n \<and> next_addr st + length qs \<le> 10 ^ 9 \<and> (\<forall>a. cur_finish st w = Some a \<longrightarrow> finishes st a \<noteq> None) \<and>
     (\<forall>l < length (rt_pool st). reachable (rt_pool st ! l) = Some True) \<and>
     card {t. tasks st t \<noteq> None} + length qs \<le> nat INIT_DEQUE_CAPACITY \<and>
     (\<forall>q \<in> set qs. (\<forall>p \<in> set (req_futures q). promises st p \<noteq> None) \<and> loc_ok st (req_locale q))"

text \<open>The new tasks, one for each request, all of them in the current scope.\<close>

definition tasks_added :: "nat \<Rightarrow> 'u request list \<Rightarrow> ('u, 'd, 'i) hrt \<Rightarrow> ('u, 'd, 'i) hrt \<Rightarrow> bool" where
  "tasks_added w qs st st' \<longleftrightarrow> next_addr st' = next_addr st + length qs \<and>
     (\<forall>i < length qs. map_option (\<lambda>tk. (fp tk, t_finish tk, non_blocking tk)) (tasks st' (next_addr st + i)) =
        Some (User (req_job (qs ! i)), cur_finish st w, req_nb (qs ! i))) \<and>
     (\<forall>t < next_addr st. map_option task_core (tasks st' t) = map_option task_core (tasks st t)) \<and>
     (\<forall>f. map_option shape (finishes st' f) = map_option shape (finishes st f)) \<and>
     (\<forall>p. map_option satisfied (promises st' p) = map_option satisfied (promises st p)) \<and>
     rt_workers st' = rt_workers st \<and> map reachable (rt_pool st') = map reachable (rt_pool st)"

lemma tasks_added_dom:
  assumes sc: "scope_inv st (\<lambda>_. 0)" and add: "tasks_added w [q] st st'" and new: "\<And>t. next_addr st < t \<Longrightarrow> tasks st' t = None"
  shows "card {t. tasks st' t \<noteq> None} = Suc (card {t. tasks st t \<noteq> None})"
proof -
  let ?t = "next_addr st"
  have sub: "{t. tasks st t \<noteq> None} \<subseteq> {..< ?t}" using scope_invD(6) [OF sc] by blast
  have "tasks st' t = None \<longleftrightarrow> tasks st t = None" if "t < ?t" for t
  proof -
    have "map_option task_core (tasks st' t) = map_option task_core (tasks st t)" using add that by (simp add: tasks_added_def)
    then show ?thesis by (metis option.map_disc_iff)
  qed
  moreover have "tasks st' ?t \<noteq> None" using add by (auto simp: tasks_added_def)
  moreover have "tasks st ?t = None" "\<And>t. ?t < t \<Longrightarrow> tasks st t = None" using sub by (auto simp del: not_None_eq)
  ultimately have "tasks st' t \<noteq> None \<longleftrightarrow> t = ?t \<or> tasks st t \<noteq> None" for t
    using new by (cases t ?t rule: linorder_cases) (simp_all del: not_None_eq)
  then have dom: "{t. tasks st' t \<noteq> None} = insert ?t {t. tasks st t \<noteq> None}" by blast
  have "finite {t. tasks st t \<noteq> None}" by (rule finite_subset [OF sub]) simp
  moreover have "?t \<notin> {t. tasks st t \<noteq> None}" using sub by auto
  ultimately show ?thesis unfolding dom by (rule card_insert_disjoint)
qed

lemma room_left:
  assumes sc: "scope_inv st (\<lambda>_. 0)" "scope_inv st' (\<lambda>_. 0)" and room: "loop_room n w st (q # qs)" and add: "tasks_added w [q] st st'"
  shows "loop_room n w st' qs"
proof -
  have e: "next_addr st' = next_addr st + 1" "rt_workers st' = rt_workers st" "map reachable (rt_pool st') = map reachable (rt_pool st)"
    using add by (simp_all add: tasks_added_def)
  have len: "length (rt_pool st') = length (rt_pool st)" using e(3) by (metis length_map)
  have "reachable (rt_pool st' ! l) = reachable (rt_pool st ! l)" if "l < length (rt_pool st)" for l
    using e(3) that len by (metis nth_map)
  moreover have "promises st' p = None \<longleftrightarrow> promises st p = None" for p using add unfolding tasks_added_def by (metis option.map_disc_iff)
  moreover have "finishes st' f = None \<longleftrightarrow> finishes st f = None" for f using add unfolding tasks_added_def by (metis option.map_disc_iff)
  moreover have "tasks st' t = None" if "next_addr st < t" for t using scope_invD(6) [OF sc(2), of t] that e(1) by fastforce
  then have "card {t. tasks st' t \<noteq> None} = Suc (card {t. tasks st t \<noteq> None})" by (rule tasks_added_dom [OF sc(1) add])
  ultimately show ?thesis
    using room e(1,2) len unfolding loop_room_def by (auto simp: loc_ok_def simp del: not_None_eq split: option.splits)
qed

lemma run_request_adds:
  assumes inv: "heap_inv n st W E" and room: "loop_room n w st (q # qs)"
  shows "\<exists>st' W'. run_request w q st = Inr st' \<and> heap_inv n st' W' E \<and> tasks_added w [q] st st' \<and> loop_room n w st' qs \<and>
    map_option (\<lambda>tk. (t_locale tk, waiting_on tk)) (tasks st' (next_addr st)) =
      Some (req_locale q, waiting_on (set_futures (map Some (req_futures q)) (new_task (User (req_job q)) (req_nb q))))"
proof -
  let ?t = "next_addr st" and ?fs = "map Some (req_futures q)"
  have R: "w < n" "\<And>a. cur_finish st w = Some a \<Longrightarrow> finishes st a \<noteq> None" "\<And>l. req_locale q = Some l \<Longrightarrow> l < length (rt_pool st)"
    using room by (auto simp: loop_room_def loc_ok_def)
  have few: "few_objects (st\<lparr>next_addr := ?t + 1\<rparr>)" using room by (simp add: loop_room_def few_objects_def)
  have fs: "futures_ok st ?fs" using room by (cases "req_futures q") (auto simp: loop_room_def futures_ok_def)
  note I = heap_invD(1,2) [OF inv]
  have "card {t. tasks st t \<noteq> None} < nat INIT_DEQUE_CAPACITY" using room by (simp add: loop_room_def)
  then obtain st' where go: "spawn_handler w ?t (req_locale q) ?fs False (fst (alloc_task (User (req_job q)) (req_nb q) st)) = Inr st'"
    using spawn_returns [OF I R(1) few fs R(3) R(2), of "req_locale q" False "User (req_job q)" "req_nb q"] room by (auto simp: loop_room_def)
  have run: "run_request w q st = Inr st'" using go by (simp add: run_request_def helpers_ref async_ref_def)
  have loc: "loc_ok st (req_locale q)" using room by (simp add: loop_room_def)
  obtain W' where W': "heap_inv n st' W' E" using heap_inv_spawn [OF inv R(1) few fs loc R(2) go] by blast
  obtain st2 tk where st2: "spawn_handler w ?t (req_locale q) ?fs False (fst (alloc_task (User (req_job q)) (req_nb q) st)) = try_schedule_async ?t w st2"
    "sched_inv n st2 W {?t} E" "scope_inv st2 (\<lambda>_. 0)" "tasks st2 = (tasks st)(?t \<mapsto> tk)" "rt_pool st2 = rt_pool st" "promises st2 = promises st"
    "int (next_addr st2) \<le> MAX_INT" "if waiting_on tk ! 0 = None then ready_ok st2 ?t else resumes_ok st2 ?t"
    "fp tk = User (req_job q)" "t_finish tk = (if False then None else cur_finish st w)" "non_blocking tk = req_nb q"
    "evolves (put_task ?t tk (st\<lparr>next_addr := ?t + 1\<rparr>)) st2" "t_locale tk = req_locale q"
    "waiting_on tk = waiting_on (set_futures ?fs (new_task (User (req_job q)) (req_nb q)))"
    by (rule spawn_prepares [OF I R(1) few fs R(3) R(2)])
  have k: "keeps st2 st'" using try_schedule_inv [OF st2(2) _ _ st2(8) R(1) st2(7)] go st2(1,4) by auto
  have core: "map_option task_core (tasks st' t) = map_option task_core (((tasks st)(?t \<mapsto> tk)) t)" for t
    using k st2(4) by (simp add: keeps_def)
  have e: "finishes st' = finishes st2" "rt_workers st' = rt_workers st" "map reachable (rt_pool st') = map reachable (rt_pool st)" "next_addr st' = ?t + 1"
    "\<And>p. map_option satisfied (promises st' p) = map_option satisfied (promises st p)"
    "\<And>f. map_option shape (finishes st' f) = map_option shape (finishes st f)"
    using k st2(5,6,12) by (simp_all add: keeps_def evolves_def)
  obtain tk' where tk': "tasks st' ?t = Some tk'" "task_core tk' = task_core tk" using core [of ?t] by auto
  then have add: "tasks_added w [q] st st'"
    using task_core_fp [OF tk'(2)] st2(9-11) core e by (auto simp: tasks_added_def)
  have "waiting_on tk' = waiting_on tk" using arg_cong [OF tk'(2), of waiting_on] by (simp add: task_core_def)
  then have "map_option (\<lambda>tk. (t_locale tk, waiting_on tk)) (tasks st' ?t) =
      Some (req_locale q, waiting_on (set_futures ?fs (new_task (User (req_job q)) (req_nb q))))"
    using task_core_fp [OF tk'(2)] tk'(1) st2(13,14) by simp
  moreover have "loop_room n w st' qs" by (rule room_left [OF I(2) heap_invD(2) [OF W'] room add])
  ultimately show ?thesis using run W' add by blast
qed

lemma tasks_added_trans:
  assumes "tasks_added w [q] st st1" "tasks_added w qs st1 st2"
  shows "tasks_added w (q # qs) st st2"
proof -
  have c: "map_option task_core (tasks st2 t) = map_option task_core (tasks st1 t)" if "t \<le> next_addr st" for t
    using assms that by (simp add: tasks_added_def)
  have first: "map_option (\<lambda>tk. (fp tk, t_finish tk, non_blocking tk)) (tasks st2 (next_addr st)) =
      Some (User (req_job q), cur_finish st w, req_nb q)"
  proof -
    obtain tk1 where tk1: "tasks st1 (next_addr st) = Some tk1" "fp tk1 = User (req_job q)" "t_finish tk1 = cur_finish st w" "non_blocking tk1 = req_nb q"
      using assms(1) by (auto simp: tasks_added_def)
    moreover from this obtain tk2 where "tasks st2 (next_addr st) = Some tk2" "task_core tk2 = task_core tk1" using c [of "next_addr st"] by auto
    ultimately show ?thesis using task_core_fp [of tk2 tk1] by simp
  qed
  have rest: "map_option (\<lambda>tk. (fp tk, t_finish tk, non_blocking tk)) (tasks st2 (next_addr st + i)) =
      Some (User (req_job ((q # qs) ! i)), cur_finish st w, req_nb ((q # qs) ! i))" if "i < length (q # qs)" for i
  proof (cases i)
    case 0
    then show ?thesis using first by simp
  next
    case (Suc j)
    then show ?thesis using assms that by (simp add: tasks_added_def)
  qed
  then show ?thesis using assms c unfolding tasks_added_def by simp
qed

lemma run_requests_adds:
  assumes "heap_inv n st W E" "loop_room n w st qs"
  shows "\<exists>st' W'. run_requests w qs st = Inr st' \<and> heap_inv n st' W' E \<and> tasks_added w qs st st' \<and> loop_room n w st' []"
  using assms
proof (induction qs arbitrary: st W)
  case Nil
  then show ?case by (auto simp: tasks_added_def)
next
  case (Cons q qs)
  then obtain st1 W1 where "run_request w q st = Inr st1" "heap_inv n st1 W1 E" "tasks_added w [q] st st1" "loop_room n w st1 qs"
    using run_request_adds by blast
  moreover from this(2,4) obtain st2 W2 where "run_requests w qs st1 = Inr st2" "heap_inv n st2 W2 E" "tasks_added w qs st1 st2" "loop_room n w st2 []"
    using Cons.IH by blast
  ultimately show ?case using tasks_added_trans by auto
qed

lemma run_calls_quiet: "\<forall>x s. body x s = Inr s \<Longrightarrow> run_calls body xs st = Inr st"
  by (induction xs) simp_all

text \<open>The members of a scope in which nothing was spawned before.\<close>

lemma added_members:
  assumes sc: "scope_inv st' (\<lambda>_. 0)" and add: "tasks_added w qs st st'" and cur: "cur_finish st w = Some f" "members st f = {}"
  shows "members st' f = {next_addr st ..< next_addr st + length qs}"
proof (intro set_eqI iffI)
  fix t assume t: "t \<in> members st' f"
  then have "t < next_addr st'" using scope_invD(6) [OF sc, of t] by (auto simp: members_def)
  moreover have "\<not> t < next_addr st"
  proof
    assume "t < next_addr st"
    then have "map_option t_finish (tasks st' t) = map_option t_finish (tasks st t)"
      using add by (intro task_core_t_finish) (simp add: tasks_added_def)
    then have "t \<in> members st f" using t unfolding members_def mem_Collect_eq by metis
    then show False using cur(2) by simp
  qed
  ultimately show "t \<in> {next_addr st ..< next_addr st + length qs}" using add by (simp add: tasks_added_def)
next
  fix t assume t: "t \<in> {next_addr st ..< next_addr st + length qs}"
  define i where "i = t - next_addr st"
  then have "i < length qs" "t = next_addr st + i" using t by auto
  then show "t \<in> members st' f" using add cur(1) by (auto simp: tasks_added_def members_def)
qed

text \<open>From the start of the scope to its end.\<close>

lemma fresh_scope:
  assumes sc: "scope_inv st (\<lambda>_. 0)" and par: "\<And>a. par = Some a \<Longrightarrow> finishes st a \<noteq> None"
    and shp: "\<And>g. map_option shape (finishes st' g) = (if g = next_addr st then Some (par, None) else map_option shape (finishes st g))"
  shows "members st (next_addr st) = {}" "children st' (next_addr st) = {}"
proof -
  let ?f = "next_addr st"
  have none: "finishes st ?f = None" using scope_invD(1) [OF sc, of ?f] by (cases "finishes st ?f") auto
  show "members st ?f = {}" using scope_invD(4) [OF sc] none by blast
  have "map_option shape (finishes st g) \<noteq> Some (Some ?f, None)" for g
    using scope_invD(5) [OF sc, of g ?f] none by (auto simp: children_def shape_eq)
  then show "children st' ?f = {}" using par [of ?f] none by (auto simp: children_def shape_eq shp)
qed

lemma loop_body_runs:
  fixes st :: "(job, 'd, 'i) hrt"
  assumes inv: "heap_inv n st W E" and room: "loop_room n w st qs" "next_addr st + 1 + length qs \<le> 10 ^ 9"
    and quiet: "\<forall>x s. body x s = Inr s"
  obtains st1 st2 W2 where "hclib_start_finish w st = Inr st1" "run_activation w body (qs, xs) st1 = Inr st2" "heap_inv n st2 W2 E"
    "loop_room n w st2 []" "next_addr st2 = next_addr st + 1 + length qs" "cur_finish st2 w = Some (next_addr st)"
    "\<And>g. map_option shape (finishes st2 g) = (if g = next_addr st then Some (cur_finish st w, None) else map_option shape (finishes st g))"
    "members st2 (next_addr st) = {next_addr st + 1 ..< next_addr st + 1 + length qs}" "children st2 (next_addr st) = {}"
    "\<And>i. i < length qs \<Longrightarrow> map_option fp (tasks st2 (next_addr st + 1 + i)) = Some (User (req_job (qs ! i)))"
    "\<And>t. t < next_addr st \<Longrightarrow> map_option task_core (tasks st2 t) = map_option task_core (tasks st t)"
    "\<And>p. map_option satisfied (promises st2 p) = map_option satisfied (promises st p)"
proof -
  let ?f = "next_addr st"
  have R: "w < n" "\<And>a. cur_finish st w = Some a \<Longrightarrow> finishes st a \<noteq> None" using room(1) by (auto simp: loop_room_def)
  have few: "few_objects (st\<lparr>next_addr := ?f + 1\<rparr>)" using room(2) by (simp add: few_objects_def)
  obtain st1 where st1: "hclib_start_finish w st = Inr st1" "heap_inv n st1 W E" "promises st1 = promises st" "tasks st1 = tasks st"
      "rt_pool st1 = rt_pool st" "next_addr st1 = ?f + 1" "cur_finish st1 w = Some ?f"
    and shp: "\<And>g. map_option shape (finishes st1 g) = (if g = ?f then Some (cur_finish st w, None) else map_option shape (finishes st g))"
    using start_finish_returns [OF inv R(1) few R(2)] by metis
  have "finishes st1 ?f \<noteq> None" using shp [of ?f] by auto
  then have "loop_room n w st1 qs" using room st1 by (auto simp: loop_room_def loc_ok_def simp del: not_None_eq split: option.splits)
  then obtain st2 W2 where st2: "run_requests w qs st1 = Inr st2" "heap_inv n st2 W2 E" "tasks_added w qs st1 st2" "loop_room n w st2 []"
    using run_requests_adds [OF st1(2)] by blast
  have shp2: "map_option shape (finishes st2 g) = (if g = ?f then Some (cur_finish st w, None) else map_option shape (finishes st g))" for g
    using st2(3) shp [of g] by (simp add: tasks_added_def)
  note fresh = fresh_scope [OF heap_invD(2) [OF inv] R(2) shp2]
  have "members st1 ?f = {}" using fresh(1) st1(4) by (simp add: members_def)
  then have mem: "members st2 ?f = {?f + 1 ..< ?f + 1 + length qs}"
    using added_members [OF heap_invD(2) [OF st2(2)] st2(3) st1(7)] st1(6) by simp
  have fp: "map_option fp (tasks st2 (?f + 1 + i)) = Some (User (req_job (qs ! i)))" if "i < length qs" for i
    using st2(3) st1(6) that by (auto simp: tasks_added_def)
  show thesis
    by (rule that [OF st1(1) _ st2(2,4) _ _ shp2 mem fresh(2) fp])
      (use st1 st2 run_calls_quiet [OF quiet] in \<open>auto simp: run_activation_def tasks_added_def\<close>)
qed

text \<open>A loop's scope \<open>f\<close> with future \<open>e\<close> and its tasks from \<open>t0\<close> on.\<close>

definition loop_spawned :: "nat \<Rightarrow> nat set \<Rightarrow> nat \<Rightarrow> nat \<Rightarrow> nat \<Rightarrow> nat \<Rightarrow> job list \<Rightarrow> (job, 'd, 'i) hrt \<Rightarrow> (job, 'd, 'i) hrt \<Rightarrow> bool" where
  "loop_spawned n E w f e t0 js st st' \<longleftrightarrow> (\<exists>W'. heap_inv n st' W' E) \<and> cur_finish st' w = cur_finish st w \<and>
     map_option shape (finishes st' f) = Some (cur_finish st w, Some e) \<and> members st' f = {t0 ..< t0 + length js} \<and>
     (\<forall>i < length js. map_option fp (tasks st' (t0 + i)) = Some (User (js ! i))) \<and> hclib_future_is_satisfied st' e = Inr (js = [])"

text \<open>The scope around the loop is open, or has a task, such as the one that runs the loop.\<close>

definition held_scope :: "('u, 'd, 'i) hrt \<Rightarrow> nat \<Rightarrow> bool" where
  "held_scope st w \<longleftrightarrow> (\<forall>g. cur_finish st w = Some g \<longrightarrow> open_scope st g \<or> members st g \<noteq> {})"

lemma roomy_room: "loop_room n w st [] \<Longrightarrow> roomy st" "loop_room n w st qs \<Longrightarrow> few_objects st"
  by (auto simp: loop_room_def roomy_def few_objects_def)

lemma create_facts:
  assumes "hclib_promise_create st = (st', e)"
  shows "e = next_addr st" "st' = fst (hclib_promise_create st)" "next_addr st' = next_addr st + 1" "tasks st' = tasks st" "finishes st' = finishes st"
    "rt_pool st' = rt_pool st" "rt_workers st' = rt_workers st" "promises st' = (promises st)(e \<mapsto> hclib_promise_init)"
    "hclib_future_is_satisfied st' e = Inr False"
  using assms by (auto simp: hclib_promise_create_def fun_upd_def open_promise hclib_promise_init_def)

lemma create_room: "hclib_promise_create st = (st', e) \<Longrightarrow> loop_room n w st qs \<Longrightarrow> next_addr st + 1 + length qs \<le> 10 ^ 9 \<Longrightarrow> loop_room n w st' qs"
  by (auto simp: loop_room_def loc_ok_def create_facts split: option.splits)

lemma loop_ends:
  fixes st0 st2 :: "(job, 'd, 'i) hrt"
  assumes inv: "heap_inv n st2 W2 E" and room: "loop_room n w st2 []" and cur: "cur_finish st2 w = Some f" "held_scope st0 w"
    and f: "finishes st0 f = None"
    and shp: "\<And>g. map_option shape (finishes st2 g) = (if g = f then Some (cur_finish st0 w, None) else map_option shape (finishes st0 g))"
    and old: "\<And>t. tasks st0 t \<noteq> None \<Longrightarrow> map_option task_core (tasks st2 t) = map_option task_core (tasks st0 t)"
    and par: "\<And>a. cur_finish st0 w = Some a \<Longrightarrow> finishes st0 a \<noteq> None"
    and mem: "members st2 f = {t0 ..< t0 + length js}" "children st2 f = {}"
    and fp: "\<And>i. i < length js \<Longrightarrow> map_option fp (tasks st2 (t0 + i)) = Some (User (js ! i))"
    and e: "hclib_future_is_satisfied st2 e = Inr False"
  shows "\<exists>st'. hclib_end_finish_nonblocking_helper w e st2 = Inr st' \<and> loop_spawned n E w f e t0 js st0 st'"
proof -
  obtain fin where fin: "finishes st2 f = Some fin" "finish_dep fin = None" "parent fin = cur_finish st0 w"
    using shp [of f] by (auto simp: shape_def)
  have w: "w < n" using room by (simp add: loop_room_def)
  have held: "open_scope st2 g \<or> members st2 g \<noteq> {}" if g: "parent fin = Some g" for g
  proof -
    have ne: "g \<noteq> f" using par [of g] f g fin(3) by auto
    have "map_option shape (finishes st2 g) = map_option shape (finishes st0 g)" using shp [of g] ne by simp
    then have "open_scope st0 g \<Longrightarrow> open_scope st2 g" by (auto simp: open_scope_def shape_def)
    moreover have "t \<in> members st2 g" if "t \<in> members st0 g" for t
      using that task_core_t_finish [OF old [of t]] by (auto simp: members_def)
    ultimately show ?thesis using cur(2) g fin(3) by (auto simp: held_scope_def)
  qed
  obtain st' where st': "hclib_end_finish_nonblocking_helper w e st2 = Inr st'" "hclib_future_is_satisfied st' e = Inr (members st2 f = {} \<and> children st2 f = {})"
    using end_nonblocking_returns [OF inv w roomy_room(2) [OF room] roomy_room(1) [OF room] cur(1) fin(1,2) held e] by blast
  note H = heap_inv_end_nonblocking [OF inv w roomy_room(2) [OF room] cur(1) fin(1,2) st'(1)]
  have "map_option fp (tasks st' t) = map_option fp (tasks st2 t)" for t
    using H(5) [of t] task_core_fp by (cases "tasks st' t"; cases "tasks st2 t") auto
  then have "loop_spawned n E w f e t0 js st0 st'" using H(1-4) st'(2) mem fp fin(3) by (auto simp: loop_spawned_def)
  then show ?thesis using st'(1) by blast
qed

lemma loop_tail:
  fixes st :: "(job, 'd, 'i) hrt"
  assumes inv: "heap_inv n st W E" and held: "held_scope st w" and room: "loop_room n w st qs" "next_addr st + 1 + length qs \<le> 10 ^ 9"
    and quiet: "\<forall>x s. body x s = Inr s"
  shows "\<exists>st1 st2 W2. hclib_start_finish w st = Inr st1 \<and> run_activation w body (qs, xs) st1 = Inr st2 \<and> heap_inv n st2 W2 E \<and>
    loop_room n w st2 [] \<and> next_addr st2 = next_addr st + 1 + length qs \<and>
    (\<forall>p. map_option satisfied (promises st2 p) = map_option satisfied (promises st p)) \<and>
    (\<forall>st3 W3 e. heap_inv n st3 W3 E \<and> loop_room n w st3 [] \<and> tasks st3 = tasks st2 \<and> finishes st3 = finishes st2 \<and> rt_workers st3 = rt_workers st2 \<and>
       hclib_future_is_satisfied st3 e = Inr False \<longrightarrow>
       (\<exists>st'. hclib_end_finish_nonblocking_helper w e st3 = Inr st' \<and>
          loop_spawned n E w (next_addr st) e (next_addr st + 1) (map req_job qs) st st'))"
proof -
  let ?f = "next_addr st"
  obtain st1 st2 W2 where
    S: "hclib_start_finish w st = Inr st1" "run_activation w body (qs, xs) st1 = Inr st2" "heap_inv n st2 W2 E"
      "loop_room n w st2 []" "next_addr st2 = ?f + 1 + length qs" "cur_finish st2 w = Some ?f"
    and shp: "\<And>g. map_option shape (finishes st2 g) = (if g = ?f then Some (cur_finish st w, None) else map_option shape (finishes st g))"
    and mem: "members st2 ?f = {?f + 1 ..< ?f + 1 + length qs}" "children st2 ?f = {}"
    and fp: "\<And>i. i < length qs \<Longrightarrow> map_option fp (tasks st2 (?f + 1 + i)) = Some (User (req_job (qs ! i)))"
    and old: "\<And>t. t < ?f \<Longrightarrow> map_option task_core (tasks st2 t) = map_option task_core (tasks st t)"
    and sat: "\<And>p. map_option satisfied (promises st2 p) = map_option satisfied (promises st p)"
    by (rule loop_body_runs [OF inv room quiet, of xs]) blast
  have none: "finishes st ?f = None" using scope_invD(1) [OF heap_invD(2) [OF inv], of ?f] by (cases "finishes st ?f") auto
  have par: "finishes st a \<noteq> None" if "cur_finish st w = Some a" for a using room(1) that by (simp add: loop_room_def)
  have "\<exists>st'. hclib_end_finish_nonblocking_helper w e st3 = Inr st' \<and> loop_spawned n E w ?f e (?f + 1) (map req_job qs) st st'"
    if "heap_inv n st3 W3 E" "loop_room n w st3 []" "tasks st3 = tasks st2" "finishes st3 = finishes st2" "rt_workers st3 = rt_workers st2"
      "hclib_future_is_satisfied st3 e = Inr False" for st3 W3 e
  proof (rule loop_ends [OF that(1,2) _ held none _ _ par _ _ _ that(6)])
    show "map_option task_core (tasks st3 t) = map_option task_core (tasks st t)" if "tasks st t \<noteq> None" for t
      using old scope_invD(6) [OF heap_invD(2) [OF inv] that] \<open>tasks st3 = tasks st2\<close> by simp
    show "members st3 ?f = {?f + 1 ..< ?f + 1 + length (map req_job qs)}" "children st3 ?f = {}"
      using mem that by (simp_all add: members_def children_def)
  qed (use S(6) that shp fp in \<open>auto simp del: not_None_eq\<close>)
  then show ?thesis using S sat by blast
qed

lemma scope_loop_correct:
  fixes st :: "(job, 'd, 'i) hrt"
  assumes inv: "heap_inv n st W E" and held: "held_scope st w" and room: "loop_room n w st qs" "next_addr st + 2 + length qs \<le> 10 ^ 9"
    and quiet: "\<forall>x s. body x s = Inr s" and new: "hclib_promise_create st = (st0, e)"
  shows "\<exists>st'. loop_future_scope w body e (Inr (qs, xs)) st0 = Inr (st', e) \<and> loop_spawned n E w (e + 1) e (e + 2) (map req_job qs) st st'"
proof -
  note C = create_facts [OF new]
  have held0: "held_scope st0 w" using held C(4,5,7) by (simp add: held_scope_def open_scope_def members_def)
  have r0: "loop_room n w st0 qs" "next_addr st0 + 1 + length qs \<le> 10 ^ 9" using create_room [OF new room(1)] room(2) C(3) by auto
  have "heap_inv n st0 W E" unfolding C(2) by (rule heap_inv_create [OF inv])
  from loop_tail [OF this held0 r0 quiet, of xs] obtain st1 st2 W2 where
    S: "hclib_start_finish w st0 = Inr st1" "run_activation w body (qs, xs) st1 = Inr st2" "heap_inv n st2 W2 E" "loop_room n w st2 []"
      "\<And>p. map_option satisfied (promises st2 p) = map_option satisfied (promises st0 p)"
    and fin: "\<And>e. hclib_future_is_satisfied st2 e = Inr False \<Longrightarrow> \<exists>st'. hclib_end_finish_nonblocking_helper w e st2 = Inr st' \<and>
        loop_spawned n E w (next_addr st0) e (next_addr st0 + 1) (map req_job qs) st0 st'"
    by blast
  have "hclib_future_is_satisfied st2 e = Inr False" using C(9) satisfied_cong [OF S(5)] by simp
  from fin [OF this] obtain st' where "hclib_end_finish_nonblocking_helper w e st2 = Inr st'"
      "loop_spawned n E w (e + 1) e (e + 2) (map req_job qs) st0 st'" using C(1,3) by auto
  then show ?thesis using S(1,2) C(7) by (auto simp: loop_future_scope_def hclib_get_future_for_promise_def loop_spawned_def)
qed

lemma c_loop_correct:
  fixes st :: "(job, 'd, 'i) hrt"
  assumes inv: "heap_inv n st W E" and held: "held_scope st w" and room: "loop_room n w st qs" "next_addr st + 2 + length qs \<le> 10 ^ 9"
    and quiet: "\<forall>x s. body x s = Inr s" and qs: "qs = map (\<lambda>j. async_await j None) js" and run: "hclib_forasync nworkers ds dim mode = Inr (js, xs)"
  shows "\<exists>st'. hclib_forasync_future w body nworkers ds dim mode st = Inr (st', next_addr st + 1 + length js) \<and>
    loop_spawned n E w (next_addr st) (next_addr st + 1 + length js) (next_addr st + 1) js st st'"
proof -
  have r: "next_addr st + 1 + length qs \<le> 10 ^ 9" using room(2) by simp
  from loop_tail [OF inv held room(1) r quiet, of xs] obtain st1 st2 W2 where
    S: "hclib_start_finish w st = Inr st1" "run_activation w body (qs, xs) st1 = Inr st2" "heap_inv n st2 W2 E" "loop_room n w st2 []"
      "next_addr st2 = next_addr st + 1 + length qs"
    and fin: "\<And>st3 W3 e. heap_inv n st3 W3 E \<Longrightarrow> loop_room n w st3 [] \<Longrightarrow> tasks st3 = tasks st2 \<Longrightarrow> finishes st3 = finishes st2 \<Longrightarrow>
        rt_workers st3 = rt_workers st2 \<Longrightarrow> hclib_future_is_satisfied st3 e = Inr False \<Longrightarrow>
        \<exists>st'. hclib_end_finish_nonblocking_helper w e st3 = Inr st' \<and> loop_spawned n E w (next_addr st) e (next_addr st + 1) (map req_job qs) st st'"
    by blast
  obtain st3 e where new: "hclib_promise_create st2 = (st3, e)" by fastforce
  note C = create_facts [OF new]
  have "loop_room n w st3 []" by (rule create_room [OF new S(4)]) (use S(5) room(2) in simp)
  moreover have "heap_inv n st3 W2 E" unfolding C(2) by (rule heap_inv_create [OF S(3)])
  ultimately obtain st' where "hclib_end_finish_nonblocking_helper w e st3 = Inr st'"
      "loop_spawned n E w (next_addr st) e (next_addr st + 1) (map req_job qs) st st'"
    using fin [of st3 W2 e] C by blast
  moreover have "map req_job qs = js" "length qs = length js" using qs by (simp_all add: async_await_def comp_def)
  ultimately show ?thesis using run S(1,2,5) new C(1) qs
    by (auto simp: hclib_forasync_future_def hclib_end_finish_nonblocking_def hclib_get_future_for_promise_def)
qed

lemma seq_loop_correct:
  fixes st :: "(job, 'd, 'i) hrt"
  assumes inv: "heap_inv n st W E" and room: "loop_room n w st ([] :: job request list)" "next_addr st + 1 \<le> 10 ^ 9"
    and quiet: "\<forall>x s. body x s = Inr s" and xs: "forasync1D_seq d0 = Some xs" and new: "hclib_promise_create st = (st0, e)"
  shows "\<exists>st'. loop_future_seq w body e d0 st0 = Inr (st', e) \<and> hclib_future_is_satisfied st' e = Inr True"
proof -
  note C = create_facts [OF new]
  have w: "w < n" using room by (simp add: loop_room_def)
  have r0: "loop_room n w st0 ([] :: job request list)" using create_room [OF new room(1)] room(2) by simp
  have "heap_inv n st0 W E" unfolding C(2) by (rule heap_inv_create [OF inv])
  moreover obtain pr where "promises st0 e = Some pr" "\<not> satisfied pr" using C(9) by (auto simp: open_promise)
  moreover have "int (next_addr st0) \<le> MAX_INT" using roomy_room(2) [OF r0] by (simp add: few_objects_def MAX_INT_def)
  ultimately obtain st' where "hclib_promise_put w (Some e) None st0 = Inr st'"
    using promise_put_inv [OF heap_invD(1) _ _ w] roomy_room(1) [OF r0] by blast
  then show ?thesis using xs run_calls_quiet [OF quiet] put_satisfies
    by (auto simp: loop_future_seq_def from_loop_def hclib_get_future_for_promise_def)
qed

section \<open>Properties\<close>

text \<open>
  C6: the future of a scope that is ended without waiting. Ending the scope satisfies it at once exactly if no
  task of the scope and no scope inside it is left; afterwards the end of a task of the scope
  satisfies it exactly if this was the last task and no scope inside is open. Both return in a
  roomy state, keep the invariant of the runtime, and lose no task of the scope.
\<close>

theorem nonblocking_finish_future:
  assumes "heap_inv n st W E" "w < n" "few_objects st" "roomy st" "hclib_future_is_satisfied st e = Inr False"
  shows "(\<forall>f fin. cur_finish st w = Some f \<and> finishes st f = Some fin \<and> finish_dep fin = None \<and>
       (\<forall>g. parent fin = Some g \<longrightarrow> open_scope st g \<or> members st g \<noteq> {}) \<longrightarrow>
       (\<exists>st' W'. hclib_end_finish_nonblocking_helper w e st = Inr st' \<and> heap_inv n st' W' E \<and> cur_finish st' w = parent fin \<and>
          members st' f = members st f \<and> hclib_future_is_satisfied st' e = Inr (members st f = {} \<and> children st f = {}))) \<and>
    (\<forall>t f fin. t \<in> E \<and> t \<in> members st f \<and> finishes st f = Some fin \<and> finish_dep fin = Some e \<longrightarrow>
       (\<exists>st' W'. execute_end w t st = Inr st' \<and> heap_inv n st' W' (E - {t}) \<and> members st' f = members st f - {t} \<and>
          hclib_future_is_satisfied st' e = Inr (members st f = {t} \<and> children st f = {})))"
proof (intro conjI allI impI; elim conjE)
  fix f fin
  assume f: "cur_finish st w = Some f" "finishes st f = Some fin" "finish_dep fin = None"
    and par: "\<forall>g. parent fin = Some g \<longrightarrow> open_scope st g \<or> members st g \<noteq> {}"
  from par have "open_scope st g \<or> members st g \<noteq> {}" if "parent fin = Some g" for g using that by blast
  from end_nonblocking_returns [OF assms(1-4) f this assms(5)] obtain st' where
    st': "hclib_end_finish_nonblocking_helper w e st = Inr st'" "hclib_future_is_satisfied st' e = Inr (members st f = {} \<and> children st f = {})" by blast
  show "\<exists>st' W'. hclib_end_finish_nonblocking_helper w e st = Inr st' \<and> heap_inv n st' W' E \<and> cur_finish st' w = parent fin \<and>
      members st' f = members st f \<and> hclib_future_is_satisfied st' e = Inr (members st f = {} \<and> children st f = {})"
    using st' heap_inv_end_nonblocking(1-3) [OF assms(1-3) f st'(1)] by auto
qed (rule execute_end_returns [OF assms(1-4) _ _ _ _ assms(5)])


text \<open>An idle runtime with one worker.\<close>

lemma idle_room: "held_scope idle_heap 0"
  by (simp add: idle_heap_def held_scope_def)


text \<open>A scope without tasks: its future is satisfied at once.\<close>

theorem nonblocking_finish_future_witness:
  "\<exists>st1 st' W'. hclib_start_finish 0 (fst (hclib_promise_create (idle_heap :: (nat, nat, nat) hrt))) = Inr st1 \<and>
     hclib_end_finish_nonblocking_helper 0 0 st1 = Inr st' \<and> heap_inv 1 st' W' {} \<and> hclib_future_is_satisfied st' 0 = Inr True"
proof -
  let ?st = "fst (hclib_promise_create (idle_heap :: (nat, nat, nat) hrt))"
  have new: "hclib_promise_create (idle_heap :: (nat, nat, nat) hrt) = (?st, 0)" by (simp add: hclib_promise_create_def idle_heap_def)
  note C = create_facts [OF new]
  have st: "cur_finish ?st 0 = None" "next_addr ?st = 1" "few_objects (?st\<lparr>next_addr := next_addr ?st + 1\<rparr>)" "0 < (1 :: nat)"
    "\<And>l. l < length (rt_pool ?st) \<Longrightarrow> reachable (rt_pool ?st ! l) = Some True" "\<And>t. tasks ?st t = None" "\<And>f. finishes ?st f = None"
    by (simp_all add: hclib_promise_create_def idle_heap_def few_objects_def)
  obtain st1 where st1: "hclib_start_finish 0 ?st = Inr st1" "heap_inv 1 st1 (\<lambda>_. []) {}" "promises st1 = promises ?st" "tasks st1 = tasks ?st"
      "rt_pool st1 = rt_pool ?st" "next_addr st1 = 2" "cur_finish st1 0 = Some 1"
    and shp: "\<And>g. map_option shape (finishes st1 g) = (if g = 1 then Some (None, None) else None)"
    using start_finish_returns [OF heap_inv_create [OF idle_heap_can(1)] st(4,3)] st by fastforce
  obtain fin where fin: "finishes st1 1 = Some fin" "finish_dep fin = None" "parent fin = None" using shp [of 1] by (auto simp: shape_def)
  have "hclib_future_is_satisfied st1 0 = Inr False" using C(9) satisfied_cong [of st1 0 ?st] st1(3) by simp
  moreover have "roomy st1" "few_objects st1" using st(5,6) st1(4-6) by (simp_all add: roomy_def few_objects_def)
  moreover have "members st1 1 = {}" "children st1 1 = {}"
    using st(6) st1(4) shp by (auto simp: members_def children_def shape_eq split: if_splits)
  ultimately show ?thesis using nonblocking_finish_future [OF st1(2) st(4)] st1(1,7) fin by fastforce
qed

end
