(* ===== verification/Shmem_Locks.thy ===== *)
theory Shmem_Locks
  imports Hclib_Prelude
begin

text \<open>
  The locks of the OpenSHMEM module, \<^verbatim>\<open>shmem_set_lock\<close> and \<^verbatim>\<open>shmem_clear_lock\<close> of
  \<^verbatim>\<open>src/modules/openshmem/src/hclib_openshmem.cpp\<close>, and of the SOS module, in \<^verbatim>\<open>src/modules/sos/src/hclib_sos.cpp\<close>. The locks of the library
  belong to a process; these functions let the tasks of one process wait for each other through
  a chain of promises before one of them calls the library. Both are transition systems with any
  number of calling tasks. A section under \<^verbatim>\<open>lock_info_mutex\<close> is one step; the library is a set of locks that this process
  holds.
\<close>

section \<open>The OpenSHMEM module\<close>

record lock_context =
  last_lock :: "nat option"
  live :: "nat option"

text \<open>
  Where a calling task is. In \<open>S_task l p prev\<close> the task for the library call has been spawned and awaits \<open>prev\<close>; the promise \<open>p\<close> is the caller's own.
  In \<open>S_wait\<close> and \<open>C_wait\<close> the call of the library has returned; in \<open>C_put\<close> the live promise has been taken.
\<close>

datatype lock_pc = L_idle | S_task nat nat "nat option" | S_wait nat nat | C_task nat | C_wait nat | C_put nat nat

text \<open>\<open>owned\<close> are the locks whose \<^verbatim>\<open>shmem_set_lock\<close> has returned and for which \<^verbatim>\<open>shmem_clear_lock\<close> has not been called.\<close>

record shmem_locks =
  lock_info :: "nat \<rightharpoonup> lock_context"
  done_promises :: "nat set"
  next_promise :: nat
  lib_held :: "nat set"
  callers :: "lock_pc list"
  owned :: "nat set"

definition set_lock_enter :: "nat \<Rightarrow> shmem_locks \<Rightarrow> shmem_locks \<times> lock_pc" where
  "set_lock_enter l st =
     (let p = next_promise st;
          ctx = (case lock_info st l of Some c \<Rightarrow> c | None \<Rightarrow> \<lparr>last_lock = None, live = None\<rparr>)
      in (st\<lparr>next_promise := p + 1, lock_info := (lock_info st)(l \<mapsto> ctx\<lparr>last_lock := Some p\<rparr>)\<rparr>, S_task l p (last_lock ctx)))"

definition set_lock_resume :: "nat \<Rightarrow> nat \<Rightarrow> shmem_locks \<Rightarrow> shmem_locks result" where
  "set_lock_resume l p st =
     res_bind (from_ptr (lock_info st l)) (\<lambda>ctx.
     res_bind (c_assert (live ctx = None)) (\<lambda>_.
     Inr (st\<lparr>lock_info := (lock_info st)(l \<mapsto> ctx\<lparr>live := Some p\<rparr>)\<rparr>)))"

definition clear_lock_enter :: "nat \<Rightarrow> shmem_locks \<Rightarrow> lock_pc result" where
  "clear_lock_enter l st = res_bind (c_assert (lock_info st l \<noteq> None)) (\<lambda>_. Inr (C_task l))"

definition clear_lock_resume :: "nat \<Rightarrow> shmem_locks \<Rightarrow> (shmem_locks \<times> lock_pc) result" where
  "clear_lock_resume l st =
     res_bind (from_ptr (lock_info st l)) (\<lambda>ctx.
     res_bind (c_assert (live ctx \<noteq> None)) (\<lambda>_.
     res_bind (from_ptr (live ctx)) (\<lambda>p.
     Inr (st\<lparr>lock_info := (lock_info st)(l \<mapsto> ctx\<lparr>live := None\<rparr>)\<rparr>, C_put l p))))"

definition clear_lock_put :: "nat \<Rightarrow> shmem_locks \<Rightarrow> shmem_locks result" where
  "clear_lock_put p st = res_bind (c_assert (p \<notin> done_promises st)) (\<lambda>_. Inr (st\<lparr>done_promises := insert p (done_promises st)\<rparr>))"

text \<open>A null future is not waited for.\<close>

definition released :: "shmem_locks \<Rightarrow> nat option \<Rightarrow> bool" where
  "released st prev = (case prev of None \<Rightarrow> True | Some q \<Rightarrow> q \<in> done_promises st)"

abbreviation goto :: "nat \<Rightarrow> lock_pc \<Rightarrow> shmem_locks \<Rightarrow> shmem_locks" where
  "goto i pc st \<equiv> st\<lparr>callers := (callers st)[i := pc]\<rparr>"

text \<open>
  The library does not return from setting a lock that the process already holds. A task clears
  only a lock that is owned.
\<close>

inductive lock_step :: "shmem_locks \<Rightarrow> shmem_locks \<Rightarrow> bool" where
  set_call: "i < length (callers st) \<Longrightarrow> callers st ! i = L_idle \<Longrightarrow> set_lock_enter l st = (st', pc) \<Longrightarrow> lock_step st (goto i pc st')"
| set_library: "i < length (callers st) \<Longrightarrow> callers st ! i = S_task l p prev \<Longrightarrow> released st prev \<Longrightarrow> l \<notin> lib_held st \<Longrightarrow>
    lock_step st (goto i (S_wait l p) (st\<lparr>lib_held := insert l (lib_held st)\<rparr>))"
| set_return: "i < length (callers st) \<Longrightarrow> callers st ! i = S_wait l p \<Longrightarrow> set_lock_resume l p st = Inr st' \<Longrightarrow>
    lock_step st (goto i L_idle (st'\<lparr>owned := insert l (owned st')\<rparr>))"
| clear_call: "i < length (callers st) \<Longrightarrow> callers st ! i = L_idle \<Longrightarrow> l \<in> owned st \<Longrightarrow> clear_lock_enter l st = Inr pc \<Longrightarrow>
    lock_step st (goto i pc (st\<lparr>owned := owned st - {l}\<rparr>))"
| clear_library: "i < length (callers st) \<Longrightarrow> callers st ! i = C_task l \<Longrightarrow>
    lock_step st (goto i (C_wait l) (st\<lparr>lib_held := lib_held st - {l}\<rparr>))"
| clear_return: "i < length (callers st) \<Longrightarrow> callers st ! i = C_wait l \<Longrightarrow> clear_lock_resume l st = Inr (st', pc) \<Longrightarrow> lock_step st (goto i pc st')"
| clear_put: "i < length (callers st) \<Longrightarrow> callers st ! i = C_put l p \<Longrightarrow> clear_lock_put p st = Inr st' \<Longrightarrow> lock_step st (goto i L_idle st')"

inductive_cases lock_stepE: "lock_step st st'"

definition locks_init :: "nat \<Rightarrow> shmem_locks" where
  "locks_init n = \<lparr>lock_info = Map.empty, done_promises = {}, next_promise = 0, lib_held = {}, callers = replicate n L_idle, owned = {}\<rparr>"

inductive lock_reach :: "nat \<Rightarrow> shmem_locks \<Rightarrow> bool" for n where
  init: "lock_reach n (locks_init n)"
| step: "lock_reach n st \<Longrightarrow> lock_step st st' \<Longrightarrow> lock_reach n st'"

section \<open>The invariant\<close>

text \<open>
  The promises of a lock that are not satisfied form a queue in the order of the calls; the first of
  them belongs to the task whose turn it is. What that task does is the phase of the lock.
\<close>

datatype lock_phase = Free | Waiting "nat option" | Setting | Owned | Clearing | Cleared | Putting

fun head_pc :: "nat \<Rightarrow> nat \<Rightarrow> lock_phase \<Rightarrow> lock_pc multiset" where
  "head_pc l t Free = {#}"
| "head_pc l t (Waiting prev) = {#S_task l t prev#}"
| "head_pc l t Setting = {#S_wait l t#}"
| "head_pc l t Owned = {#}"
| "head_pc l t Clearing = {#C_task l#}"
| "head_pc l t Cleared = {#C_wait l#}"
| "head_pc l t Putting = {#C_put l t#}"

definition queue_pcs :: "nat \<Rightarrow> nat list \<Rightarrow> lock_pc multiset" where
  "queue_pcs l T = mset (map (\<lambda>(a, b). S_task l b (Some a)) (zip T (tl T)))"

fun lock_of :: "lock_pc \<Rightarrow> nat option" where
  "lock_of L_idle = None"
| "lock_of (S_task l p prev) = Some l"
| "lock_of (S_wait l p) = Some l"
| "lock_of (C_task l) = Some l"
| "lock_of (C_wait l) = Some l"
| "lock_of (C_put l p) = Some l"

definition callers_of :: "shmem_locks \<Rightarrow> nat \<Rightarrow> lock_pc multiset" where
  "callers_of st l = filter_mset (\<lambda>pc. lock_of pc = Some l) (mset (callers st))"

definition context_ok :: "nat set \<Rightarrow> lock_context option \<Rightarrow> nat list \<Rightarrow> lock_phase \<Rightarrow> bool" where
  "context_ok done_set c T ph = (case c of None \<Rightarrow> T = []
     | Some ctx \<Rightarrow> (if T = [] then last_lock ctx \<in> insert None (Some ` done_set) else last_lock ctx = Some (last T)) \<and>
         live ctx = (if ph \<in> {Owned, Clearing, Cleared} then Some (hd T) else None))"

definition lock_ok :: "shmem_locks \<Rightarrow> nat \<Rightarrow> nat list \<Rightarrow> lock_phase \<Rightarrow> bool" where
  "lock_ok st l T ph \<longleftrightarrow> callers_of st l = head_pc l (hd T) ph + queue_pcs l T \<and> (T = [] \<longleftrightarrow> ph = Free) \<and>
     sorted_wrt (<) T \<and> (\<forall>t \<in> set T. t < next_promise st \<and> t \<notin> done_promises st) \<and> (\<forall>prev. ph = Waiting prev \<longrightarrow> released st prev) \<and>
     context_ok (done_promises st) (lock_info st l) T ph \<and>
     (l \<in> lib_held st \<longleftrightarrow> ph \<in> {Setting, Owned, Clearing}) \<and> (l \<in> owned st \<longleftrightarrow> ph = Owned)"

definition lock_inv :: "shmem_locks \<Rightarrow> (nat \<Rightarrow> nat list) \<Rightarrow> (nat \<Rightarrow> lock_phase) \<Rightarrow> bool" where
  "lock_inv st T ph \<longleftrightarrow> (\<forall>l. lock_ok st l (T l) (ph l)) \<and> (\<forall>l l'. l \<noteq> l' \<longrightarrow> set (T l) \<inter> set (T l') = {}) \<and>
     done_promises st \<subseteq> {..< next_promise st}"

lemma callers_of_goto:
  assumes "i < length (callers st)"
  shows "callers_of (goto i pc st) l = callers_of st l - (if lock_of (callers st ! i) = Some l then {#callers st ! i#} else {#}) +
    (if lock_of pc = Some l then {#pc#} else {#})"
proof -
  have "callers st ! i \<in># mset (callers st)" using assms by simp
  then show ?thesis using assms by (auto simp: callers_of_def mset_update)
qed

lemma in_callers_of: "i < length (callers st) \<Longrightarrow> lock_of (callers st ! i) = Some l \<Longrightarrow> callers st ! i \<in># callers_of st l"
  by (simp add: callers_of_def)

lemma queue_member:
  assumes "pc \<in># queue_pcs l T"
  shows "\<exists>k. k + 1 < length T \<and> pc = S_task l (T ! (k + 1)) (Some (T ! k))"
proof -
  obtain k where "k < length (zip T (tl T))" "pc = S_task l (snd (zip T (tl T) ! k)) (Some (fst (zip T (tl T) ! k)))"
    using assms by (auto simp: queue_pcs_def in_set_conv_nth)
  then show ?thesis by (intro exI [of _ k]) (auto simp: nth_tl)
qed

lemma queue_snoc: "T \<noteq> [] \<Longrightarrow> queue_pcs l (T @ [p]) = queue_pcs l T + {#S_task l p (Some (last T))#}"
proof -
  assume "T \<noteq> []"
  then have "zip (T @ [p]) (tl T @ [p]) = zip T (tl T) @ [(last T, p)]"
    by (induction T) (auto simp: neq_Nil_conv split: if_splits)
  then show ?thesis using \<open>T \<noteq> []\<close> by (simp add: queue_pcs_def)
qed

lemma queue_tl: "queue_pcs l (t # T) = (if T = [] then {#} else {#S_task l (hd T) (Some t)#}) + queue_pcs l T"
  by (cases T) (simp_all add: queue_pcs_def)

lemma lock_okD:
  assumes "lock_ok st l T ph"
  shows "callers_of st l = head_pc l (hd T) ph + queue_pcs l T" "T = [] \<longleftrightarrow> ph = Free" "sorted_wrt (<) T"
    "t \<in> set T \<Longrightarrow> t < next_promise st" "t \<in> set T \<Longrightarrow> t \<notin> done_promises st" "ph = Waiting prev \<Longrightarrow> released st prev"
    "context_ok (done_promises st) (lock_info st l) T ph" "l \<in> lib_held st \<longleftrightarrow> ph \<in> {Setting, Owned, Clearing}" "l \<in> owned st \<longleftrightarrow> ph = Owned"
  using assms by (auto simp: lock_ok_def)

lemma lock_invD: "lock_inv st T ph \<Longrightarrow> lock_ok st l (T l) (ph l)" "lock_inv st T ph \<Longrightarrow> l \<noteq> l' \<Longrightarrow> set (T l) \<inter> set (T l') = {}"
  "lock_inv st T ph \<Longrightarrow> done_promises st \<subseteq> {..< next_promise st}"
  by (auto simp: lock_inv_def)

text \<open>The phase of the lock that a caller is at.\<close>

lemma caller_phase:
  assumes ok: "lock_ok st l T ph" and i: "i < length (callers st)"
  shows "callers st ! i = S_task l p prev \<Longrightarrow> released st prev \<Longrightarrow> ph = Waiting prev \<and> p = hd T"
    "callers st ! i = S_task l p prev \<Longrightarrow> p \<in> set T"
    "callers st ! i = S_wait l p \<Longrightarrow> ph = Setting \<and> p = hd T" "callers st ! i = C_task l \<Longrightarrow> ph = Clearing"
    "callers st ! i = C_wait l \<Longrightarrow> ph = Cleared" "callers st ! i = C_put l p \<Longrightarrow> ph = Putting \<and> p = hd T"
proof -
  have c: "callers st ! i \<in># head_pc l (hd T) ph \<or> (\<exists>k. k + 1 < length T \<and> callers st ! i = S_task l (T ! (k + 1)) (Some (T ! k)))"
    if "lock_of (callers st ! i) = Some l"
    using in_callers_of [OF i that] queue_member [of "callers st ! i" l T] by (auto simp: lock_okD(1) [OF ok])
  have rel: "\<not> released st (Some (T ! k))" if "k + 1 < length T" for k using lock_okD(5) [OF ok, of "T ! k"] that by (simp add: released_def)
  show "ph = Waiting prev \<and> p = hd T" if "callers st ! i = S_task l p prev" "released st prev" using c that rel by (cases ph) auto
  show "p \<in> set T" if "callers st ! i = S_task l p prev" using c that lock_okD(2) [OF ok] by (cases ph) auto
  show "ph = Setting \<and> p = hd T" if "callers st ! i = S_wait l p" using c that by (cases ph) auto
  show "ph = Clearing" if "callers st ! i = C_task l" using c that by (cases ph) auto
  show "ph = Cleared" if "callers st ! i = C_wait l" using c that by (cases ph) auto
  show "ph = Putting \<and> p = hd T" if "callers st ! i = C_put l p" using c that by (cases ph) auto
qed

section \<open>Every step keeps the invariant\<close>

text \<open>A lock at which nothing happens.\<close>

lemma lock_ok_frame:
  assumes ok: "lock_ok st l T ph" and same: "callers_of st' l = callers_of st l" "lock_info st' l = lock_info st l"
      "l \<in> lib_held st' \<longleftrightarrow> l \<in> lib_held st" "l \<in> owned st' \<longleftrightarrow> l \<in> owned st"
    and mono: "next_promise st \<le> next_promise st'" "done_promises st \<subseteq> done_promises st'" "set T \<inter> done_promises st' = {}"
  shows "lock_ok st' l T ph"
proof -
  have "context_ok (done_promises st') (lock_info st l) T ph"
    using lock_okD(7) [OF ok] mono(2) by (auto simp: context_ok_def split: option.splits if_splits)
  moreover have "released st' prev" if "ph = Waiting prev" for prev
    using lock_okD(6) [OF ok that] mono(2) by (auto simp: released_def split: option.splits)
  ultimately show ?thesis using lock_okD(1-4,8,9) [OF ok] mono(1,3) unfolding lock_ok_def same by (auto intro: less_le_trans)
qed

text \<open>A step at one lock: the others are framed.\<close>

lemma step_at:
  assumes inv: "lock_inv st T ph" and ok: "lock_ok st' l T' ph'" and sub: "set T' \<subseteq> insert (next_promise st) (set (T l))"
    and frame: "\<And>k. k \<noteq> l \<Longrightarrow> callers_of st' k = callers_of st k \<and> lock_info st' k = lock_info st k \<and>
        (k \<in> lib_held st' \<longleftrightarrow> k \<in> lib_held st) \<and> (k \<in> owned st' \<longleftrightarrow> k \<in> owned st)"
    and mono: "next_promise st \<le> next_promise st'" "done_promises st \<subseteq> done_promises st'" "done_promises st' \<subseteq> done_promises st \<union> set (T l)"
  shows "\<exists>T ph. lock_inv st' T ph"
proof (intro exI)
  have d: "set (T k) \<inter> set (T l) = {}" if "k \<noteq> l" for k by (rule lock_invD(2) [OF inv that])
  have fresh: "next_promise st \<notin> set (T k)" for k using lock_okD(4) [OF lock_invD(1) [OF inv, of k], of "next_promise st"] by blast
  have "lock_ok st' k (T k) (ph k)" if "k \<noteq> l" for k
  proof (rule lock_ok_frame [OF lock_invD(1) [OF inv]])
    show "set (T k) \<inter> done_promises st' = {}" using mono(3) d [OF that] lock_okD(5) [OF lock_invD(1) [OF inv]] by blast
  qed (use frame [OF that] mono in auto)
  moreover have "set (T k) \<inter> set T' = {}" if "k \<noteq> l" for k using sub d [OF that] fresh [of k] by blast
  moreover have "done_promises st' \<subseteq> {..< next_promise st'}"
    using mono lock_invD(3) [OF inv] lock_okD(4) [OF lock_invD(1) [OF inv, of l]] by (auto 0 3 intro: less_le_trans)
  ultimately show "lock_inv st' (T(l := T')) (ph(l := ph'))"
    using ok lock_invD(2) [OF inv] unfolding lock_inv_def by (auto simp: Int_commute)
qed

lemma set_call_inv:
  assumes inv: "lock_inv st T ph" and i: "i < length (callers st)" "callers st ! i = L_idle" and run: "set_lock_enter l st = (st', pc)"
  shows "\<exists>T ph. lock_inv (goto i pc st') T ph"
proof -
  let ?p = "next_promise st"
  note ok = lock_invD(1) [OF inv, of l]
  define prev where "prev = (case lock_info st l of None \<Rightarrow> None | Some c \<Rightarrow> last_lock c)"
  define ph' where "ph' = (if T l = [] then Waiting prev else ph l)"
  have pc: "pc = S_task l ?p prev" and st': "lock_info st' k = (if k = l then Some \<lparr>last_lock = Some ?p, live = (case lock_info st l of None \<Rightarrow> None | Some c \<Rightarrow> live c)\<rparr> else lock_info st k)"
    "next_promise st' = ?p + 1" "done_promises st' = done_promises st" "lib_held st' = lib_held st" "owned st' = owned st" "callers st' = callers st" for k
    using run by (auto simp: set_lock_enter_def prev_def Let_def split: option.splits)
  have c: "callers_of (goto i pc st') k = callers_of st k + (if k = l then {#pc#} else {#})" for k
    using callers_of_goto [of i st' pc k] i st' pc by (auto simp: callers_of_def)
  have ctx: "context_ok (done_promises st) (lock_info st l) (T l) (ph l)" by (rule lock_okD(7) [OF ok])
  have "lock_ok (goto i pc st') l (T l @ [?p]) ph'"
    unfolding lock_ok_def
  proof (intro conjI allI impI ballI)
    show "callers_of (goto i pc st') l = head_pc l (hd (T l @ [?p])) ph' + queue_pcs l (T l @ [?p])"
    proof (cases "T l = []")
      case True
      then show ?thesis using c [of l] lock_okD(1,2) [OF ok] pc by (simp add: ph'_def queue_pcs_def)
    next
      case False
      then have "prev = Some (last (T l))" using ctx by (auto simp: prev_def context_ok_def split: option.splits)
      then show ?thesis using False c [of l] lock_okD(1) [OF ok] pc by (simp add: ph'_def queue_snoc)
    qed
    show "released (goto i pc st') q" if "ph' = Waiting q" for q
      using that lock_okD(6) [OF ok] ctx st'(3) by (auto simp: ph'_def prev_def released_def context_ok_def split: option.splits if_splits)
    show "context_ok (done_promises (goto i pc st')) (lock_info (goto i pc st') l) (T l @ [?p]) ph'"
      using ctx lock_okD(2) [OF ok] st' by (auto simp: context_ok_def ph'_def split: option.splits)
  qed (use lock_okD(2-5,8,9) [OF ok] lock_invD(3) [OF inv] st' in \<open>auto simp: ph'_def sorted_wrt_append less_Suc_eq\<close>)
  then show ?thesis
    by (rule step_at [OF inv]) (use c st' in auto)
qed

text \<open>The task whose turn it is goes from one phase to the next.\<close>

lemma phase_move:
  assumes inv: "lock_inv st T ph" and i: "i < length (callers st)" "callers st ! i = pc0"
    and head: "head_pc l (hd (T l)) (ph l) = (if lock_of pc0 = Some l then {#pc0#} else {#})" "lock_of pc0 \<in> {None, Some l}" "T l \<noteq> []"
      "head_pc l (hd (T l)) ph' = (if lock_of pc = Some l then {#pc#} else {#})" "lock_of pc \<in> {None, Some l}" "ph' \<noteq> Free" "\<And>q. ph' \<noteq> Waiting q"
    and st': "callers st' = (callers st)[i := pc]" "next_promise st' = next_promise st" "done_promises st' = done_promises st"
      "\<And>k. k \<noteq> l \<Longrightarrow> lock_info st' k = lock_info st k \<and> (k \<in> lib_held st' \<longleftrightarrow> k \<in> lib_held st) \<and> (k \<in> owned st' \<longleftrightarrow> k \<in> owned st)"
      "context_ok (done_promises st) (lock_info st' l) (T l) ph'" "l \<in> lib_held st' \<longleftrightarrow> ph' \<in> {Setting, Owned, Clearing}" "l \<in> owned st' \<longleftrightarrow> ph' = Owned"
  shows "\<exists>T ph. lock_inv st' T ph"
proof -
  note ok = lock_invD(1) [OF inv, of l]
  have c: "callers_of st' k = callers_of st k - (if lock_of pc0 = Some k then {#pc0#} else {#}) + (if lock_of pc = Some k then {#pc#} else {#})" for k
    using callers_of_goto [OF i(1), of pc k] i(2) st'(1) by (simp add: callers_of_def)
  have "callers_of st' l = head_pc l (hd (T l)) ph' + queue_pcs l (T l)"
    using c [of l] lock_okD(1) [OF ok] head(1,4) by (auto split: if_splits)
  then have "lock_ok st' l (T l) ph'"
    using lock_okD(3-5) [OF ok] head(3,6,7) st'(2,3,5-7) by (auto simp: lock_ok_def)
  then show ?thesis by (rule step_at [OF inv]) (use c head(2,5) st' in auto)
qed

text \<open>What the queue holds while a lock is in use.\<close>

lemma in_use_context:
  assumes "lock_ok st l T ph" "ph \<noteq> Free"
  shows "T \<noteq> []" "\<exists>ctx. lock_info st l = Some ctx \<and> last_lock ctx = Some (last T) \<and>
    live ctx = (if ph \<in> {Owned, Clearing, Cleared} then Some (hd T) else None)"
  using lock_okD(2,7) [OF assms(1)] assms(2) by (auto simp: context_ok_def split: option.splits)

lemma clear_put_inv:
  assumes inv: "lock_inv st T ph" and i: "i < length (callers st)" "callers st ! i = C_put l p" and run: "clear_lock_put p st = Inr st'"
  shows "\<exists>T ph. lock_inv (goto i L_idle st') T ph"
proof -
  note ok = lock_invD(1) [OF inv, of l]
  have ph: "ph l = Putting" "p = hd (T l)" using caller_phase(6) [OF ok i] by auto
  obtain T' where T: "T l = p # T'" using in_use_context(1) [OF ok] ph by (cases "T l") auto
  have st': "st' = st\<lparr>done_promises := insert p (done_promises st)\<rparr>" using run by (auto simp: clear_lock_put_def res_simps)
  define ph' where "ph' = (if T' = [] then Free else Waiting (Some p))"
  have c: "callers_of (goto i L_idle st') k = callers_of st k - (if k = l then {#C_put l p#} else {#})" for k
    using callers_of_goto [OF i(1), of L_idle k] i(2) by (auto simp: callers_of_def st')
  have "lock_ok (goto i L_idle st') l T' ph'"
    unfolding lock_ok_def
  proof (intro conjI allI impI ballI)
    show "callers_of (goto i L_idle st') l = head_pc l (hd T') ph' + queue_pcs l T'"
      using c [of l] lock_okD(1) [OF ok] T ph(1) by (auto simp: ph'_def queue_tl)
    show "context_ok (done_promises (goto i L_idle st')) (lock_info (goto i L_idle st') l) T' ph'"
      using lock_okD(7) [OF ok] T ph(1) by (auto simp: context_ok_def st' ph'_def split: option.splits)
  qed (use lock_okD(3-5,8,9) [OF ok] T ph(1) in \<open>auto simp: ph'_def st' released_def split: if_splits\<close>)
  then show ?thesis by (rule step_at [OF inv]) (use c T in \<open>auto simp: st'\<close>)
qed

lemma lock_step_inv:
  assumes "lock_step st st'" "lock_inv st T ph"
  shows "\<exists>T ph. lock_inv st' T ph"
  using assms
proof cases
  case (set_call i l st1 pc)
  then show ?thesis using set_call_inv [OF assms(2)] by simp
next
  case (set_library i l p prev)
  note ok = lock_invD(1) [OF assms(2), of l]
  have ph: "ph l = Waiting prev" "p = hd (T l)" using caller_phase(1) [OF ok set_library(2,3,4)] by auto
  obtain ctx where "lock_info st l = Some ctx" "last_lock ctx = Some (last (T l))" "live ctx = None" "T l \<noteq> []"
    using in_use_context [OF ok] ph by auto
  then show ?thesis using set_library ph lock_okD(9) [OF ok]
    by (intro phase_move [OF assms(2), of i "S_task l p prev" l Setting "S_wait l p"]) (auto simp: context_ok_def)
next
  case (set_return i l p st1)
  note ok = lock_invD(1) [OF assms(2), of l]
  have ph: "ph l = Setting" "p = hd (T l)" using caller_phase(3) [OF ok set_return(2,3)] by auto
  obtain ctx where "lock_info st l = Some ctx" "last_lock ctx = Some (last (T l))" "T l \<noteq> []"
      "st1 = st\<lparr>lock_info := (lock_info st)(l \<mapsto> ctx\<lparr>live := Some p\<rparr>)\<rparr>"
    using in_use_context [OF ok] ph set_return(4) by (auto simp: set_lock_resume_def res_simps)
  then show ?thesis using set_return(1-3) ph lock_okD(8) [OF ok]
    by (intro phase_move [OF assms(2), of i "S_wait l p" l Owned L_idle]) (auto simp: context_ok_def)
next
  case (clear_call i l pc)
  note ok = lock_invD(1) [OF assms(2), of l]
  have ph: "ph l = Owned" using lock_okD(9) [OF ok] clear_call by simp
  obtain ctx where "lock_info st l = Some ctx" "last_lock ctx = Some (last (T l))" "live ctx = Some (hd (T l))" "T l \<noteq> []"
    using in_use_context [OF ok] ph by auto
  then show ?thesis using clear_call ph lock_okD(8) [OF ok]
    by (intro phase_move [OF assms(2), of i L_idle l Clearing "C_task l"]) (auto simp: context_ok_def clear_lock_enter_def)
next
  case (clear_library i l)
  note ok = lock_invD(1) [OF assms(2), of l]
  have ph: "ph l = Clearing" by (rule caller_phase(4) [OF ok clear_library(2,3)])
  obtain ctx where "lock_info st l = Some ctx" "last_lock ctx = Some (last (T l))" "live ctx = Some (hd (T l))" "T l \<noteq> []"
    using in_use_context [OF ok] ph by auto
  then show ?thesis using clear_library ph lock_okD(9) [OF ok]
    by (intro phase_move [OF assms(2), of i "C_task l" l Cleared "C_wait l"]) (auto simp: context_ok_def)
next
  case (clear_return i l st1 pc)
  note ok = lock_invD(1) [OF assms(2), of l]
  have ph: "ph l = Cleared" by (rule caller_phase(5) [OF ok clear_return(2,3)])
  obtain ctx where "lock_info st l = Some ctx" "last_lock ctx = Some (last (T l))" "T l \<noteq> []"
      "st1 = st\<lparr>lock_info := (lock_info st)(l \<mapsto> ctx\<lparr>live := None\<rparr>)\<rparr>" "pc = C_put l (hd (T l))"
    using in_use_context [OF ok] ph clear_return(4) by (auto simp: clear_lock_resume_def res_simps)
  then show ?thesis using clear_return(1-3) ph lock_okD(8,9) [OF ok]
    by (intro phase_move [OF assms(2), of i "C_wait l" l Putting "C_put l (hd (T l))"]) (auto simp: context_ok_def)
next
  case (clear_put i l p st1)
  then show ?thesis using clear_put_inv [OF assms(2)] by simp
qed

lemma lock_inv_reach: "lock_reach n st \<Longrightarrow> \<exists>T ph. lock_inv st T ph"
proof (induction rule: lock_reach.induct)
  case init
  have "lock_inv (locks_init n) (\<lambda>_. []) (\<lambda>_. Free)"
    by (auto simp: lock_inv_def lock_ok_def locks_init_def callers_of_def queue_pcs_def context_ok_def filter_mset_eq_conv)
  then show ?case by blast
next
  case (step st st')
  then show ?case using lock_step_inv by blast
qed

section \<open>The SOS module\<close>

text \<open>One chain and one promise to put, whichever lock is meant. The promise is created just before the section under the mutex.\<close>

record sos_locks =
  lock_future :: "nat option"
  next_to_put :: "nat option"
  sos_done :: "nat set"
  sos_next :: nat
  sos_held :: "nat set"
  sos_callers :: "lock_pc list"
  sos_owned :: "nat set"

definition sos_set_enter :: "nat \<Rightarrow> sos_locks \<Rightarrow> sos_locks \<times> lock_pc" where
  "sos_set_enter l s = (let p = sos_next s in (s\<lparr>sos_next := p + 1, lock_future := Some p\<rparr>, S_task l p (lock_future s)))"

definition sos_set_return :: "nat \<Rightarrow> sos_locks \<Rightarrow> sos_locks" where
  "sos_set_return p s = s\<lparr>next_to_put := Some p\<rparr>"

definition sos_clear_enter :: "nat \<Rightarrow> sos_locks \<Rightarrow> lock_pc result" where
  "sos_clear_enter l s = res_bind (c_assert (next_to_put s \<noteq> None)) (\<lambda>_. Inr (C_task l))"

definition sos_clear_return :: "nat \<Rightarrow> sos_locks \<Rightarrow> (sos_locks \<times> lock_pc) result" where
  "sos_clear_return l s = res_bind (from_ptr (next_to_put s)) (\<lambda>p. Inr (s\<lparr>next_to_put := None\<rparr>, C_put l p))"

definition sos_put :: "nat \<Rightarrow> sos_locks \<Rightarrow> sos_locks result" where
  "sos_put p s = res_bind (c_assert (p \<notin> sos_done s)) (\<lambda>_. Inr (s\<lparr>sos_done := insert p (sos_done s)\<rparr>))"

abbreviation sos_goto :: "nat \<Rightarrow> lock_pc \<Rightarrow> sos_locks \<Rightarrow> sos_locks" where
  "sos_goto i pc s \<equiv> s\<lparr>sos_callers := (sos_callers s)[i := pc]\<rparr>"

inductive sos_step :: "sos_locks \<Rightarrow> sos_locks \<Rightarrow> bool" where
  set_call: "i < length (sos_callers s) \<Longrightarrow> sos_callers s ! i = L_idle \<Longrightarrow> sos_set_enter l s = (s', pc) \<Longrightarrow> sos_step s (sos_goto i pc s')"
| set_library: "i < length (sos_callers s) \<Longrightarrow> sos_callers s ! i = S_task l p prev \<Longrightarrow> prev \<in> insert None (Some ` sos_done s) \<Longrightarrow> l \<notin> sos_held s \<Longrightarrow>
    sos_step s (sos_goto i (S_wait l p) (s\<lparr>sos_held := insert l (sos_held s)\<rparr>))"
| set_return: "i < length (sos_callers s) \<Longrightarrow> sos_callers s ! i = S_wait l p \<Longrightarrow>
    sos_step s (sos_goto i L_idle ((sos_set_return p s)\<lparr>sos_owned := insert l (sos_owned s)\<rparr>))"
| clear_call: "i < length (sos_callers s) \<Longrightarrow> sos_callers s ! i = L_idle \<Longrightarrow> l \<in> sos_owned s \<Longrightarrow> sos_clear_enter l s = Inr pc \<Longrightarrow>
    sos_step s (sos_goto i pc (s\<lparr>sos_owned := sos_owned s - {l}\<rparr>))"
| clear_library: "i < length (sos_callers s) \<Longrightarrow> sos_callers s ! i = C_task l \<Longrightarrow>
    sos_step s (sos_goto i (C_wait l) (s\<lparr>sos_held := sos_held s - {l}\<rparr>))"
| clear_return: "i < length (sos_callers s) \<Longrightarrow> sos_callers s ! i = C_wait l \<Longrightarrow> sos_clear_return l s = Inr (s', pc) \<Longrightarrow> sos_step s (sos_goto i pc s')"
| clear_put: "i < length (sos_callers s) \<Longrightarrow> sos_callers s ! i = C_put l p \<Longrightarrow> sos_put p s = Inr s' \<Longrightarrow> sos_step s (sos_goto i L_idle s')"

definition sos_init :: "nat \<Rightarrow> sos_locks" where
  "sos_init n = \<lparr>lock_future = None, next_to_put = None, sos_done = {}, sos_next = 0, sos_held = {}, sos_callers = replicate n L_idle, sos_owned = {}\<rparr>"

inductive sos_reach :: "nat \<Rightarrow> sos_locks \<Rightarrow> bool" for n where
  init: "sos_reach n (sos_init n)"
| step: "sos_reach n s \<Longrightarrow> sos_step s s' \<Longrightarrow> sos_reach n s'"

text \<open>All locks of the SOS module as the one lock 0 of the OpenSHMEM module.\<close>

fun one_lock :: "lock_pc \<Rightarrow> lock_pc" where
  "one_lock L_idle = L_idle"
| "one_lock (S_task l p prev) = S_task 0 p prev"
| "one_lock (S_wait l p) = S_wait 0 p"
| "one_lock (C_task l) = C_task 0"
| "one_lock (C_wait l) = C_wait 0"
| "one_lock (C_put l p) = C_put 0 p"

definition abs_locks :: "sos_locks \<Rightarrow> shmem_locks" where
  "abs_locks s = \<lparr>lock_info = (\<lambda>l. if l = 0 \<and> lock_future s \<noteq> None then Some \<lparr>last_lock = lock_future s, live = next_to_put s\<rparr> else None),
     done_promises = sos_done s, next_promise = sos_next s, lib_held = (\<lambda>_. 0) ` sos_held s, callers = map one_lock (sos_callers s),
     owned = (\<lambda>_. 0) ` sos_owned s\<rparr>"

text \<open>At most one lock is held by the library, and it is the one that the active caller means.\<close>

definition sos_at :: "sos_locks \<Rightarrow> nat \<Rightarrow> bool" where
  "sos_at s h \<longleftrightarrow> sos_held s \<subseteq> {h} \<and> sos_owned s \<subseteq> {h} \<and>
     (\<forall>pc \<in> set (sos_callers s). \<forall>l p. pc = S_wait l p \<or> pc = C_task l \<longrightarrow> l = h) \<and> (lock_future s = None \<longrightarrow> next_to_put s = None)"

lemma sos_atD:
  assumes "sos_at s h"
  shows "sos_held s \<subseteq> {h}" "sos_owned s \<subseteq> {h}" "i < length (sos_callers s) \<Longrightarrow> sos_callers s ! i = S_wait l p \<Longrightarrow> l = h"
    "i < length (sos_callers s) \<Longrightarrow> sos_callers s ! i = C_task l \<Longrightarrow> l = h" "lock_future s = None \<Longrightarrow> next_to_put s = None"
  using assms unfolding sos_at_def by (auto dest: nth_mem)

lemma sos_at_goto:
  assumes "sos_at s h" "sos_callers s' = (sos_callers s)[i := pc]" "\<And>l p. pc = S_wait l p \<or> pc = C_task l \<Longrightarrow> l = h"
    and "sos_held s' \<subseteq> {h}" "sos_owned s' \<subseteq> {h}" "lock_future s' = None \<Longrightarrow> next_to_put s' = None"
  shows "sos_at s' h"
proof -
  have "l = h" if "q \<in> set (sos_callers s')" "q = S_wait l p \<or> q = C_task l" for q l p
    using that assms(1-3) set_update_subset_insert [of "sos_callers s" i pc] unfolding sos_at_def by (metis insertE subsetD)
  then show ?thesis using assms(4-6) unfolding sos_at_def by blast
qed

lemma abs_sel [simp]:
  "done_promises (abs_locks s) = sos_done s" "next_promise (abs_locks s) = sos_next s" "callers (abs_locks s) = map one_lock (sos_callers s)"
  "lib_held (abs_locks s) = (\<lambda>_. 0) ` sos_held s" "owned (abs_locks s) = (\<lambda>_. 0) ` sos_owned s"
  "lock_info (abs_locks s) 0 = (if lock_future s \<noteq> None then Some \<lparr>last_lock = lock_future s, live = next_to_put s\<rparr> else None)"
  by (simp_all add: abs_locks_def)

lemma released_abs: "released (abs_locks s) prev \<longleftrightarrow> prev \<in> insert None (Some ` sos_done s)"
  by (auto simp: released_def split: option.splits)

lemma zero_image: "(0 :: nat) \<in> (\<lambda>_. 0) ` A \<longleftrightarrow> A \<noteq> {}"
  by auto

text \<open>What the invariant of the OpenSHMEM locks says of the state here.\<close>

lemma sos_phase:
  assumes "lock_inv (abs_locks s) T ph" and i: "i < length (sos_callers s)"
  shows "sos_callers s ! i = S_task l p prev \<Longrightarrow> prev \<in> insert None (Some ` sos_done s) \<Longrightarrow> ph 0 = Waiting prev"
    "sos_callers s ! i = S_wait l p \<Longrightarrow> ph 0 = Setting" "sos_callers s ! i = C_task l \<Longrightarrow> ph 0 = Clearing"
    "sos_callers s ! i = C_wait l \<Longrightarrow> ph 0 = Cleared" "sos_callers s ! i = C_put l p \<Longrightarrow> ph 0 = Putting"
    "sos_held s = {} \<longleftrightarrow> ph 0 \<notin> {Setting, Owned, Clearing}" "sos_owned s = {} \<longleftrightarrow> ph 0 \<noteq> Owned"
    "ph 0 \<noteq> Free \<Longrightarrow> lock_future s \<noteq> None \<and> next_to_put s = (if ph 0 \<in> {Owned, Clearing, Cleared} then Some (hd (T 0)) else None)"
proof -
  note ok = lock_invD(1) [OF assms(1), of 0]
  have i': "i < length (callers (abs_locks s))" using i by simp
  note P = caller_phase [OF ok i']
  show "ph 0 = Waiting prev" if "sos_callers s ! i = S_task l p prev" "prev \<in> insert None (Some ` sos_done s)"
    using P(1) [of p prev] that i released_abs by simp
  show "sos_callers s ! i = S_wait l p \<Longrightarrow> ph 0 = Setting" "sos_callers s ! i = C_task l \<Longrightarrow> ph 0 = Clearing"
    "sos_callers s ! i = C_wait l \<Longrightarrow> ph 0 = Cleared" "sos_callers s ! i = C_put l p \<Longrightarrow> ph 0 = Putting"
    using P(3-6) i by simp_all
  show "sos_held s = {} \<longleftrightarrow> ph 0 \<notin> {Setting, Owned, Clearing}" "sos_owned s = {} \<longleftrightarrow> ph 0 \<noteq> Owned"
    using lock_okD(8,9) [OF ok] by (simp_all only: abs_sel zero_image) auto
  show "lock_future s \<noteq> None \<and> next_to_put s = (if ph 0 \<in> {Owned, Clearing, Cleared} then Some (hd (T 0)) else None)" if "ph 0 \<noteq> Free"
    using in_use_context(2) [OF ok that] by (auto split: if_splits)
qed

lemma sos_simulates:
  assumes "sos_step s s'" "sos_at s h" "lock_inv (abs_locks s) T ph"
  shows "lock_step (abs_locks s) (abs_locks s') \<and> (\<exists>h. sos_at s' h)"
  using assms(1)
proof cases
  case (set_call i l s1 pc)
  then have pc: "pc = S_task l (sos_next s) (lock_future s)" "s1 = s\<lparr>sos_next := sos_next s + 1, lock_future := Some (sos_next s)\<rparr>"
    by (auto simp: sos_set_enter_def Let_def)
  have "lock_step (abs_locks s) (goto i (one_lock pc) (fst (set_lock_enter 0 (abs_locks s))))"
    by (rule lock_step.set_call [where l = 0]) (use set_call pc assms(2) in \<open>auto simp: set_lock_enter_def Let_def split: option.splits\<close>)
  moreover have "abs_locks s' = goto i (one_lock pc) (fst (set_lock_enter 0 (abs_locks s)))"
    using set_call(1) pc(2) sos_atD(5) [OF assms(2)] by (auto simp: abs_locks_def set_lock_enter_def Let_def map_update fun_eq_iff)
  moreover have "sos_at s' h" by (rule sos_at_goto [OF assms(2)]) (use set_call(1) pc sos_atD [OF assms(2)] in auto)
  ultimately show ?thesis by auto
next
  case (set_library i l p prev)
  note P = sos_phase [OF assms(3) set_library(2)]
  have ph: "ph 0 = Waiting prev" by (rule P(1) [OF set_library(3,4)])
  have e: "sos_held s = {}" "sos_owned s = {}" using P(6,7) ph by auto
  have none: "pc \<noteq> S_wait k q" "pc \<noteq> C_task k" if "pc \<in> set (sos_callers s)" for pc k q
    using that ph sos_phase(2,3) [OF assms(3)] by (metis in_set_conv_nth lock_phase.distinct)+
  have "lock_step (abs_locks s) (goto i (S_wait 0 p) ((abs_locks s)\<lparr>lib_held := insert 0 (lib_held (abs_locks s))\<rparr>))"
    by (rule lock_step.set_library) (use set_library e released_abs in auto)
  moreover have "abs_locks s' = goto i (S_wait 0 p) ((abs_locks s)\<lparr>lib_held := insert 0 (lib_held (abs_locks s))\<rparr>)"
    using set_library(1) by (auto simp: abs_locks_def map_update fun_eq_iff)
  moreover have "sos_at s l" using e none assms(2) by (auto simp: sos_at_def)
  then have "sos_at s' l" by (rule sos_at_goto) (use set_library(1) e sos_atD(5) [OF assms(2)] in auto)
  ultimately show ?thesis by auto
next
  case (set_return i l p)
  note P = sos_phase [OF assms(3) set_return(2)]
  have ph: "ph 0 = Setting" by (rule P(2) [OF set_return(3)])
  have e: "sos_owned s = {}" "lock_future s \<noteq> None" "next_to_put s = None" using P(7,8) ph by auto
  have run: "set_lock_resume 0 p (abs_locks s) = Inr (abs_locks (sos_set_return p s))"
    using e by (auto simp: set_lock_resume_def abs_locks_def sos_set_return_def fun_eq_iff)
  have "lock_step (abs_locks s) (goto i L_idle ((abs_locks (sos_set_return p s))\<lparr>owned := insert 0 (owned (abs_locks (sos_set_return p s)))\<rparr>))"
    by (rule lock_step.set_return [OF _ _ run]) (use set_return in auto)
  moreover have "abs_locks s' = goto i L_idle ((abs_locks (sos_set_return p s))\<lparr>owned := insert 0 (owned (abs_locks (sos_set_return p s)))\<rparr>)"
    using set_return(1) by (auto simp: abs_locks_def sos_set_return_def map_update fun_eq_iff)
  moreover have "sos_at s' h"
    by (rule sos_at_goto [OF assms(2)]) (use set_return e sos_atD(1,3) [OF assms(2)] in \<open>auto simp: sos_set_return_def\<close>)
  ultimately show ?thesis by auto
next
  case (clear_call i l pc)
  have ph: "ph 0 = Owned" using sos_phase(7) [OF assms(3) clear_call(2)] clear_call(4) by auto
  have o: "sos_owned s = {l}" "l = h" using sos_atD(2) [OF assms(2)] clear_call(4) by auto
  have pc: "pc = C_task l" "lock_future s \<noteq> None"
    using clear_call(5) sos_phase(8) [OF assms(3) clear_call(2)] ph by (auto simp: sos_clear_enter_def res_simps)
  have "lock_step (abs_locks s) (goto i (C_task 0) ((abs_locks s)\<lparr>owned := owned (abs_locks s) - {0}\<rparr>))"
    by (rule lock_step.clear_call) (use clear_call o pc in \<open>auto simp: clear_lock_enter_def\<close>)
  moreover have "abs_locks s' = goto i (C_task 0) ((abs_locks s)\<lparr>owned := owned (abs_locks s) - {0}\<rparr>)"
    using clear_call(1) pc(1) o by (auto simp: abs_locks_def map_update fun_eq_iff)
  moreover have "sos_at s' h" by (rule sos_at_goto [OF assms(2)]) (use clear_call(1) pc o sos_atD [OF assms(2)] in auto)
  ultimately show ?thesis by auto
next
  case (clear_library i l)
  have h: "sos_held s - {l} = {}" using sos_atD(1,4) [OF assms(2)] clear_library by blast
  have "lock_step (abs_locks s) (goto i (C_wait 0) ((abs_locks s)\<lparr>lib_held := lib_held (abs_locks s) - {0}\<rparr>))"
    by (rule lock_step.clear_library) (use clear_library in auto)
  moreover have "abs_locks s' = goto i (C_wait 0) ((abs_locks s)\<lparr>lib_held := lib_held (abs_locks s) - {0}\<rparr>)"
    using clear_library(1) h by (auto simp: abs_locks_def map_update fun_eq_iff)
  moreover have "sos_at s' h" by (rule sos_at_goto [OF assms(2)]) (use clear_library(1) sos_atD [OF assms(2)] in auto)
  ultimately show ?thesis by auto
next
  case (clear_return i l s1 pc)
  note P = sos_phase [OF assms(3) clear_return(2)]
  have e: "lock_future s \<noteq> None" "next_to_put s = Some (hd (T 0))" using P(4,8) clear_return(3) by auto
  have pc: "pc = C_put l (hd (T 0))" "s1 = s\<lparr>next_to_put := None\<rparr>" using clear_return(4) e(2) by (auto simp: sos_clear_return_def)
  have run: "clear_lock_resume 0 (abs_locks s) = Inr (abs_locks s1, C_put 0 (hd (T 0)))"
    using e pc(2) by (auto simp: clear_lock_resume_def abs_locks_def fun_eq_iff)
  have "lock_step (abs_locks s) (goto i (C_put 0 (hd (T 0))) (abs_locks s1))"
    by (rule lock_step.clear_return [OF _ _ run]) (use clear_return in auto)
  moreover have "abs_locks s' = goto i (C_put 0 (hd (T 0))) (abs_locks s1)"
    using clear_return(1) pc by (auto simp: abs_locks_def map_update fun_eq_iff)
  moreover have "sos_at s' h" by (rule sos_at_goto [OF assms(2)]) (use clear_return(1) pc sos_atD [OF assms(2)] in auto)
  ultimately show ?thesis by auto
next
  case (clear_put i l p s1)
  then have s1: "s1 = s\<lparr>sos_done := insert p (sos_done s)\<rparr>" "p \<notin> sos_done s" by (auto simp: sos_put_def res_simps)
  have run: "clear_lock_put p (abs_locks s) = Inr (abs_locks s1)" using s1 by (auto simp: clear_lock_put_def abs_locks_def fun_eq_iff)
  have "lock_step (abs_locks s) (goto i L_idle (abs_locks s1))"
    by (rule lock_step.clear_put [OF _ _ run]) (use clear_put in auto)
  moreover have "abs_locks s' = goto i L_idle (abs_locks s1)" using clear_put(1) s1 by (auto simp: abs_locks_def map_update fun_eq_iff)
  moreover have "sos_at s' h" by (rule sos_at_goto [OF assms(2)]) (use clear_put(1) s1 sos_atD [OF assms(2)] in auto)
  ultimately show ?thesis by auto
qed

lemma sos_reach_abs: "sos_reach n s \<Longrightarrow> lock_reach n (abs_locks s) \<and> (\<exists>h. sos_at s h)"
proof (induction rule: sos_reach.induct)
  case init
  have "abs_locks (sos_init n) = locks_init n" by (auto simp: abs_locks_def sos_init_def locks_init_def)
  moreover have "sos_at (sos_init n) 0" by (auto simp: sos_at_def sos_init_def)
  ultimately show ?case using lock_reach.init [of n] by auto
next
  case (step s s')
  then obtain h T ph where "sos_at s h" "lock_inv (abs_locks s) T ph" using lock_inv_reach by blast
  then show ?case using sos_simulates [OF step(2)] step(3) lock_reach.step by blast
qed

section \<open>Executions\<close>

text \<open>A task calls a function, or goes on with the one that it has called.\<close>

datatype lock_choice = Set_lock nat nat | Clear_lock nat nat | Go_on nat

definition go_on :: "nat \<Rightarrow> shmem_locks \<Rightarrow> shmem_locks option" where
  "go_on i st = (case callers st ! i of L_idle \<Rightarrow> None
     | S_task l p prev \<Rightarrow> if released st prev \<and> l \<notin> lib_held st then Some (goto i (S_wait l p) (st\<lparr>lib_held := insert l (lib_held st)\<rparr>)) else None
     | S_wait l p \<Rightarrow> (case set_lock_resume l p st of Inl e \<Rightarrow> None | Inr st' \<Rightarrow> Some (goto i L_idle (st'\<lparr>owned := insert l (owned st')\<rparr>)))
     | C_task l \<Rightarrow> Some (goto i (C_wait l) (st\<lparr>lib_held := lib_held st - {l}\<rparr>))
     | C_wait l \<Rightarrow> (case clear_lock_resume l st of Inl e \<Rightarrow> None | Inr (st', pc) \<Rightarrow> Some (goto i pc st'))
     | C_put l p \<Rightarrow> (case clear_lock_put p st of Inl e \<Rightarrow> None | Inr st' \<Rightarrow> Some (goto i L_idle st')))"

fun lock_exec :: "lock_choice list \<Rightarrow> shmem_locks \<Rightarrow> shmem_locks option" where
  "lock_exec [] st = Some st"
| "lock_exec (Set_lock i l # cs) st =
     (if i < length (callers st) \<and> callers st ! i = L_idle
      then case set_lock_enter l st of (st', pc) \<Rightarrow> lock_exec cs (goto i pc st') else None)"
| "lock_exec (Clear_lock i l # cs) st =
     (if i < length (callers st) \<and> callers st ! i = L_idle \<and> l \<in> owned st
      then case clear_lock_enter l st of Inl e \<Rightarrow> None | Inr pc \<Rightarrow> lock_exec cs (goto i pc (st\<lparr>owned := owned st - {l}\<rparr>)) else None)"
| "lock_exec (Go_on i # cs) st =
     (if i < length (callers st) then case go_on i st of None \<Rightarrow> None | Some st' \<Rightarrow> lock_exec cs st' else None)"

lemmas lock_steps = lock_step.intros [simplified]

lemma go_on_step: "i < length (callers st) \<Longrightarrow> go_on i st = Some st' \<Longrightarrow> lock_step st st'"
  by (auto simp: go_on_def split: lock_pc.splits if_splits sum.splits prod.splits intro: lock_steps)

lemma lock_exec_reach: "lock_exec cs st = Some st' \<Longrightarrow> lock_reach n st \<Longrightarrow> lock_reach n st'"
proof (induction cs arbitrary: st)
  case (Cons c cs)
  have "\<exists>st1. lock_step st st1 \<and> lock_exec cs st1 = Some st'"
  proof (cases c)
    case (Set_lock i l)
    then show ?thesis using Cons.prems(1) lock_step.set_call [of i st l] by (auto split: if_splits prod.splits)
  next
    case (Clear_lock i l)
    then show ?thesis using Cons.prems(1) lock_step.clear_call [of i st l] by (auto split: if_splits sum.splits)
  next
    case (Go_on i)
    then show ?thesis using Cons.prems(1) go_on_step [of i st] by (auto split: if_splits option.splits)
  qed
  then show ?case using Cons.IH Cons.prems(2) lock_reach.step by blast
qed simp

text \<open>Two tasks ask for lock 5, the first gets it and gives it back; then it is the turn of the second.\<close>

definition two_callers :: "lock_choice list" where
  "two_callers = [Set_lock 0 5, Set_lock 1 5, Go_on 0, Go_on 0, Clear_lock 0 5, Go_on 0, Go_on 0, Go_on 0]"

lemma two_callers_run: "map_option callers (lock_exec two_callers (locks_init 2)) = Some [L_idle, S_task 5 1 (Some 0)]"
  by code_simp

text \<open>One task sets lock 1 and, while it owns it, asks for lock 2.\<close>

definition nested_locks :: sos_locks where
  "nested_locks = \<lparr>lock_future = Some 1, next_to_put = Some 0, sos_done = {}, sos_next = 2, sos_held = {1},
     sos_callers = [S_task 2 1 (Some 0)], sos_owned = {1}\<rparr>"

lemma nested_locks_reach: "sos_reach 1 nested_locks"
proof -
  let ?s1 = "\<lparr>lock_future = Some 0, next_to_put = None, sos_done = {}, sos_next = 1, sos_held = {}, sos_callers = [S_task 1 0 None], sos_owned = {}\<rparr>"
  let ?s2 = "\<lparr>lock_future = Some 0, next_to_put = None, sos_done = {}, sos_next = 1, sos_held = {1}, sos_callers = [S_wait 1 0], sos_owned = {}\<rparr>"
  let ?s3 = "\<lparr>lock_future = Some 0, next_to_put = Some 0, sos_done = {}, sos_next = 1, sos_held = {1}, sos_callers = [L_idle], sos_owned = {1}\<rparr>"
  have "sos_reach 1 (sos_init 1)" by (rule sos_reach.init)
  moreover have "sos_step (sos_init 1) ?s1"
    using sos_step.set_call [of 0 "sos_init 1" 1] by (simp add: sos_init_def sos_set_enter_def)
  moreover have "sos_step ?s1 ?s2" using sos_step.set_library [of 0 ?s1 1 0 None] by simp
  moreover have "sos_step ?s2 ?s3" using sos_step.set_return [of 0 ?s2 1 0] by (simp add: sos_set_return_def)
  moreover have "sos_step ?s3 nested_locks"
    using sos_step.set_call [of 0 ?s3 2] by (simp add: nested_locks_def sos_set_enter_def numeral_2_eq_2)
  ultimately show ?thesis using sos_reach.step by blast
qed

text \<open>With one task, asking for a second lock of the SOS module while owning a first one is the end: no step is possible.\<close>

lemma sos_nested_locks_deadlock: "sos_reach 1 nested_locks \<and> (\<forall>s'. \<not> sos_step nested_locks s')"
  using nested_locks_reach by (auto simp: nested_locks_def elim!: sos_step.cases)

section \<open>Properties\<close>

text \<open>A caller between the return of the library call that sets the lock and the put that ends its turn.\<close>

fun active :: "nat \<Rightarrow> lock_pc \<Rightarrow> bool" where
  "active l (S_wait k p) = (k = l)"
| "active l (C_task k) = (k = l)"
| "active l (C_wait k) = (k = l)"
| "active l (C_put k p) = (k = l)"
| "active l pc = False"

lemma active_callers: "filter_mset (active l) (mset (callers st)) = filter_mset (active l) (callers_of st l)"
proof -
  have "active l pc \<longleftrightarrow> active l pc \<and> lock_of pc = Some l" for pc by (cases pc) auto
  then show ?thesis unfolding callers_of_def filter_filter_mset by metis
qed

lemma active_count:
  assumes "lock_ok st l T ph"
  shows "size (filter_mset (active l) (mset (callers st))) + of_bool (l \<in> owned st) = of_bool (ph \<notin> {Free} \<union> range Waiting)"
proof -
  have "filter_mset (active l) (queue_pcs l T) = {#}" using queue_member [of _ l T] by (fastforce simp: filter_mset_eq_mempty_iff)
  then show ?thesis using lock_okD(1,9) [OF assms] by (cases ph) (auto simp: active_callers)
qed

text \<open>
  C9: in every interleaving of any number of tasks that set and clear locks of the OpenSHMEM module, where a task clears
  only a lock that is owned: no assertion fails; the library is never asked to set a lock that the
  process holds, nor to clear one that it does not hold; and at any time at most one task is
  between the return of its set and the put that ends its turn, or owns the lock.
\<close>

theorem shmem_locks_safe:
  assumes "lock_reach n st"
  shows "(\<forall>i < length (callers st). case callers st ! i of L_idle \<Rightarrow> True
      | S_task l p prev \<Rightarrow> released st prev \<longrightarrow> l \<notin> lib_held st
      | S_wait l p \<Rightarrow> \<exists>st'. set_lock_resume l p st = Inr st'
      | C_task l \<Rightarrow> l \<in> lib_held st
      | C_wait l \<Rightarrow> \<exists>r. clear_lock_resume l st = Inr r
      | C_put l p \<Rightarrow> \<exists>st'. clear_lock_put p st = Inr st') \<and>
    (\<forall>l. size (filter_mset (active l) (mset (callers st))) + of_bool (l \<in> owned st) \<le> (1 :: nat)) \<and>
    (\<forall>l \<in> owned st. l \<in> lib_held st \<and> clear_lock_enter l st = Inr (C_task l))"
proof -
  obtain T ph where inv: "lock_inv st T ph" using lock_inv_reach [OF assms] by blast
  note ok = lock_invD(1) [OF inv]
  have "case callers st ! i of L_idle \<Rightarrow> True | S_task l p prev \<Rightarrow> released st prev \<longrightarrow> l \<notin> lib_held st
      | S_wait l p \<Rightarrow> \<exists>st'. set_lock_resume l p st = Inr st' | C_task l \<Rightarrow> l \<in> lib_held st
      | C_wait l \<Rightarrow> \<exists>r. clear_lock_resume l st = Inr r | C_put l p \<Rightarrow> \<exists>st'. clear_lock_put p st = Inr st'" if i: "i < length (callers st)" for i
  proof (cases "callers st ! i")
    case (S_task l p prev)
    then show ?thesis using caller_phase(1) [OF ok i S_task] lock_okD(8) [OF ok, of l] by auto
  next
    case (S_wait l p)
    then show ?thesis using caller_phase(3) [OF ok i S_wait] in_use_context(2) [OF ok, of l] by (auto simp: set_lock_resume_def)
  next
    case (C_task l)
    then show ?thesis using caller_phase(4) [OF ok i C_task] lock_okD(8) [OF ok, of l] by auto
  next
    case (C_wait l)
    then show ?thesis using caller_phase(5) [OF ok i C_wait] in_use_context(2) [OF ok, of l] by (auto simp: clear_lock_resume_def)
  next
    case (C_put l p)
    have ph: "ph l = Putting" "p = hd (T l)" using caller_phase(6) [OF ok i C_put] by auto
    then have "p \<in> set (T l)" using in_use_context(1) [OF ok, of l] by simp
    then show ?thesis using C_put lock_okD(5) [OF ok] by (auto simp: clear_lock_put_def)
  qed simp
  moreover have "size (filter_mset (active l) (mset (callers st))) + of_bool (l \<in> owned st) \<le> (1 :: nat)" for l
    unfolding active_count [OF ok] by simp
  moreover have "l \<in> lib_held st \<and> clear_lock_enter l st = Inr (C_task l)" if "l \<in> owned st" for l
    using that lock_okD(8,9) [OF ok, of l] in_use_context(2) [OF ok, of l] by (auto simp: clear_lock_enter_def)
  ultimately show ?thesis by blast
qed

theorem shmem_locks_safe_witness:
  "\<exists>st. lock_exec two_callers (locks_init 2) = Some st \<and> callers st = [L_idle, S_task 5 1 (Some 0)] \<and> (released st (Some 0) \<longrightarrow> 5 \<notin> lib_held st)"
proof -
  obtain st where st: "lock_exec two_callers (locks_init 2) = Some st" "callers st = [L_idle, S_task 5 1 (Some 0)]" using two_callers_run by auto
  then show ?thesis using shmem_locks_safe [OF lock_exec_reach [OF st(1) lock_reach.init], THEN conjunct1, rule_format, of 1] by simp
qed

text \<open>
  C36: tasks get a lock in the order in which they asked for it, and no task waits for nothing: while
  a task is inside one of the two functions for a lock, the lock is owned, or some task inside them
  for this lock can go on.
\<close>

theorem shmem_locks_fair:
  assumes "lock_reach n st" "i < length (callers st)"
  shows "(\<forall>j l p q prev prev'. j < length (callers st) \<and> callers st ! i = S_task l p prev \<and> callers st ! j = S_task l q prev' \<and>
        released st prev \<longrightarrow> p \<le> q) \<and>
    (\<forall>l. lock_of (callers st ! i) = Some l \<longrightarrow> l \<in> owned st \<or> (\<exists>j < length (callers st). lock_of (callers st ! j) = Some l \<and> go_on j st \<noteq> None))"
proof (intro conjI allI impI)
  obtain T ph where inv: "lock_inv st T ph" using lock_inv_reach [OF assms(1)] by blast
  note ok = lock_invD(1) [OF inv]
  fix j l p q prev prev'
  assume a: "j < length (callers st) \<and> callers st ! i = S_task l p prev \<and> callers st ! j = S_task l q prev' \<and> released st prev"
  then have "p = hd (T l)" "q \<in> set (T l)" using caller_phase(1) [OF ok assms(2)] caller_phase(2) [OF ok] by blast+
  then show "p \<le> q" using lock_okD(3) [OF ok, of l] by (cases "T l") auto
next
  fix l assume l: "lock_of (callers st ! i) = Some l"
  obtain T ph where inv: "lock_inv st T ph" using lock_inv_reach [OF assms(1)] by blast
  note ok = lock_invD(1) [OF inv, of l]
  have "ph l \<noteq> Free" using in_callers_of [OF assms(2) l] lock_okD(1,2) [OF ok] by (auto simp: queue_pcs_def)
  note C = in_use_context [OF ok this]
  show "l \<in> owned st \<or> (\<exists>j < length (callers st). lock_of (callers st ! j) = Some l \<and> go_on j st \<noteq> None)"
  proof (cases "ph l = Owned")
    case False
    then obtain pc where pc: "head_pc l (hd (T l)) (ph l) = {#pc#}" using \<open>ph l \<noteq> Free\<close> by (cases "ph l") auto
    then have "pc \<in># callers_of st l" using lock_okD(1) [OF ok] by simp
    then obtain j where j: "j < length (callers st)" "callers st ! j = pc" "lock_of pc = Some l"
      by (auto simp: callers_of_def in_set_conv_nth)
    have "hd (T l) \<notin> done_promises st" using lock_okD(5) [OF ok] C(1) by simp
    then have "go_on j st \<noteq> None" using pc j C lock_okD(6,8) [OF ok]
      by (cases "ph l") (auto simp: go_on_def set_lock_resume_def clear_lock_resume_def clear_lock_put_def)
    then show ?thesis using j by auto
  qed (simp add: lock_okD(9) [OF ok])
qed

theorem shmem_locks_fair_witness:
  "\<exists>st. lock_exec two_callers (locks_init 2) = Some st \<and> (\<exists>j < 2. lock_of (callers st ! j) = Some 5 \<and> go_on j st \<noteq> None)"
proof -
  have "map_option owned (lock_exec two_callers (locks_init 2)) = Some {}" by code_simp
  then obtain st where st: "lock_exec two_callers (locks_init 2) = Some st" "callers st = [L_idle, S_task 5 1 (Some 0)]" "owned st = {}"
    using two_callers_run by auto
  then show ?thesis
    using shmem_locks_fair [OF lock_exec_reach [OF st(1) lock_reach.init], of 1] by (auto simp: numeral_2_eq_2)
qed

text \<open>
  C37: the locks of the SOS module behave as a single lock of the OpenSHMEM module, whichever locks are meant: every step
  is a step of that lock. So none of the assertions fails and the process holds at most one lock of the library; but
  a task that has set one lock and asks for a different one can never get it before the first is
  cleared, by whichever task.
\<close>

theorem sos_locks_refine:
  assumes "sos_reach n s"
  shows "lock_reach n (abs_locks s) \<and> (\<forall>s'. sos_step s s' \<longrightarrow> lock_step (abs_locks s) (abs_locks s')) \<and> (\<exists>h. sos_held s \<subseteq> {h}) \<and>
    (\<forall>i < length (sos_callers s). \<forall>l l' p prev. l \<in> sos_owned s \<and> sos_callers s ! i = S_task l' p prev \<longrightarrow> prev \<notin> insert None (Some ` sos_done s))"
proof -
  obtain h where r: "lock_reach n (abs_locks s)" "sos_at s h" using sos_reach_abs [OF assms] by blast
  then obtain T ph where inv: "lock_inv (abs_locks s) T ph" using lock_inv_reach by blast
  have "prev \<notin> insert None (Some ` sos_done s)" if "i < length (sos_callers s)" "l \<in> sos_owned s" "sos_callers s ! i = S_task l' p prev" for i l l' p prev
  proof
    assume "prev \<in> insert None (Some ` sos_done s)"
    then have "ph 0 = Waiting prev" by (rule sos_phase(1) [OF inv that(1,3)])
    then show False using sos_phase(7) [OF inv that(1)] that(2) by auto
  qed
  then show ?thesis using r sos_simulates [OF _ r(2) inv] sos_atD(1) [OF r(2)] by blast
qed

theorem sos_locks_refine_witness:
  "lock_reach 1 (abs_locks nested_locks) \<and> Some 0 \<notin> insert None (Some ` sos_done nested_locks)"
  using sos_locks_refine [OF nested_locks_reach] by (auto simp: nested_locks_def)

end
