(* ===== verification/Wait_Sets.thy ===== *)
theory Wait_Sets
  imports Pending_Ops Loop_Futures
begin

text \<open>
  Waiting for values in memory: the wait sets of the OpenSHMEM module (\<^verbatim>\<open>src/modules/openshmem/src/hclib_openshmem.cpp\<close> and its internal header), and the
  comparison of pending operations of the SOS module (\<^verbatim>\<open>src/modules/sos/src/hclib_sos.cpp\<close>). A wait set is a list of comparisons of a
  variable with a value; when one of them holds, a promise is put or a task is spawned. The list of wait
  sets is walked as the list of pending operations is (\<^verbatim>\<open>poll_on_waits\<close> repeats the code of \<^verbatim>\<open>poll_on_pending\<close>), so the steps are
  those of \<open>poll_step\<close> and \<open>append_step\<close>. The constants \<^verbatim>\<open>SHMEM_CMP_EQ\<close> and \<^verbatim>\<open>SHMEM_CMP_NE\<close> of the library are parameters, as is the memory.
\<close>

section \<open>Locale ids of processing elements\<close>

definition pe_to_locale_id :: "int \<Rightarrow> int result" where
  "pe_to_locale_id pe = res_bind (c_assert (pe \<ge> 0)) (\<lambda>_. Inr (wrap32 (wrap32 (-1 * pe) - 1)))"

definition locale_id_to_pe :: "int \<Rightarrow> int result" where
  "locale_id_to_pe locale_id = res_bind (c_assert (locale_id < 0)) (\<lambda>_. Inr (wrap32 (wrap32 (locale_id + 1) * -1)))"

section \<open>Comparisons\<close>

definition integer_wait :: int where "integer_wait = 0"

record wait_info =
  wait_type :: int
  var :: nat
  cmp :: int
  cmp_value :: int

definition wait_holds :: "int \<Rightarrow> int \<Rightarrow> (nat \<Rightarrow> int) \<Rightarrow> wait_info \<Rightarrow> bool result" where
  "wait_holds eq ne mem w =
     (if cmp w = eq then (if wait_type w = integer_wait then Inr (mem (var w) = cmp_value w) else Inl (Exit_code 1))
      else if cmp w = ne then (if wait_type w = integer_wait then Inr (mem (var w) \<noteq> cmp_value w) else Inl (Exit_code 1))
      else Inl (Exit_code 1))"

definition test_sos_completion :: "int \<Rightarrow> int \<Rightarrow> (nat \<Rightarrow> int) \<Rightarrow> wait_info \<Rightarrow> bool result" where
  "test_sos_completion eq ne mem op =
     (if cmp op = eq then
        (if wait_type op = integer_wait then Inr (if mem (var op) = cmp_value op then True else False) else Inl (Exit_code 1))
      else if cmp op = ne then
        (if wait_type op = integer_wait then Inr (if mem (var op) \<noteq> cmp_value op then True else False) else Inl (Exit_code 1))
      else Inl (Exit_code 1))"

fun any_complete :: "int \<Rightarrow> int \<Rightarrow> (nat \<Rightarrow> int) \<Rightarrow> wait_info list \<Rightarrow> bool result" where
  "any_complete eq ne mem [] = Inr False"
| "any_complete eq ne mem (w # ws) = res_bind (wait_holds eq ne mem w) (\<lambda>b. if b then Inr True else any_complete eq ne mem ws)"

section \<open>Wait sets\<close>

record wait_set =
  infos :: "wait_info list"
  signal :: "nat option"
  dependent_task :: "nat option"

fun fill_infos :: "nat list \<Rightarrow> int \<Rightarrow> int list \<Rightarrow> int \<Rightarrow> nat \<Rightarrow> nat \<Rightarrow> wait_info list result" where
  "fill_infos vars c values ty i 0 = Inr []"
| "fill_infos vars c values ty i (Suc n) =
     res_bind (arr_get vars (int i)) (\<lambda>v. res_bind (arr_get values (int i)) (\<lambda>x.
     res_bind (fill_infos vars c values ty (i + 1) n) (\<lambda>ws.
     Inr (\<lparr>wait_type = ty, var = v, cmp = c, cmp_value = x\<rparr> # ws))))"

text \<open>The construction of a wait set, up to its insertion in the list.\<close>

definition construct_wait_set ::
  "nat list \<Rightarrow> int \<Rightarrow> int list \<Rightarrow> nat \<Rightarrow> int \<Rightarrow> nat option \<Rightarrow> ('u, 'd, 'i) hrt \<Rightarrow> (('u, 'd, 'i) hrt \<times> wait_set) result" where
  "construct_wait_set vars c values nwaits ty t st =
     res_bind (fill_infos vars c values ty 0 nwaits) (\<lambda>ws.
     if t \<noteq> None then Inr (st, \<lparr>infos = ws, signal = None, dependent_task = t\<rparr>)
     else let (st1, p) = hclib_promise_create st in Inr (st1, \<lparr>infos = ws, signal = Some p, dependent_task = None\<rparr>))"

text \<open>The insertion without interference: the new list, and whether a poller is spawned.\<close>

definition enqueue_wait_set :: "nat \<Rightarrow> pending \<Rightarrow> pending \<times> bool" where
  "enqueue_wait_set op l =
     (let (l1, pc1) = append_step l (A_read op); (l2, pc2) = append_step l1 pc1 in (l2, pc2 = A_spawn))"

definition shmem_int_wait_until_any :: "nat list \<Rightarrow> int \<Rightarrow> int list \<Rightarrow> nat \<Rightarrow> ('u, 'd, 'i) hrt \<Rightarrow> (('u, 'd, 'i) hrt \<times> wait_set) result" where
  "shmem_int_wait_until_any ivars c values nwaits st =
     res_bind (construct_wait_set ivars c values nwaits integer_wait None st) (\<lambda>(st1, ws).
     res_bind (c_assert (signal ws \<noteq> None)) (\<lambda>_. Inr (st1, ws)))"

definition shmem_int_wait_until :: "nat \<Rightarrow> int \<Rightarrow> int \<Rightarrow> ('u, 'd, 'i) hrt \<Rightarrow> (('u, 'd, 'i) hrt \<times> wait_set) result" where
  "shmem_int_wait_until ivar c value st =
     res_bind (construct_wait_set [ivar] c [value] 1 integer_wait None st) (\<lambda>(st1, ws).
     res_bind (c_assert (signal ws \<noteq> None)) (\<lambda>_. Inr (st1, ws)))"

definition shmem_int_async_when_any :: "nat list \<Rightarrow> int \<Rightarrow> int list \<Rightarrow> nat \<Rightarrow> 'u \<Rightarrow> ('u, 'd, 'i) hrt \<Rightarrow> (('u, 'd, 'i) hrt \<times> wait_set) result" where
  "shmem_int_async_when_any ivars c values nwaits lam st =
     (let (st1, t) = alloc_task (User lam) False st in
      res_bind (construct_wait_set ivars c values nwaits integer_wait (Some t) st1) (\<lambda>(st2, ws).
      res_bind (c_assert (signal ws = None)) (\<lambda>_. Inr (st2, ws))))"

definition shmem_int_async_when :: "nat \<Rightarrow> int \<Rightarrow> int \<Rightarrow> 'u \<Rightarrow> ('u, 'd, 'i) hrt \<Rightarrow> (('u, 'd, 'i) hrt \<times> wait_set) result" where
  "shmem_int_async_when ivar c value lam st =
     (let (st1, t) = alloc_task (User lam) False st in
      res_bind (construct_wait_set [ivar] c [value] 1 integer_wait (Some t) st1) (\<lambda>(st2, ws).
      res_bind (c_assert (signal ws = None)) (\<lambda>_. Inr (st2, ws))))"

definition shmem_int_async_nb_when :: "nat \<Rightarrow> int \<Rightarrow> int \<Rightarrow> 'u \<Rightarrow> ('u, 'd, 'i) hrt \<Rightarrow> (('u, 'd, 'i) hrt \<times> wait_set) result" where
  "shmem_int_async_nb_when ivar c value lam st =
     (let (st1, t) = alloc_task (User lam) False st in
      res_bind (set_non_blocking t True st1) (\<lambda>st2.
      res_bind (construct_wait_set [ivar] c [value] 1 integer_wait (Some t) st2) (\<lambda>(st3, ws).
      res_bind (c_assert (signal ws = None)) (\<lambda>_. Inr (st3, ws)))))"

section \<open>A round of the poller\<close>

definition trigger :: "nat \<Rightarrow> wait_set \<Rightarrow> ('u, 'd, 'i) hrt \<Rightarrow> ('u, 'd, 'i) hrt result" where
  "trigger wid ws st =
     (case dependent_task ws of
        Some t \<Rightarrow> res_bind (c_assert (signal ws = None)) (\<lambda>_. spawn wid t st)
      | None \<Rightarrow> hclib_promise_put wid (signal ws) None st)"

text \<open>
  One walk of a poller over its list, with the test of an operation and what is done with a complete one. Both may
  change the state. The fuel bounds the number of steps.
\<close>

fun poll_round ::
  "nat \<Rightarrow> (nat \<Rightarrow> 's \<Rightarrow> ('s \<times> bool) result) \<Rightarrow> (nat \<Rightarrow> 's \<Rightarrow> 's result) \<Rightarrow> pending \<Rightarrow> poll_pc \<Rightarrow> 's \<Rightarrow> (pending \<times> bool \<times> 's) result" where
  "poll_round 0 test complete l pc st = Inl Diverges"
| "poll_round (Suc fuel) test complete l pc st =
     (case pc of
        P_end nonempty \<Rightarrow> Inr (l, nonempty, st)
      | P_test prev op nonempty \<Rightarrow>
          res_bind (test op st) (\<lambda>(st', b).
          res_bind (poll_step (\<lambda>_. b) l pc) (\<lambda>(l', pc'). poll_round fuel test complete l' pc' st'))
      | P_complete prev op nxt nonempty \<Rightarrow>
          res_bind (complete op st) (\<lambda>st'.
          res_bind (poll_step (\<lambda>_. False) l pc) (\<lambda>(l', pc'). poll_round fuel test complete l' pc' st'))
      | _ \<Rightarrow> res_bind (poll_step (\<lambda>_. False) l pc) (\<lambda>(l', pc'). poll_round fuel test complete l' pc' st))"

text \<open>
  A walk of \<^verbatim>\<open>poll_on_waits\<close> on worker \<open>wid\<close>, while the memory does not change; \<open>sets\<close> are the wait sets at their addresses.
\<close>

definition wait_round ::
  "nat \<Rightarrow> int \<Rightarrow> int \<Rightarrow> (nat \<Rightarrow> int) \<Rightarrow> (nat \<Rightarrow> wait_set) \<Rightarrow> nat \<Rightarrow> pending \<Rightarrow> ('u, 'd, 'i) hrt \<Rightarrow> (pending \<times> bool \<times> ('u, 'd, 'i) hrt) result" where
  "wait_round fuel eq ne mem sets wid l st =
     poll_round fuel (\<lambda>op st. res_bind (any_complete eq ne mem (infos (sets op))) (\<lambda>b. Inr (st, b))) (\<lambda>op. trigger wid (sets op)) l P_start st"

text \<open>The same for the operations of \<^verbatim>\<open>hclib-module-common.h\<close>: the promise and the task of an operation, and its completion.\<close>

definition complete_pending :: "nat \<Rightarrow> nat option \<times> nat option \<Rightarrow> ('u, 'd, 'i) hrt \<Rightarrow> ('u, 'd, 'i) hrt result" where
  "complete_pending wid op st =
     (case op of (prom, t) \<Rightarrow>
        if prom \<noteq> None then hclib_promise_put wid prom None st else res_bind (from_ptr t) (\<lambda>t'. spawn wid t' st))"

section \<open>What they do\<close>

text \<open>The comparisons that the module supports, and what they mean.\<close>

definition supported :: "int \<Rightarrow> int \<Rightarrow> wait_info \<Rightarrow> bool" where
  "supported eq ne w \<longleftrightarrow> cmp w \<in> {eq, ne} \<and> wait_type w = integer_wait"

definition satisfies :: "int \<Rightarrow> (nat \<Rightarrow> int) \<Rightarrow> wait_info \<Rightarrow> bool" where
  "satisfies eq mem w \<longleftrightarrow> (mem (var w) = cmp_value w) = (cmp w = eq)"

lemma wait_holds_supported: "supported eq ne w \<Longrightarrow> wait_holds eq ne mem w = Inr (satisfies eq mem w)"
  by (auto simp: wait_holds_def supported_def satisfies_def)

lemma any_complete_supported:
  "\<forall>w \<in> set ws. supported eq ne w \<Longrightarrow> any_complete eq ne mem ws = Inr (\<exists>w \<in> set ws. satisfies eq mem w)"
  by (induction ws) (auto simp: wait_holds_supported)

fun run_all :: "('a \<Rightarrow> 's \<Rightarrow> 's result) \<Rightarrow> 'a list \<Rightarrow> 's \<Rightarrow> 's result" where
  "run_all f [] st = Inr st"
| "run_all f (x # xs) st = res_bind (f x st) (\<lambda>st1. run_all f xs st1)"

text \<open>A walk over a list that nobody extends: the operations are tested in order and the complete ones are taken out.\<close>

fun poll_list :: "(nat \<Rightarrow> 's \<Rightarrow> ('s \<times> bool) result) \<Rightarrow> (nat \<Rightarrow> 's \<Rightarrow> 's result) \<Rightarrow> nat list \<Rightarrow> 's \<Rightarrow> (nat list \<times> 's) result" where
  "poll_list test complete [] st = Inr ([], st)"
| "poll_list test complete (x # xs) st =
     res_bind (test x st) (\<lambda>(st1, b).
     res_bind (if b then complete x st1 else Inr st1) (\<lambda>st2.
     res_bind (poll_list test complete xs st2) (\<lambda>(kept, st3). Inr (if b then kept else x # kept, st3))))"

lemma round_from:
  assumes "linked (p_next l) (p_head l) (ks @ ys)" "distinct (ks @ ys)" "4 * length ys + 2 \<le> fuel"
  shows "case poll_list test complete ys st of
      Inl e \<Rightarrow> poll_round fuel test complete l (P_next (if ks = [] then None else Some (last ks)) (first ys) (ks @ ys \<noteq> [])) st = Inl e
    | Inr (kept, st') \<Rightarrow> \<exists>l'. poll_round fuel test complete l (P_next (if ks = [] then None else Some (last ks)) (first ys) (ks @ ys \<noteq> [])) st =
          Inr (l', ks @ kept \<noteq> [], st') \<and> linked (p_next l') (p_head l') (ks @ kept)"
  using assms
proof (induction ys arbitrary: ks l fuel st)
  case Nil
  then obtain f where "fuel = Suc (Suc f)" by (metis add_2_eq_Suc le_Suc_ex mult_0_right list.size(3) add_0)
  then show ?case using Nil by (simp add: first_def)
next
  case (Cons y ys)
  define f where "f = fuel - 4"
  then have f: "fuel = Suc (Suc (Suc (Suc f)))" "4 * length ys + 2 \<le> f" using Cons.prems(3) by auto
  have y: "linked (p_next l) (if ks = [] then p_head l else p_next l (last ks)) (y # ys)" by (rule linked_suffix) (use Cons.prems in simp)
  then have nx: "p_next l y = first ys" using linked_first by auto
  show ?case
  proof (cases "test y st")
    case (Inl e)
    then show ?thesis using f(1) by (simp add: first_def [of "y # ys"])
  next
    case (Inr r)
    obtain st1 b where r: "test y st = Inr (st1, b)" using Inr by (cases r) auto
    show ?thesis
    proof (cases b)
      case False
      have "case poll_list test complete ys st1 of
          Inl e \<Rightarrow> poll_round (Suc (Suc f)) test complete l (P_next (Some y) (first ys) True) st1 = Inl e
        | Inr (kept, st') \<Rightarrow> \<exists>l'. poll_round (Suc (Suc f)) test complete l (P_next (Some y) (first ys) True) st1 = Inr (l', True, st') \<and>
            linked (p_next l') (p_head l') (ks @ y # kept)"
        using Cons.IH [of l "ks @ [y]" "Suc (Suc f)" st1] Cons.prems f(2)
        by (cases "poll_list test complete ys st1") (auto simp del: poll_round.simps)
      then show ?thesis using False f(1) nx r by (cases "poll_list test complete ys st1") (auto simp: first_def [of "y # ys"])
    next
      case b: True
      show ?thesis
      proof (cases "complete y st1")
        case (Inl e)
        then show ?thesis using b f(1) nx r y by (cases "ks = []") (auto simp: first_def [of "y # ys"])
      next
        case c: (Inr st2)
        show ?thesis
        proof (cases "ks = []")
          case k: True
          have "linked (p_next l) (first ys) ys" "p_head l = Some y" using y nx k by auto
          then show ?thesis using Cons.IH [of "l\<lparr>p_head := first ys\<rparr>" "[]" f st2] Cons.prems f b r c k nx
            by (cases ys; cases "poll_list test complete ys st2") (auto simp: first_def)
        next
          case k: False
          let ?p = "last ks"
          have "linked ((p_next l)(?p := p_next l y)) (p_head l) (remove1 y (ks @ y # ys))"
            by (rule linked_remove) (use Cons.prems k y in auto)
          moreover have "remove1 y (ks @ y # ys) = ks @ ys" using Cons.prems(2) by (simp add: remove1_append)
          ultimately show ?thesis using Cons.IH [of "l\<lparr>p_next := (p_next l)(?p := first ys)\<rparr>" ks f st2] Cons.prems f b r c k nx y
            by (cases "poll_list test complete ys st2") (auto simp: first_def [of "y # ys"] fun_upd_def)
        qed
      qed
    qed
  qed
qed

lemma poll_round_list:
  assumes "linked (p_next l) (p_head l) xs" "distinct xs" "xs \<noteq> []"
  shows "case poll_list test complete xs st of
      Inl e \<Rightarrow> poll_round (4 * length xs + 2) test complete l P_start st = Inl e
    | Inr (kept, st') \<Rightarrow> \<exists>l'. poll_round (4 * length xs + 2) test complete l P_start st = Inr (l', kept \<noteq> [], st') \<and>
        linked (p_next l') (p_head l') kept"
proof -
  have "p_head l = first xs" by (rule linked_first [OF assms(1)])
  then have "poll_round (4 * length xs + 2) test complete l P_start st = poll_round (4 * length xs + 2) test complete l (P_next None (first xs) True) st"
    using assms(3) by (cases xs) (simp_all add: first_def numeral_eq_Suc)
  then show ?thesis using round_from [of l "[]" xs "4 * length xs + 2" test complete st] assms
    by (cases "poll_list test complete xs st") (auto simp del: poll_round.simps)
qed

text \<open>With a test that does not change the state, the complete operations are those that pass it.\<close>

lemma poll_list_filter:
  assumes "\<And>op st. test op st = Inr (st, t op)"
  shows "poll_list test complete xs st = res_bind (run_all complete (filter t xs) st) (\<lambda>st'. Inr (filter (\<lambda>op. \<not> t op) xs, st'))"
proof (induction xs arbitrary: st)
  case (Cons x xs)
  have id: "res_bind r Inr = r" for r :: "'b result" by (cases r) simp_all
  show ?case using Cons assms by (cases "complete x st"; cases "run_all complete (filter t xs) st") (auto simp: id)
qed simp

lemma poll_round_complete:
  assumes "linked (p_next l) (p_head l) xs" "distinct xs" "xs \<noteq> []" "\<And>op st. test op st = Inr (st, t op)"
  shows "\<exists>l'. linked (p_next l') (p_head l') (filter (\<lambda>op. \<not> t op) xs) \<and>
    poll_round (4 * length xs + 2) test complete l P_start st =
      res_bind (run_all complete (filter t xs) st) (\<lambda>st'. Inr (l', filter (\<lambda>op. \<not> t op) xs \<noteq> [], st'))"
proof (cases "run_all complete (filter t xs) st")
  case (Inl e)
  then have "poll_round (4 * length xs + 2) test complete l P_start st = Inl e"
    using poll_round_list [OF assms(1-3), of test complete st] by (simp add: poll_list_filter [OF assms(4)])
  then show ?thesis using Inl walk_undisturbed [OF assms(1-3), of t] by auto
next
  case (Inr st')
  then show ?thesis using poll_round_list [OF assms(1-3), of test complete st] by (auto simp: poll_list_filter [OF assms(4)])
qed

text \<open>One operation with a promise: a walk satisfies it exactly if its test succeeds.\<close>

lemma single_round:
  assumes inv: "heap_inv n st W E" "wid < n" "few_objects st" "roomy st" and p: "hclib_future_is_satisfied st p = Inr False"
    and l: "linked (p_next l) (p_head l) [a]" and test: "\<And>op st. test op st = Inr (st, t op)" and put: "complete a st = hclib_promise_put wid (Some p) None st"
  shows "\<exists>l2 st2. poll_round 6 test complete l P_start st = Inr (l2, p_head l2 \<noteq> None, st2) \<and>
    (if t a then p_head l2 = None \<and> hclib_future_is_satisfied st2 p = Inr True else p_head l2 = Some a \<and> st2 = st)"
proof -
  obtain l2 where l2: "linked (p_next l2) (p_head l2) (if t a then [] else [a])"
      "poll_round 6 test complete l P_start st = res_bind (run_all complete (if t a then [a] else []) st) (\<lambda>st'. Inr (l2, \<not> t a, st'))"
    using poll_round_complete [of l "[a]" test t complete st, OF l _ _ test] by (cases "t a") auto
  obtain pr where "promises st p = Some pr" "\<not> satisfied pr" using p by (auto simp: open_promise)
  moreover have "int (next_addr st) \<le> MAX_INT" using inv(3) by (simp add: few_objects_def MAX_INT_def)
  ultimately obtain st2 where "hclib_promise_put wid (Some p) None st = Inr st2"
    using promise_put_inv [OF heap_invD(1) [OF inv(1)] _ _ inv(2)] inv(4) by blast
  then show ?thesis using l2 put put_satisfies
    by (intro exI [of _ l2] exI [of _ "if t a then st2 else st"]) auto
qed

text \<open>An insertion puts the wait set in front, and spawns a poller exactly if there was none to continue.\<close>

lemma enqueue_linked:
  assumes "linked (p_next l) (p_head l) xs" "op \<notin> set xs"
  shows "linked (p_next (fst (enqueue_wait_set op l))) (p_head (fst (enqueue_wait_set op l))) (op # xs)"
    "snd (enqueue_wait_set op l) \<longleftrightarrow> xs = []"
  using assms linked_head [OF assms(1)] by (auto simp: enqueue_wait_set_def linked_upd)

lemma fill_infos_nth:
  assumes "length vars = i + n" "length values = i + n"
  shows "fill_infos vars c values ty i n = Inr (map (\<lambda>k. \<lparr>wait_type = ty, var = vars ! k, cmp = c, cmp_value = values ! k\<rparr>) [i ..< i + n])"
  using assms
proof (induction n arbitrary: i)
  case (Suc n)
  have "[i ..< i + Suc n] = i # [Suc i ..< Suc (i + n)]" by (simp add: upt_conv_Cons del: upt_Suc)
  then show ?case using Suc.IH [of "i + 1"] Suc.prems by (simp del: upt_Suc)
qed simp

lemma fill_infos_short:
  "i \<le> min (length vars) (length values) \<Longrightarrow> min (length vars) (length values) < i + n \<Longrightarrow> fill_infos vars c values ty i n = Inl Out_of_bounds"
proof (induction n arbitrary: i)
  case (Suc n)
  then show ?case by (cases "i < min (length vars) (length values)") (auto simp: arr_get_def)
qed auto

text \<open>The comparison of the SOS module is the one of the OpenSHMEM module.\<close>

lemma sos_same_comparison: "test_sos_completion = wait_holds"
  by (simp add: fun_eq_iff test_sos_completion_def wait_holds_def)

text \<open>A comparison that is not supported ends the program when the poller reaches it, that is if none before it holds.\<close>

lemma unsupported_exits:
  assumes "\<forall>w \<in> set ws. supported eq ne w \<and> \<not> satisfies eq mem w" "\<not> supported eq ne w"
  shows "any_complete eq ne mem (ws @ w # rest) = Inl (Exit_code 1)"
  using assms
proof (induction ws)
  case Nil
  then show ?case by (auto simp: wait_holds_def supported_def)
next
  case (Cons v ws)
  then show ?case using wait_holds_supported [of eq ne v mem] by simp
qed

text \<open>The locale ids of processing elements are negative and can be converted back, also for the greatest number.\<close>

lemma pe_locale_roundtrip:
  assumes "0 \<le> pe" "pe \<le> 2147483647"
  shows "\<exists>i. pe_to_locale_id pe = Inr i \<and> i < 0 \<and> locale_id_to_pe i = Inr pe"
  using assms by (simp add: pe_to_locale_id_def locale_id_to_pe_def)

text \<open>A task that waits for a value is counted in the scope in which the poller runs, not in that of the caller.\<close>

lemma trigger_scope:
  assumes "dependent_task ws = Some t" "signal ws = None" "tasks st t = Some tk"
  shows "trigger wid ws st = res_bind (check_in_finish (cur_finish st wid) st) (\<lambda>st1.
    res_bind (get_task st1 t) (\<lambda>tk1. try_schedule_async t wid (put_task t (tk1\<lparr>t_finish := cur_finish st wid\<rparr>) st1)))"
  using assms by (simp add: trigger_def spawn_def spawn_handler_def set_futures_def Let_def)

section \<open>Properties\<close>

text \<open>
  A walk of \<^verbatim>\<open>poll_on_waits\<close> over a list of wait sets that nobody extends, while the memory does not change: it takes out
  exactly the wait sets of which at least one comparison holds, triggers them in the order of
  the list (a put, or a spawn of the dependent task), leaves the others linked in their order, and
  the poller goes on exactly if there are any. Only a trigger can make it fail.
\<close>

theorem wait_sets_complete:
  assumes "linked (p_next l) (p_head l) xs" "distinct xs" "xs \<noteq> []" "\<forall>op. \<forall>w \<in> set (infos (sets op)). supported eq ne w"
  shows "\<exists>l'. linked (p_next l') (p_head l') (filter (\<lambda>op. \<not> (\<exists>w \<in> set (infos (sets op)). satisfies eq mem w)) xs) \<and>
    wait_round (4 * length xs + 2) eq ne mem sets wid l st =
      res_bind (run_all (\<lambda>op. trigger wid (sets op)) (filter (\<lambda>op. \<exists>w \<in> set (infos (sets op)). satisfies eq mem w) xs) st) (\<lambda>st'.
        Inr (l', filter (\<lambda>op. \<not> (\<exists>w \<in> set (infos (sets op)). satisfies eq mem w)) xs \<noteq> [], st'))"
  unfolding wait_round_def
  by (rule poll_round_complete [OF assms(1-3)]) (use assms(4) in \<open>simp add: any_complete_supported\<close>)

theorem wait_sets_complete_witness:
  "\<exists>l'. wait_round 10 0 1 (\<lambda>a. 5) (\<lambda>op. \<lparr>infos = [\<lparr>wait_type = integer_wait, var = 0, cmp = 0, cmp_value = int op\<rparr>], signal = Some 0, dependent_task = None\<rparr>) 0
     \<lparr>p_head = Some 3, p_next = [3 \<mapsto> 7]\<rparr> (idle_heap :: (nat, nat, nat) hrt) = Inr (l', True, idle_heap) \<and> linked (p_next l') (p_head l') [3, 7]"
  using wait_sets_complete [of "\<lparr>p_head = Some 3, p_next = [3 \<mapsto> 7]\<rparr>" "[3, 7]"
      "\<lambda>op. \<lparr>infos = [\<lparr>wait_type = integer_wait, var = 0, cmp = 0, cmp_value = int op\<rparr>], signal = Some 0, dependent_task = None\<rparr>" 0 1 "\<lambda>a. 5" 0
      "idle_heap :: (nat, nat, nat) hrt"]
  by (simp add: supported_def satisfies_def) blast

text \<open>
  C10: a task that waits until one of several variables has, or no longer has, a given value. The call makes a new open
  promise and, if the list was empty, a poller. A walk of the poller satisfies the promise and ends the
  poller exactly if one of the variables then compares as asked; otherwise the state is
  unchanged and the poller goes on. In a roomy state nothing aborts.
\<close>

theorem wait_until_wakes:
  assumes inv: "heap_inv n st W E" "wid < n" "next_addr st + 1 \<le> 10 ^ 9" "roomy st"
    and args: "length ivars = nw" "length values = nw" "c \<in> {eq, ne}" "p_head l = None"
  shows "\<exists>st1 ws l1. shmem_int_wait_until_any ivars c values nw st = Inr (st1, ws) \<and> enqueue_wait_set a l = (l1, True) \<and>
    hclib_future_is_satisfied st1 (next_addr st) = Inr False \<and>
    (\<exists>l2 st2. wait_round 6 eq ne mem (\<lambda>_. ws) wid l1 st1 = Inr (l2, p_head l2 \<noteq> None, st2) \<and>
       (if \<exists>i < nw. (mem (ivars ! i) = values ! i) = (c = eq) then p_head l2 = None \<and> hclib_future_is_satisfied st2 (next_addr st) = Inr True
        else p_head l2 = Some a \<and> st2 = st1))"
proof -
  let ?p = "next_addr st"
  define ws where "ws = \<lparr>infos = map (\<lambda>k. \<lparr>wait_type = integer_wait, var = ivars ! k, cmp = c, cmp_value = values ! k\<rparr>) [0 ..< nw],
    signal = Some ?p, dependent_task = None\<rparr>"
  obtain st1 where new: "hclib_promise_create st = (st1, ?p)" by (simp add: hclib_promise_create_def)
  note C = create_facts [OF new]
  have call: "shmem_int_wait_until_any ivars c values nw st = Inr (st1, ws)"
    using fill_infos_nth [of ivars 0 nw "values" c integer_wait] args new
    by (simp add: shmem_int_wait_until_any_def construct_wait_set_def ws_def)
  obtain l1 where l1: "enqueue_wait_set a l = (l1, True)" "linked (p_next l1) (p_head l1) [a]"
    using enqueue_linked [of l "[]" a] args(4) by (cases "enqueue_wait_set a l") auto
  have "supported eq ne w" if "w \<in> set (infos ws)" for w using that args(3) by (auto simp: ws_def supported_def)
  then have test: "any_complete eq ne mem (infos ws) = Inr (\<exists>w \<in> set (infos ws). satisfies eq mem w)" by (simp add: any_complete_supported)
  have ready: "(\<exists>w \<in> set (infos ws). satisfies eq mem w) \<longleftrightarrow> (\<exists>i < nw. (mem (ivars ! i) = values ! i) = (c = eq))"
    by (auto simp: ws_def satisfies_def)
  have "heap_inv n st1 W E" unfolding C(2) by (rule heap_inv_create [OF inv(1)])
  moreover have "roomy st1" "few_objects st1" using inv(3,4) C(3,4,6) by (simp_all add: roomy_def few_objects_def)
  ultimately have "\<exists>l2 st2. wait_round 6 eq ne mem (\<lambda>_. ws) wid l1 st1 = Inr (l2, p_head l2 \<noteq> None, st2) \<and>
      (if \<exists>i < nw. (mem (ivars ! i) = values ! i) = (c = eq) then p_head l2 = None \<and> hclib_future_is_satisfied st2 ?p = Inr True
       else p_head l2 = Some a \<and> st2 = st1)"
    unfolding wait_round_def ready [symmetric]
    by (intro single_round [OF _ inv(2) _ _ C(9) l1(2)]) (use test in \<open>auto simp: trigger_def ws_def\<close>)
  then show ?thesis using call l1(1) C(9) by blast
qed

theorem wait_until_wakes_witness:
  "\<exists>st1 ws l1 l2 st2. shmem_int_wait_until_any [4, 8] 0 [1, 5] 2 (idle_heap :: (nat, nat, nat) hrt) = Inr (st1, ws) \<and>
     enqueue_wait_set 9 \<lparr>p_head = None, p_next = (\<lambda>_. None)\<rparr> = (l1, True) \<and>
     wait_round 6 0 1 (\<lambda>a. if a = 8 then 5 else 0) (\<lambda>_. ws) 0 l1 st1 = Inr (l2, False, st2) \<and> hclib_future_is_satisfied st2 0 = Inr True"
proof -
  have idle: "next_addr (idle_heap :: (nat, nat, nat) hrt) + 1 \<le> 10 ^ 9" "roomy (idle_heap :: (nat, nat, nat) hrt)"
      "next_addr (idle_heap :: (nat, nat, nat) hrt) = 0" "0 < (1 :: nat)"
    by (simp_all add: idle_heap_def roomy_def)
  have "\<exists>i < 2. (if [4, 8] ! i = (8 :: nat) then 5 else 0) = [1, 5 :: int] ! i" by (rule exI [of _ 1]) simp
  then show ?thesis
    using wait_until_wakes [OF idle_heap_can(1) idle(4,1,2), of "[4, 8]" 2 "[1, 5]" 0 0 1 "\<lparr>p_head = None, p_next = (\<lambda>_. None)\<rparr>" 9 "\<lambda>a. if a = 8 then 5 else 0"]
    by (simp add: idle(3)) fastforce
qed

end
