(* ===== verification/Comm_Tasks.thy ===== *)
theory Comm_Tasks
  imports Wait_Sets Locality_Queries
begin

text \<open>
  What the communication modules share: a blocking function opens a finish scope, spawns one task at the
  interconnect locale that calls the library, and ends the scope; an operation with a promise is put into the list of
  pending operations, with a task that polls. The lemmas follow such a task from its spawn to its end and say
  when a graph has exactly one interconnect.
\<close>

section \<open>Operations\<close>

text \<open>\<^verbatim>\<open>finish([&] { async_nb_at(lam, nic); })\<close> up to the call of \<^verbatim>\<open>hclib_end_finish\<close>, which the worker then runs.\<close>

definition finish_async_nb_at :: "nat \<Rightarrow> 'u \<Rightarrow> nat option \<Rightarrow> ('u, 'd, 'i) hrt \<Rightarrow> ('u, 'd, 'i) hrt result" where
  "finish_async_nb_at wid lam loc st = res_bind (hclib_start_finish wid st) (\<lambda>st1. cpp_async_nb_at wid lam loc st1)"

text \<open>\<^verbatim>\<open>append_to_pending\<close> without interference, with the task it spawns.\<close>

definition append_to_pending :: "nat \<Rightarrow> nat \<Rightarrow> 'u \<Rightarrow> nat option \<Rightarrow> pending \<Rightarrow> ('u, 'd, 'i) hrt \<Rightarrow> (pending \<times> ('u, 'd, 'i) hrt) result" where
  "append_to_pending wid op poller loc l st =
     (let (l1, pc1) = append_step l (A_read op); (l2, pc2) = append_step l1 pc1 in
      res_bind (if pc2 = A_spawn then cpp_async_at wid poller loc st else Inr st) (\<lambda>st1. Inr (l2, st1)))"

section \<open>Spawning\<close>

text \<open>The scope and the task of a blocking function.\<close>

definition call_spawned :: "nat \<Rightarrow> nat set \<Rightarrow> nat \<Rightarrow> nat \<Rightarrow> 'u \<Rightarrow> ('u, 'd, 'i) hrt \<Rightarrow> ('u, 'd, 'i) hrt \<Rightarrow> bool" where
  "call_spawned n E w l lam st st' \<longleftrightarrow> (\<exists>W'. heap_inv n st' W' E) \<and> cur_finish st' w = Some (next_addr st) \<and>
     map_option shape (finishes st' (next_addr st)) = Some (cur_finish st w, None) \<and>
     members st' (next_addr st) = {next_addr st + 1} \<and> children st' (next_addr st) = {} \<and>
     map_option (\<lambda>tk. (fp tk, t_locale tk, non_blocking tk)) (tasks st' (next_addr st + 1)) = Some (User lam, Some l, True)"

lemma nb_at_request: "cpp_async_nb_at w u l = run_request w (async_nb_await_at u None l)"
  by (simp add: fun_eq_iff run_request_calls non_blocking_ref given_def)

lemma finish_async_spawns:
  assumes inv: "heap_inv n st W E" and can: "can_spawn n st w" and l: "l < length (rt_pool st)"
  shows "\<exists>st'. finish_async_nb_at w lam (Some l) st = Inr st' \<and> call_spawned n E w l lam st st'"
proof -
  let ?f = "next_addr st" and ?q = "async_nb_await_at lam None (Some l)"
  have R: "w < n" "\<And>a. cur_finish st w = Some a \<Longrightarrow> finishes st a \<noteq> None" using can by (auto simp: can_spawn_def)
  have few: "few_objects (st\<lparr>next_addr := ?f + 1\<rparr>)" using can by (simp add: can_spawn_def few_objects_def)
  obtain st1 where st1: "hclib_start_finish w st = Inr st1" "heap_inv n st1 W E" "promises st1 = promises st" "tasks st1 = tasks st"
      "rt_pool st1 = rt_pool st" "next_addr st1 = ?f + 1" "cur_finish st1 w = Some ?f"
    and shp: "\<And>g. map_option shape (finishes st1 g) = (if g = ?f then Some (cur_finish st w, None) else map_option shape (finishes st g))"
    using start_finish_returns [OF inv R(1) few R(2)] by metis
  have "finishes st1 ?f \<noteq> None" using shp [of ?f] by auto
  then have "loop_room n w st1 [?q]" using can st1 l by (auto simp: can_spawn_def loop_room_def loc_ok_def async_nb_await_at_def opt_future_def)
  then obtain st2 W2 where st2: "run_request w ?q st1 = Inr st2" "heap_inv n st2 W2 E" "tasks_added w [?q] st1 st2"
      and tk: "map_option (\<lambda>tk. (t_locale tk, waiting_on tk)) (tasks st2 (next_addr st1)) =
        Some (req_locale ?q, waiting_on (set_futures (map Some (req_futures ?q)) (new_task (User (req_job ?q)) (req_nb ?q))))"
    using run_request_adds [OF st1(2)] by blast
  have shp2: "map_option shape (finishes st2 g) = (if g = ?f then Some (cur_finish st w, None) else map_option shape (finishes st g))" for g
    using st2(3) shp [of g] by (simp add: tasks_added_def)
  note fresh = fresh_scope [OF heap_invD(2) [OF inv] R(2) shp2]
  have "members st1 ?f = {}" using fresh(1) st1(4) by (simp add: members_def)
  then have mem: "members st2 ?f = {?f + 1}" using added_members [OF heap_invD(2) [OF st2(2)] st2(3) st1(7)] st1(6) by auto
  have "map_option (\<lambda>tk. (fp tk, t_locale tk, non_blocking tk)) (tasks st2 (?f + 1)) = Some (User lam, Some l, True)"
    using tk st2(3) st1(6) by (auto simp: tasks_added_def async_nb_await_at_def)
  moreover have "cur_finish st2 w = Some ?f" using st1(7) st2(3) by (simp add: tasks_added_def)
  ultimately have "call_spawned n E w l lam st st2" using st2(2) shp2 [of ?f] mem fresh(2) by (auto simp: call_spawned_def)
  moreover have "finish_async_nb_at w lam (Some l) st = Inr st2" using st1(1) st2(1) by (simp add: finish_async_nb_at_def nb_at_request)
  ultimately show ?thesis by blast
qed

lemma can_spawn_room:
  assumes "can_spawn n st w" "l < length (rt_pool st)" "req_locale q = Some l" "\<forall>p \<in> set (req_futures q). promises st p \<noteq> None"
  shows "loop_room n w st [q]"
  using assms by (auto simp: can_spawn_def loop_room_def loc_ok_def)

text \<open>An operation is put in front of the list, and a poller is spawned at the locale if the list was empty.\<close>

lemma append_spawns:
  assumes inv: "heap_inv n st W E" "can_spawn n st w" "loc < length (rt_pool st)" and l: "linked (p_next l) (p_head l) xs" "op \<notin> set xs"
  shows "\<exists>l' st' W'. append_to_pending w op poller (Some loc) l st = Inr (l', st') \<and> heap_inv n st' W' E \<and> linked (p_next l') (p_head l') (op # xs) \<and>
    (\<forall>p. hclib_future_is_satisfied st' p = hclib_future_is_satisfied st p) \<and>
    (if xs = [] then map_option (\<lambda>tk. (fp tk, t_locale tk, non_blocking tk)) (tasks st' (next_addr st)) = Some (User poller, Some loc, False) else st' = st)"
proof -
  let ?q = "async_await_at poller None (Some loc)"
  obtain l' b where e: "enqueue_wait_set op l = (l', b)" by fastforce
  have a: "append_to_pending w op poller (Some loc) l st =
      res_bind (if b then cpp_async_at w poller (Some loc) st else Inr st) (\<lambda>st1. Inr (l', st1))"
    using e by (auto simp: append_to_pending_def enqueue_wait_set_def Let_def split: if_splits)
  have l': "linked (p_next l') (p_head l') (op # xs)" "b \<longleftrightarrow> xs = []" using enqueue_linked [OF l] e by auto
  show ?thesis
  proof (cases "xs = []")
    case False
    then show ?thesis using a l' inv(1) by auto
  next
    case True
    have "loop_room n w st [?q]" by (rule can_spawn_room [OF inv(2,3)]) (simp_all add: async_await_at_def opt_future_def)
    then obtain st' W' where st': "run_request w ?q st = Inr st'" "heap_inv n st' W' E" "tasks_added w [?q] st st'"
        "map_option (\<lambda>tk. (t_locale tk, waiting_on tk)) (tasks st' (next_addr st)) =
           Some (req_locale ?q, waiting_on (set_futures (map Some (req_futures ?q)) (new_task (User (req_job ?q)) (req_nb ?q))))"
      using run_request_adds [OF inv(1)] by blast
    have "cpp_async_at w poller (Some loc) st = Inr st'" using st'(1) by (simp add: run_request_calls blocking_ref given_def)
    moreover have "map_option (\<lambda>tk. (fp tk, t_locale tk, non_blocking tk)) (tasks st' (next_addr st)) = Some (User poller, Some loc, False)"
      using st'(3,4) by (auto simp: tasks_added_def async_await_at_def)
    moreover have "hclib_future_is_satisfied st' p = hclib_future_is_satisfied st p" for p
      using st'(3) by (intro satisfied_cong) (simp add: tasks_added_def)
    ultimately show ?thesis using a l' True st'(1,2) by auto
  qed
qed

text \<open>When the only task of the scope of a blocking function ends, the counter lets \<^verbatim>\<open>hclib_end_finish\<close> return.\<close>

lemma call_ends:
  assumes "heap_inv n st W E" "w < n" "few_objects st" "t \<in> E" "members st f = {t}" "children st f = {}" "open_scope st f"
  shows "\<exists>st' W'. execute_end w t st = Inr st' \<and> heap_inv n st' W' (E - {t}) \<and> map_option counter (finishes st' f) = Some 1"
proof -
  obtain fin where "finishes st f = Some fin" "finish_dep fin = None" using assms(7) by (auto simp: open_scope_def)
  then show ?thesis using execute_end_open [OF assms(1-4), of f fin] assms(5,6) by auto
qed

section \<open>Putting promises\<close>

lemma put_open:
  assumes inv: "heap_inv n st W E" "w < n" "few_objects st" "roomy st" and p: "hclib_future_is_satisfied st p = Inr False"
  shows "\<exists>st' W'. hclib_promise_put w (Some p) d st = Inr st' \<and> heap_inv n st' W' E \<and> few_objects st' \<and> roomy st' \<and>
     hclib_future_is_satisfied st' p = Inr True \<and> (\<forall>q. q \<noteq> p \<longrightarrow> hclib_future_is_satisfied st' q = hclib_future_is_satisfied st q)"
proof -
  obtain pr where pr: "promises st p = Some pr" "\<not> satisfied pr" using p by (auto simp: open_promise)
  have "int (next_addr st) \<le> MAX_INT" using inv(3) by (simp add: few_objects_def MAX_INT_def)
  then obtain st' where st': "hclib_promise_put w (Some p) d st = Inr st'" and k: "keeps (close_promise p d st) st'"
    using promise_put_inv [OF heap_invD(1) [OF inv(1)] pr inv(2), of d] inv(4) by blast
  obtain W' where W': "heap_inv n st' W' E" "evolves st st'" using heap_inv_put [OF inv(1-3) st'] by blast
  have "map reachable (rt_pool st') = map reachable (rt_pool st)" using k by (simp add: keeps_def close_promise_def)
  then have "length (rt_pool st') = length (rt_pool st)" "\<And>l. l < length (rt_pool st) \<Longrightarrow> reachable (rt_pool st' ! l) = reachable (rt_pool st ! l)"
    by (metis length_map, metis length_map nth_map)
  moreover have "tasks st' t = None \<longleftrightarrow> tasks st t = None" for t using W'(2) unfolding evolves_def by (metis option.map_disc_iff)
  ultimately have "roomy st'" using inv(4) by (simp add: roomy_def del: not_None_eq)
  moreover have "few_objects st'" using inv(3) W'(2) by (simp add: few_objects_def evolves_def)
  moreover have "hclib_future_is_satisfied st' q = hclib_future_is_satisfied st q" if "q \<noteq> p" for q
    using k that by (intro satisfied_cong) (simp add: keeps_def close_promise_def)
  ultimately show ?thesis using st' W'(1) put_satisfies [OF st'] by blast
qed

section \<open>The interconnect of a graph\<close>

lemma card_ex1: "finite {x. P x} \<Longrightarrow> card {x. P x} = 1 \<longleftrightarrow> (\<exists>!x. P x)"
  unfolding One_nat_def card_1_singleton_iff Ex1_def set_eq_iff mem_Collect_eq singleton_iff by metis

lemma one_of_type: "length (hclib_get_all_locales_of_type g (int ty)) = 1 \<longleftrightarrow>
  (\<exists>!x. x < length (g_locales g) \<and> loc_type (g_locales g ! x) = ty)" if "ty < 2 ^ 32"
proof -
  have f: "hclib_get_all_locales_of_type g (int ty) = filter (\<lambda>x. loc_type (g_locales g ! x) = ty) [0 ..< length (g_locales g)]" (is "_ = ?f")
    using that by (simp add: hclib_get_all_locales_of_type_def)
  have "length ?f = card {x. x < length (g_locales g) \<and> loc_type (g_locales g ! x) = ty}"
    using distinct_card [of ?f] by (simp add: conj_commute)
  moreover have "card {x. x < length (g_locales g) \<and> loc_type (g_locales g ! x) = ty} = 1 \<longleftrightarrow>
      (\<exists>!x. x < length (g_locales g) \<and> loc_type (g_locales g ! x) = ty)"
    by (rule card_ex1) simp
  ultimately show ?thesis unfolding f by simp
qed

end
