(* ===== verification/Mpi_Module.thy ===== *)
theory Mpi_Module
  imports Comm_Tasks
begin

text \<open>
  The module for MPI: \<^verbatim>\<open>src/modules/mpi/src/hclib_mpi.cpp\<close>. A blocking function opens a finish scope, spawns one task at the
  interconnect locale that calls the library, and ends the scope. A function with a future makes a promise and spawns a
  task that starts the operation and puts its request into the list of pending operations; the task that polls
  this list satisfies the promise. The library is a parameter: a record of its functions on a state of its own, each with the
  error code that it returns.
\<close>

section \<open>The library\<close>

text \<open>The calls that tasks make, with the arguments of the C interface. Buffers, communicators, datatypes, operators and the status are addresses.\<close>

datatype mpi_call =
    Lib_Send nat int nat int int nat
  | Lib_Recv nat int nat int int nat nat
  | Lib_Isend nat int nat int int nat
  | Lib_Irecv nat int nat int int nat
  | Lib_Allreduce nat nat int nat nat nat
  | Lib_Allgather nat int nat nat int nat nat
  | Lib_Bcast nat int nat int nat
  | Lib_Barrier nat
  | Lib_Reduce nat nat int nat nat int nat

record 'w mpi_lib =
  MPI_SUCCESS :: int
  MPI_THREAD_FUNNELED :: int
  lib_call :: "mpi_call \<Rightarrow> 'w \<Rightarrow> 'w \<times> int"
  lib_start :: "mpi_call \<Rightarrow> 'w \<Rightarrow> 'w \<times> int \<times> nat"
  lib_test :: "nat \<Rightarrow> 'w \<Rightarrow> 'w \<times> int \<times> bool"
  lib_init_thread :: "int \<Rightarrow> 'w \<Rightarrow> 'w \<times> int \<times> int"
  lib_finalize :: "'w \<Rightarrow> 'w"
  lib_comm_rank :: "nat \<Rightarrow> 'w \<Rightarrow> int \<times> int"
  lib_comm_size :: "nat \<Rightarrow> 'w \<Rightarrow> int \<times> int"
  lib_comm_dup :: "nat \<Rightarrow> 'w \<Rightarrow> 'w \<times> int \<times> nat"
  lib_comm_split :: "nat \<Rightarrow> int \<Rightarrow> int \<Rightarrow> 'w \<Rightarrow> 'w \<times> int \<times> nat"

definition check_mpi :: "'w mpi_lib \<Rightarrow> int \<Rightarrow> unit result" where
  "check_mpi lib err = (if err \<noteq> MPI_SUCCESS lib then Inl (Exit_code 1) else Inr ())"

section \<open>State\<close>

record pending_mpi_op =
  req :: nat
  prom :: "nat option"
  op_task :: "nat option"

text \<open>The static variables, the operations at their addresses, and the state of the library.\<close>

record 'w mpi_module =
  nic_locale_id :: nat
  nic :: "nat option"
  mpi_pending :: pending
  mpi_ops :: "nat \<rightharpoonup> pending_mpi_op"
  next_op :: nat
  world :: 'w

text \<open>The lambdas of the module.\<close>

datatype mpi_lambda = Blocking mpi_call | Starting mpi_call nat | Polling

type_synonym 'i mpi_rt = "(mpi_lambda, nat, 'i) hrt"

section \<open>Initialisation\<close>

definition mpi_pre_initialize :: "'f locality_state \<Rightarrow> 'w mpi_module \<Rightarrow> 'f locality_state \<times> 'w mpi_module" where
  "mpi_pre_initialize ls ms =
     (let (ls', i) = hclib_add_known_locale_type ls ''Interconnect'' in (ls', ms\<lparr>nic_locale_id := i\<rparr>))"

definition mpi_post_initialize ::
  "'w mpi_lib \<Rightarrow> ('a, 'i) locality_graph \<Rightarrow> 'w mpi_module \<Rightarrow> (('a, 'i) locality_graph \<times> 'w mpi_module) result" where
  "mpi_post_initialize lib g ms =
     (let (w1, err, provided) = lib_init_thread lib (MPI_THREAD_FUNNELED lib) (world ms) in
      res_bind (check_mpi lib err) (\<lambda>_.
      res_bind (c_assert (provided = MPI_THREAD_FUNNELED lib)) (\<lambda>_.
      let nics = hclib_get_all_locales_of_type g (int (nic_locale_id ms)) in
      res_bind (c_assert (length nics = 1)) (\<lambda>_.
      res_bind (c_assert (nic ms = None)) (\<lambda>_.
      res_bind (arr_get nics 0) (\<lambda>x.
      res_bind (hclib_locale_mark_special (g_locales g) x ''COMM'') (\<lambda>pool.
      Inr (g\<lparr>g_locales := pool\<rparr>, ms\<lparr>nic := Some x, world := w1\<rparr>))))))))"

definition mpi_finalize :: "'w mpi_lib \<Rightarrow> 'w mpi_module \<Rightarrow> 'w mpi_module" where
  "mpi_finalize lib ms = ms\<lparr>world := lib_finalize lib (world ms)\<rparr>"

section \<open>Functions that call the library directly\<close>

definition MPI_Comm_rank :: "'w mpi_lib \<Rightarrow> nat \<Rightarrow> 'w mpi_module \<Rightarrow> int result" where
  "MPI_Comm_rank lib comm ms = (let (err, rank) = lib_comm_rank lib comm (world ms) in res_bind (check_mpi lib err) (\<lambda>_. Inr rank))"

definition MPI_Comm_size :: "'w mpi_lib \<Rightarrow> nat \<Rightarrow> 'w mpi_module \<Rightarrow> int result" where
  "MPI_Comm_size lib comm ms = (let (err, n) = lib_comm_size lib comm (world ms) in res_bind (check_mpi lib err) (\<lambda>_. Inr n))"

definition MPI_Comm_dup :: "'w mpi_lib \<Rightarrow> nat \<Rightarrow> 'w mpi_module \<Rightarrow> ('w mpi_module \<times> nat) result" where
  "MPI_Comm_dup lib comm ms =
     (let (w1, err, newcomm) = lib_comm_dup lib comm (world ms) in res_bind (check_mpi lib err) (\<lambda>_. Inr (ms\<lparr>world := w1\<rparr>, newcomm)))"

definition MPI_Comm_split :: "'w mpi_lib \<Rightarrow> nat \<Rightarrow> int \<Rightarrow> int \<Rightarrow> 'w mpi_module \<Rightarrow> ('w mpi_module \<times> nat) result" where
  "MPI_Comm_split lib comm color key ms =
     (let (w1, err, newcomm) = lib_comm_split lib comm color key (world ms) in
      res_bind (check_mpi lib err) (\<lambda>_. Inr (ms\<lparr>world := w1\<rparr>, newcomm)))"

section \<open>Blocking functions\<close>

definition MPI_Send :: "nat \<Rightarrow> nat \<Rightarrow> int \<Rightarrow> nat \<Rightarrow> int \<Rightarrow> int \<Rightarrow> nat \<Rightarrow> 'w mpi_module \<Rightarrow> 'i mpi_rt \<Rightarrow> 'i mpi_rt result" where
  "MPI_Send wid buf cnt datatype dest tag comm ms =
     finish_async_nb_at wid (Blocking (Lib_Send buf cnt datatype dest tag comm)) (nic ms)"

definition MPI_Recv :: "nat \<Rightarrow> nat \<Rightarrow> int \<Rightarrow> nat \<Rightarrow> int \<Rightarrow> int \<Rightarrow> nat \<Rightarrow> nat \<Rightarrow> 'w mpi_module \<Rightarrow> 'i mpi_rt \<Rightarrow> 'i mpi_rt result" where
  "MPI_Recv wid buf cnt datatype source tag comm status ms =
     finish_async_nb_at wid (Blocking (Lib_Recv buf cnt datatype source tag comm status)) (nic ms)"

definition MPI_Allreduce :: "nat \<Rightarrow> nat \<Rightarrow> nat \<Rightarrow> int \<Rightarrow> nat \<Rightarrow> nat \<Rightarrow> nat \<Rightarrow> 'w mpi_module \<Rightarrow> 'i mpi_rt \<Rightarrow> 'i mpi_rt result" where
  "MPI_Allreduce wid sendbuf recvbuf cnt datatype op comm ms =
     finish_async_nb_at wid (Blocking (Lib_Allreduce sendbuf recvbuf cnt datatype op comm)) (nic ms)"

definition MPI_Allgather :: "nat \<Rightarrow> nat \<Rightarrow> int \<Rightarrow> nat \<Rightarrow> nat \<Rightarrow> int \<Rightarrow> nat \<Rightarrow> nat \<Rightarrow> 'w mpi_module \<Rightarrow> 'i mpi_rt \<Rightarrow> 'i mpi_rt result" where
  "MPI_Allgather wid sendbuf sendcount sendtype recvbuf recvcount recvtype comm ms =
     finish_async_nb_at wid (Blocking (Lib_Allgather sendbuf sendcount sendtype recvbuf recvcount recvtype comm)) (nic ms)"

definition MPI_Bcast :: "nat \<Rightarrow> nat \<Rightarrow> int \<Rightarrow> nat \<Rightarrow> int \<Rightarrow> nat \<Rightarrow> 'w mpi_module \<Rightarrow> 'i mpi_rt \<Rightarrow> 'i mpi_rt result" where
  "MPI_Bcast wid buffer cnt datatype root_rank comm ms =
     finish_async_nb_at wid (Blocking (Lib_Bcast buffer cnt datatype root_rank comm)) (nic ms)"

definition MPI_Barrier :: "nat \<Rightarrow> nat \<Rightarrow> 'w mpi_module \<Rightarrow> 'i mpi_rt \<Rightarrow> 'i mpi_rt result" where
  "MPI_Barrier wid comm ms = finish_async_nb_at wid (Blocking (Lib_Barrier comm)) (nic ms)"

definition MPI_Reduce :: "nat \<Rightarrow> nat \<Rightarrow> nat \<Rightarrow> int \<Rightarrow> nat \<Rightarrow> nat \<Rightarrow> int \<Rightarrow> nat \<Rightarrow> 'w mpi_module \<Rightarrow> 'i mpi_rt \<Rightarrow> 'i mpi_rt result" where
  "MPI_Reduce wid sendbuf recvbuf cnt datatype op root_rank comm ms =
     finish_async_nb_at wid (Blocking (Lib_Reduce sendbuf recvbuf cnt datatype op root_rank comm)) (nic ms)"

section \<open>Functions with a future\<close>

definition MPI_Isend_await ::
  "nat \<Rightarrow> nat \<Rightarrow> int \<Rightarrow> nat \<Rightarrow> int \<Rightarrow> int \<Rightarrow> nat \<Rightarrow> nat option \<Rightarrow> 'w mpi_module \<Rightarrow> 'i mpi_rt \<Rightarrow> ('i mpi_rt \<times> nat) result" where
  "MPI_Isend_await wid buf cnt datatype dest tag comm fut ms st =
     (let (st1, p) = hclib_promise_create st in
      res_bind (cpp_async_nb_await_at wid (Starting (Lib_Isend buf cnt datatype dest tag comm) p) fut (nic ms) st1) (\<lambda>st2.
      Inr (st2, hclib_get_future_for_promise p)))"

definition MPI_Isend ::
  "nat \<Rightarrow> nat \<Rightarrow> int \<Rightarrow> nat \<Rightarrow> int \<Rightarrow> int \<Rightarrow> nat \<Rightarrow> 'w mpi_module \<Rightarrow> 'i mpi_rt \<Rightarrow> ('i mpi_rt \<times> nat) result" where
  "MPI_Isend wid buf cnt datatype dest tag comm = MPI_Isend_await wid buf cnt datatype dest tag comm None"

definition MPI_Irecv_await ::
  "nat \<Rightarrow> nat \<Rightarrow> int \<Rightarrow> nat \<Rightarrow> int \<Rightarrow> int \<Rightarrow> nat \<Rightarrow> nat option \<Rightarrow> 'w mpi_module \<Rightarrow> 'i mpi_rt \<Rightarrow> ('i mpi_rt \<times> nat) result" where
  "MPI_Irecv_await wid buf cnt datatype source tag comm fut ms st =
     (let (st1, p) = hclib_promise_create st in
      res_bind (cpp_async_nb_await_at wid (Starting (Lib_Irecv buf cnt datatype source tag comm) p) fut (nic ms) st1) (\<lambda>st2.
      Inr (st2, hclib_get_future_for_promise p)))"

definition MPI_Irecv ::
  "nat \<Rightarrow> nat \<Rightarrow> int \<Rightarrow> nat \<Rightarrow> int \<Rightarrow> int \<Rightarrow> nat \<Rightarrow> 'w mpi_module \<Rightarrow> 'i mpi_rt \<Rightarrow> ('i mpi_rt \<times> nat) result" where
  "MPI_Irecv wid buf cnt datatype source tag comm = MPI_Irecv_await wid buf cnt datatype source tag comm None"

definition MPI_Allreduce_future ::
  "nat \<Rightarrow> nat \<Rightarrow> nat \<Rightarrow> int \<Rightarrow> nat \<Rightarrow> nat \<Rightarrow> nat \<Rightarrow> 'w mpi_module \<Rightarrow> 'i mpi_rt \<Rightarrow> ('i mpi_rt \<times> nat) result" where
  "MPI_Allreduce_future wid sendbuf recvbuf cnt datatype op comm ms =
     cpp_async_nb_future_at wid (Blocking (Lib_Allreduce sendbuf recvbuf cnt datatype op comm)) (nic ms)"

text \<open>Where the loop of \<^verbatim>\<open>MPI_Waitall\<close> waits in a state: the first future of the array that is open, if any.\<close>

fun MPI_Waitall :: "nat \<Rightarrow> nat option list \<Rightarrow> nat \<Rightarrow> ('u, 'd, 'i) hrt \<Rightarrow> nat option result" where
  "MPI_Waitall i array_of_requests 0 st = Inr None"
| "MPI_Waitall i array_of_requests (Suc n) st =
     res_bind (arr_get array_of_requests (int i)) (\<lambda>r. res_bind (from_ptr r) (\<lambda>f.
     res_bind (hclib_future_is_satisfied st f) (\<lambda>b.
     if b then MPI_Waitall (i + 1) array_of_requests n st else Inr (Some f))))"

section \<open>What the tasks do\<close>

definition blocking_body :: "'w mpi_lib \<Rightarrow> mpi_call \<Rightarrow> 'w mpi_module \<Rightarrow> 'w mpi_module result" where
  "blocking_body lib c ms =
     (let (w1, err) = lib_call lib c (world ms) in res_bind (check_mpi lib err) (\<lambda>_. Inr (ms\<lparr>world := w1\<rparr>)))"

definition starting_body ::
  "'w mpi_lib \<Rightarrow> nat \<Rightarrow> mpi_call \<Rightarrow> nat \<Rightarrow> 'w mpi_module \<times> 'i mpi_rt \<Rightarrow> ('w mpi_module \<times> 'i mpi_rt) result" where
  "starting_body lib wid c p s =
     (case s of (ms, st) \<Rightarrow>
        let (w1, err, r) = lib_start lib c (world ms); op = next_op ms in
        res_bind (check_mpi lib err) (\<lambda>_.
        res_bind (append_to_pending wid op Polling (nic ms) (mpi_pending ms) st) (\<lambda>(l, st1).
        Inr (ms\<lparr>world := w1, next_op := op + 1, mpi_ops := (mpi_ops ms)(op \<mapsto> \<lparr>req = r, prom = Some p, op_task = None\<rparr>), mpi_pending := l\<rparr>, st1))))"

definition test_mpi_completion :: "'w mpi_lib \<Rightarrow> nat \<Rightarrow> 'w mpi_module \<times> 'i mpi_rt \<Rightarrow> (('w mpi_module \<times> 'i mpi_rt) \<times> bool) result" where
  "test_mpi_completion lib op s =
     (case s of (ms, st) \<Rightarrow>
        res_bind (from_ptr (mpi_ops ms op)) (\<lambda>x.
        let (w1, err, complete) = lib_test lib (req x) (world ms) in
        res_bind (check_mpi lib err) (\<lambda>_. Inr ((ms\<lparr>world := w1\<rparr>, st), if complete then True else False))))"

definition complete_mpi_op :: "nat \<Rightarrow> nat \<Rightarrow> 'w mpi_module \<times> 'i mpi_rt \<Rightarrow> ('w mpi_module \<times> 'i mpi_rt) result" where
  "complete_mpi_op wid op s =
     (case s of (ms, st) \<Rightarrow>
        res_bind (from_ptr (mpi_ops ms op)) (\<lambda>x.
        res_bind (complete_pending wid (prom x, op_task x) st) (\<lambda>st1.
        Inr (ms\<lparr>mpi_ops := (mpi_ops ms)(op := None)\<rparr>, st1))))"

text \<open>One walk of the task \<^verbatim>\<open>Polling\<close>; the flag says whether it yields and goes on.\<close>

definition mpi_poll :: "nat \<Rightarrow> 'w mpi_lib \<Rightarrow> nat \<Rightarrow> 'w mpi_module \<times> 'i mpi_rt \<Rightarrow> (bool \<times> 'w mpi_module \<times> 'i mpi_rt) result" where
  "mpi_poll fuel lib wid s =
     res_bind (poll_round fuel (test_mpi_completion lib) (complete_mpi_op wid) (mpi_pending (fst s)) P_start s) (\<lambda>(l, nonempty, ms, st).
     Inr (nonempty, ms\<lparr>mpi_pending := l\<rparr>, st))"

section \<open>Completing several operations\<close>

text \<open>
  What the library promises for \<^verbatim>\<open>MPI_Test\<close>: it answers whether the request is complete, and testing a request does not undo
  the completion of another.
\<close>

definition test_law :: "'w mpi_lib \<Rightarrow> ('w \<Rightarrow> nat \<Rightarrow> bool) \<Rightarrow> bool" where
  "test_law lib over \<longleftrightarrow> (\<forall>r w. \<exists>w'. lib_test lib r w = (w', MPI_SUCCESS lib, over w r) \<and>
     (\<forall>r'. r' \<noteq> r \<longrightarrow> over w r' \<longrightarrow> over w' r'))"

text \<open>The operations at the addresses \<open>xs\<close> have different requests \<open>r\<close> and different open promises \<open>p\<close>.\<close>

definition listed :: "'w mpi_module \<Rightarrow> ('u, 'd, 'i) hrt \<Rightarrow> (nat \<Rightarrow> nat) \<Rightarrow> (nat \<Rightarrow> nat) \<Rightarrow> nat list \<Rightarrow> bool" where
  "listed ms st r p xs \<longleftrightarrow> distinct xs \<and> inj_on r (set xs) \<and> inj_on p (set xs) \<and>
     (\<forall>op \<in> set xs. mpi_ops ms op = Some \<lparr>req = r op, prom = Some (p op), op_task = None\<rparr> \<and> hclib_future_is_satisfied st (p op) = Inr False)"

text \<open>After a walk that keeps the operations \<open>kept\<close> of \<open>xs\<close>, the others are complete and freed.\<close>

definition walked ::
  "('w \<Rightarrow> nat \<Rightarrow> bool) \<Rightarrow> (nat \<Rightarrow> nat) \<Rightarrow> (nat \<Rightarrow> nat) \<Rightarrow> nat list \<Rightarrow> nat list \<Rightarrow> 'w mpi_module \<times> ('u, 'd, 'i) hrt \<Rightarrow> 'w mpi_module \<times> ('u, 'd, 'i) hrt \<Rightarrow> bool" where
  "walked over r p xs kept s s' \<longleftrightarrow> (\<forall>op \<in> set kept. op \<in> set xs \<and> \<not> over (world (fst s)) (r op)) \<and>
     (\<forall>op \<in> set xs. hclib_future_is_satisfied (snd s') (p op) = Inr (op \<notin> set kept)) \<and>
     (\<forall>q. q \<notin> p ` set xs \<longrightarrow> hclib_future_is_satisfied (snd s') q = hclib_future_is_satisfied (snd s) q) \<and>
     (\<forall>op. mpi_ops (fst s') op = (if op \<in> set xs - set kept then None else mpi_ops (fst s) op)) \<and>
     mpi_pending (fst s') = mpi_pending (fst s) \<and> nic (fst s') = nic (fst s) \<and> next_op (fst s') = next_op (fst s)"

lemma poll_requests:
  assumes law: "test_law lib over" and w: "wid < n"
    and inv: "heap_inv n st W E" "few_objects st" "roomy st" and l: "listed ms st r p xs"
  shows "\<exists>kept ms' st' W'. poll_list (test_mpi_completion lib) (complete_mpi_op wid) xs (ms, st) = Inr (kept, ms', st') \<and>
     heap_inv n st' W' E \<and> walked over r p xs kept (ms, st) (ms', st')"
  using inv l
proof (induction xs arbitrary: ms st W)
  case Nil
  then show ?case by (auto simp: walked_def)
next
  case (Cons x xs)
  have x: "mpi_ops ms x = Some \<lparr>req = r x, prom = Some (p x), op_task = None\<rparr>" "hclib_future_is_satisfied st (p x) = Inr False"
    and x_new: "x \<notin> set xs" "r x \<notin> r ` set xs" "p x \<notin> p ` set xs"
    using Cons.prems(4) by (auto simp: listed_def)
  have xs: "x \<notin> set xs" "\<And>op. op \<in> set xs \<Longrightarrow> r op \<noteq> r x" "\<And>op. op \<in> set xs \<Longrightarrow> p op \<noteq> p x" using x_new by (metis imageI)+
  obtain w' where w': "lib_test lib (r x) (world ms) = (w', MPI_SUCCESS lib, over (world ms) (r x))"
      "\<And>r'. r' \<noteq> r x \<Longrightarrow> over (world ms) r' \<Longrightarrow> over w' r'"
    using law unfolding test_law_def by blast
  have test: "test_mpi_completion lib x (ms, st) = Inr ((ms\<lparr>world := w'\<rparr>, st), over (world ms) (r x))"
    using x(1) w'(1) by (simp add: test_mpi_completion_def check_mpi_def)
  show ?case
  proof (cases "over (world ms) (r x)")
    case False
    have "listed (ms\<lparr>world := w'\<rparr>) st r p xs" using Cons.prems(4) by (auto simp: listed_def)
    from Cons.IH [OF Cons.prems(1-3) this] obtain kept ms' st' W' where
      "poll_list (test_mpi_completion lib) (complete_mpi_op wid) xs (ms\<lparr>world := w'\<rparr>, st) = Inr (kept, ms', st')" "heap_inv n st' W' E"
      "walked over r p xs kept (ms\<lparr>world := w'\<rparr>, st) (ms', st')" by blast
    moreover from this(3) have "walked over r p (x # xs) (x # kept) (ms, st) (ms', st')"
      using False x xs x_new(3) w'(2) unfolding walked_def by auto
    ultimately show ?thesis using test False by auto
  next
    case True
    obtain st1 W1 where st1: "hclib_promise_put wid (Some (p x)) None st = Inr st1" "heap_inv n st1 W1 E" "few_objects st1" "roomy st1"
        "hclib_future_is_satisfied st1 (p x) = Inr True" "\<And>q. q \<noteq> p x \<Longrightarrow> hclib_future_is_satisfied st1 q = hclib_future_is_satisfied st q"
      using put_open [OF Cons.prems(1) w Cons.prems(2,3) x(2)] by blast
    define ms1 where "ms1 = ms\<lparr>world := w', mpi_ops := (mpi_ops ms)(x := None)\<rparr>"
    have c: "complete_mpi_op wid x (ms\<lparr>world := w'\<rparr>, st) = Inr (ms1, st1)"
      using x(1) st1(1) by (simp add: complete_mpi_op_def complete_pending_def ms1_def)
    have "listed ms1 st1 r p xs" using Cons.prems(4) xs st1(6) by (auto simp: listed_def ms1_def)
    from Cons.IH [OF st1(2-4) this] obtain kept ms' st' W' where
      k: "poll_list (test_mpi_completion lib) (complete_mpi_op wid) xs (ms1, st1) = Inr (kept, ms', st')" "heap_inv n st' W' E"
      "walked over r p xs kept (ms1, st1) (ms', st')" by blast
    have "x \<notin> set kept" using k(3) xs by (auto simp: walked_def)
    then have "walked over r p (x # xs) kept (ms, st) (ms', st')"
      using k(3) xs x_new(3) w'(2) st1(5,6) unfolding walked_def by (auto simp: ms1_def)
    then show ?thesis using test True c k(1,2) by auto
  qed
qed

section \<open>Initialisation and waiting\<close>

text \<open>The module starts exactly if one locale of the graph is an interconnect, and the library grants the requested thread level.\<close>

theorem mpi_init_iff:
  assumes pre: "mpi_pre_initialize ls ms0 = (ls', ms)" and ty: "nic_locale_id ms < 2 ^ 32" and nic: "nic ms0 = None"
    and lib: "lib_init_thread lib (MPI_THREAD_FUNNELED lib) (world ms) = (w1, err, provided)"
    and special: "\<forall>x < length (g_locales g). special_type (g_locales g ! x) = None"
  shows "known_locale_types ls' ! nic_locale_id ms = ''Interconnect'' \<and>
    (case mpi_post_initialize lib g ms of
       Inl e \<Rightarrow> e = (if err \<noteq> MPI_SUCCESS lib then Exit_code 1 else Assert_failed) \<and>
         (err \<noteq> MPI_SUCCESS lib \<or> provided \<noteq> MPI_THREAD_FUNNELED lib \<or>
          \<not> (\<exists>!x. x < length (g_locales g) \<and> loc_type (g_locales g ! x) = nic_locale_id ms))
     | Inr (g', ms') \<Rightarrow> err = MPI_SUCCESS lib \<and> provided = MPI_THREAD_FUNNELED lib \<and> world ms' = w1 \<and>
         (\<exists>x. nic ms' = Some x \<and> g' = g\<lparr>g_locales := (g_locales g)[x := (g_locales g ! x)\<lparr>special_type := Some ''COMM''\<rparr>]\<rparr> \<and>
            (\<forall>y. y < length (g_locales g) \<and> loc_type (g_locales g ! y) = nic_locale_id ms \<longleftrightarrow> y = x)))"
proof -
  let ?nics = "hclib_get_all_locales_of_type g (int (nic_locale_id ms))"
  have ms: "nic ms = None" "known_locale_types ls' ! nic_locale_id ms = ''Interconnect''"
    using pre nic by (auto simp: mpi_pre_initialize_def hclib_add_known_locale_type_def nth_append split: option.splits dest: index_of_label_nth)
  have one: "length ?nics = 1 \<longleftrightarrow> (\<exists>!x. x < length (g_locales g) \<and> loc_type (g_locales g ! x) = nic_locale_id ms)" by (rule one_of_type [OF ty])
  have mem: "x \<in> set ?nics \<longleftrightarrow> x < length (g_locales g) \<and> loc_type (g_locales g ! x) = nic_locale_id ms" for x
    using ty by (auto simp: hclib_get_all_locales_of_type_def)
  show ?thesis
  proof (cases "err = MPI_SUCCESS lib \<and> provided = MPI_THREAD_FUNNELED lib \<and> length ?nics = 1")
    case True
    then obtain x where x: "?nics = [x]" by (auto simp: length_Suc_conv)
    then have "special_type (g_locales g ! x) = None" using mem [of x] special by simp
    then show ?thesis using True x lib ms mem one
      by (auto simp: mpi_post_initialize_def check_mpi_def hclib_locale_mark_special_def arr_get_def)
  next
    case False
    then show ?thesis using lib ms one by (auto simp: mpi_post_initialize_def check_mpi_def c_assert_def)
  qed
qed

text \<open>A library that grants more than was asked for ends the program.\<close>

lemma mpi_init_level:
  assumes "lib_init_thread lib (MPI_THREAD_FUNNELED lib) (world ms) = (w1, MPI_SUCCESS lib, provided)" "provided > MPI_THREAD_FUNNELED lib"
  shows "mpi_post_initialize lib g ms = Inl Assert_failed"
  using assms by (simp add: mpi_post_initialize_def check_mpi_def c_assert_def)

text \<open>\<^verbatim>\<open>MPI_Waitall\<close> is through exactly when all futures of the array are satisfied.\<close>

lemma waitall_through:
  "MPI_Waitall i reqs n st = Inr None \<longleftrightarrow>
   (\<forall>k < n. i + k < length reqs \<and> (\<exists>f. reqs ! (i + k) = Some f \<and> hclib_future_is_satisfied st f = Inr True))"
proof (induction n arbitrary: i)
  case (Suc n)
  have "MPI_Waitall i reqs (Suc n) st = Inr None \<longleftrightarrow> i < length reqs \<and> (\<exists>f. reqs ! i = Some f \<and> hclib_future_is_satisfied st f = Inr True) \<and>
      MPI_Waitall (i + 1) reqs n st = Inr None"
    by (auto simp: arr_get_def res_simps split: if_splits option.splits)
  then show ?case unfolding Suc.IH by (auto simp: less_Suc_eq_0_disj)
qed simp

section \<open>A library for examples\<close>

text \<open>Its state counts the calls; request \<open>r\<close> is complete after \<open>r\<close> calls.\<close>

definition sample_lib :: "nat mpi_lib" where
  "sample_lib = \<lparr>MPI_SUCCESS = 0, MPI_THREAD_FUNNELED = 1, lib_call = (\<lambda>c w. (w + 1, 0)), lib_start = (\<lambda>c w. (w + 1, 0, w)),
     lib_test = (\<lambda>r w. (w, 0, r < w)), lib_init_thread = (\<lambda>l w. (w, 0, l)), lib_finalize = (\<lambda>w. w), lib_comm_rank = (\<lambda>c w. (0, 0)),
     lib_comm_size = (\<lambda>c w. (0, 1)), lib_comm_dup = (\<lambda>c w. (w, 0, c)), lib_comm_split = (\<lambda>c color key w. (w, 0, c))\<rparr>"

definition sample_module :: "nat mpi_module" where
  "sample_module = \<lparr>nic_locale_id = 0, nic = Some 0, mpi_pending = \<lparr>p_head = None, p_next = (\<lambda>_. None)\<rparr>, mpi_ops = Map.empty, next_op = 3, world = 9\<rparr>"

section \<open>Properties\<close>

text \<open>Which function of the module makes a call of the library.\<close>

fun mpi_function :: "nat \<Rightarrow> mpi_call \<Rightarrow> 'w mpi_module \<Rightarrow> 'i mpi_rt \<Rightarrow> 'i mpi_rt result option" where
  "mpi_function w (Lib_Send b c d x t m) ms st = Some (MPI_Send w b c d x t m ms st)"
| "mpi_function w (Lib_Recv b c d x t m s) ms st = Some (MPI_Recv w b c d x t m s ms st)"
| "mpi_function w (Lib_Allreduce b r c d p m) ms st = Some (MPI_Allreduce w b r c d p m ms st)"
| "mpi_function w (Lib_Allgather b c d r e f m) ms st = Some (MPI_Allgather w b c d r e f m ms st)"
| "mpi_function w (Lib_Bcast b c d r m) ms st = Some (MPI_Bcast w b c d r m ms st)"
| "mpi_function w (Lib_Barrier m) ms st = Some (MPI_Barrier w m ms st)"
| "mpi_function w (Lib_Reduce b r c d p x m) ms st = Some (MPI_Reduce w b r c d p x m ms st)"
| "mpi_function w (Lib_Isend b c d x t m) ms st = None"
| "mpi_function w (Lib_Irecv b c d x t m) ms st = None"

fun mpi_start_function :: "nat \<Rightarrow> mpi_call \<Rightarrow> nat option \<Rightarrow> 'w mpi_module \<Rightarrow> 'i mpi_rt \<Rightarrow> ('i mpi_rt \<times> nat) result option" where
  "mpi_start_function w (Lib_Isend b c d x t m) fut ms st = Some (MPI_Isend_await w b c d x t m fut ms st)"
| "mpi_start_function w (Lib_Irecv b c d x t m) fut ms st = Some (MPI_Irecv_await w b c d x t m fut ms st)"
| "mpi_start_function w _ fut ms st = None"

lemma mpi_function_async: "mpi_function w c ms st = Some r \<Longrightarrow> r = finish_async_nb_at w (Blocking c) (nic ms) st"
  by (cases c) (auto simp: MPI_Send_def MPI_Recv_def MPI_Allreduce_def MPI_Allgather_def MPI_Bcast_def MPI_Barrier_def MPI_Reduce_def)

text \<open>
  C12: the blocking functions of the MPI module. Each opens a new finish scope whose only task calls the library with
  the arguments of the function, at the interconnect locale and without blocking its worker. Whenever and by
  whichever worker this task is run, it makes exactly this call; if the library reports an error the program
  exits with code 1, and otherwise the end of the task brings the counter of the scope to the value with
  which \<^verbatim>\<open>hclib_end_finish\<close> returns to the caller.
\<close>

theorem mpi_blocking_correct:
  assumes inv: "heap_inv n st W E" "can_spawn n st w" and nic: "nic ms = Some l" "l < length (rt_pool st)" and c: "mpi_function w c ms st = Some r"
    and run: "heap_inv n st2 W2 E2" "w2 < n" "few_objects st2" "next_addr st + 1 \<in> E2" "members st2 (next_addr st) = {next_addr st + 1}"
      "children st2 (next_addr st) = {}" "open_scope st2 (next_addr st)" "lib_call lib c (world ms2) = (wd, err)"
  shows "\<exists>st'. r = Inr st' \<and> call_spawned n E w l (Blocking c) st st' \<and>
    (if err \<noteq> MPI_SUCCESS lib then blocking_body lib c ms2 = Inl (Exit_code 1)
     else blocking_body lib c ms2 = Inr (ms2\<lparr>world := wd\<rparr>) \<and>
       (\<exists>st3 W3. execute_end w2 (next_addr st + 1) st2 = Inr st3 \<and> heap_inv n st3 W3 (E2 - {next_addr st + 1}) \<and>
          map_option counter (finishes st3 (next_addr st)) = Some 1))"
proof -
  let ?f = "next_addr st"
  obtain st' where st': "finish_async_nb_at w (Blocking c) (Some l) st = Inr st'" "call_spawned n E w l (Blocking c) st st'"
    using finish_async_spawns [OF inv nic(2)] by blast
  then have "r = Inr st'" using mpi_function_async [OF c] nic(1) by simp
  moreover obtain st3 W3 where "execute_end w2 (?f + 1) st2 = Inr st3" "heap_inv n st3 W3 (E2 - {?f + 1})" "map_option counter (finishes st3 ?f) = Some 1"
    using call_ends [OF run(1-7)] by blast
  moreover have "blocking_body lib c ms2 = (if err \<noteq> MPI_SUCCESS lib then Inl (Exit_code 1) else Inr (ms2\<lparr>world := wd\<rparr>))"
    using run(8) by (simp add: blocking_body_def check_mpi_def)
  ultimately show ?thesis using st'(2) by auto
qed

text \<open>A barrier whose task is then taken by the worker that waits.\<close>

definition barrier_popped :: "(nat mpi_rt \<times> search) result" where
  "barrier_popped = res_bind (MPI_Barrier 0 7 sample_module idle_heap) (pop_step 0)"

lemma barrier_popped_got: "(case barrier_popped of Inl _ \<Rightarrow> None | Inr (st, r) \<Rightarrow> Some r) = Some (Got 1)"
  by code_simp

theorem mpi_blocking_correct_witness:
  "\<exists>st' st2 st3. MPI_Barrier 0 7 sample_module idle_heap = Inr st' \<and> call_spawned 1 {} 0 0 (Blocking (Lib_Barrier 7)) idle_heap (st' :: nat mpi_rt) \<and>
     pop_step 0 st' = Inr (st2, Got 1) \<and> blocking_body sample_lib (Lib_Barrier 7) sample_module = Inr (sample_module\<lparr>world := 10\<rparr>) \<and>
     execute_end 0 1 st2 = Inr st3 \<and> map_option counter (finishes st3 0) = Some 1"
proof -
  let ?st = "idle_heap :: nat mpi_rt"
  have idle: "next_addr ?st = 0" "0 < length (rt_pool ?st)" "nic sample_module = Some 0" by (simp_all add: idle_heap_def sample_module_def)
  have f: "mpi_function 0 (Lib_Barrier 7) sample_module ?st = Some (MPI_Barrier 0 7 sample_module ?st)" by simp
  obtain st2 where st2: "barrier_popped = Inr (st2, Got 1)" using barrier_popped_got by (auto split: sum.splits)
  then obtain st' where st': "MPI_Barrier 0 7 sample_module ?st = Inr st'" "pop_step 0 st' = Inr (st2, Got 1)"
    by (auto simp: barrier_popped_def res_simps)
  have "call_spawned 1 {} 0 0 (Blocking (Lib_Barrier 7)) ?st st'"
    using finish_async_spawns [OF idle_heap_can idle(2), of "Blocking (Lib_Barrier 7)"] mpi_function_async [OF f] st'(1) idle(3) by auto
  then obtain W where sp: "heap_inv 1 st' W {}" "members st' 0 = {1}" "children st' 0 = {}" "open_scope st' 0"
    unfolding call_spawned_def idle(1) by (auto simp: open_scope_def shape_def)
  have p: "found_inv 1 st2 W {} (Got 1)" "searched 1 st' st2" using pop_step_inv [OF heap_invD(1,3) [OF sp(1)] _ st'(2)] by auto
  have inv2: "heap_inv 1 st2 W {1}" using heap_inv_found [OF sp(1) p] by simp
  have "members st2 0 = {1}" "children st2 0 = {}" "open_scope st2 0"
    using sp(2-4) p(2) by (simp_all add: searched_def members_def children_def open_scope_def)
  moreover have "few_objects st2"
  proof -
    have "(case barrier_popped of Inl _ \<Rightarrow> None | Inr (st, r) \<Rightarrow> Some (next_addr st)) = Some 2" by code_simp
    then have "next_addr st2 = 2" unfolding st2 by simp
    then show ?thesis by (simp add: few_objects_def)
  qed
  moreover have "lib_call sample_lib (Lib_Barrier 7) (world sample_module) = (10, 0)" by (simp add: sample_lib_def sample_module_def)
  ultimately show ?thesis
    using mpi_blocking_correct [OF idle_heap_can idle(3,2) f inv2, of 0 sample_lib sample_module 10 0] st' idle(1) by (auto simp: sample_lib_def)
qed

lemma mpi_start_async:
  "mpi_start_function w c fut ms st = Some res \<Longrightarrow> res = (let (st1, p) = hclib_promise_create st in
     res_bind (run_request w (async_nb_await_at (Starting c p) fut (nic ms)) st1) (\<lambda>st2. Inr (st2, p)))"
  by (cases c) (auto simp: MPI_Isend_await_def MPI_Irecv_await_def run_request_calls hclib_get_future_for_promise_def)

text \<open>The promise and the task of a function with a future.\<close>

definition start_spawned :: "nat \<Rightarrow> nat set \<Rightarrow> nat \<Rightarrow> 'u \<Rightarrow> nat option \<Rightarrow> nat \<Rightarrow> ('u, 'd, 'i) hrt \<Rightarrow> bool" where
  "start_spawned n E l lam fut p st' \<longleftrightarrow> (\<exists>W'. heap_inv n st' W' E) \<and> hclib_future_is_satisfied st' p = Inr False \<and>
     map_option (\<lambda>tk. (fp tk, t_locale tk, non_blocking tk, waiting_on tk ! 0)) (tasks st' (p + 1)) = Some (User lam, Some l, True, fut)"

lemma start_spawns:
  assumes inv: "heap_inv n st W E" "can_spawn n st w" and l: "nic ms = Some l" "l < length (rt_pool st)" and fut: "\<forall>q. fut = Some q \<longrightarrow> promises st q \<noteq> None"
    and c: "mpi_start_function w c fut ms st = Some res"
  shows "\<exists>st1. res = Inr (st1, next_addr st) \<and> start_spawned n E l (Starting c (next_addr st)) fut (next_addr st) st1"
proof -
  let ?p = "next_addr st"
  let ?q = "async_nb_await_at (Starting c ?p) fut (Some l)"
  obtain st0 where new: "hclib_promise_create st = (st0, ?p)" by (simp add: hclib_promise_create_def)
  note C = create_facts [OF new]
  have "loop_room n w st [?q]" by (rule can_spawn_room [OF inv(2) l(2)]) (use fut in \<open>auto simp: async_nb_await_at_def opt_future_def split: option.splits\<close>)
  then have "loop_room n w st0 [?q]" using create_room [OF new] inv(2) by (simp add: can_spawn_def)
  moreover have "heap_inv n st0 W E" unfolding C(2) by (rule heap_inv_create [OF inv(1)])
  ultimately obtain st1 W1 where st1: "run_request w ?q st0 = Inr st1" "heap_inv n st1 W1 E" "tasks_added w [?q] st0 st1"
      "map_option (\<lambda>tk. (t_locale tk, waiting_on tk)) (tasks st1 (next_addr st0)) =
         Some (req_locale ?q, waiting_on (set_futures (map Some (req_futures ?q)) (new_task (User (req_job ?q)) (req_nb ?q))))"
    using run_request_adds by blast
  have "waiting_on (set_futures (map Some (req_futures ?q)) (new_task (User (req_job ?q)) (req_nb ?q))) ! 0 = fut"
    by (cases fut) (simp_all add: async_nb_await_at_def opt_future_def set_futures_def new_task_def MAX_NUM_WAITS_def Let_def)
  then have "map_option (\<lambda>tk. (fp tk, t_locale tk, non_blocking tk, waiting_on tk ! 0)) (tasks st1 (?p + 1)) = Some (User (Starting c ?p), Some l, True, fut)"
    using st1(3,4) C(3) by (auto simp: tasks_added_def async_nb_await_at_def)
  moreover have "hclib_future_is_satisfied st1 ?p = hclib_future_is_satisfied st0 ?p" using st1(3) by (intro satisfied_cong) (simp add: tasks_added_def)
  ultimately have "start_spawned n E l (Starting c ?p) fut ?p st1" using st1(2) C(9) by (auto simp: start_spawned_def)
  then show ?thesis using mpi_start_async [OF c] new st1(1) l(1) by auto
qed

text \<open>
  C38: \<^verbatim>\<open>MPI_Isend_await\<close> and \<^verbatim>\<open>MPI_Irecv_await\<close>. The call returns the future of a new open promise and spawns, at the
  interconnect locale, a task that awaits the given future, if any. When this task is run by any worker, with the list of
  pending operations in any state, it starts the operation with the arguments of the call, exits with code 1 if the library
  reports an error, and otherwise puts the request with the promise in front of the list; if the list was empty it
  spawns the poller at the interconnect locale.
\<close>

theorem mpi_start_lists:
  assumes inv: "heap_inv n st W E" "can_spawn n st w" and nic: "nic ms = Some l" "l < length (rt_pool st)"
    and fut: "\<forall>q. fut = Some q \<longrightarrow> promises st q \<noteq> None" and c: "mpi_start_function w c fut ms st = Some res"
    and run: "heap_inv n st2 W2 E2" "can_spawn n st2 w2" "nic ms2 = Some l" "l < length (rt_pool st2)" "hclib_future_is_satisfied st2 (next_addr st) = Inr False"
      "linked (p_next (mpi_pending ms2)) (p_head (mpi_pending ms2)) xs" "listed ms2 st2 r p xs" "next_op ms2 \<notin> set xs" "next_addr st \<notin> p ` set xs"
    and lib: "lib_start lib c (world ms2) = (wd, err, rq)" "rq \<notin> r ` set xs"
  shows "\<exists>st1. res = Inr (st1, next_addr st) \<and> start_spawned n E l (Starting c (next_addr st)) fut (next_addr st) st1 \<and>
    (if err \<noteq> MPI_SUCCESS lib then starting_body lib w2 c (next_addr st) (ms2, st2) = Inl (Exit_code 1)
     else \<exists>ms3 st3 W3. starting_body lib w2 c (next_addr st) (ms2, st2) = Inr (ms3, st3) \<and> heap_inv n st3 W3 E2 \<and> world ms3 = wd \<and>
       linked (p_next (mpi_pending ms3)) (p_head (mpi_pending ms3)) (next_op ms2 # xs) \<and>
       listed ms3 st3 (r(next_op ms2 := rq)) (p(next_op ms2 := next_addr st)) (next_op ms2 # xs) \<and>
       (if xs = [] then map_option (\<lambda>tk. (fp tk, t_locale tk, non_blocking tk)) (tasks st3 (next_addr st2)) = Some (User Polling, Some l, False)
        else st3 = st2))"
proof -
  let ?op = "next_op ms2"
  obtain st1 where st1: "res = Inr (st1, next_addr st)" "start_spawned n E l (Starting c (next_addr st)) fut (next_addr st) st1"
    using start_spawns [OF inv nic fut c] by blast
  obtain l' st3 W3 where st3: "append_to_pending w2 ?op Polling (Some l) (mpi_pending ms2) st2 = Inr (l', st3)" "heap_inv n st3 W3 E2"
      "linked (p_next l') (p_head l') (?op # xs)" "\<And>p. hclib_future_is_satisfied st3 p = hclib_future_is_satisfied st2 p"
      "if xs = [] then map_option (\<lambda>tk. (fp tk, t_locale tk, non_blocking tk)) (tasks st3 (next_addr st2)) = Some (User Polling, Some l, False) else st3 = st2"
    using append_spawns [OF run(1,2,4,6,8), of Polling] by blast
  define ms3 where "ms3 = ms2\<lparr>world := wd, next_op := ?op + 1,
    mpi_ops := (mpi_ops ms2)(?op \<mapsto> \<lparr>req = rq, prom = Some (next_addr st), op_task = None\<rparr>), mpi_pending := l'\<rparr>"
  have "starting_body lib w2 c (next_addr st) (ms2, st2) = (if err \<noteq> MPI_SUCCESS lib then Inl (Exit_code 1) else Inr (ms3, st3))"
    using lib(1) st3(1) run(3) by (simp add: starting_body_def check_mpi_def ms3_def Let_def)
  moreover have "inj_on (r(?op := rq)) (set (?op # xs))" "inj_on (p(?op := next_addr st)) (set (?op # xs))"
    using run(7-9) lib(2) by (auto simp: listed_def inj_on_def fun_upd_def image_iff)
  then have "listed ms3 st3 (r(?op := rq)) (p(?op := next_addr st)) (?op # xs)"
    using run(5,7,8) st3(4) by (auto simp: listed_def ms3_def)
  ultimately show ?thesis using st1 st3(2,3,5) by (auto simp: ms3_def)
qed



theorem mpi_start_lists_witness:
  "\<exists>st1 ms3 st3. MPI_Irecv_await 0 64 1 0 2 5 7 None sample_module idle_heap = Inr (st1, 0) \<and>
     start_spawned 1 {} 0 (Starting (Lib_Irecv 64 1 0 2 5 7) 0) None 0 (st1 :: nat mpi_rt) \<and>
     starting_body sample_lib 0 (Lib_Irecv 64 1 0 2 5 7) 0 (sample_module, fst (hclib_promise_create idle_heap)) = Inr (ms3, st3) \<and>
     world ms3 = 10 \<and> linked (p_next (mpi_pending ms3)) (p_head (mpi_pending ms3)) [3] \<and> mpi_ops ms3 3 = Some \<lparr>req = 9, prom = Some 0, op_task = None\<rparr> \<and>
     map_option fp (tasks (st3 :: nat mpi_rt) 1) = Some (User Polling)"
proof -
  let ?st = "idle_heap :: nat mpi_rt"
  let ?st2 = "fst (hclib_promise_create ?st)" and ?c = "Lib_Irecv 64 1 0 2 5 7"
  have idle: "next_addr ?st = 0" "0 < length (rt_pool ?st)" "nic sample_module = Some 0" "next_addr ?st2 = 1" "0 < length (rt_pool ?st2)"
    by (simp_all add: idle_heap_def sample_module_def hclib_promise_create_def)
  have fut: "\<forall>q. None = Some q \<longrightarrow> promises ?st q \<noteq> None" by simp
  have f: "mpi_start_function 0 ?c None sample_module ?st = Some (MPI_Irecv_await 0 64 1 0 2 5 7 None sample_module ?st)" by simp
  have st2: "can_spawn 1 ?st2 0" "hclib_future_is_satisfied ?st2 (next_addr ?st) = Inr False"
    by (simp_all add: can_spawn_def hclib_promise_create_def idle_heap_def deque_consts open_promise hclib_promise_init_def)
  have l: "linked (p_next (mpi_pending sample_module)) (p_head (mpi_pending sample_module)) []" "listed sample_module ?st2 r p []"
    "lib_start sample_lib ?c (world sample_module) = (10, 0, 9)" "next_op sample_module = 3" "MPI_SUCCESS sample_lib = 0" for r p
    by (simp_all add: sample_module_def listed_def sample_lib_def)
  note L = mpi_start_lists [OF idle_heap_can idle(3,2) fut f heap_inv_create [OF idle_heap_can(1)] st2(1) idle(3,5) st2(2) l(1,2) _ _ l(3)]
  show ?thesis using L [of "\<lambda>_. 0" "\<lambda>_. 0"] unfolding idle(1,4) l(4,5) by (auto simp: listed_def)
qed

end
