(* ===== verification/Shmem_Module.thy ===== *)
theory Shmem_Module
  imports Comm_Tasks
begin

text \<open>
  The module for OpenSHMEM: \<^verbatim>\<open>src/modules/openshmem/src/hclib_openshmem.cpp\<close>, except for its locks and waits, which have theories of their own. Its
  functions run one call of the library as the only task of a new finish scope at the interconnect locale. A function
  with a result passes the address of an allocated cell to the task, and reads and frees the cell when the scope has ended. The library is a
  parameter: a function that maps a call and the state of the library to the new state and the returned value.
\<close>

section \<open>Data\<close>

text \<open>The calls of the library, with the arguments of the C interface.\<close>

datatype shmem_call =
    Shmem_malloc nat
  | Shmem_longlong_fadd nat int int
  | Shmem_int_fadd nat int int
  | Shmem_int_finc nat int
  | Shmem_int_swap nat int int
  | Shmem_free nat
  | Shmem_barrier_all
  | Shmem_fence
  | Shmem_quiet
  | Shmem_put64 nat nat nat int
  | Shmem_broadcast64 nat nat nat int int int int nat
  | Shmem_broadcast32 nat nat nat int int int int nat
  | Shmem_int_get nat nat nat int
  | Shmem_getmem nat nat nat int
  | Shmem_putmem nat nat nat int
  | Shmem_int_put nat nat nat int
  | Shmem_int_p nat int int
  | Shmem_char_put_nbi nat nat nat int
  | Shmem_int_add nat int int
  | Shmem_int_sum_to_all nat nat int int int int nat nat
  | Shmem_longlong_sum_to_all nat nat int int int int nat nat
  | Shmem_longlong_max_to_all nat nat int int int int nat nat
  | Shmem_longlong_p nat int int
  | Shmem_longlong_put nat nat nat int
  | Shmem_collect32 nat nat nat int int int nat
  | Shmem_fcollect64 nat nat nat int int int nat

text \<open>The lambdas: a sequence of calls, or one call whose result is stored in a cell.\<close>

datatype shmem_lambda = Calls "shmem_call list" | Fetch shmem_call nat

type_synonym 'i shmem_rt = "(shmem_lambda, nat, 'i) hrt"

type_synonym 'w shmem_lib = "shmem_call \<Rightarrow> 'w \<Rightarrow> 'w \<times> int"

text \<open>The static variables, the allocated cells (\<open>None\<close> before the first write) and the state of the library.\<close>

record 'w shmem_module =
  snic_locale_id :: nat
  snic :: "nat option"
  cells :: "nat \<rightharpoonup> int option"
  next_cell :: nat
  sworld :: 'w

section \<open>Initialisation\<close>

definition openshmem_pre_initialize :: "'f locality_state \<Rightarrow> ('w, 'z) shmem_module_scheme \<Rightarrow> 'f locality_state \<times> ('w, 'z) shmem_module_scheme" where
  "openshmem_pre_initialize ls sm =
     (let (ls', i) = hclib_add_known_locale_type ls ''Interconnect'' in (ls', sm\<lparr>snic_locale_id := i\<rparr>))"

definition openshmem_post_initialize :: "('w \<Rightarrow> 'w) \<Rightarrow> ('a, 'i) locality_graph \<Rightarrow> ('w, 'z) shmem_module_scheme \<Rightarrow> ('w, 'z) shmem_module_scheme result" where
  "openshmem_post_initialize shmem_init g sm =
     (let w1 = shmem_init (sworld sm);
          nics = hclib_get_all_locales_of_type g (int (snic_locale_id sm)) in
      res_bind (c_assert (length nics = 1)) (\<lambda>_.
      res_bind (c_assert (snic sm = None)) (\<lambda>_.
      res_bind (arr_get nics 0) (\<lambda>x.
      Inr (sm\<lparr>snic := Some x, sworld := w1\<rparr>)))))"

definition openshmem_finalize :: "('w \<Rightarrow> 'w) \<Rightarrow> ('w, 'z) shmem_module_scheme \<Rightarrow> ('w, 'z) shmem_module_scheme" where
  "openshmem_finalize shmem_finalize sm = sm\<lparr>sworld := shmem_finalize (sworld sm)\<rparr>"

section \<open>Functions without a result\<close>

definition shmem_free :: "nat \<Rightarrow> nat \<Rightarrow> ('w, 'z) shmem_module_scheme \<Rightarrow> 'i shmem_rt \<Rightarrow> 'i shmem_rt result" where
  "shmem_free wid ptr sm = finish_async_nb_at wid (Calls [Shmem_free ptr]) (snic sm)"

definition shmem_barrier_all :: "nat \<Rightarrow> ('w, 'z) shmem_module_scheme \<Rightarrow> 'i shmem_rt \<Rightarrow> 'i shmem_rt result" where
  "shmem_barrier_all wid sm = finish_async_nb_at wid (Calls [Shmem_barrier_all]) (snic sm)"

definition shmem_fence :: "nat \<Rightarrow> ('w, 'z) shmem_module_scheme \<Rightarrow> 'i shmem_rt \<Rightarrow> 'i shmem_rt result" where
  "shmem_fence wid sm = finish_async_nb_at wid (Calls [Shmem_fence]) (snic sm)"

definition shmem_quiet :: "nat \<Rightarrow> ('w, 'z) shmem_module_scheme \<Rightarrow> 'i shmem_rt \<Rightarrow> 'i shmem_rt result" where
  "shmem_quiet wid sm = finish_async_nb_at wid (Calls [Shmem_quiet]) (snic sm)"

definition shmem_put64 :: "nat \<Rightarrow> nat \<Rightarrow> nat \<Rightarrow> nat \<Rightarrow> int \<Rightarrow> ('w, 'z) shmem_module_scheme \<Rightarrow> 'i shmem_rt \<Rightarrow> 'i shmem_rt result" where
  "shmem_put64 wid dest source nelems pe sm = finish_async_nb_at wid (Calls [Shmem_put64 dest source nelems pe]) (snic sm)"

definition shmem_broadcast64 :: "nat \<Rightarrow> nat \<Rightarrow> nat \<Rightarrow> nat \<Rightarrow> int \<Rightarrow> int \<Rightarrow> int \<Rightarrow> int \<Rightarrow> nat \<Rightarrow> ('w, 'z) shmem_module_scheme \<Rightarrow> 'i shmem_rt \<Rightarrow> 'i shmem_rt result" where
  "shmem_broadcast64 wid dest source nelems PE_root PE_start logPE_stride PE_size pSync sm = finish_async_nb_at wid (Calls [Shmem_broadcast64 dest source nelems PE_root PE_start logPE_stride PE_size pSync]) (snic sm)"

definition shmem_broadcast32 :: "nat \<Rightarrow> nat \<Rightarrow> nat \<Rightarrow> nat \<Rightarrow> int \<Rightarrow> int \<Rightarrow> int \<Rightarrow> int \<Rightarrow> nat \<Rightarrow> ('w, 'z) shmem_module_scheme \<Rightarrow> 'i shmem_rt \<Rightarrow> 'i shmem_rt result" where
  "shmem_broadcast32 wid dest source nelems PE_root PE_start logPE_stride PE_size pSync sm = finish_async_nb_at wid (Calls [Shmem_broadcast32 dest source nelems PE_root PE_start logPE_stride PE_size pSync]) (snic sm)"

definition shmem_int_get :: "nat \<Rightarrow> nat \<Rightarrow> nat \<Rightarrow> nat \<Rightarrow> int \<Rightarrow> ('w, 'z) shmem_module_scheme \<Rightarrow> 'i shmem_rt \<Rightarrow> 'i shmem_rt result" where
  "shmem_int_get wid dest source nelems pe sm = finish_async_nb_at wid (Calls [Shmem_int_get dest source nelems pe]) (snic sm)"

definition shmem_getmem :: "nat \<Rightarrow> nat \<Rightarrow> nat \<Rightarrow> nat \<Rightarrow> int \<Rightarrow> ('w, 'z) shmem_module_scheme \<Rightarrow> 'i shmem_rt \<Rightarrow> 'i shmem_rt result" where
  "shmem_getmem wid dest source nelems pe sm = finish_async_nb_at wid (Calls [Shmem_getmem dest source nelems pe]) (snic sm)"

definition shmem_putmem :: "nat \<Rightarrow> nat \<Rightarrow> nat \<Rightarrow> nat \<Rightarrow> int \<Rightarrow> ('w, 'z) shmem_module_scheme \<Rightarrow> 'i shmem_rt \<Rightarrow> 'i shmem_rt result" where
  "shmem_putmem wid dest source nelems pe sm = finish_async_nb_at wid (Calls [Shmem_putmem dest source nelems pe]) (snic sm)"

definition shmem_int_put :: "nat \<Rightarrow> nat \<Rightarrow> nat \<Rightarrow> nat \<Rightarrow> int \<Rightarrow> ('w, 'z) shmem_module_scheme \<Rightarrow> 'i shmem_rt \<Rightarrow> 'i shmem_rt result" where
  "shmem_int_put wid dest source nelems pe sm = finish_async_nb_at wid (Calls [Shmem_int_put dest source nelems pe]) (snic sm)"

definition shmem_int_p :: "nat \<Rightarrow> nat \<Rightarrow> int \<Rightarrow> int \<Rightarrow> ('w, 'z) shmem_module_scheme \<Rightarrow> 'i shmem_rt \<Rightarrow> 'i shmem_rt result" where
  "shmem_int_p wid dest value pe sm = finish_async_nb_at wid (Calls [Shmem_int_p dest value pe]) (snic sm)"

definition shmem_char_put_nbi :: "nat \<Rightarrow> nat \<Rightarrow> nat \<Rightarrow> nat \<Rightarrow> int \<Rightarrow> ('w, 'z) shmem_module_scheme \<Rightarrow> 'i shmem_rt \<Rightarrow> 'i shmem_rt result" where
  "shmem_char_put_nbi wid dest source nelems pe sm = finish_async_nb_at wid (Calls [Shmem_char_put_nbi dest source nelems pe]) (snic sm)"

definition shmem_int_add :: "nat \<Rightarrow> nat \<Rightarrow> int \<Rightarrow> int \<Rightarrow> ('w, 'z) shmem_module_scheme \<Rightarrow> 'i shmem_rt \<Rightarrow> 'i shmem_rt result" where
  "shmem_int_add wid dest value pe sm = finish_async_nb_at wid (Calls [Shmem_int_add dest value pe]) (snic sm)"

definition shmem_int_sum_to_all :: "nat \<Rightarrow> nat \<Rightarrow> nat \<Rightarrow> int \<Rightarrow> int \<Rightarrow> int \<Rightarrow> int \<Rightarrow> nat \<Rightarrow> nat \<Rightarrow> ('w, 'z) shmem_module_scheme \<Rightarrow> 'i shmem_rt \<Rightarrow> 'i shmem_rt result" where
  "shmem_int_sum_to_all wid target source nreduce PE_start logPE_stride PE_size pWrk pSync sm = finish_async_nb_at wid (Calls [Shmem_int_sum_to_all target source nreduce PE_start logPE_stride PE_size pWrk pSync]) (snic sm)"

definition shmem_longlong_sum_to_all :: "nat \<Rightarrow> nat \<Rightarrow> nat \<Rightarrow> int \<Rightarrow> int \<Rightarrow> int \<Rightarrow> int \<Rightarrow> nat \<Rightarrow> nat \<Rightarrow> ('w, 'z) shmem_module_scheme \<Rightarrow> 'i shmem_rt \<Rightarrow> 'i shmem_rt result" where
  "shmem_longlong_sum_to_all wid target source nreduce PE_start logPE_stride PE_size pWrk pSync sm = finish_async_nb_at wid (Calls [Shmem_longlong_sum_to_all target source nreduce PE_start logPE_stride PE_size pWrk pSync]) (snic sm)"

definition shmem_longlong_max_to_all :: "nat \<Rightarrow> nat \<Rightarrow> nat \<Rightarrow> int \<Rightarrow> int \<Rightarrow> int \<Rightarrow> int \<Rightarrow> nat \<Rightarrow> nat \<Rightarrow> ('w, 'z) shmem_module_scheme \<Rightarrow> 'i shmem_rt \<Rightarrow> 'i shmem_rt result" where
  "shmem_longlong_max_to_all wid target source nreduce PE_start logPE_stride PE_size pWrk pSync sm = finish_async_nb_at wid (Calls [Shmem_longlong_max_to_all target source nreduce PE_start logPE_stride PE_size pWrk pSync]) (snic sm)"

definition shmem_longlong_p :: "nat \<Rightarrow> nat \<Rightarrow> int \<Rightarrow> int \<Rightarrow> ('w, 'z) shmem_module_scheme \<Rightarrow> 'i shmem_rt \<Rightarrow> 'i shmem_rt result" where
  "shmem_longlong_p wid addr value pe sm = finish_async_nb_at wid (Calls [Shmem_longlong_p addr value pe]) (snic sm)"

definition shmem_longlong_put :: "nat \<Rightarrow> nat \<Rightarrow> nat \<Rightarrow> nat \<Rightarrow> int \<Rightarrow> ('w, 'z) shmem_module_scheme \<Rightarrow> 'i shmem_rt \<Rightarrow> 'i shmem_rt result" where
  "shmem_longlong_put wid dest src nelems pe sm = finish_async_nb_at wid (Calls [Shmem_longlong_put dest src nelems pe]) (snic sm)"

definition shmem_collect32 :: "nat \<Rightarrow> nat \<Rightarrow> nat \<Rightarrow> nat \<Rightarrow> int \<Rightarrow> int \<Rightarrow> int \<Rightarrow> nat \<Rightarrow> ('w, 'z) shmem_module_scheme \<Rightarrow> 'i shmem_rt \<Rightarrow> 'i shmem_rt result" where
  "shmem_collect32 wid dest source nelems PE_start logPE_stride PE_size pSync sm = finish_async_nb_at wid (Calls [Shmem_collect32 dest source nelems PE_start logPE_stride PE_size pSync]) (snic sm)"

definition shmem_fcollect64 :: "nat \<Rightarrow> nat \<Rightarrow> nat \<Rightarrow> nat \<Rightarrow> int \<Rightarrow> int \<Rightarrow> int \<Rightarrow> nat \<Rightarrow> ('w, 'z) shmem_module_scheme \<Rightarrow> 'i shmem_rt \<Rightarrow> 'i shmem_rt result" where
  "shmem_fcollect64 wid dest source nelems PE_start logPE_stride PE_size pSync sm = finish_async_nb_at wid (Calls [Shmem_fcollect64 dest source nelems PE_start logPE_stride PE_size pSync]) (snic sm)"

definition shmem_char_put_signal_nbi ::
  "nat \<Rightarrow> nat \<Rightarrow> nat \<Rightarrow> nat \<Rightarrow> nat \<Rightarrow> nat \<Rightarrow> nat \<Rightarrow> int \<Rightarrow> ('w, 'z) shmem_module_scheme \<Rightarrow> 'i shmem_rt \<Rightarrow> 'i shmem_rt result" where
  "shmem_char_put_signal_nbi wid dest source nelems signal_dest signal_source signal_nelems pe sm =
     finish_async_nb_at wid
       (Calls [Shmem_char_put_nbi dest source nelems pe, Shmem_fence, Shmem_char_put_nbi signal_dest signal_source signal_nelems pe]) (snic sm)"

section \<open>Functions with a result\<close>

text \<open>The allocation of the cell and the call up to \<^verbatim>\<open>hclib_end_finish\<close>, and what follows it.\<close>

definition fetch_async_nb_at ::
  "nat \<Rightarrow> shmem_call \<Rightarrow> ('w, 'z) shmem_module_scheme \<Rightarrow> 'i shmem_rt \<Rightarrow> (('w, 'z) shmem_module_scheme \<times> 'i shmem_rt \<times> nat) result" where
  "fetch_async_nb_at wid c sm st =
     (let cell = next_cell sm; sm1 = sm\<lparr>next_cell := cell + 1, cells := (cells sm)(cell \<mapsto> None)\<rparr> in
      res_bind (finish_async_nb_at wid (Fetch c cell) (snic sm) st) (\<lambda>st1. Inr (sm1, st1, cell)))"

definition fetch_result :: "nat \<Rightarrow> ('w, 'z) shmem_module_scheme \<Rightarrow> (('w, 'z) shmem_module_scheme \<times> int) result" where
  "fetch_result cell sm =
     res_bind (from_ptr (cells sm cell)) (\<lambda>v.
     case v of None \<Rightarrow> Inl Uninit_read | Some x \<Rightarrow> Inr (sm\<lparr>cells := (cells sm)(cell := None)\<rparr>, x))"

definition shmem_malloc :: "nat \<Rightarrow> nat \<Rightarrow> ('w, 'z) shmem_module_scheme \<Rightarrow> 'i shmem_rt \<Rightarrow> (('w, 'z) shmem_module_scheme \<times> 'i shmem_rt \<times> nat) result" where
  "shmem_malloc wid nbytes sm = fetch_async_nb_at wid (Shmem_malloc nbytes) sm"

definition shmem_longlong_fadd :: "nat \<Rightarrow> nat \<Rightarrow> int \<Rightarrow> int \<Rightarrow> ('w, 'z) shmem_module_scheme \<Rightarrow> 'i shmem_rt \<Rightarrow> (('w, 'z) shmem_module_scheme \<times> 'i shmem_rt \<times> nat) result" where
  "shmem_longlong_fadd wid target value pe sm = fetch_async_nb_at wid (Shmem_longlong_fadd target value pe) sm"

definition shmem_int_fadd :: "nat \<Rightarrow> nat \<Rightarrow> int \<Rightarrow> int \<Rightarrow> ('w, 'z) shmem_module_scheme \<Rightarrow> 'i shmem_rt \<Rightarrow> (('w, 'z) shmem_module_scheme \<times> 'i shmem_rt \<times> nat) result" where
  "shmem_int_fadd wid dest value pe sm = fetch_async_nb_at wid (Shmem_int_fadd dest value pe) sm"

definition shmem_int_finc :: "nat \<Rightarrow> nat \<Rightarrow> int \<Rightarrow> ('w, 'z) shmem_module_scheme \<Rightarrow> 'i shmem_rt \<Rightarrow> (('w, 'z) shmem_module_scheme \<times> 'i shmem_rt \<times> nat) result" where
  "shmem_int_finc wid dest pe sm = fetch_async_nb_at wid (Shmem_int_finc dest pe) sm"

definition shmem_int_swap :: "nat \<Rightarrow> nat \<Rightarrow> int \<Rightarrow> int \<Rightarrow> ('w, 'z) shmem_module_scheme \<Rightarrow> 'i shmem_rt \<Rightarrow> (('w, 'z) shmem_module_scheme \<times> 'i shmem_rt \<times> nat) result" where
  "shmem_int_swap wid dest value pe sm = fetch_async_nb_at wid (Shmem_int_swap dest value pe) sm"

section \<open>What the tasks do\<close>

fun shmem_calls :: "'w shmem_lib \<Rightarrow> shmem_call list \<Rightarrow> 'w \<Rightarrow> 'w" where
  "shmem_calls lib [] w = w"
| "shmem_calls lib (c # cs) w = shmem_calls lib cs (fst (lib c w))"

fun shmem_body :: "'w shmem_lib \<Rightarrow> shmem_lambda \<Rightarrow> ('w, 'z) shmem_module_scheme \<Rightarrow> ('w, 'z) shmem_module_scheme result" where
  "shmem_body lib (Calls cs) sm = Inr (sm\<lparr>sworld := shmem_calls lib cs (sworld sm)\<rparr>)"
| "shmem_body lib (Fetch c cell) sm =
     (let (w1, v) = lib c (sworld sm) in
      res_bind (from_ptr (cells sm cell)) (\<lambda>_. Inr (sm\<lparr>sworld := w1, cells := (cells sm)(cell \<mapsto> Some v)\<rparr>)))"

section \<open>Properties\<close>

text \<open>Which function of the module makes a call of the library.\<close>

fun shmem_function :: "nat \<Rightarrow> shmem_call \<Rightarrow> ('w, 'z) shmem_module_scheme \<Rightarrow> 'i shmem_rt \<Rightarrow> 'i shmem_rt result option" where
  "shmem_function w (Shmem_free a) sm st = Some (shmem_free w a sm st)"
| "shmem_function w Shmem_barrier_all sm st = Some (shmem_barrier_all w sm st)"
| "shmem_function w Shmem_fence sm st = Some (shmem_fence w sm st)"
| "shmem_function w Shmem_quiet sm st = Some (shmem_quiet w sm st)"
| "shmem_function w (Shmem_put64 a b c d) sm st = Some (shmem_put64 w a b c d sm st)"
| "shmem_function w (Shmem_broadcast64 a b c d e f g h) sm st = Some (shmem_broadcast64 w a b c d e f g h sm st)"
| "shmem_function w (Shmem_broadcast32 a b c d e f g h) sm st = Some (shmem_broadcast32 w a b c d e f g h sm st)"
| "shmem_function w (Shmem_int_get a b c d) sm st = Some (shmem_int_get w a b c d sm st)"
| "shmem_function w (Shmem_getmem a b c d) sm st = Some (shmem_getmem w a b c d sm st)"
| "shmem_function w (Shmem_putmem a b c d) sm st = Some (shmem_putmem w a b c d sm st)"
| "shmem_function w (Shmem_int_put a b c d) sm st = Some (shmem_int_put w a b c d sm st)"
| "shmem_function w (Shmem_int_p a b c) sm st = Some (shmem_int_p w a b c sm st)"
| "shmem_function w (Shmem_char_put_nbi a b c d) sm st = Some (shmem_char_put_nbi w a b c d sm st)"
| "shmem_function w (Shmem_int_add a b c) sm st = Some (shmem_int_add w a b c sm st)"
| "shmem_function w (Shmem_int_sum_to_all a b c d e f g h) sm st = Some (shmem_int_sum_to_all w a b c d e f g h sm st)"
| "shmem_function w (Shmem_longlong_sum_to_all a b c d e f g h) sm st = Some (shmem_longlong_sum_to_all w a b c d e f g h sm st)"
| "shmem_function w (Shmem_longlong_max_to_all a b c d e f g h) sm st = Some (shmem_longlong_max_to_all w a b c d e f g h sm st)"
| "shmem_function w (Shmem_longlong_p a b c) sm st = Some (shmem_longlong_p w a b c sm st)"
| "shmem_function w (Shmem_longlong_put a b c d) sm st = Some (shmem_longlong_put w a b c d sm st)"
| "shmem_function w (Shmem_collect32 a b c d e f g) sm st = Some (shmem_collect32 w a b c d e f g sm st)"
| "shmem_function w (Shmem_fcollect64 a b c d e f g) sm st = Some (shmem_fcollect64 w a b c d e f g sm st)"
| "shmem_function w _ sm st = None"

fun shmem_fetch_function :: "nat \<Rightarrow> shmem_call \<Rightarrow> ('w, 'z) shmem_module_scheme \<Rightarrow> 'i shmem_rt \<Rightarrow> (('w, 'z) shmem_module_scheme \<times> 'i shmem_rt \<times> nat) result option" where
  "shmem_fetch_function w (Shmem_malloc a) sm st = Some (shmem_malloc w a sm st)"
| "shmem_fetch_function w (Shmem_longlong_fadd a b c) sm st = Some (shmem_longlong_fadd w a b c sm st)"
| "shmem_fetch_function w (Shmem_int_fadd a b c) sm st = Some (shmem_int_fadd w a b c sm st)"
| "shmem_fetch_function w (Shmem_int_finc a b) sm st = Some (shmem_int_finc w a b sm st)"
| "shmem_fetch_function w (Shmem_int_swap a b c) sm st = Some (shmem_int_swap w a b c sm st)"
| "shmem_fetch_function w _ sm st = None"

lemmas shmem_function_defs = shmem_free_def shmem_barrier_all_def shmem_fence_def shmem_quiet_def shmem_put64_def shmem_broadcast64_def shmem_broadcast32_def shmem_int_get_def shmem_getmem_def shmem_putmem_def shmem_int_put_def shmem_int_p_def shmem_char_put_nbi_def shmem_int_add_def shmem_int_sum_to_all_def shmem_longlong_sum_to_all_def shmem_longlong_max_to_all_def shmem_longlong_p_def shmem_longlong_put_def shmem_collect32_def shmem_fcollect64_def

lemma shmem_function_async: "shmem_function w c sm st = Some r \<Longrightarrow> r = finish_async_nb_at w (Calls [c]) (snic sm) st"
  by (cases c) (auto simp: shmem_function_defs)

lemma shmem_fetch_async: "shmem_fetch_function w c sm st = Some r \<Longrightarrow> r = fetch_async_nb_at w c sm st"
  by (cases c) (auto simp: shmem_malloc_def shmem_longlong_fadd_def shmem_int_fadd_def shmem_int_finc_def shmem_int_swap_def)

lemma shmem_calls_fold: "shmem_calls lib cs w = fold (\<lambda>c w. fst (lib c w)) cs w"
  by (induction cs arbitrary: w) simp_all

text \<open>
  The functions without a result: each opens a new finish scope whose only task makes the calls of the function, in order, with its arguments,
  at the interconnect locale; the end of the task lets \<^verbatim>\<open>hclib_end_finish\<close> return.
\<close>

theorem shmem_call_correct:
  assumes inv: "heap_inv n st W E" "can_spawn n st w" and nic: "snic sm = Some l" "l < length (rt_pool st)"
    and c: "shmem_function w c sm st = Some r \<and> cs = [c] \<or>
      r = shmem_char_put_signal_nbi w dest source nelems sdest ssource snelems pe sm st \<and>
      cs = [Shmem_char_put_nbi dest source nelems pe, Shmem_fence, Shmem_char_put_nbi sdest ssource snelems pe]"
    and run: "heap_inv n st2 W2 E2" "w2 < n" "few_objects st2" "next_addr st + 1 \<in> E2" "members st2 (next_addr st) = {next_addr st + 1}"
      "children st2 (next_addr st) = {}" "open_scope st2 (next_addr st)"
  shows "\<exists>st'. r = Inr st' \<and> call_spawned n E w l (Calls cs) st st' \<and>
    shmem_body lib (Calls cs) sm2 = Inr (sm2\<lparr>sworld := fold (\<lambda>c w. fst (lib c w)) cs (sworld sm2)\<rparr>) \<and>
    (\<exists>st3 W3. execute_end w2 (next_addr st + 1) st2 = Inr st3 \<and> heap_inv n st3 W3 (E2 - {next_addr st + 1}) \<and>
       map_option counter (finishes st3 (next_addr st)) = Some 1)"
proof -
  have "r = finish_async_nb_at w (Calls cs) (Some l) st"
    using c shmem_function_async [of w c sm st r] nic(1) by (auto simp: shmem_char_put_signal_nbi_def)
  then show ?thesis using finish_async_spawns [OF inv nic(2), of "Calls cs"] call_ends [OF run] by (simp add: shmem_calls_fold)
qed

text \<open>The cells that are not yet allocated.\<close>

definition cells_ok :: "('w, 'z) shmem_module_scheme \<Rightarrow> bool" where
  "cells_ok sm \<longleftrightarrow> (\<forall>k \<ge> next_cell sm. cells sm k = None)"

text \<open>
  C39: the functions with a result. Each allocates a new cell, which nobody may read yet, and opens a new finish scope whose only task calls
  the library with the arguments of the function and stores the value in the cell, at the interconnect locale. Whenever
  and by whichever worker this task is run, as long as the cell is allocated, the function then returns exactly the value
  that the library has returned to the task, frees the cell and leaves all other cells as they are; and the end of the
  task brings the counter of the scope to the value with which \<^verbatim>\<open>hclib_end_finish\<close> returns.
\<close>

theorem shmem_fetch_correct:
  assumes inv: "heap_inv n st W E" "can_spawn n st w" and nic: "snic sm = Some l" "l < length (rt_pool st)" and cells: "cells_ok sm"
    and c: "shmem_fetch_function w c sm st = Some r"
    and run: "heap_inv n st2 W2 E2" "w2 < n" "few_objects st2" "next_addr st + 1 \<in> E2" "members st2 (next_addr st) = {next_addr st + 1}"
      "children st2 (next_addr st) = {}" "open_scope st2 (next_addr st)"
    and lib: "cells sm2 (next_cell sm) = Some old" "lib c (sworld sm2) = (wd, v)"
  shows "\<exists>sm1 st'. r = Inr (sm1, st', next_cell sm) \<and> cells_ok sm1 \<and> call_spawned n E w l (Fetch c (next_cell sm)) st st' \<and>
    cells sm (next_cell sm) = None \<and> fetch_result (next_cell sm) sm1 = Inl Uninit_read \<and>
    (\<exists>sm3. shmem_body lib (Fetch c (next_cell sm)) sm2 = Inr sm3 \<and> sworld sm3 = wd \<and>
       fetch_result (next_cell sm) sm3 = Inr (sm3\<lparr>cells := (cells sm2)(next_cell sm := None)\<rparr>, v)) \<and>
    (\<exists>st3 W3. execute_end w2 (next_addr st + 1) st2 = Inr st3 \<and> heap_inv n st3 W3 (E2 - {next_addr st + 1}) \<and>
       map_option counter (finishes st3 (next_addr st)) = Some 1)"
proof -
  let ?cell = "next_cell sm"
  define sm1 where "sm1 = sm\<lparr>next_cell := ?cell + 1, cells := (cells sm)(?cell \<mapsto> None)\<rparr>"
  define sm3 where "sm3 = sm2\<lparr>sworld := wd, cells := (cells sm2)(?cell \<mapsto> Some v)\<rparr>"
  obtain st' where st': "finish_async_nb_at w (Fetch c ?cell) (Some l) st = Inr st'" "call_spawned n E w l (Fetch c ?cell) st st'"
    using finish_async_spawns [OF inv nic(2)] by blast
  then have "r = Inr (sm1, st', ?cell)" using shmem_fetch_async [OF c] nic(1) by (simp add: fetch_async_nb_at_def sm1_def Let_def)
  moreover have "cells_ok sm1" "cells sm ?cell = None" "fetch_result ?cell sm1 = Inl Uninit_read"
    using cells by (auto simp: cells_ok_def sm1_def fetch_result_def)
  moreover have "shmem_body lib (Fetch c ?cell) sm2 = Inr sm3" "sworld sm3 = wd"
      "fetch_result ?cell sm3 = Inr (sm3\<lparr>cells := (cells sm2)(?cell := None)\<rparr>, v)"
    using lib by (simp_all add: sm3_def fetch_result_def)
  ultimately show ?thesis using st'(2) call_ends [OF run] by blast
qed

section \<open>Examples\<close>

definition sample_shmem :: "int shmem_module" where
  "sample_shmem = \<lparr>snic_locale_id = 0, snic = Some 0, cells = Map.empty, next_cell = 4, sworld = 40\<rparr>"

definition sample_shmem_lib :: "int shmem_lib" where
  "sample_shmem_lib c w = (case c of Shmem_int_fadd dest value pe \<Rightarrow> (w + value, w) | _ \<Rightarrow> (w, 0))"

definition fadd_popped :: "(int shmem_module \<times> nat shmem_rt \<times> search) result" where
  "fadd_popped = res_bind (shmem_int_fadd 0 64 2 0 sample_shmem idle_heap) (\<lambda>(sm, st, cell). res_bind (pop_step 0 st) (\<lambda>(st2, r). Inr (sm, st2, r)))"

lemma fadd_popped_got: "(case fadd_popped of Inl _ \<Rightarrow> None | Inr (sm, st, r) \<Rightarrow> Some (r, next_addr st)) = Some (Got 1, 2)"
  by code_simp

theorem shmem_fetch_correct_witness:
  "\<exists>sm1 st' st2 st3 sm3 sm4. shmem_int_fadd 0 64 2 0 sample_shmem idle_heap = Inr (sm1, st' :: nat shmem_rt, 4) \<and> pop_step 0 st' = Inr (st2, Got 1) \<and>
     shmem_body sample_shmem_lib (Fetch (Shmem_int_fadd 64 2 0) 4) sm1 = Inr sm3 \<and> sworld sm3 = 42 \<and>
     execute_end 0 1 st2 = Inr st3 \<and> map_option counter (finishes st3 0) = Some 1 \<and> fetch_result 4 sm3 = Inr (sm4, 40) \<and> cells sm4 4 = None"
proof -
  let ?st = "idle_heap :: nat shmem_rt" and ?c = "Shmem_int_fadd 64 2 0"
  have idle: "next_addr ?st = 0" "0 < length (rt_pool ?st)" "snic sample_shmem = Some 0" "cells_ok sample_shmem" "next_cell sample_shmem = 4"
    by (simp_all add: idle_heap_def sample_shmem_def cells_ok_def)
  have f: "shmem_fetch_function 0 ?c sample_shmem ?st = Some (shmem_int_fadd 0 64 2 0 sample_shmem ?st)" by simp
  obtain sm1 st2 where st2: "fadd_popped = Inr (sm1, st2, Got 1)" "next_addr st2 = 2" using fadd_popped_got by (auto split: sum.splits)
  then obtain st' cell where st': "shmem_int_fadd 0 64 2 0 sample_shmem ?st = Inr (sm1, st', cell)" "pop_step 0 st' = Inr (st2, Got 1)"
    by (auto simp: fadd_popped_def res_simps)
  then have "fetch_async_nb_at 0 ?c sample_shmem ?st = Inr (sm1, st', cell)" using shmem_fetch_async [OF f] by simp
  then have fin: "finish_async_nb_at 0 (Fetch ?c 4) (Some 0) ?st = Inr st'" "cell = 4" "cells sm1 4 = Some None" "sworld sm1 = 40"
    by (auto simp: fetch_async_nb_at_def res_simps sample_shmem_def Let_def)
  then have "call_spawned 1 {} 0 0 (Fetch ?c 4) ?st st'" using finish_async_spawns [OF idle_heap_can idle(2), of "Fetch ?c 4"] by auto
  then obtain W where sp: "heap_inv 1 st' W {}" "members st' 0 = {1}" "children st' 0 = {}" "open_scope st' 0"
    unfolding call_spawned_def idle(1) by (auto simp: open_scope_def shape_def)
  have p: "found_inv 1 st2 W {} (Got 1)" "searched 1 st' st2" using pop_step_inv [OF heap_invD(1,3) [OF sp(1)] _ st'(2)] by auto
  have inv2: "heap_inv 1 st2 W {1}" using heap_inv_found [OF sp(1) p] by simp
  have run: "members st2 0 = {1}" "children st2 0 = {}" "open_scope st2 0" "few_objects st2"
    using sp(2-4) p(2) st2(2) by (simp_all add: searched_def members_def children_def open_scope_def few_objects_def)
  have lib: "sample_shmem_lib ?c (sworld sm1) = (42, 40)" using fin(4) by (simp add: sample_shmem_lib_def)
  have z: "0 < (1 :: nat)" "next_addr ?st + 1 \<in> {1 :: nat}" "members st2 (next_addr ?st) = {next_addr ?st + 1}" "children st2 (next_addr ?st) = {}"
      "open_scope st2 (next_addr ?st)" "cells sm1 (next_cell sample_shmem) = Some None" using run fin idle by simp_all
  obtain sm3 st3 where "shmem_body sample_shmem_lib (Fetch ?c 4) sm1 = Inr sm3" "sworld sm3 = 42"
      "fetch_result 4 sm3 = Inr (sm3\<lparr>cells := (cells sm1)(4 := None)\<rparr>, 40)" "execute_end 0 1 st2 = Inr st3" "map_option counter (finishes st3 0) = Some 1"
    using shmem_fetch_correct [where lib = sample_shmem_lib, OF idle_heap_can idle(3,2,4) f inv2 z(1) run(4) z(2-6) lib] unfolding idle(1,5) by auto
  then show ?thesis using st' fin(2)
    by (intro exI [of _ sm1] exI [of _ st'] exI [of _ st2] exI [of _ st3] exI [of _ sm3] exI [of _ "sm3\<lparr>cells := (cells sm1)(4 := None)\<rparr>"]) simp
qed

end
