(* ===== verification/Sos_Module.thy ===== *)
theory Sos_Module
  imports Shmem_Module Module_Registry
begin

text \<open>
  The module for Sandia OpenSHMEM: \<^verbatim>\<open>src/modules/sos/src/hclib_sos.cpp\<close>, except for its locks. Most functions are those of the OpenSHMEM
  module. Others use a communication context of the calling worker, which the initialisation puts into the per-worker state of the module,
  and call the library without a task. Waits are pending operations. The library is a parameter.
\<close>

section \<open>The library\<close>

datatype ctx_call =
    Ctx_getmem nat nat nat int
  | Ctx_putmem nat nat nat int
  | Ctx_int_put nat nat nat int
  | Ctx_longlong_fadd nat int int
  | Ctx_int_swap nat int int
  | Ctx_int_cswap nat int int int
  | Ctx_long_finc nat int
  | Ctx_int_finc nat int

text \<open>The functions of the library on domains and contexts, each with the error code or the value that it returns.\<close>

record 'w sos_lib =
  SHMEMX_THREAD_MULTIPLE :: int
  init_thread :: "int \<Rightarrow> 'w \<Rightarrow> 'w \<times> int"
  domain_create :: "int \<Rightarrow> nat \<Rightarrow> 'w \<Rightarrow> 'w \<times> int \<times> nat list"
  ctx_create :: "nat \<Rightarrow> 'w \<Rightarrow> 'w \<times> int \<times> nat"
  ctx_quiet :: "nat \<Rightarrow> 'w \<Rightarrow> 'w"
  ctx_destroy :: "nat \<Rightarrow> 'w \<Rightarrow> 'w"
  domain_destroy :: "nat \<Rightarrow> 'w \<Rightarrow> 'w"
  ctx_op :: "ctx_call \<Rightarrow> nat \<Rightarrow> 'w \<Rightarrow> 'w \<times> int"
  lib_shmem_finalize :: "'w \<Rightarrow> 'w"

section \<open>State\<close>

record pending_sos_op =
  sop_wait :: wait_info
  sop_prom :: "nat option"
  sop_task :: "nat option"

record 'w sos_module = "'w shmem_module" +
  domain_ctx_id :: nat
  domains :: "nat list"
  contexts :: "nat list"
  nthreads :: nat
  sos_pending :: pending
  sos_ops :: "nat \<rightharpoonup> pending_sos_op"
  next_sos_op :: nat

section \<open>Initialisation\<close>

definition sos_pre_initialize :: "'f locality_state \<Rightarrow> 'w sos_module \<Rightarrow> 'f locality_state \<times> 'w sos_module" where
  "sos_pre_initialize ls sm =
     (let (ls', i) = hclib_add_known_locale_type ls ''Interconnect'' in (ls', sm\<lparr>snic_locale_id := i\<rparr>))"

text \<open>The state of a worker is one cell for its domain and one for its context.\<close>

definition init_sos_state :: "nat list \<Rightarrow> nat list \<Rightarrow> nat option list \<Rightarrow> nat \<Rightarrow> nat \<Rightarrow> nat option list" where
  "init_sos_state ds cs blk off tid = blk[off := Some (ds ! tid), off + 1 := Some (cs ! tid)]"

definition release_sos_state :: "'w sos_lib \<Rightarrow> nat \<Rightarrow> nat option list \<Rightarrow> 'w \<Rightarrow> 'w result" where
  "release_sos_state lib off blk w =
     res_bind (arr_get blk (int off + 1)) (\<lambda>c. res_bind (arr_get blk (int off)) (\<lambda>d.
     case (c, d) of (Some ctx, Some domain) \<Rightarrow> Inr (domain_destroy lib domain (ctx_destroy lib ctx (ctx_quiet lib ctx w))) | _ \<Rightarrow> Inl Uninit_read))"

fun create_contexts :: "'w sos_lib \<Rightarrow> nat list \<Rightarrow> 'w \<Rightarrow> ('w \<times> nat list) result" where
  "create_contexts lib [] w = Inr (w, [])"
| "create_contexts lib (d # ds) w =
     (let (w1, err, c) = ctx_create lib d w in
      res_bind (c_assert (err = 0)) (\<lambda>_.
      res_bind (create_contexts lib ds w1) (\<lambda>(w2, cs). Inr (w2, c # cs))))"

definition sos_post_initialize ::
  "'w sos_lib \<Rightarrow> nat \<Rightarrow> ('a, 'i) locality_graph \<Rightarrow> nat worker_memory \<Rightarrow> 'w sos_module \<Rightarrow> (nat worker_memory \<times> 'w sos_module) result" where
  "sos_post_initialize lib nworkers g wm sm =
     (let (w1, provided) = init_thread lib (SHMEMX_THREAD_MULTIPLE lib) (sworld sm) in
      res_bind (c_assert (provided = SHMEMX_THREAD_MULTIPLE lib)) (\<lambda>_.
      let (w2, err, ds) = domain_create lib (SHMEMX_THREAD_MULTIPLE lib) nworkers w1 in
      res_bind (c_assert (err = 0)) (\<lambda>_.
      res_bind (create_contexts lib (take nworkers ds) w2) (\<lambda>(w3, cs).
      let (wm1, i) = hclib_add_per_worker_module_state wm 2 (init_sos_state ds cs);
          nics = hclib_get_all_locales_of_type g (int (snic_locale_id sm)) in
      res_bind (c_assert (length nics = 1)) (\<lambda>_.
      res_bind (c_assert (snic sm = None)) (\<lambda>_.
      res_bind (arr_get nics 0) (\<lambda>x.
      Inr (wm1, sm\<lparr>nthreads := nworkers, domains := ds, contexts := cs, domain_ctx_id := i, snic := Some x, sworld := w3\<rparr>))))))))"

text \<open>\<^verbatim>\<open>hclib_release_per_worker_module_state\<close> calls \<^verbatim>\<open>release_sos_state\<close> for each worker.\<close>

fun release_all :: "'w sos_lib \<Rightarrow> nat \<Rightarrow> nat option list list \<Rightarrow> 'w \<Rightarrow> 'w result" where
  "release_all lib off [] w = Inr w"
| "release_all lib off (blk # blks) w = res_bind (release_sos_state lib off blk w) (\<lambda>w1. release_all lib off blks w1)"

definition sos_finalize :: "'w sos_lib \<Rightarrow> nat worker_memory \<Rightarrow> 'w sos_module \<Rightarrow> 'w sos_module result" where
  "sos_finalize lib wm sm =
     res_bind (release_all lib (domain_ctx_id sm) (module_state wm) (sworld sm)) (\<lambda>w1. Inr (sm\<lparr>sworld := lib_shmem_finalize lib w1\<rparr>))"

section \<open>Functions that run as a task\<close>

definition sos_free :: "nat \<Rightarrow> nat \<Rightarrow> 'w sos_module \<Rightarrow> 'i shmem_rt \<Rightarrow> 'i shmem_rt result" where
  "sos_free wid ptr sm = finish_async_nb_at wid (Calls [Shmem_free ptr]) (snic sm)"

definition sos_fence :: "nat \<Rightarrow> 'w sos_module \<Rightarrow> 'i shmem_rt \<Rightarrow> 'i shmem_rt result" where
  "sos_fence wid sm = finish_async_nb_at wid (Calls [Shmem_fence]) (snic sm)"

definition sos_quiet :: "nat \<Rightarrow> 'w sos_module \<Rightarrow> 'i shmem_rt \<Rightarrow> 'i shmem_rt result" where
  "sos_quiet wid sm = finish_async_nb_at wid (Calls [Shmem_quiet]) (snic sm)"

definition sos_put64 :: "nat \<Rightarrow> nat \<Rightarrow> nat \<Rightarrow> nat \<Rightarrow> int \<Rightarrow> 'w sos_module \<Rightarrow> 'i shmem_rt \<Rightarrow> 'i shmem_rt result" where
  "sos_put64 wid dest source nelems pe sm = finish_async_nb_at wid (Calls [Shmem_put64 dest source nelems pe]) (snic sm)"

definition sos_broadcast64 :: "nat \<Rightarrow> nat \<Rightarrow> nat \<Rightarrow> nat \<Rightarrow> int \<Rightarrow> int \<Rightarrow> int \<Rightarrow> int \<Rightarrow> nat \<Rightarrow> 'w sos_module \<Rightarrow> 'i shmem_rt \<Rightarrow> 'i shmem_rt result" where
  "sos_broadcast64 wid dest source nelems PE_root PE_start logPE_stride PE_size pSync sm = finish_async_nb_at wid (Calls [Shmem_broadcast64 dest source nelems PE_root PE_start logPE_stride PE_size pSync]) (snic sm)"

definition sos_int_get :: "nat \<Rightarrow> nat \<Rightarrow> nat \<Rightarrow> nat \<Rightarrow> int \<Rightarrow> 'w sos_module \<Rightarrow> 'i shmem_rt \<Rightarrow> 'i shmem_rt result" where
  "sos_int_get wid dest source nelems pe sm = finish_async_nb_at wid (Calls [Shmem_int_get dest source nelems pe]) (snic sm)"

definition sos_char_put_nbi :: "nat \<Rightarrow> nat \<Rightarrow> nat \<Rightarrow> nat \<Rightarrow> int \<Rightarrow> 'w sos_module \<Rightarrow> 'i shmem_rt \<Rightarrow> 'i shmem_rt result" where
  "sos_char_put_nbi wid dest source nelems pe sm = finish_async_nb_at wid (Calls [Shmem_char_put_nbi dest source nelems pe]) (snic sm)"

definition sos_int_add :: "nat \<Rightarrow> nat \<Rightarrow> int \<Rightarrow> int \<Rightarrow> 'w sos_module \<Rightarrow> 'i shmem_rt \<Rightarrow> 'i shmem_rt result" where
  "sos_int_add wid dest value pe sm = finish_async_nb_at wid (Calls [Shmem_int_add dest value pe]) (snic sm)"

definition sos_int_sum_to_all :: "nat \<Rightarrow> nat \<Rightarrow> nat \<Rightarrow> int \<Rightarrow> int \<Rightarrow> int \<Rightarrow> int \<Rightarrow> nat \<Rightarrow> nat \<Rightarrow> 'w sos_module \<Rightarrow> 'i shmem_rt \<Rightarrow> 'i shmem_rt result" where
  "sos_int_sum_to_all wid target source nreduce PE_start logPE_stride PE_size pWrk pSync sm = finish_async_nb_at wid (Calls [Shmem_int_sum_to_all target source nreduce PE_start logPE_stride PE_size pWrk pSync]) (snic sm)"

definition sos_longlong_sum_to_all :: "nat \<Rightarrow> nat \<Rightarrow> nat \<Rightarrow> int \<Rightarrow> int \<Rightarrow> int \<Rightarrow> int \<Rightarrow> nat \<Rightarrow> nat \<Rightarrow> 'w sos_module \<Rightarrow> 'i shmem_rt \<Rightarrow> 'i shmem_rt result" where
  "sos_longlong_sum_to_all wid target source nreduce PE_start logPE_stride PE_size pWrk pSync sm = finish_async_nb_at wid (Calls [Shmem_longlong_sum_to_all target source nreduce PE_start logPE_stride PE_size pWrk pSync]) (snic sm)"

definition sos_longlong_max_to_all :: "nat \<Rightarrow> nat \<Rightarrow> nat \<Rightarrow> int \<Rightarrow> int \<Rightarrow> int \<Rightarrow> int \<Rightarrow> nat \<Rightarrow> nat \<Rightarrow> 'w sos_module \<Rightarrow> 'i shmem_rt \<Rightarrow> 'i shmem_rt result" where
  "sos_longlong_max_to_all wid target source nreduce PE_start logPE_stride PE_size pWrk pSync sm = finish_async_nb_at wid (Calls [Shmem_longlong_max_to_all target source nreduce PE_start logPE_stride PE_size pWrk pSync]) (snic sm)"

definition sos_longlong_p :: "nat \<Rightarrow> nat \<Rightarrow> int \<Rightarrow> int \<Rightarrow> 'w sos_module \<Rightarrow> 'i shmem_rt \<Rightarrow> 'i shmem_rt result" where
  "sos_longlong_p wid addr value pe sm = finish_async_nb_at wid (Calls [Shmem_longlong_p addr value pe]) (snic sm)"

definition sos_longlong_put :: "nat \<Rightarrow> nat \<Rightarrow> nat \<Rightarrow> nat \<Rightarrow> int \<Rightarrow> 'w sos_module \<Rightarrow> 'i shmem_rt \<Rightarrow> 'i shmem_rt result" where
  "sos_longlong_put wid dest src nelems pe sm = finish_async_nb_at wid (Calls [Shmem_longlong_put dest src nelems pe]) (snic sm)"

definition sos_collect32 :: "nat \<Rightarrow> nat \<Rightarrow> nat \<Rightarrow> nat \<Rightarrow> int \<Rightarrow> int \<Rightarrow> int \<Rightarrow> nat \<Rightarrow> 'w sos_module \<Rightarrow> 'i shmem_rt \<Rightarrow> 'i shmem_rt result" where
  "sos_collect32 wid dest source nelems PE_start logPE_stride PE_size pSync sm = finish_async_nb_at wid (Calls [Shmem_collect32 dest source nelems PE_start logPE_stride PE_size pSync]) (snic sm)"

definition sos_fcollect64 :: "nat \<Rightarrow> nat \<Rightarrow> nat \<Rightarrow> nat \<Rightarrow> int \<Rightarrow> int \<Rightarrow> int \<Rightarrow> nat \<Rightarrow> 'w sos_module \<Rightarrow> 'i shmem_rt \<Rightarrow> 'i shmem_rt result" where
  "sos_fcollect64 wid dest source nelems PE_start logPE_stride PE_size pSync sm = finish_async_nb_at wid (Calls [Shmem_fcollect64 dest source nelems PE_start logPE_stride PE_size pSync]) (snic sm)"

definition sos_char_put_signal_nbi ::
  "nat \<Rightarrow> nat \<Rightarrow> nat \<Rightarrow> nat \<Rightarrow> nat \<Rightarrow> nat \<Rightarrow> nat \<Rightarrow> int \<Rightarrow> 'w sos_module \<Rightarrow> 'i shmem_rt \<Rightarrow> 'i shmem_rt result" where
  "sos_char_put_signal_nbi wid dest source nelems signal_dest signal_source signal_nelems pe sm =
     finish_async_nb_at wid
       (Calls [Shmem_char_put_nbi dest source nelems pe, Shmem_fence, Shmem_char_put_nbi signal_dest signal_source signal_nelems pe]) (snic sm)"

definition sos_malloc :: "nat \<Rightarrow> nat \<Rightarrow> 'w sos_module \<Rightarrow> 'i shmem_rt \<Rightarrow> ('w sos_module \<times> 'i shmem_rt \<times> nat) result" where
  "sos_malloc wid nbytes sm = fetch_async_nb_at wid (Shmem_malloc nbytes) sm"

definition sos_int_fadd :: "nat \<Rightarrow> nat \<Rightarrow> int \<Rightarrow> int \<Rightarrow> 'w sos_module \<Rightarrow> 'i shmem_rt \<Rightarrow> ('w sos_module \<times> 'i shmem_rt \<times> nat) result" where
  "sos_int_fadd wid dest value pe sm = fetch_async_nb_at wid (Shmem_int_fadd dest value pe) sm"

text \<open>All contexts are completed before the barrier.\<close>

definition sos_barrier_all :: "nat \<Rightarrow> 'w sos_lib \<Rightarrow> 'w sos_module \<Rightarrow> 'i shmem_rt \<Rightarrow> ('w sos_module \<times> 'i shmem_rt) result" where
  "sos_barrier_all wid lib sm st =
     (let sm1 = sm\<lparr>sworld := fold (ctx_quiet lib) (take (nthreads sm) (contexts sm)) (sworld sm)\<rparr> in
      res_bind (finish_async_nb_at wid (Calls [Shmem_barrier_all]) (snic sm1) st) (\<lambda>st1. Inr (sm1, st1)))"

section \<open>Functions that use the context of the worker\<close>

definition ctx_do :: "'w sos_lib \<Rightarrow> nat \<Rightarrow> ctx_call \<Rightarrow> nat worker_memory \<Rightarrow> 'w sos_module \<Rightarrow> ('w sos_module \<times> int) result" where
  "ctx_do lib wid c wm sm =
     (let (b, off) = hclib_get_curr_worker_module_state wid (domain_ctx_id sm) in
      res_bind (arr_get (module_state wm) (int b)) (\<lambda>blk. res_bind (arr_get blk (int off + 1)) (\<lambda>x.
      case x of None \<Rightarrow> Inl Uninit_read
      | Some ctx \<Rightarrow> let (w1, v) = ctx_op lib c ctx (sworld sm) in Inr (sm\<lparr>sworld := w1\<rparr>, v))))"

definition sos_getmem :: "nat \<Rightarrow> nat \<Rightarrow> nat \<Rightarrow> nat \<Rightarrow> int \<Rightarrow> 'w sos_lib \<Rightarrow> nat worker_memory \<Rightarrow> 'w sos_module \<Rightarrow> ('w sos_module \<times> int) result" where
  "sos_getmem wid dest source nelems pe lib = ctx_do lib wid (Ctx_getmem dest source nelems pe)"

definition sos_putmem :: "nat \<Rightarrow> nat \<Rightarrow> nat \<Rightarrow> nat \<Rightarrow> int \<Rightarrow> 'w sos_lib \<Rightarrow> nat worker_memory \<Rightarrow> 'w sos_module \<Rightarrow> ('w sos_module \<times> int) result" where
  "sos_putmem wid dest source nelems pe lib = ctx_do lib wid (Ctx_putmem dest source nelems pe)"

definition sos_int_put :: "nat \<Rightarrow> nat \<Rightarrow> nat \<Rightarrow> nat \<Rightarrow> int \<Rightarrow> 'w sos_lib \<Rightarrow> nat worker_memory \<Rightarrow> 'w sos_module \<Rightarrow> ('w sos_module \<times> int) result" where
  "sos_int_put wid dest source nelems pe lib = ctx_do lib wid (Ctx_int_put dest source nelems pe)"

definition sos_longlong_fadd :: "nat \<Rightarrow> nat \<Rightarrow> int \<Rightarrow> int \<Rightarrow> 'w sos_lib \<Rightarrow> nat worker_memory \<Rightarrow> 'w sos_module \<Rightarrow> ('w sos_module \<times> int) result" where
  "sos_longlong_fadd wid target value pe lib = ctx_do lib wid (Ctx_longlong_fadd target value pe)"

definition sos_int_swap :: "nat \<Rightarrow> nat \<Rightarrow> int \<Rightarrow> int \<Rightarrow> 'w sos_lib \<Rightarrow> nat worker_memory \<Rightarrow> 'w sos_module \<Rightarrow> ('w sos_module \<times> int) result" where
  "sos_int_swap wid dest value pe lib = ctx_do lib wid (Ctx_int_swap dest value pe)"

definition sos_int_cswap :: "nat \<Rightarrow> nat \<Rightarrow> int \<Rightarrow> int \<Rightarrow> int \<Rightarrow> 'w sos_lib \<Rightarrow> nat worker_memory \<Rightarrow> 'w sos_module \<Rightarrow> ('w sos_module \<times> int) result" where
  "sos_int_cswap wid dest cond value pe lib = ctx_do lib wid (Ctx_int_cswap dest cond value pe)"

definition sos_long_finc :: "nat \<Rightarrow> nat \<Rightarrow> int \<Rightarrow> 'w sos_lib \<Rightarrow> nat worker_memory \<Rightarrow> 'w sos_module \<Rightarrow> ('w sos_module \<times> int) result" where
  "sos_long_finc wid dest pe lib = ctx_do lib wid (Ctx_long_finc dest pe)"

definition sos_int_finc :: "nat \<Rightarrow> nat \<Rightarrow> int \<Rightarrow> 'w sos_lib \<Rightarrow> nat worker_memory \<Rightarrow> 'w sos_module \<Rightarrow> ('w sos_module \<times> int) result" where
  "sos_int_finc wid dest pe lib = ctx_do lib wid (Ctx_int_finc dest pe)"

section \<open>Waiting\<close>

text \<open>The creation of an operation and \<^verbatim>\<open>append_to_pending\<close>; \<open>poller\<close> is the lambda that calls \<^verbatim>\<open>poll_on_pending\<close>.\<close>

definition append_sos_op ::
  "nat \<Rightarrow> 'u \<Rightarrow> pending_sos_op \<Rightarrow> 'w sos_module \<Rightarrow> ('u, 'd, 'i) hrt \<Rightarrow> ('w sos_module \<times> ('u, 'd, 'i) hrt) result" where
  "append_sos_op wid poller x sm st =
     (let op = next_sos_op sm in
      res_bind (append_to_pending wid op poller (snic sm) (sos_pending sm) st) (\<lambda>(l, st1).
      Inr (sm\<lparr>next_sos_op := op + 1, sos_ops := (sos_ops sm)(op \<mapsto> x), sos_pending := l\<rparr>, st1)))"

definition sos_int_wait_until ::
  "nat \<Rightarrow> 'u \<Rightarrow> nat \<Rightarrow> int \<Rightarrow> int \<Rightarrow> 'w sos_module \<Rightarrow> ('u, 'd, 'i) hrt \<Rightarrow> ('w sos_module \<times> ('u, 'd, 'i) hrt \<times> nat) result" where
  "sos_int_wait_until wid poller ivar c value sm st =
     (let (st1, p) = hclib_promise_create st in
      res_bind (append_sos_op wid poller \<lparr>sop_wait = \<lparr>wait_type = integer_wait, var = ivar, cmp = c, cmp_value = value\<rparr>, sop_prom = Some p, sop_task = None\<rparr> sm st1)
        (\<lambda>(sm1, st2). Inr (sm1, st2, p)))"

definition sos_int_async_when ::
  "nat \<Rightarrow> 'u \<Rightarrow> nat \<Rightarrow> int \<Rightarrow> int \<Rightarrow> 'u \<Rightarrow> 'w sos_module \<Rightarrow> ('u, 'd, 'i) hrt \<Rightarrow> ('w sos_module \<times> ('u, 'd, 'i) hrt) result" where
  "sos_int_async_when wid poller ivar c value lam sm st =
     (let (st1, t) = alloc_task (User lam) False st in
      append_sos_op wid poller \<lparr>sop_wait = \<lparr>wait_type = integer_wait, var = ivar, cmp = c, cmp_value = value\<rparr>, sop_prom = None, sop_task = Some t\<rparr> sm st1)"

definition sos_int_async_nb_when ::
  "nat \<Rightarrow> 'u \<Rightarrow> nat \<Rightarrow> int \<Rightarrow> int \<Rightarrow> 'u \<Rightarrow> 'w sos_module \<Rightarrow> ('u, 'd, 'i) hrt \<Rightarrow> ('w sos_module \<times> ('u, 'd, 'i) hrt) result" where
  "sos_int_async_nb_when wid poller ivar c value lam sm st =
     (let (st1, t) = alloc_task (User lam) False st in
      res_bind (set_non_blocking t True st1) (\<lambda>st2.
      append_sos_op wid poller \<lparr>sop_wait = \<lparr>wait_type = integer_wait, var = ivar, cmp = c, cmp_value = value\<rparr>, sop_prom = None, sop_task = Some t\<rparr> sm st2))"

text \<open>A walk of the poller while the memory \<open>mem\<close> does not change.\<close>

definition sos_round ::
  "nat \<Rightarrow> int \<Rightarrow> int \<Rightarrow> (nat \<Rightarrow> int) \<Rightarrow> nat \<Rightarrow> 'w sos_module \<Rightarrow> ('u, 'd, 'i) hrt \<Rightarrow> (pending \<times> bool \<times> ('u, 'd, 'i) hrt) result" where
  "sos_round fuel eq ne mem wid sm st =
     poll_round fuel
       (\<lambda>op st. res_bind (from_ptr (sos_ops sm op)) (\<lambda>x. res_bind (test_sos_completion eq ne mem (sop_wait x)) (\<lambda>b. Inr (st, b))))
       (\<lambda>op st. res_bind (from_ptr (sos_ops sm op)) (\<lambda>x. complete_pending wid (sop_prom x, sop_task x) st))
       (sos_pending sm) P_start st"

section \<open>Functions that run as a task\<close>

text \<open>They are those of the OpenSHMEM module, on a state with more fields.\<close>

lemma sos_same_functions:
  fixes sm :: "'w sos_module"
  shows "sos_free w ptr sm = shmem_free w ptr sm"
    "sos_fence w sm = shmem_fence w sm"
    "sos_quiet w sm = shmem_quiet w sm"
    "sos_put64 w dest source nelems pe sm = shmem_put64 w dest source nelems pe sm"
    "sos_broadcast64 w dest source nelems PE_root PE_start logPE_stride PE_size pSync sm = shmem_broadcast64 w dest source nelems PE_root PE_start logPE_stride PE_size pSync sm"
    "sos_int_get w dest source nelems pe sm = shmem_int_get w dest source nelems pe sm"
    "sos_char_put_nbi w dest source nelems pe sm = shmem_char_put_nbi w dest source nelems pe sm"
    "sos_int_add w dest value pe sm = shmem_int_add w dest value pe sm"
    "sos_int_sum_to_all w target source nreduce PE_start logPE_stride PE_size pWrk pSync sm = shmem_int_sum_to_all w target source nreduce PE_start logPE_stride PE_size pWrk pSync sm"
    "sos_longlong_sum_to_all w target source nreduce PE_start logPE_stride PE_size pWrk pSync sm = shmem_longlong_sum_to_all w target source nreduce PE_start logPE_stride PE_size pWrk pSync sm"
    "sos_longlong_max_to_all w target source nreduce PE_start logPE_stride PE_size pWrk pSync sm = shmem_longlong_max_to_all w target source nreduce PE_start logPE_stride PE_size pWrk pSync sm"
    "sos_longlong_p w addr value pe sm = shmem_longlong_p w addr value pe sm"
    "sos_longlong_put w dest src nelems pe sm = shmem_longlong_put w dest src nelems pe sm"
    "sos_collect32 w dest source nelems PE_start logPE_stride PE_size pSync sm = shmem_collect32 w dest source nelems PE_start logPE_stride PE_size pSync sm"
    "sos_fcollect64 w dest source nelems PE_start logPE_stride PE_size pSync sm = shmem_fcollect64 w dest source nelems PE_start logPE_stride PE_size pSync sm"
    "sos_malloc w nbytes sm = shmem_malloc w nbytes sm"
    "sos_int_fadd w dest value pe sm = shmem_int_fadd w dest value pe sm"
    "sos_char_put_signal_nbi w dest source nelems sd ss sn pe sm = shmem_char_put_signal_nbi w dest source nelems sd ss sn pe sm"
  by (simp_all add: sos_free_def shmem_free_def sos_fence_def shmem_fence_def sos_quiet_def shmem_quiet_def sos_put64_def shmem_put64_def sos_broadcast64_def shmem_broadcast64_def sos_int_get_def shmem_int_get_def sos_char_put_nbi_def shmem_char_put_nbi_def sos_int_add_def shmem_int_add_def sos_int_sum_to_all_def shmem_int_sum_to_all_def sos_longlong_sum_to_all_def shmem_longlong_sum_to_all_def sos_longlong_max_to_all_def shmem_longlong_max_to_all_def sos_longlong_p_def shmem_longlong_p_def sos_longlong_put_def shmem_longlong_put_def sos_collect32_def shmem_collect32_def sos_fcollect64_def shmem_fcollect64_def sos_malloc_def shmem_malloc_def sos_int_fadd_def shmem_int_fadd_def sos_char_put_signal_nbi_def shmem_char_put_signal_nbi_def)

section \<open>Contexts of the workers\<close>

text \<open>Which function makes a call with a context.\<close>

fun sos_ctx_function :: "nat \<Rightarrow> ctx_call \<Rightarrow> 'w sos_lib \<Rightarrow> nat worker_memory \<Rightarrow> 'w sos_module \<Rightarrow> ('w sos_module \<times> int) result" where
  "sos_ctx_function w (Ctx_getmem a b c d) lib = sos_getmem w a b c d lib"
| "sos_ctx_function w (Ctx_putmem a b c d) lib = sos_putmem w a b c d lib"
| "sos_ctx_function w (Ctx_int_put a b c d) lib = sos_int_put w a b c d lib"
| "sos_ctx_function w (Ctx_longlong_fadd a b c) lib = sos_longlong_fadd w a b c lib"
| "sos_ctx_function w (Ctx_int_swap a b c) lib = sos_int_swap w a b c lib"
| "sos_ctx_function w (Ctx_int_cswap a b c d) lib = sos_int_cswap w a b c d lib"
| "sos_ctx_function w (Ctx_long_finc a b) lib = sos_long_finc w a b lib"
| "sos_ctx_function w (Ctx_int_finc a b) lib = sos_int_finc w a b lib"

lemma sos_ctx_function_do: "sos_ctx_function w c lib = ctx_do lib w c"
  by (cases c) (simp_all add: sos_getmem_def sos_putmem_def sos_int_put_def sos_longlong_fadd_def sos_int_swap_def sos_int_cswap_def sos_long_finc_def sos_int_finc_def)

text \<open>A later memory in which the states reserved so far are as they were.\<close>

definition state_kept :: "'c worker_memory \<Rightarrow> 'c worker_memory \<Rightarrow> bool" where
  "state_kept wm wm' \<longleftrightarrow> list_all2 (\<lambda>blk blk'. length blk \<le> length blk' \<and> take (length blk) blk' = blk) (module_state wm) (module_state wm')"

lemma create_contexts_length: "create_contexts lib ds w = Inr (w', cs) \<Longrightarrow> length cs = length ds"
  by (induction ds arbitrary: w w' cs) (auto simp: res_simps split: prod.splits)

lemma post_initialize_memory:
  assumes run: "sos_post_initialize lib n g wm sm = Inr (wm1, sm1)" and dom: "\<And>t w. length (snd (snd (domain_create lib t n w))) = n"
  shows "\<exists>ds cs. wm1 = fst (hclib_add_per_worker_module_state wm 2 (init_sos_state ds cs)) \<and> length ds = n \<and> length cs = n \<and>
    domains sm1 = ds \<and> contexts sm1 = cs \<and> domain_ctx_id sm1 = worker_state_size wm"
proof -
  obtain w1 provided where i: "init_thread lib (SHMEMX_THREAD_MULTIPLE lib) (sworld sm) = (w1, provided)" by fastforce
  obtain w2 err ds where d: "domain_create lib (SHMEMX_THREAD_MULTIPLE lib) n w1 = (w2, err, ds)" by (metis prod.exhaust)
  have "length ds = n" using dom [of "SHMEMX_THREAD_MULTIPLE lib" w1] d by simp
  moreover obtain w3 cs where cc: "create_contexts lib (take n ds) w2 = Inr (w3, cs)"
    using run i d unfolding sos_post_initialize_def Let_def by (auto simp: res_simps)
  moreover obtain wm' k where a: "hclib_add_per_worker_module_state wm 2 (init_sos_state ds cs) = (wm', k)" by fastforce
  then have "wm1 = wm'" "domains sm1 = ds" "contexts sm1 = cs" "domain_ctx_id sm1 = k"
    using run i d cc unfolding sos_post_initialize_def Let_def by (auto simp: res_simps)
  moreover have "k = worker_state_size wm" using a by (simp add: hclib_add_per_worker_module_state_def Let_def)
  ultimately show ?thesis using create_contexts_length [OF cc] a by (intro exI [of _ ds] exI [of _ cs]) simp
qed

text \<open>After the initialisation, worker \<open>w\<close> finds its own domain and context at the offset of the module, also in a later memory.\<close>

lemma worker_cells:
  assumes run: "sos_post_initialize lib n g wm sm = Inr (wm1, sm1)" and dom: "\<And>t w. length (snd (snd (domain_create lib t n w))) = n"
    and wm: "length (module_state wm) = n" "\<forall>blk \<in> set (module_state wm). length blk = worker_state_size wm"
    and kept: "state_kept wm1 wm2" and w: "w < n"
  shows "w < length (module_state wm2)" "domain_ctx_id sm1 + 1 < length (module_state wm2 ! w)"
    "module_state wm2 ! w ! domain_ctx_id sm1 = Some (domains sm1 ! w)" "module_state wm2 ! w ! (domain_ctx_id sm1 + 1) = Some (contexts sm1 ! w)"
proof -
  let ?o = "worker_state_size wm"
  obtain ds cs where c: "wm1 = fst (hclib_add_per_worker_module_state wm 2 (init_sos_state ds cs))" "domains sm1 = ds" "contexts sm1 = cs"
      "domain_ctx_id sm1 = ?o" using post_initialize_memory [OF run dom] by blast
  have len: "length (module_state wm1) = n" using c(1) wm(1) by (simp add: hclib_add_per_worker_module_state_def Let_def)
  have blk: "module_state wm1 ! w = init_sos_state ds cs (grow_block (module_state wm ! w) (?o + 2)) ?o w"
    using c(1) wm(1) w by (simp add: hclib_add_per_worker_module_state_def Let_def nth_enumerate_eq)
  have l0: "length (module_state wm ! w) = ?o" using wm w by simp
  then have l1: "length (module_state wm1 ! w) = ?o + 2" by (simp add: blk init_sos_state_def grow_block_def)
  have cells: "module_state wm1 ! w ! ?o = Some (ds ! w)" "module_state wm1 ! w ! (?o + 1) = Some (cs ! w)"
    using l0 by (simp_all add: blk init_sos_state_def grow_block_def)
  have k: "length (module_state wm2) = n" "length (module_state wm1 ! w) \<le> length (module_state wm2 ! w)"
      "take (length (module_state wm1 ! w)) (module_state wm2 ! w) = module_state wm1 ! w"
    using kept len w by (auto simp: state_kept_def list_all2_conv_all_nth)
  have "module_state wm2 ! w ! j = module_state wm1 ! w ! j" if "j < ?o + 2" for j
    using that k(3) l1 by (metis nth_take)
  then show "module_state wm2 ! w ! domain_ctx_id sm1 = Some (domains sm1 ! w)" "module_state wm2 ! w ! (domain_ctx_id sm1 + 1) = Some (contexts sm1 ! w)"
    using cells c(2-4) by simp_all
  show "w < length (module_state wm2)" "domain_ctx_id sm1 + 1 < length (module_state wm2 ! w)" using k l1 w c(4) by simp_all
qed

definition retire :: "'w sos_lib \<Rightarrow> nat \<times> nat \<Rightarrow> 'w \<Rightarrow> 'w" where
  "retire lib dc w = domain_destroy lib (fst dc) (ctx_destroy lib (snd dc) (ctx_quiet lib (snd dc) w))"

lemma release_all_cells:
  assumes "length blks = length dcs" "\<And>i. i < length blks \<Longrightarrow> off + 1 < length (blks ! i) \<and> blks ! i ! off = Some (fst (dcs ! i)) \<and> blks ! i ! (off + 1) = Some (snd (dcs ! i))"
  shows "release_all lib off blks w = Inr (fold (retire lib) dcs w)"
  using assms
proof (induction blks dcs arbitrary: w rule: list_induct2)
  case (Cons b bs d ds)
  have b: "off + 1 < length b" "b ! off = Some (fst d)" "b ! (off + 1) = Some (snd d)" using Cons.prems [of 0] by auto
  have "arr_get b (int off + 1) = Inr (Some (snd d))" "arr_get b (int off) = Inr (Some (fst d))"
    using arr_get_int [of "off + 1" b] arr_get_int [of off b] b by (simp_all add: add.commute)
  then have "release_sos_state lib off b w = Inr (retire lib d w)" by (simp add: release_sos_state_def retire_def)
  moreover have "release_all lib off bs v = Inr (fold (retire lib) ds v)" for v
    using Cons.prems [of "Suc i" for i] by (intro Cons.IH) auto
  ultimately show ?case by simp
qed simp

section \<open>Properties\<close>

text \<open>
  C40: the contexts of the SOS module. If its initialisation returns, then at any later time, whatever other modules have added to the per-worker
  memory behind it, each function that uses a context makes, on worker \<open>w\<close>, exactly its call of the library with the context that
  was created for the domain of \<open>w\<close>, and returns the value of this call; so no two workers share a context, if the library makes
  different ones. The finalisation completes and destroys the context and then the domain of each worker, each once, in the order of the workers.
\<close>

theorem sos_context_correct:
  assumes run: "sos_post_initialize lib n g wm sm = Inr (wm1, sm1)" and dom: "\<And>t w. length (snd (snd (domain_create lib t n w))) = n"
    and wm: "length (module_state wm) = n" "\<forall>blk \<in> set (module_state wm). length blk = worker_state_size wm"
    and kept: "state_kept wm1 wm2" and later: "domain_ctx_id sm2 = domain_ctx_id sm1"
  shows "length (contexts sm1) = n \<and> length (domains sm1) = n \<and>
    (\<forall>w < n. sos_ctx_function w c lib wm2 sm2 =
       Inr (sm2\<lparr>sworld := fst (ctx_op lib c (contexts sm1 ! w) (sworld sm2))\<rparr>, snd (ctx_op lib c (contexts sm1 ! w) (sworld sm2)))) \<and>
    sos_finalize lib wm2 sm2 = Inr (sm2\<lparr>sworld := lib_shmem_finalize lib (fold (retire lib) (zip (domains sm1) (contexts sm1)) (sworld sm2))\<rparr>)"
proof -
  note C = worker_cells [OF run dom wm kept]
  have len: "length (contexts sm1) = n" "length (domains sm1) = n" using post_initialize_memory [OF run dom] by auto
  have "sos_ctx_function w c lib wm2 sm2 =
      Inr (sm2\<lparr>sworld := fst (ctx_op lib c (contexts sm1 ! w) (sworld sm2))\<rparr>, snd (ctx_op lib c (contexts sm1 ! w) (sworld sm2)))" if w: "w < n" for w
  proof -
    have "arr_get (module_state wm2 ! w) (int (domain_ctx_id sm1) + 1) = Inr (Some (contexts sm1 ! w))"
      using arr_get_int [OF C(2) [OF w]] C(4) [OF w] by (simp add: add.commute)
    then show ?thesis using C(1) [OF w] later
      by (simp add: sos_ctx_function_do ctx_do_def hclib_get_curr_worker_module_state_def split: prod.split)
  qed
  moreover have "length (module_state wm2) = n"
  proof -
    obtain ds cs where "wm1 = fst (hclib_add_per_worker_module_state wm 2 (init_sos_state ds cs))" using post_initialize_memory [OF run dom] by blast
    then have "length (module_state wm1) = n" using wm(1) by (simp add: hclib_add_per_worker_module_state_def Let_def)
    then show ?thesis using kept by (simp add: state_kept_def list_all2_conv_all_nth)
  qed
  then have "release_all lib (domain_ctx_id sm1) (module_state wm2) (sworld sm2) = Inr (fold (retire lib) (zip (domains sm1) (contexts sm1)) (sworld sm2))"
    using C(2-4) len by (intro release_all_cells) auto
  ultimately show ?thesis using len later by (simp add: sos_finalize_def)
qed

text \<open>A library whose state is the list of the contexts that were used.\<close>

definition sample_sos_lib :: "nat list sos_lib" where
  "sample_sos_lib = \<lparr>SHMEMX_THREAD_MULTIPLE = 3, init_thread = (\<lambda>t w. (w, t)), domain_create = (\<lambda>t n w. (w, 0, [10 ..< 10 + n])),
     ctx_create = (\<lambda>d w. (w, 0, d + 100)), ctx_quiet = (\<lambda>c w. w), ctx_destroy = (\<lambda>c w. w @ [c]), domain_destroy = (\<lambda>d w. w @ [d]),
     ctx_op = (\<lambda>c ctx w. (w @ [ctx], int ctx)), lib_shmem_finalize = (\<lambda>w. w)\<rparr>"

definition sample_sos :: "nat list sos_module" where
  "sample_sos = \<lparr>snic_locale_id = 0, snic = None, cells = Map.empty, next_cell = 0, sworld = [], domain_ctx_id = 0, domains = [], contexts = [],
     nthreads = 0, sos_pending = \<lparr>p_head = None, p_next = (\<lambda>_. None)\<rparr>, sos_ops = Map.empty, next_sos_op = 0\<rparr>"

definition sample_graph :: "(nat, nat) locality_graph" where
  "sample_graph = \<lparr>g_locales = [\<lparr>loc_id = 0, loc_type = 0, lbl = ''Interconnect'', special_type = None, metadata = None, idle_funcs = [],
     reachable = Some True, deques = []\<rparr>], g_edges = []\<rparr>"

theorem sos_context_correct_witness:
  "\<exists>wm1 sm1. sos_post_initialize sample_sos_lib 2 sample_graph \<lparr>worker_state_size = 0, module_state = [[], []]\<rparr> sample_sos = Inr (wm1, sm1) \<and>
     sos_int_swap 1 64 5 0 sample_sos_lib wm1 sm1 = Inr (sm1\<lparr>sworld := [111]\<rparr>, 111) \<and>
     sos_finalize sample_sos_lib wm1 sm1 = Inr (sm1\<lparr>sworld := [110, 10, 111, 11]\<rparr>)"
proof -
  let ?wm = "\<lparr>worker_state_size = 0, module_state = [[], [] :: nat option list]\<rparr>"
  let ?wm1 = "\<lparr>worker_state_size = 2, module_state = [[Some 10, Some 110], [Some 11, Some 111]]\<rparr> :: nat worker_memory"
  let ?sm1 = "sample_sos\<lparr>nthreads := 2, domains := [10, 11], contexts := [110, 111], domain_ctx_id := 0, snic := Some 0, sworld := []\<rparr>"
  have dom: "length (snd (snd (domain_create sample_sos_lib t 2 w))) = 2" for t w by (simp add: sample_sos_lib_def)
  have ds: "domain_create sample_sos_lib t 2 w = (w, 0, [10, 11])" for t w by (simp add: sample_sos_lib_def upt_rec)
  have cs: "create_contexts sample_sos_lib [10, 11] w = Inr (w, [110, 111])" for w by (simp add: sample_sos_lib_def)
  have wm1: "hclib_add_per_worker_module_state ?wm 2 (init_sos_state [10, 11] [110, 111]) = (?wm1, 0)"
    by (simp add: hclib_add_per_worker_module_state_def init_sos_state_def grow_block_def enumerate_Suc_eq numeral_2_eq_2)
  have nics: "hclib_get_all_locales_of_type sample_graph 0 = [0]" by (simp add: hclib_get_all_locales_of_type_def sample_graph_def)
  have "init_thread sample_sos_lib t w = (w, t)" for t w by (simp add: sample_sos_lib_def)
  then have run: "sos_post_initialize sample_sos_lib 2 sample_graph ?wm sample_sos = Inr (?wm1, ?sm1)"
    by (simp add: sos_post_initialize_def ds cs wm1 nics sample_sos_def arr_get_def del: create_contexts.simps)
  have kept: "state_kept ?wm1 ?wm1" by (simp add: state_kept_def)
  note C = sos_context_correct [OF run dom _ _ kept refl, of "Ctx_int_swap 64 5 0"]
  have "sos_int_swap 1 64 5 0 sample_sos_lib ?wm1 ?sm1 = Inr (?sm1\<lparr>sworld := [111]\<rparr>, 111)"
    "sos_finalize sample_sos_lib ?wm1 ?sm1 = Inr (?sm1\<lparr>sworld := [110, 10, 111, 11]\<rparr>)"
    using C by (simp_all add: sample_sos_lib_def retire_def numeral_2_eq_2)
  then show ?thesis using run by blast
qed

section \<open>Waiting\<close>

text \<open>
  \<^verbatim>\<open>shmem_int_wait_until\<close> of the SOS module makes a new open promise and, if nothing was pending, a poller at the interconnect locale. A walk of the poller,
  at any later time, satisfies the promise and ends the poller exactly if the variable then compares as asked.
\<close>

theorem sos_wait_until_wakes:
  assumes inv: "heap_inv n st W E" "can_spawn n st w" "next_addr st + 3 \<le> 10 ^ 9" and nic: "snic sm = Some l" "l < length (rt_pool st)"
    and args: "c \<in> {eq, ne}" "p_head (sos_pending sm) = None"
    and run: "heap_inv n st2 W2 E2" "w2 < n" "few_objects st2" "roomy st2" "hclib_future_is_satisfied st2 (next_addr st) = Inr False"
  shows "\<exists>sm1 st1. sos_int_wait_until w poller ivar c value sm st = Inr (sm1, st1, next_addr st) \<and>
    hclib_future_is_satisfied st1 (next_addr st) = Inr False \<and>
    map_option (\<lambda>tk. (fp tk, t_locale tk)) (tasks st1 (next_addr st + 1)) = Some (User poller, Some l) \<and>
    (\<exists>l2 st3. sos_round 6 eq ne mem w2 sm1 st2 = Inr (l2, p_head l2 \<noteq> None, st3) \<and>
       (if (mem ivar = value) = (c = eq) then p_head l2 = None \<and> hclib_future_is_satisfied st3 (next_addr st) = Inr True
        else p_head l2 = Some (next_sos_op sm) \<and> st3 = st2))"
proof -
  let ?p = "next_addr st" and ?op = "next_sos_op sm"
  let ?x = "\<lparr>sop_wait = \<lparr>wait_type = integer_wait, var = ivar, cmp = c, cmp_value = value\<rparr>, sop_prom = Some ?p, sop_task = None\<rparr>"
  obtain st0 where new: "hclib_promise_create st = (st0, ?p)" by (simp add: hclib_promise_create_def)
  note C = create_facts [OF new]
  have inv0: "heap_inv n st0 W E" unfolding C(2) by (rule heap_inv_create [OF inv(1)])
  have can0: "can_spawn n st0 w" using inv(2,3) C(3-8) by (simp add: can_spawn_def)
  have l0: "l < length (rt_pool st0)" "linked (p_next (sos_pending sm)) (p_head (sos_pending sm)) []" using nic(2) C(6) args(2) by simp_all
  obtain q st1 where q: "append_to_pending w ?op poller (Some l) (sos_pending sm) st0 = Inr (q, st1)" "linked (p_next q) (p_head q) [?op]"
      "\<And>p. hclib_future_is_satisfied st1 p = hclib_future_is_satisfied st0 p"
      "map_option (\<lambda>tk. (fp tk, t_locale tk, non_blocking tk)) (tasks st1 (next_addr st0)) = Some (User poller, Some l, False)"
    using append_spawns [OF inv0 can0 l0, of ?op poller] by auto
  define sm1 where "sm1 = sm\<lparr>next_sos_op := ?op + 1, sos_ops := (sos_ops sm)(?op \<mapsto> ?x), sos_pending := q\<rparr>"
  have call: "sos_int_wait_until w poller ivar c value sm st = Inr (sm1, st1, ?p)"
    using new q(1) nic(1) by (simp add: sos_int_wait_until_def append_sos_op_def sm1_def Let_def)
  let ?b = "(mem ivar = value) = (c = eq)"
  have test: "test_sos_completion eq ne mem (sop_wait ?x) = Inr ?b"
    using args(1) by (auto simp: test_sos_completion_def)
  obtain st3 where put: "hclib_promise_put w2 (Some ?p) None st2 = Inr st3" "hclib_future_is_satisfied st3 ?p = Inr True"
    using put_open [OF run] by blast
  let ?t = "\<lambda>op st. res_bind (from_ptr (sos_ops sm1 op)) (\<lambda>x. res_bind (test_sos_completion eq ne mem (sop_wait x)) (\<lambda>b. Inr (st, b)))"
  let ?c = "\<lambda>op st. res_bind (from_ptr (sos_ops sm1 op)) (\<lambda>x. complete_pending w2 (sop_prom x, sop_task x) st)"
  have "poll_list ?t ?c [?op] st2 = Inr (if ?b then [] else [?op], if ?b then st3 else st2)"
    using test put(1) by (simp add: sm1_def complete_pending_def)
  then obtain l2 where "sos_round 6 eq ne mem w2 sm1 st2 = Inr (l2, (if ?b then [] else [?op]) \<noteq> [], if ?b then st3 else st2)"
      "linked (p_next l2) (p_head l2) (if ?b then [] else [?op])"
    using poll_round_list [of "sos_pending sm1" "[?op]" ?t ?c st2] q(2) by (auto simp: sos_round_def sm1_def)
  moreover have "map_option (\<lambda>tk. (fp tk, t_locale tk)) (tasks st1 (?p + 1)) = Some (User poller, Some l)" using q(4) C(3) by auto
  ultimately show ?thesis using call put(2) q(3) C(9) by (intro exI [of _ sm1] exI [of _ st1]) auto
qed

end
