(* ===== verification/Spec2Isabelle.thy ===== *)
theory Spec2Isabelle
  imports Module_Registry C_Strings Locality_Queries Work_Stealing Memory_Tree Deque_Concurrent Forasync_Cpp Atomic_Values
    Runtime_Properties Worker_Setup System_Module Pending_Ops Loop_Futures Shmem_Locks Mpi_Module Sos_Module
begin

text \<open>
  A verification of HClib, a task-parallel runtime in C with C++ templates on top of it. The sources are under
  \<^verbatim>\<open>src/\<close>: the runtime in \<^verbatim>\<open>src/src\<close>, its public headers in \<^verbatim>\<open>src/inc\<close> and its modules in \<^verbatim>\<open>src/modules\<close>.

  \<^bold>\<open>The program.\<close> A locality graph says which places (locales) a machine has and which workers visit which of
  them, in which order. Every locale has one work-stealing deque for each worker. A task that is spawned is
  counted in the finish scope of its parent, waits on the promises it was given, and is pushed on a
  deque when all of them are satisfied. Workers pop tasks from their own deques and steal from those
  of others. A worker that waits (for the end of a finish scope, for a future, or in a yield) runs
  other tasks meanwhile, and swaps its context when it must. Memory operations, parallel loops
  and modules are built on tasks and promises.

  \<^bold>\<open>Conventions.\<close> The model is a shallow embedding: a C function is a HOL function on the state that it
  reads and writes. A call returns \<open>Inr\<close>, or \<open>Inl\<close> with the way it ends otherwise: a failed assertion, an exit code, a
  null pointer, an access out of bounds, a read of uninitialised memory, a division by zero, no end.
  Objects of the runtime are records in maps from addresses, allocated at \<open>next_addr\<close>; 32-bit counters
  wrap (\<open>wrap32\<close>). The build is the default one: assertions on; statistics, timers and verbose output off.

  \<^bold>\<open>The theories.\<close>
  \<^item> \<open>Hclib_Prelude\<close>: results, checked arrays, C arithmetic and the list lemmas that the components share.
  \<^item> \<open>C_Strings\<close>, \<open>Jsmn\<close>, \<open>Locality_Parse\<close>, \<open>Locality_Graph\<close>, \<open>Locality_Queries\<close>: \<^verbatim>\<open>jsmn/jsmn.c\<close> and \<^verbatim>\<open>hclib-locality-graph.c\<close>. The tokenizer stays
    within its array, nests its tokens properly, and its two passes agree; templates in labels are
    evaluated; a graph that is loaded is well formed and the generated one is the star; the
    breadth-first search returns a closest locale; the central place is common to all workers.
  \<^item> \<open>Task_Deque\<close>, \<open>Deque_Concurrent\<close>: \<^verbatim>\<open>hclib-deque.c\<close>, first as one thread runs it, where the ring buffer implements a list (the
    interface is the locale \<open>work_queue\<close>), then as a transition system of the owner and any number of thieves at
    the grain of memory accesses, where no task is lost or taken twice.
  \<^item> \<open>Work_Stealing\<close>: pops and steals along the paths, of \<^verbatim>\<open>hclib-locality-graph.c\<close>; a steal fails only if all deques in reach are empty.
  \<^item> \<open>Promise\<close>, \<open>Scheduler_Invariant\<close>: \<^verbatim>\<open>hclib-promise.c\<close> and the scheduling of \<^verbatim>\<open>hclib-runtime.c\<close>. A task that is not running waits on
    exactly one open promise or sits in exactly one deque, and a put moves exactly the tasks that are then ready.
  \<^item> \<open>Finish_Scopes\<close>, \<open>Task_Search\<close>: spawning, the counters of finish scopes, and the search of \<^verbatim>\<open>find_and_run_task\<close>.
  \<^item> \<open>Runtime_Machine\<close>, \<open>Runtime_Contexts\<close>, \<open>Runtime_Safety\<close>, \<open>Runtime_Properties\<close>: the workers as a machine. A context is a list of activation
    records, one for each C function that can be interrupted by a context swap; a step lets one worker
    run its top record, or lets the body of a task call the interface in any order. The invariant
    is proved by induction over the steps; it gives that the end of a finish scope waits for all
    tasks of the scope, that a task runs once and after its futures, and that no context is shared;
    and it shows an execution in which \<^verbatim>\<open>help_finish\<close> loses a scope.
  \<^item> \<open>Worker_Setup\<close>: \<^verbatim>\<open>hclib_global_init\<close> and \<^verbatim>\<open>create_hwloc_cpusets\<close>. The state at the start satisfies what the machine assumes.
  \<^item> \<open>Async_Cpp\<close>, \<open>Forasync\<close>, \<open>Forasync_Cpp\<close>: the task templates of \<^verbatim>\<open>hclib-async.h\<close> agree with the C interface; the parallel loops of
    \<^verbatim>\<open>hclib.c\<close> and \<^verbatim>\<open>hclib-forasync.h\<close> call their body once for every index vector (the locale \<open>fork_tree\<close> carries the argument
    that spawned work is conserved whatever the order of the tasks).
  \<^item> \<open>Loop_Futures\<close>: finish scopes that are ended without waiting, and the loops that return the future of such a scope. The future is
    satisfied by the last task of the scope.
  \<^item> \<open>Fptr_List\<close>, \<open>Mem_Ops\<close>, \<open>System_Module\<close>: the tables of callbacks of \<^verbatim>\<open>hclib-fptr-list.c\<close> (the locale \<open>callback_table\<close>), the memory operations of
    \<^verbatim>\<open>hclib-mem.c\<close> and the module for host memory. This theory composes them: an allocation is followed from
    the initialisation of the module to the pointer in the promise.
  \<^item> \<open>Pending_Ops\<close>: the lists of pending operations of \<^verbatim>\<open>modules/common\<close>, as a transition system of appending threads and
    polling tasks; operations are neither lost nor completed twice, and one poller is responsible.
  \<^item> \<open>Wait_Sets\<close>, \<open>Shmem_Locks\<close>: waiting for values in memory and locks, of the modules \<^verbatim>\<open>openshmem\<close> and \<^verbatim>\<open>sos\<close>. A walk of the poller triggers
    exactly the wait sets of which a comparison holds; a lock is held by one task at a time, tasks get it
    in the order of their calls, and the locks of SOS are in fact a single lock.
  \<^item> \<open>Comm_Tasks\<close>, \<open>Mpi_Module\<close>, \<open>Shmem_Module\<close>, \<open>Sos_Module\<close>: the modules \<^verbatim>\<open>mpi\<close>, \<^verbatim>\<open>openshmem\<close> and \<^verbatim>\<open>sos\<close>. The libraries are parameters. A blocking function makes
    exactly its call, as a task of its own scope, and returns what the library has returned; requests are listed with their
    promises and satisfied by the walk of the poller; a worker uses the context that was created for it.
  \<^item> \<open>Memory_Tree\<close>, \<open>Module_Registry\<close>, \<open>Atomic_Values\<close>: the tree of pinned ranges of \<^verbatim>\<open>hclib-tree.c\<close> (the locale \<open>range_set\<close>), the hooks and the state of modules
    of \<^verbatim>\<open>hclib_module.c\<close>, and the per-worker values of \<^verbatim>\<open>hclib_atomic.c\<close> and \<^verbatim>\<open>hclib_atomic.h\<close> (the locale \<open>reduction\<close>).

  \<^bold>\<open>Bounds and fuel.\<close> The theorems on the runtime hold while at most \<open>10 ^ 9\<close> objects have been
  allocated (\<open>few_objects\<close>, \<open>bounded\<close>): the counters of scopes and deques then stay within an \<^verbatim>\<open>int\<close>. The loop of a put is bounded
  by \<open>next_addr\<close>, because a wait list has no task twice, which the invariant gives. Loops of the parser
  consume their input; the recursive loops are \<open>partial_function\<close>s with a proof that they return; a walk over
  pending operations needs at most four steps for each of them.

  \<^bold>\<open>Grain.\<close> Deques and pending lists are modelled access by access under sequential consistency. In the machine of the
  workers an operation of the runtime (a spawn, a put, a pop, a steal) is one step.

  \<^bold>\<open>Not modelled.\<close> The modules for OpenSHMEM-AM, UPC++ and CUDA, which wrap libraries that the repository does not contain;
  context switching in assembly (\<^verbatim>\<open>fcontext\<close>, \<^verbatim>\<open>litectx.h\<close>), thread creation, dynamic loading and
  \<^verbatim>\<open>hclib_run_on_main_ctx\<close>; instrumentation, timers, statistics and printing; the typed wrappers of promises and futures in C++,
  which only cast; tests and tutorials.
\<close>

section \<open>Memory operations of the host module, from the call to the result\<close>

text \<open>
  C14: an allocation on the host from end to end. After the system module has been initialised, with whatever locale
  types were known before, \<^verbatim>\<open>hclib_allocate_at\<close> on a locale of one of its types returns the future of a new open promise and
  spawns a task at the locale. Whenever and by whichever worker this task is run, in a well-formed
  state with room in the deques, it satisfies that promise with a pointer to a new block of the
  requested size, or with \<^verbatim>\<open>NULL\<close> if the memory is exhausted, and leaves all other blocks as they were.
\<close>

theorem host_allocation_correct:
  fixes st st2 :: "(system_func, 'i) mem_rt"
  assumes init: "system_pre_initialize ls = (ls', ids)" "distinct (known_locale_types ls)" "system_post_initialize ids no_tables = Inr mt"
    and call: "heap_inv n st W E" "can_spawn n st w" "l < length (rt_pool st)" "ty = loc_type (rt_pool st ! l)"
      "ty < length (known_locale_types ls')" "known_locale_types ls' ! ty \<in> {''L1'', ''L2'', ''L3'', ''sysmem''}" "p = next_addr st" "0 < nbytes"
    and run: "heap_inv n st2 W2 E2" "w2 < n" "few_objects st2" "promises st2 p = Some pr" "\<not> satisfied pr" "roomy st2" "mem_ok h"
  shows "\<exists>st' job. hclib_allocate_at mt w nbytes l st = Inr (st', p) \<and> m_promise job = p \<and> spawned n E l job st' \<and>
    (\<exists>st3 h' ptr. mem_kernel system_callbacks w2 job (h, st2) = Inr (h', st3) \<and> hclib_future_get st3 p = Inr (ptr_data ptr) \<and>
       (if ptr = 0 then h' = h \<and> heap_limit h < heap_break h + nbytes
        else mem_ok h' \<and> contents h ptr = None \<and> contents h' = (contents h)(ptr \<mapsto> Some 42 # replicate (nbytes - 1) None)))"
proof -
  let ?job = "Malloc_struct nbytes l p (Some Allocation_func)"
  have tab: "fptr_wf (alloc_registrations mt)" "fptr_abs (alloc_registrations mt) ty = Some (Allocation_func, MAY_USE)"
    using system_module_registers [OF init(1,2)] init(3) call(5,6) by auto
  have "futures_ok st []" by (simp add: futures_ok_def)
  from mem_async_total [OF call(1-3) this, of "\<lambda>p. Malloc_struct nbytes l p (Some Allocation_func)"] obtain st' where
    st': "mem_async w (\<lambda>p. Malloc_struct nbytes l p (Some Allocation_func)) [] l st = Inr (st', p)" "spawned n E l ?job st'" using call(7) by auto
  have "hclib_allocate_at mt w nbytes l st = Inr (st', p)"
    unfolding hclib_allocate_at_def locale_type_at [OF call(3)] res_bind_Inr callback_lookup [OF tab(1)] using tab(2) st'(1) call(4) by simp
  moreover obtain h' ptr where a: "allocation_func nbytes l h = Inr (h', ptr)" and
    r: "if ptr = 0 then h' = h \<and> heap_limit h < heap_break h + nbytes
      else mem_ok h' \<and> contents h ptr = None \<and> contents h' = (contents h)(ptr \<mapsto> Some 42 # replicate (nbytes - 1) None)"
    using allocation_contents [OF run(7) call(8), of l] by blast
  have e: "job_effect system_callbacks st2 ?job h = Inr (h', ptr_data ptr)" using a by (simp add: system_callbacks_def)
  moreover have "\<exists>st3. mem_kernel system_callbacks w2 ?job (h, st2) = Inr (h', st3) \<and> hclib_future_get st3 p = Inr (ptr_data ptr)"
    using kernel_completes [OF run(1-3), of ?job pr system_callbacks h] run(4-6) e by auto
  moreover have "m_promise ?job = p" by simp
  ultimately show ?thesis using st'(2) r by blast
qed

theorem host_allocation_correct_witness:
  "\<exists>mt st' job st3 h' ptr. system_post_initialize \<lparr>l1_locale_id = 0, l2_locale_id = 1, l3_locale_id = 2, sysmem_locale_id = 3\<rparr> no_tables = Inr mt \<and>
     hclib_allocate_at mt 0 2 0 (idle_heap :: (system_func, nat) mem_rt) = Inr (st', 0) \<and> spawned 1 {} 0 job st' \<and>
     mem_kernel system_callbacks 0 job (sample_memory, fst (hclib_promise_create idle_heap)) = Inr (h', st3) \<and>
     hclib_future_get st3 0 = Inr (ptr_data ptr)"
proof -
  let ?ls = "\<lparr>known_locale_types = [], metadata_size_registrations = None :: nat fptr_list option, metadata_populate_registrations = None\<rparr>"
  let ?ls' = "?ls\<lparr>known_locale_types := [''L1'', ''L2'', ''L3'', ''sysmem'']\<rparr>"
  let ?ids = "\<lparr>l1_locale_id = 0, l2_locale_id = 1, l3_locale_id = 2, sysmem_locale_id = 3\<rparr>"
  let ?st = "fst (hclib_promise_create (idle_heap :: (system_func, nat) mem_rt))"
  have pre: "system_pre_initialize ?ls = (?ls', ?ids)" and d: "distinct (known_locale_types ?ls)"
    by (simp_all add: system_pre_initialize_def hclib_add_known_locale_type_def)
  obtain mt where mt: "system_post_initialize ?ids no_tables = Inr mt" using system_module_registers [OF pre d] by blast
  have st: "promises ?st 0 = Some hclib_promise_init" "\<not> satisfied (hclib_promise_init :: nat data promise)" "few_objects ?st" "roomy ?st"
    by (simp_all add: hclib_promise_create_def idle_heap_def hclib_promise_init_def few_objects_def roomy_def)
  have idle: "0 < length (rt_pool idle_heap)" "0 = loc_type (rt_pool idle_heap ! 0)" "0 = next_addr idle_heap"
    by (simp_all add: idle_heap_def)
  have ok: "mem_ok sample_memory" by (simp add: mem_ok_def sample_memory_def)
  show ?thesis
    using host_allocation_correct [OF pre d mt idle_heap_can idle(1,2) _ _ idle(3) _ heap_inv_create [OF idle_heap_can(1)] _ st(3,1,2,4) ok, of 2 0] mt
    by auto
qed

end
